(* ===== verification/Kern_Prelude.thy ===== *)
theory Kern_Prelude
  imports Main "HOL-Library.Word" "HOL-Library.Code_Target_Numeral"
begin

text \<open>
  Shared vocabulary of the development: the outcome of kernel code that may stop the
  machine, the error numbers of \<^verbatim>\<open>src/sys/include/errno.h\<close> that the modelled code
  stores in \<^verbatim>\<open>u.u_error\<close>, the wrap-around of the machine's 32-bit and 8-bit integers
  (PIC32 is a 32-bit MIPS), and the list facts that several components use.
\<close>

section \<open>Collections of simplification rules\<close>

named_theorems outcome_simps \<open>unfolding rules for outcomes of kernel code\<close>
named_theorems wrap_simps \<open>machine arithmetic that stays in range\<close>
named_theorems inv_intros \<open>invariants that operations keep\<close>

section \<open>Outcomes\<close>

text \<open>
  \<open>Panic\<close> is a call of \<^verbatim>\<open>panic()\<close>, which never returns. \<open>Fault\<close> is a step that C leaves
  undefined (a store or load through a null pointer or past the end of an array). \<open>Diverge\<close>
  is a loop that used up the bound of its model.
\<close>

datatype 'a outcome = Ret 'a | Panic string | Fault | Diverge

fun bind_outcome :: "'a outcome \<Rightarrow> ('a \<Rightarrow> 'b outcome) \<Rightarrow> 'b outcome" where
  "bind_outcome (Ret x) f = f x"
| "bind_outcome (Panic s) f = Panic s"
| "bind_outcome Fault f = Fault"
| "bind_outcome Diverge f = Diverge"

lemma bind_outcome_Ret [simp]: "bind_outcome m Ret = m"
  by (cases m) auto

lemma bind_outcome_eq_Ret [outcome_simps]:
  "bind_outcome m f = Ret y \<longleftrightarrow> (\<exists>x. m = Ret x \<and> f x = Ret y)"
  by (cases m) auto

section \<open>Error numbers\<close>

datatype errno =
    E_OK \<comment> \<open>the value 0: no error\<close>
  | EPERM | ENOENT | ESRCH | EINTR | EIO | ENXIO | E2BIG | ENOEXEC | EBADF | ECHILD
  | EAGAIN | ENOMEM | EACCES | EFAULT | ENOTBLK | EBUSY | EEXIST | EXDEV | ENODEV
  | ENOTDIR | EISDIR | EINVAL | ENFILE | EMFILE | ENOTTY | ETXTBSY | EFBIG | ENOSPC
  | ESPIPE | EROFS | EMLINK | EPIPE | EWOULDBLOCK | EOPNOTSUPP | EFTYPE | ERESTART | EJUSTRETURN

section \<open>Machine integers\<close>

text \<open>Unsigned 32-bit values (\<^verbatim>\<open>size_t\<close>, \<^verbatim>\<open>u_int\<close>) are naturals below \<open>2 ^ 32\<close>.\<close>

definition u32 :: "nat \<Rightarrow> nat" where
  "u32 n = n mod 2 ^ 32"

text \<open>Signed two's complement values of \<open>w\<close> bits are integers, wrapped by \<open>swrap w\<close>.\<close>

definition swrap :: "nat \<Rightarrow> int \<Rightarrow> int" where
  "swrap w i = (i + 2 ^ (w - 1)) mod 2 ^ w - 2 ^ (w - 1)"

abbreviation s8 :: "int \<Rightarrow> int" where "s8 \<equiv> swrap 8"
abbreviation s16 :: "int \<Rightarrow> int" where "s16 \<equiv> swrap 16"
abbreviation s32 :: "int \<Rightarrow> int" where "s32 \<equiv> swrap 32"

text \<open>Signed division and remainder in C truncate towards zero.\<close>

definition cdiv :: "int \<Rightarrow> int \<Rightarrow> int" where
  "cdiv a b = sgn a * sgn b * (\<bar>a\<bar> div \<bar>b\<bar>)"

definition cmod :: "int \<Rightarrow> int \<Rightarrow> int" where
  "cmod a b = a - b * cdiv a b"

lemma u32_less [simp]: "u32 n < 4294967296"
  by (simp add: u32_def)

lemma u32_id [simp, wrap_simps]: "n < 4294967296 \<Longrightarrow> u32 n = n"
  by (simp add: u32_def)

lemma swrap_id [wrap_simps]:
  assumes "- (2 ^ (w - 1)) \<le> i" "i < 2 ^ (w - 1)" "0 < w"
  shows "swrap w i = i"
proof -
  have "(2::int) ^ w = 2 * 2 ^ (w - 1)"
    using assms(3) by (simp add: power_eq_if)
  with assms show ?thesis by (simp add: swrap_def)
qed

lemma s8_id [wrap_simps]: "-128 \<le> i \<Longrightarrow> i < 128 \<Longrightarrow> s8 i = i"
  by (rule swrap_id) auto

lemma s16_id [wrap_simps]: "-32768 \<le> i \<Longrightarrow> i < 32768 \<Longrightarrow> s16 i = i"
  by (rule swrap_id) auto

lemma s32_id [wrap_simps]: "-2147483648 \<le> i \<Longrightarrow> i < 2147483648 \<Longrightarrow> s32 i = i"
  by (rule swrap_id) auto

lemma cdiv_nonneg [simp]: "0 \<le> a \<Longrightarrow> 0 < b \<Longrightarrow> cdiv a b = a div b"
  by (cases "a = 0") (auto simp: cdiv_def)

lemma cmod_nonneg [simp]: "0 \<le> a \<Longrightarrow> 0 < b \<Longrightarrow> cmod a b = a mod b"
  by (simp add: cmod_def minus_mult_div_eq_mod)

section \<open>Lists\<close>

lemma nth_append_here [simp]: "n = length xs \<Longrightarrow> (xs @ y # ys) ! n = y"
  by simp

lemma list_update_here [simp]: "n = length xs \<Longrightarrow> (xs @ y # ys)[n := z] = xs @ z # ys"
  by simp

lemma nth_append_next [simp]: "n = length xs \<Longrightarrow> (xs @ y # z # ys) ! Suc n = z"
  by (simp add: nth_append)

lemma list_update_next [simp]: "n = length xs \<Longrightarrow> (xs @ y # z # ys)[Suc n := v] = xs @ y # v # ys"
  by (simp add: list_update_append)

section \<open>Sequences of operations and simulation\<close>

text \<open>
  \<open>run_steps\<close> runs operations one after the other and collects their results; \<open>None\<close> is a
  step that does not return. \<open>spec_run\<close> is a run of an abstract, possibly non-deterministic
  specification that produces given results.
\<close>

fun run_steps :: "('o \<Rightarrow> 's \<Rightarrow> ('r \<times> 's) option) \<Rightarrow> 'o list \<Rightarrow> 's \<Rightarrow> ('r list \<times> 's) option" where
  "run_steps step [] s = Some ([], s)"
| "run_steps step (op # ops) s =
     Option.bind (step op s) (\<lambda>(r, s'). map_option (\<lambda>(rs, s''). (r # rs, s'')) (run_steps step ops s'))"

fun spec_run :: "('o \<Rightarrow> 'a \<Rightarrow> 'r \<Rightarrow> 'a \<Rightarrow> bool) \<Rightarrow> 'o list \<Rightarrow> 'a \<Rightarrow> 'r list \<Rightarrow> 'a \<Rightarrow> bool" where
  "spec_run spec [] a rs a' \<longleftrightarrow> rs = [] \<and> a' = a"
| "spec_run spec (op # ops) a [] a' \<longleftrightarrow> False"
| "spec_run spec (op # ops) a (r # rs) a' \<longleftrightarrow> (\<exists>b. spec op a r b \<and> spec_run spec ops b rs a')"

text \<open>A component whose every operation returns and is allowed by the specification.\<close>

locale simulation =
  fixes step :: "'o \<Rightarrow> 's \<Rightarrow> ('r \<times> 's) option"
    and rep :: "'s \<Rightarrow> 'a \<Rightarrow> bool"
    and valid :: "'o \<Rightarrow> bool"
    and spec :: "'o \<Rightarrow> 'a \<Rightarrow> 'r \<Rightarrow> 'a \<Rightarrow> bool"
  assumes step_sim: "rep s a \<Longrightarrow> valid op \<Longrightarrow>
    \<exists>r s' a'. step op s = Some (r, s') \<and> rep s' a' \<and> spec op a r a'"
begin

lemma run_refines:
  assumes "rep s a" "\<forall>op\<in>set ops. valid op"
  shows "\<exists>rs s' a'. run_steps step ops s = Some (rs, s') \<and> rep s' a' \<and> spec_run spec ops a rs a'"
  using assms
proof (induction ops arbitrary: s a)
  case (Cons op ops)
  obtain r s1 a1 where s1: "step op s = Some (r, s1)" "rep s1 a1" "spec op a r a1"
    using step_sim [OF Cons.prems(1), of op] Cons.prems(2) by auto
  obtain rs s' a' where "run_steps step ops s1 = Some (rs, s')" "rep s' a'" "spec_run spec ops a1 rs a'"
    using Cons.IH [OF s1(2)] Cons.prems(2) by auto
  then have "run_steps step (op # ops) s = Some (r # rs, s')" "spec_run spec (op # ops) a (r # rs) a'"
    using s1 by auto
  then show ?case using \<open>rep s' a'\<close> by blast
qed simp

end

end
