(* ===== verification/Rmap.thy ===== *)
theory Rmap
  imports Kern_Prelude
begin

text \<open>
  The resource maps of \<^verbatim>\<open>src/sys/kernel/subr_rmap.c\<close> (swap space is allocated from one):
  \<open>malloc\<close>, \<open>mfree\<close> and \<open>malloc3\<close> over the array of segments that \<^verbatim>\<open>struct map\<close>
  describes. Pointers into the array are indices; a load or a store past the array is
  \<open>Fault\<close>. The kernel is built without \<^verbatim>\<open>DIAGNOSTIC\<close>, so its overlap checks are not part
  of the model. \<open>m_limit\<close> is the index of \<^verbatim>\<open>m_limit\<close> relative to \<^verbatim>\<open>m_map\<close>.

  A map is well formed (\<open>rmap_ok\<close>) when its segments, up to the end mark of size 0, are
  non-empty, ascending and separated by gaps. \<open>first_fit\<close> and \<open>coalesce\<close> are the abstract
  operations on the list of segments that \<open>malloc\<close> and \<open>mfree\<close> refine, and \<open>free_space\<close>
  is the set of free addresses that both are specified on.
\<close>

section \<open>Data\<close>

record mapent =
  m_size :: nat
  m_addr :: nat

record rmap =
  m_map :: "mapent list"
  m_limit :: nat

section \<open>Operations\<close>

text \<open>The loop that moves the rest of the map to the left, up to and including the end mark.\<close>

function copy_down :: "mapent list \<Rightarrow> nat \<Rightarrow> nat \<Rightarrow> mapent list outcome" where
  "copy_down a ep bp =
     (if bp < length a then
        (if m_size (a ! bp) = 0 then Ret (a[ep := a ! bp])
         else copy_down (a[ep := a ! bp]) (Suc ep) (Suc bp))
      else Fault)"
  by pat_completeness auto
termination
  by (relation "measure (\<lambda>(a, ep, bp). length a - bp)") auto

declare copy_down.simps [simp del]

text \<open>The first-fit search of \<open>malloc\<close>.\<close>

function malloc_from :: "mapent list \<Rightarrow> nat \<Rightarrow> nat \<Rightarrow> (nat \<times> mapent list) outcome" where
  "malloc_from a bp sz =
     (if bp < length a then
        (if m_size (a ! bp) = 0 then Ret (0, a)
         else if sz \<le> m_size (a ! bp) then
           (let addr = m_addr (a ! bp);
                left = m_size (a ! bp) - sz
            in if left \<noteq> 0
               then Ret (addr, a[bp := \<lparr>m_size = left, m_addr = u32 (addr + sz)\<rparr>])
               else bind_outcome
                      (copy_down (a[bp := (a ! bp)\<lparr>m_size := left\<rparr>]) bp (Suc bp))
                      (\<lambda>a'. Ret (addr, a')))
         else malloc_from a (Suc bp) sz)
      else Fault)"
  by pat_completeness auto
termination
  by (relation "measure (\<lambda>(a, bp, sz). length a - bp)") auto

declare malloc_from.simps [simp del]

definition malloc :: "rmap \<Rightarrow> nat \<Rightarrow> (nat \<times> rmap) outcome" where
  "malloc mp sz =
     (if sz = 0 then Panic ''malloc: size = 0''
      else bind_outcome (malloc_from (m_map mp) 0 sz)
             (\<lambda>(addr, a). Ret (addr, mp\<lparr>m_map := a\<rparr>)))"

text \<open>The piece of the map that starts after \<open>addr\<close>.\<close>

function mfree_locate :: "mapent list \<Rightarrow> nat \<Rightarrow> nat \<Rightarrow> nat outcome" where
  "mfree_locate a bp addr =
     (if bp < length a then
        (if m_size (a ! bp) \<noteq> 0 \<and> m_addr (a ! bp) \<le> addr
         then mfree_locate a (Suc bp) addr else Ret bp)
      else Fault)"
  by pat_completeness auto
termination
  by (relation "measure (\<lambda>(a, bp, addr). length a - bp)") auto

declare mfree_locate.simps [simp del]

text \<open>The end mark at or after \<open>bp\<close>.\<close>

function find_end :: "mapent list \<Rightarrow> nat \<Rightarrow> nat outcome" where
  "find_end a bp =
     (if bp < length a then
        (if m_size (a ! bp) \<noteq> 0 then find_end a (Suc bp) else Ret bp)
      else Fault)"
  by pat_completeness auto
termination
  by (relation "measure (\<lambda>(a, bp). length a - bp)") auto

declare find_end.simps [simp del]

text \<open>\<^verbatim>\<open>for (ep = bp - 1; ep >= start; *bp-- = *ep--)\<close>\<close>

fun copy_up :: "mapent list \<Rightarrow> nat \<Rightarrow> nat \<Rightarrow> mapent list outcome" where
  "copy_up a start 0 = Ret a"
| "copy_up a start (Suc ep) =
     (if start \<le> ep then
        (if Suc ep < length a then copy_up (a[Suc ep := a ! ep]) start ep else Fault)
      else Ret a)"

text \<open>
  The result of \<open>mfree\<close> is the new map and whether the warning
  \<^verbatim>\<open>overflow, lost %u clicks\<close> was printed.
\<close>

definition mfree :: "rmap \<Rightarrow> nat \<Rightarrow> nat \<Rightarrow> (rmap \<times> bool) outcome" where
  "mfree mp sz addr =
     (if sz = 0 then Ret (mp, False)
      else if addr = 0 then Panic ''mfree: addr = 0''
      else bind_outcome (mfree_locate (m_map mp) 0 addr) (\<lambda>bp.
        let a = m_map mp; ep = bp - 1;
            right = (m_size (a ! bp) \<noteq> 0 \<and> m_addr (a ! bp) \<le> u32 (addr + sz))
        in if bp \<noteq> 0 \<and> addr \<le> u32 (m_addr (a ! ep) + m_size (a ! ep)) then
             (let a1 = a[ep := (a ! ep)\<lparr>m_size := u32 (m_size (a ! ep) + sz)\<rparr>]
              in if right then
                   bind_outcome
                     (copy_down
                       (a1[ep := (a1 ! ep)\<lparr>m_size := u32 (m_size (a1 ! ep) + m_size (a1 ! bp))\<rparr>])
                       (Suc ep) (Suc bp))
                     (\<lambda>a2. Ret (mp\<lparr>m_map := a2\<rparr>, False))
                 else Ret (mp\<lparr>m_map := a1\<rparr>, False))
           else if right then
             Ret (mp\<lparr>m_map := a[bp := \<lparr>m_size = u32 (m_size (a ! bp) + sz), m_addr = addr\<rparr>]\<rparr>,
                  False)
           else
             bind_outcome (find_end a bp) (\<lambda>q.
               if m_limit mp < Suc q then Ret (mp, True)
               else bind_outcome (copy_up a bp (Suc q)) (\<lambda>a1.
                 Ret (mp\<lparr>m_map := a1[bp := \<lparr>m_size = sz, m_addr = addr\<rparr>]\<rparr>, False)))))"

section \<open>Well-formed maps\<close>

abbreviation mapend :: mapent where
  "mapend \<equiv> \<lparr>m_size = 0, m_addr = 0\<rparr>"

fun wf_segs :: "nat \<Rightarrow> mapent list \<Rightarrow> bool" where
  "wf_segs lo [] = True"
| "wf_segs lo (e # es) =
     (lo < m_addr e \<and> 0 < m_size e \<and> m_addr e + m_size e < 2 ^ 32 \<and>
      wf_segs (m_addr e + m_size e) es)"

definition extent :: "nat \<Rightarrow> nat \<Rightarrow> nat set" where
  "extent addr sz = {addr ..< addr + sz}"

definition seg_space :: "mapent list \<Rightarrow> nat set" where
  "seg_space es = (\<Union>e\<in>set es. extent (m_addr e) (m_size e))"

definition segs :: "rmap \<Rightarrow> mapent list" where
  "segs mp = takeWhile (\<lambda>e. m_size e \<noteq> 0) (m_map mp)"

definition rmap_ok :: "rmap \<Rightarrow> bool" where
  "rmap_ok mp \<longleftrightarrow> wf_segs 0 (segs mp) \<and> length (segs mp) < length (m_map mp) \<and>
     m_map mp ! length (segs mp) = mapend"

definition free_space :: "rmap \<Rightarrow> nat set" where
  "free_space mp = seg_space (segs mp)"

lemma wf_segs_mono: "wf_segs lo es \<Longrightarrow> lo' \<le> lo \<Longrightarrow> wf_segs lo' es"
  by (cases es) auto

lemma wf_segs_sizes: "wf_segs lo es \<Longrightarrow> e \<in> set es \<Longrightarrow> 0 < m_size e"
  by (induction es arbitrary: lo) auto

lemma wf_segs_bounds:
  "wf_segs lo es \<Longrightarrow> e \<in> set es \<Longrightarrow> lo < m_addr e \<and> m_addr e + m_size e < 2 ^ 32"
  by (induction es arbitrary: lo) (auto dest: wf_segs_mono, fastforce)

lemma seg_space_simps [simp]:
  "seg_space [] = {}"
  "seg_space (e # es) = extent (m_addr e) (m_size e) \<union> seg_space es"
  "seg_space (es @ fs) = seg_space es \<union> seg_space fs"
  by (auto simp: seg_space_def)

lemma wf_segs_space_above: "wf_segs lo es \<Longrightarrow> x \<in> seg_space es \<Longrightarrow> lo < x"
  by (induction es arbitrary: lo) (auto simp: extent_def, fastforce)

lemma takeWhile_stop:
  "\<forall>e\<in>set es. P e \<Longrightarrow> \<not> P z \<Longrightarrow> takeWhile P (es @ z # ts) = es"
  by (induction es) auto

lemma segs_of:
  "wf_segs lo es \<Longrightarrow> m_map mp = es @ mapend # ts \<Longrightarrow> segs mp = es"
  unfolding segs_def by (auto intro!: takeWhile_stop dest: wf_segs_sizes)

lemma rmap_okI:
  "wf_segs 0 es \<Longrightarrow> m_map mp = es @ mapend # ts \<Longrightarrow> rmap_ok mp \<and> segs mp = es"
  by (auto simp: rmap_ok_def segs_of)

lemma rmap_okE:
  assumes "rmap_ok mp"
  obtains ts where "m_map mp = segs mp @ mapend # ts" "wf_segs 0 (segs mp)"
proof
  let ?n = "length (segs mp)"
  have "m_map mp = takeWhile (\<lambda>e. m_size e \<noteq> 0) (m_map mp) @ drop ?n (m_map mp)"
    by (metis append_take_drop_id segs_def takeWhile_eq_take)
  moreover have "drop ?n (m_map mp) = mapend # drop (Suc ?n) (m_map mp)"
    using assms by (metis Cons_nth_drop_Suc rmap_ok_def)
  ultimately show "m_map mp = segs mp @ mapend # drop (Suc ?n) (m_map mp)"
    by (simp add: segs_def)
  show "wf_segs 0 (segs mp)" using assms by (simp add: rmap_ok_def)
qed

section \<open>malloc\<close>

lemma copy_down_spec:
  assumes "mid \<noteq> []" "\<forall>e\<in>set rest. m_size e \<noteq> 0"
  shows "\<exists>ts'. copy_down (pre @ mid @ rest @ mapend # ts) (length pre) (length pre + length mid)
            = Ret (pre @ rest @ mapend # ts') \<and> length ts' = length mid + length ts"
  using assms
proof (induction rest arbitrary: pre mid)
  case Nil
  then obtain m ms where mid: "mid = m # ms" by (cases mid) auto
  have len: "length pre + length mid = length (pre @ m # ms)" using mid by simp
  have "copy_down (pre @ mid @ [] @ mapend # ts) (length pre) (length pre + length mid)
      = Ret (pre @ mapend # ms @ mapend # ts)"
    using mid by (subst copy_down.simps) (simp add: nth_append list_update_append)
  then show ?case using mid by auto
next
  case (Cons r rs)
  then obtain m ms where mid: "mid = m # ms" by (cases mid) auto
  have "copy_down (pre @ mid @ (r # rs) @ mapend # ts) (length pre) (length pre + length mid)
      = copy_down ((pre @ [r]) @ (ms @ [r]) @ rs @ mapend # ts) (length (pre @ [r]))
          (length (pre @ [r]) + length (ms @ [r]))"
    using mid Cons.prems
    by (subst copy_down.simps) (simp add: nth_append list_update_append)
  with Cons.IH [of "ms @ [r]" "pre @ [r]"] Cons.prems mid show ?case by auto
qed

fun first_fit :: "nat \<Rightarrow> mapent list \<Rightarrow> (nat \<times> mapent list) option" where
  "first_fit sz [] = None"
| "first_fit sz (e # es) =
     (if sz \<le> m_size e
      then Some (m_addr e,
             if m_size e = sz then es
             else \<lparr>m_size = m_size e - sz, m_addr = m_addr e + sz\<rparr> # es)
      else map_option (\<lambda>(addr, r). (addr, e # r)) (first_fit sz es))"

lemma malloc_from_spec:
  assumes "wf_segs lo es" "0 < sz"
  shows "case first_fit sz es of
      None \<Rightarrow> malloc_from (pre @ es @ mapend # ts) (length pre) sz = Ret (0, pre @ es @ mapend # ts)
    | Some (addr, es') \<Rightarrow>
        (\<exists>ts'. malloc_from (pre @ es @ mapend # ts) (length pre) sz = Ret (addr, pre @ es' @ mapend # ts')
           \<and> length es' + length ts' = length es + length ts)"
  using assms
proof (induction es arbitrary: lo pre)
  case Nil
  then show ?case by (subst malloc_from.simps) simp
next
  case (Cons e es)
  have sizes: "\<forall>x\<in>set es. m_size x \<noteq> 0"
    using Cons.prems(1) by (auto dest: wf_segs_sizes)
  show ?case
  proof (cases "sz \<le> m_size e")
    case True
    show ?thesis
    proof (cases "m_size e = sz")
      case eq: True
      obtain ts' where ts': "copy_down (pre @ [e\<lparr>m_size := 0\<rparr>] @ es @ mapend # ts) (length pre)
           (length pre + length [e\<lparr>m_size := 0\<rparr>]) = Ret (pre @ es @ mapend # ts')"
           "length ts' = Suc (length ts)"
        using copy_down_spec [of "[e\<lparr>m_size := 0\<rparr>]" es pre ts] sizes by auto
      then show ?thesis using eq True Cons.prems
        by (subst malloc_from.simps) (simp add: nth_append list_update_append)
    next
      case False
      then have "malloc_from (pre @ (e # es) @ mapend # ts) (length pre) sz =
          Ret (m_addr e, pre @ (\<lparr>m_size = m_size e - sz, m_addr = m_addr e + sz\<rparr> # es) @ mapend # ts)"
        using True Cons.prems by (subst malloc_from.simps) (simp add: Let_def)
      then show ?thesis using False True by simp
    qed
  next
    case False
    then have step: "malloc_from (pre @ (e # es) @ mapend # ts) (length pre) sz
        = malloc_from ((pre @ [e]) @ es @ mapend # ts) (length (pre @ [e])) sz"
      using Cons.prems by (subst malloc_from.simps) simp
    have IH: "case first_fit sz es of
        None \<Rightarrow> malloc_from ((pre @ [e]) @ es @ mapend # ts) (length (pre @ [e])) sz
                  = Ret (0, (pre @ [e]) @ es @ mapend # ts)
      | Some (addr, es') \<Rightarrow>
          (\<exists>ts'. malloc_from ((pre @ [e]) @ es @ mapend # ts) (length (pre @ [e])) sz
                  = Ret (addr, (pre @ [e]) @ es' @ mapend # ts')
             \<and> length es' + length ts' = length es + length ts)"
      using Cons.IH [of "m_addr e + m_size e" "pre @ [e]"] Cons.prems by simp
    show ?thesis using IH [folded step] False
      by (auto split: option.splits)
  qed
qed

lemma first_fit_None: "first_fit sz es = None \<longleftrightarrow> (\<forall>e\<in>set es. m_size e < sz)"
  by (induction es) auto

lemma first_fit_Some:
  assumes "first_fit sz es = Some (addr, es')" "wf_segs lo es" "0 < sz"
  shows "wf_segs lo es' \<and> lo < addr \<and> addr + sz < 2 ^ 32 \<and> extent addr sz \<subseteq> seg_space es \<and>
         seg_space es' = seg_space es - extent addr sz"
  using assms
proof (induction es arbitrary: lo addr es')
  case Nil
  then show ?case by simp
next
  case (Cons e es)
  have above: "\<And>x. x \<in> seg_space es \<Longrightarrow> m_addr e + m_size e < x"
    using Cons.prems(2) wf_segs_space_above by auto
  show ?case
  proof (cases "sz \<le> m_size e")
    case True
    have "wf_segs lo es" using Cons.prems(2) by (auto intro: wf_segs_mono)
    moreover have "extent (m_addr e) sz \<inter> seg_space es = {}"
      using above True by (force simp: extent_def)
    ultimately show ?thesis using Cons.prems True
      by (auto simp: extent_def split: if_splits)
  next
    case False
    then obtain r where r: "first_fit sz es = Some (addr, r)" "es' = e # r"
      using Cons.prems(1) by auto
    have "wf_segs (m_addr e + m_size e) r \<and> m_addr e + m_size e < addr \<and> addr + sz < 2 ^ 32 \<and>
       extent addr sz \<subseteq> seg_space es \<and> seg_space r = seg_space es - extent addr sz"
      using Cons.IH [OF r(1)] Cons.prems by auto
    then show ?thesis using r Cons.prems by (auto simp: extent_def)
  qed
qed

section \<open>mfree\<close>

lemma mfree_locate_spec:
  assumes "\<forall>e\<in>set ls. m_size e \<noteq> 0 \<and> m_addr e \<le> addr"
    and "m_size r = 0 \<or> addr < m_addr r"
  shows "mfree_locate (pre @ ls @ r # rs) (length pre) addr = Ret (length pre + length ls)"
  using assms
proof (induction ls arbitrary: pre)
  case Nil
  then show ?case by (subst mfree_locate.simps) auto
next
  case (Cons e es)
  have "mfree_locate (pre @ (e # es) @ r # rs) (length pre) addr
      = mfree_locate ((pre @ [e]) @ es @ r # rs) (length (pre @ [e])) addr"
    using Cons.prems by (subst mfree_locate.simps) simp
  then show ?case using Cons.IH [of "pre @ [e]"] Cons.prems by simp
qed

lemma find_end_spec:
  assumes "\<forall>e\<in>set rs. m_size e \<noteq> 0" "m_size z = 0"
  shows "find_end (pre @ rs @ z # ts) (length pre) = Ret (length pre + length rs)"
  using assms
proof (induction rs arbitrary: pre)
  case Nil
  then show ?case by (subst find_end.simps) auto
next
  case (Cons e es)
  have "find_end (pre @ (e # es) @ z # ts) (length pre)
      = find_end ((pre @ [e]) @ es @ z # ts) (length (pre @ [e]))"
    using Cons.prems by (subst find_end.simps) simp
  then show ?case using Cons.IH [of "pre @ [e]"] Cons.prems by simp
qed

lemma copy_up_spec:
  "copy_up (pre @ mid @ z # ts) (length pre) (length pre + length mid)
     = Ret (pre @ hd (mid @ [z]) # mid @ ts)"
proof (induction mid arbitrary: z ts rule: rev_induct)
  case Nil
  then show ?case by (cases "length pre") auto
next
  case (snoc x xs)
  have "copy_up (pre @ (xs @ [x]) @ z # ts) (length pre) (length pre + length (xs @ [x]))
      = copy_up (pre @ xs @ x # x # ts) (length pre) (length pre + length xs)"
    by (simp add: nth_append list_update_append)
  then show ?case using snoc.IH [of x "x # ts"] by (cases xs) simp_all
qed

fun coalesce :: "nat \<Rightarrow> nat \<Rightarrow> mapent list \<Rightarrow> mapent list" where
  "coalesce sz addr [] = [\<lparr>m_size = sz, m_addr = addr\<rparr>]"
| "coalesce sz addr (e # es) =
     (if addr < m_addr e then
        (if addr + sz = m_addr e then \<lparr>m_size = m_size e + sz, m_addr = addr\<rparr> # es
         else \<lparr>m_size = sz, m_addr = addr\<rparr> # e # es)
      else if m_addr e + m_size e = addr then
        (case es of
           [] \<Rightarrow> [\<lparr>m_size = m_size e + sz, m_addr = m_addr e\<rparr>]
         | f # fs \<Rightarrow>
             if addr + sz = m_addr f
             then \<lparr>m_size = m_size e + sz + m_size f, m_addr = m_addr e\<rparr> # fs
             else \<lparr>m_size = m_size e + sz, m_addr = m_addr e\<rparr> # es)
      else e # coalesce sz addr es)"

lemma extent_disjoint:
  assumes "0 < s" "0 < t"
  shows "extent a s \<inter> extent b t = {} \<longleftrightarrow> a + s \<le> b \<or> b + t \<le> a"
proof
  assume e: "extent a s \<inter> extent b t = {}"
  then have "max a b \<notin> extent a s \<or> max a b \<notin> extent b t" by auto
  then show "a + s \<le> b \<or> b + t \<le> a" using assms by (auto simp: extent_def max_def split: if_splits)
qed (auto simp: extent_def)

lemma extent_join: "extent a (s + t) = extent a s \<union> extent (a + s) t"
  by (auto simp: extent_def)

lemma coalesce_spec:
  assumes "wf_segs lo es" "lo < addr" "0 < sz" "addr + sz < 2 ^ 32"
    "extent addr sz \<inter> seg_space es = {}"
  shows "wf_segs lo (coalesce sz addr es) \<and>
         seg_space (coalesce sz addr es) = seg_space es \<union> extent addr sz"
  using assms
proof (induction es arbitrary: lo)
  case Nil
  then show ?case by simp
next
  case (Cons e es)
  have e: "lo < m_addr e" "0 < m_size e" "wf_segs (m_addr e + m_size e) es"
      "m_addr e + m_size e < 2 ^ 32"
    using Cons.prems(1) by auto
  have d: "addr + sz \<le> m_addr e \<or> m_addr e + m_size e \<le> addr"
    using Cons.prems(3,5) e(2) extent_disjoint [of sz "m_size e" addr "m_addr e"] by auto
  have d2: "extent addr sz \<inter> seg_space es = {}"
    using Cons.prems(5) by auto
  consider (before) "addr < m_addr e" | (abut) "m_addr e + m_size e = addr"
    | (after) "m_addr e + m_size e < addr"
    using d \<open>0 < sz\<close> by (metis le_neq_implies_less less_add_same_cancel1 less_le_trans)
  then show ?case
  proof cases
    case before
    then show ?thesis
      using Cons.prems d e extent_join [of addr sz "m_size e"]
      by (auto simp: ac_simps elim!: wf_segs_mono)
  next
    case abut
    show ?thesis
    proof (cases es)
      case Nil
      then show ?thesis
        using Cons.prems abut e extent_join [of "m_addr e" "m_size e" sz] by (auto simp: ac_simps)
    next
      case (Cons f fs)
      have f: "0 < m_size f" "addr < m_addr f" "m_addr f + m_size f < 2 ^ 32"
          "wf_segs (m_addr f + m_size f) fs"
        using e(3) Cons abut by auto
      have "addr + sz \<le> m_addr f"
        using d2 Cons f \<open>0 < sz\<close> extent_disjoint [of sz "m_size f" addr "m_addr f"] by auto
      then show ?thesis
        using Cons abut e f \<open>addr + sz < 2 ^ 32\<close> extent_join [of "m_addr e" "m_size e" sz]
          extent_join [of "m_addr e" "m_size e + sz" "m_size f"]
        by (auto simp: ac_simps elim!: wf_segs_mono)
    qed
  next
    case after
    then show ?thesis using Cons.IH [OF e(3) after] Cons.prems d2 e by auto
  qed
qed

lemma coalesce_length: "length (coalesce sz addr es) \<le> Suc (length es)"
  by (induction sz addr es rule: coalesce.induct) (auto split: list.splits)

lemma wf_segs_split:
  assumes "wf_segs lo es"
  obtains ls rs where "es = ls @ rs" "\<forall>e\<in>set ls. m_size e \<noteq> 0 \<and> m_addr e \<le> addr"
    "rs = [] \<or> addr < m_addr (hd rs)" "\<forall>e\<in>set rs. m_size e \<noteq> 0 \<and> addr < m_addr e"
  using assms
proof (induction es arbitrary: lo thesis)
  case Nil
  then show ?case by simp
next
  case (Cons e es)
  show ?case
  proof (cases "m_addr e \<le> addr")
    case True
    obtain ls rs where "es = ls @ rs" "\<forall>e\<in>set ls. m_size e \<noteq> 0 \<and> m_addr e \<le> addr"
      "rs = [] \<or> addr < m_addr (hd rs)" "\<forall>e\<in>set rs. m_size e \<noteq> 0 \<and> addr < m_addr e"
      using Cons.IH Cons.prems(2) by auto
    then show ?thesis using Cons.prems True by (intro Cons.prems(1) [of "e # ls" rs]) auto
  next
    case False
    have "\<And>x. x \<in> set es \<Longrightarrow> 0 < m_size x \<and> m_addr e + m_size e < m_addr x"
      using Cons.prems(2) wf_segs_sizes wf_segs_bounds by fastforce
    then show ?thesis using False Cons.prems(2)
      by (intro Cons.prems(1) [of "[]" "e # es"]) fastforce+
  qed
qed

lemma coalesce_append:
  assumes "\<forall>e\<in>set ls. m_addr e \<le> addr" "wf_segs lo (ls @ rs)" "rs = [] \<or> addr < m_addr (hd rs)"
    "0 < sz" "extent addr sz \<inter> seg_space (ls @ rs) = {}"
  shows "coalesce sz addr (ls @ rs) =
     (if ls \<noteq> [] \<and> m_addr (last ls) + m_size (last ls) = addr
      then butlast ls @
             (if rs \<noteq> [] \<and> addr + sz = m_addr (hd rs)
              then \<lparr>m_size = m_size (last ls) + sz + m_size (hd rs), m_addr = m_addr (last ls)\<rparr> # tl rs
              else \<lparr>m_size = m_size (last ls) + sz, m_addr = m_addr (last ls)\<rparr> # rs)
      else ls @ (if rs \<noteq> [] \<and> addr + sz = m_addr (hd rs)
              then \<lparr>m_size = m_size (hd rs) + sz, m_addr = addr\<rparr> # tl rs
              else \<lparr>m_size = sz, m_addr = addr\<rparr> # rs))"
  using assms
proof (induction ls arbitrary: lo)
  case Nil
  then show ?case by (cases rs) auto
next
  case (Cons e es)
  have dis: "addr + sz \<le> m_addr e \<or> m_addr e + m_size e \<le> addr"
    using Cons.prems extent_disjoint [of sz "m_size e" addr "m_addr e"] by auto
  then have le: "m_addr e + m_size e \<le> addr" "\<not> addr < m_addr e"
    using Cons.prems(1,4) by auto
  show ?case
  proof (cases "es = []")
    case True
    then show ?thesis using le Cons.prems by (cases rs) auto
  next
    case False
    have ne: "m_addr e + m_size e \<noteq> addr"
    proof
      assume eq: "m_addr e + m_size e = addr"
      from False obtain f fs where "es = f # fs" by (cases es) auto
      then show False using Cons.prems(1,2) eq by auto
    qed
    have "coalesce sz addr ((e # es) @ rs) = e # coalesce sz addr (es @ rs)"
      using le ne by simp
    moreover have "extent addr sz \<inter> seg_space (es @ rs) = {}" using Cons.prems(5) by auto
    note Cons.IH [OF _ _ Cons.prems(3,4) this, of "m_addr e + m_size e"]
    ultimately show ?thesis using Cons.prems(1,2) False by simp
  qed
qed

lemma malloc_refines:
  assumes "rmap_ok mp" "0 < sz"
  shows "case first_fit sz (segs mp) of
      None \<Rightarrow> malloc mp sz = Ret (0, mp)
    | Some (addr, es) \<Rightarrow>
        (\<exists>mp'. malloc mp sz = Ret (addr, mp') \<and> rmap_ok mp' \<and> segs mp' = es \<and>
           length (m_map mp') = length (m_map mp) \<and> m_limit mp' = m_limit mp)"
proof -
  obtain ts where ts: "m_map mp = segs mp @ mapend # ts" "wf_segs 0 (segs mp)"
    using assms(1) by (rule rmap_okE)
  note spec = malloc_from_spec [OF ts(2) assms(2), of "[]" ts]
  show ?thesis
  proof (cases "first_fit sz (segs mp)")
    case None
    then show ?thesis using spec ts(1) assms(2) by (simp add: malloc_def)
  next
    case (Some r)
    obtain addr es where r: "r = (addr, es)" by (cases r)
    obtain ts' where ts': "malloc_from (m_map mp) 0 sz = Ret (addr, es @ mapend # ts')"
        "length es + length ts' = length (segs mp) + length ts"
      using spec Some r ts(1) by auto
    have "wf_segs 0 es" using first_fit_Some [OF Some [unfolded r] ts(2) assms(2)] by simp
    then show ?thesis using Some r ts' ts(1) assms(2)
        rmap_okI [of es "mp\<lparr>m_map := es @ mapend # ts'\<rparr>" ts']
      by (simp add: malloc_def)
  qed
qed

lemma mapent_set_size: "e\<lparr>m_size := x\<rparr> = \<lparr>m_size = x, m_addr = m_addr e\<rparr>"
  by (cases e) simp

text \<open>The four branches of \<open>mfree\<close>, on an array split where the returned space belongs.\<close>

lemma mfree_joins_both:
  assumes "m_map mp = (ls @ [l]) @ (r # rs) @ mapend # ts"
    and "mfree_locate (m_map mp) 0 addr = Ret (Suc (length ls))"
    and "m_size r \<noteq> 0" "\<forall>e\<in>set rs. m_size e \<noteq> 0" "0 < sz" "0 < addr"
    and "m_addr l + m_size l = addr" "addr + sz = m_addr r" "m_addr r + m_size r < 2 ^ 32"
  shows "\<exists>ts'. length ts' = Suc (length ts) \<and> mfree mp sz addr =
    Ret (mp\<lparr>m_map := ls @ \<lparr>m_size = m_size l + sz + m_size r, m_addr = m_addr l\<rparr> # rs @ mapend # ts'\<rparr>, False)"
proof -
  let ?l = "\<lparr>m_size = m_size l + sz + m_size r, m_addr = m_addr l\<rparr>"
  obtain ts' where "copy_down ((ls @ [?l]) @ [r] @ rs @ mapend # ts) (length (ls @ [?l]))
       (length (ls @ [?l]) + length [r]) = Ret ((ls @ [?l]) @ rs @ mapend # ts')"
     "length ts' = Suc (length ts)"
    using copy_down_spec [of "[r]" rs "ls @ [?l]" ts] assms(4) by auto
  then show ?thesis using assms
    by (auto simp: mfree_def Let_def nth_append list_update_append mapent_set_size)
qed

lemma mfree_joins_left:
  assumes "m_map mp = (ls @ [l]) @ r # rs"
    and "mfree_locate (m_map mp) 0 addr = Ret (Suc (length ls))"
    and "m_size r = 0 \<or> addr + sz < m_addr r" "0 < sz" "0 < addr" "addr + sz < 2 ^ 32"
    and "m_addr l + m_size l = addr"
  shows "mfree mp sz addr =
    Ret (mp\<lparr>m_map := ls @ \<lparr>m_size = m_size l + sz, m_addr = m_addr l\<rparr> # r # rs\<rparr>, False)"
  using assms by (auto simp: mfree_def Let_def nth_append list_update_append)

lemma mfree_joins_right:
  assumes "m_map mp = ls @ r # rs" "mfree_locate (m_map mp) 0 addr = Ret (length ls)"
    and "m_size r \<noteq> 0" "addr + sz = m_addr r" "m_addr r + m_size r < 2 ^ 32" "0 < sz" "0 < addr"
    and "ls = [] \<or> m_addr (last ls) + m_size (last ls) < addr"
  shows "mfree mp sz addr =
    Ret (mp\<lparr>m_map := ls @ \<lparr>m_size = m_size r + sz, m_addr = addr\<rparr> # rs\<rparr>, False)"
  using assms
  by (auto simp: mfree_def Let_def nth_append list_update_append last_conv_nth)

lemma mfree_inserts:
  assumes "m_map mp = ls @ rs @ mapend # t # ts" "mfree_locate (m_map mp) 0 addr = Ret (length ls)"
    and "\<forall>e\<in>set rs. m_size e \<noteq> 0" "rs = [] \<or> addr + sz < m_addr (hd rs)"
    and "0 < sz" "0 < addr" "addr + sz < 2 ^ 32"
    and "ls = [] \<or> m_addr (last ls) + m_size (last ls) < addr"
    and "Suc (length ls + length rs) \<le> m_limit mp"
  shows "mfree mp sz addr =
    Ret (mp\<lparr>m_map := ls @ \<lparr>m_size = sz, m_addr = addr\<rparr> # rs @ mapend # ts\<rparr>, False)"
  using assms find_end_spec [of rs mapend ls "t # ts"] copy_up_spec [of ls "rs @ [mapend]" t ts]
  by (cases rs) (auto simp: mfree_def Let_def nth_append list_update_append last_conv_nth)

lemma mfree_loses:
  assumes "m_map mp = ls @ rs @ mapend # ts" "mfree_locate (m_map mp) 0 addr = Ret (length ls)"
    and "\<forall>e\<in>set rs. m_size e \<noteq> 0" "rs = [] \<or> addr + sz < m_addr (hd rs)"
    and "0 < sz" "0 < addr" "addr + sz < 2 ^ 32"
    and "ls = [] \<or> m_addr (last ls) + m_size (last ls) < addr"
    and "m_limit mp < Suc (length ls + length rs)"
  shows "mfree mp sz addr = Ret (mp, True)"
  using assms find_end_spec [of rs mapend ls ts]
  by (cases rs) (auto simp: mfree_def Let_def nth_append last_conv_nth)

lemma mfree_split:
  assumes ok: "rmap_ok mp" and sz: "0 < sz" and dis: "extent addr sz \<inter> free_space mp = {}"
  obtains ls rs ts where "segs mp = ls @ rs" "m_map mp = ls @ rs @ mapend # ts"
    "mfree_locate (m_map mp) 0 addr = Ret (length ls)"
    "\<forall>e\<in>set ls. m_size e \<noteq> 0 \<and> m_addr e \<le> addr"
    "\<forall>e\<in>set rs. m_size e \<noteq> 0 \<and> addr + sz \<le> m_addr e \<and> m_addr e + m_size e < 2 ^ 32"
    "ls = [] \<or> m_addr (last ls) + m_size (last ls) \<le> addr"
proof -
  obtain ts where ts: "m_map mp = segs mp @ mapend # ts" and wf: "wf_segs 0 (segs mp)"
    using ok by (rule rmap_okE)
  obtain ls rs where ls: "segs mp = ls @ rs" "\<forall>e\<in>set ls. m_size e \<noteq> 0 \<and> m_addr e \<le> addr"
    and rs: "rs = [] \<or> addr < m_addr (hd rs)" "\<forall>e\<in>set rs. m_size e \<noteq> 0 \<and> addr < m_addr e"
    using wf_segs_split [OF wf, of addr] by blast
  have apart: "addr + sz \<le> m_addr e \<or> m_addr e + m_size e \<le> addr" if "e \<in> set (segs mp)" for e
  proof -
    have "extent addr sz \<inter> extent (m_addr e) (m_size e) = {}"
      using dis that by (auto simp: free_space_def seg_space_def)
    then show ?thesis using extent_disjoint [OF sz] wf_segs_sizes [OF wf that] by blast
  qed
  show thesis
  proof (rule that [OF ls(1)])
    show "m_map mp = ls @ rs @ mapend # ts" using ts ls(1) by simp
    show "mfree_locate (m_map mp) 0 addr = Ret (length ls)"
      using mfree_locate_spec [of ls addr "hd (rs @ [mapend])" "[]" "tl (rs @ [mapend]) @ ts"] ls ts rs
      by (cases rs) auto
    show "\<forall>e\<in>set rs. m_size e \<noteq> 0 \<and> addr + sz \<le> m_addr e \<and> m_addr e + m_size e < 2 ^ 32"
      using apart rs(2) ls(1) wf_segs_bounds [OF wf] by fastforce
    show "ls = [] \<or> m_addr (last ls) + m_size (last ls) \<le> addr"
      using apart [of "last ls"] ls sz
      by (cases "ls = []") (auto dest!: bspec [of _ _ "last ls"])
  qed (rule ls(2))
qed

lemma mfree_array:
  assumes ok: "rmap_ok mp" and sz: "0 < sz" and addr: "0 < addr" "addr + sz < 2 ^ 32"
    and dis: "extent addr sz \<inter> free_space mp = {}"
    and lim: "m_limit mp < length (m_map mp)"
  shows "if m_limit mp < length (coalesce sz addr (segs mp)) \<and>
            length (segs mp) < length (coalesce sz addr (segs mp))
         then mfree mp sz addr = Ret (mp, True)
         else \<exists>ts. mfree mp sz addr = Ret (mp\<lparr>m_map := coalesce sz addr (segs mp) @ mapend # ts\<rparr>, False) \<and>
                 Suc (length (coalesce sz addr (segs mp)) + length ts) = length (m_map mp)"
proof -
  obtain ls rs ts where ls: "segs mp = ls @ rs" and A: "m_map mp = ls @ rs @ mapend # ts"
    and loc: "mfree_locate (m_map mp) 0 addr = Ret (length ls)"
    and lsa: "\<forall>e\<in>set ls. m_size e \<noteq> 0 \<and> m_addr e \<le> addr"
    and rsa: "\<forall>e\<in>set rs. m_size e \<noteq> 0 \<and> addr + sz \<le> m_addr e \<and> m_addr e + m_size e < 2 ^ 32"
    and lend: "ls = [] \<or> m_addr (last ls) + m_size (last ls) \<le> addr"
    by (rule mfree_split [OF ok sz dis])
  have wf: "wf_segs 0 (ls @ rs)" using ok ls by (simp add: rmap_ok_def)
  have rs1: "rs = [] \<or> addr < m_addr (hd rs)" using rsa sz by (cases rs) auto
  have "extent addr sz \<inter> seg_space (ls @ rs) = {}" using dis ls(1) by (simp add: free_space_def)
  note co = coalesce_append [OF _ wf rs1 sz this, folded ls]
  have lend: "ls = [] \<or> m_addr (last ls) + m_size (last ls) < addr \<or>
      (\<exists>ls' l. ls = ls' @ [l] \<and> m_addr l + m_size l = addr)"
    using lend by (cases ls rule: rev_cases) (auto simp: le_less)
  have rend: "rs = [] \<or> addr + sz < m_addr (hd rs) \<or> (\<exists>r rs'. rs = r # rs' \<and> addr + sz = m_addr r)"
    using rsa by (cases rs) (auto simp: le_less)
  consider (both) ls' l r rs' where "ls = ls' @ [l]" "m_addr l + m_size l = addr"
        "rs = r # rs'" "addr + sz = m_addr r"
    | (left) ls' l where "ls = ls' @ [l]" "m_addr l + m_size l = addr"
        "rs = [] \<or> addr + sz < m_addr (hd rs)"
    | (right) r rs' where "ls = [] \<or> m_addr (last ls) + m_size (last ls) < addr"
        "rs = r # rs'" "addr + sz = m_addr r"
    | (none) "ls = [] \<or> m_addr (last ls) + m_size (last ls) < addr"
        "rs = [] \<or> addr + sz < m_addr (hd rs)"
    using lend rend by blast
  then show ?thesis
  proof cases
    case both
    then show ?thesis
      using mfree_joins_both [of mp ls' l r rs' ts addr sz] A loc rsa sz addr co lsa ls by auto
  next
    case left
    have c: "coalesce sz addr (segs mp) = ls' @ \<lparr>m_size = m_size l + sz, m_addr = m_addr l\<rparr> # rs"
      using co left lsa by auto
    have "mfree mp sz addr = Ret (mp\<lparr>m_map := coalesce sz addr (segs mp) @ mapend # ts\<rparr>, False)"
      unfolding c
      using mfree_joins_left [of mp ls' l "hd (rs @ [mapend])" "tl (rs @ [mapend]) @ ts" addr sz]
        left A loc sz addr by (cases rs) auto
    then show ?thesis using c A ls left by auto
  next
    case right
    have c: "coalesce sz addr (segs mp) = ls @ \<lparr>m_size = m_size r + sz, m_addr = addr\<rparr> # rs'"
      using co right lsa by auto
    have "mfree mp sz addr = Ret (mp\<lparr>m_map := coalesce sz addr (segs mp) @ mapend # ts\<rparr>, False)"
      unfolding c
      using mfree_joins_right [of mp ls r "rs' @ mapend # ts" addr sz] right A loc sz addr rsa by simp
    then show ?thesis using c A ls right by auto
  next
    case none
    have c: "coalesce sz addr (segs mp) = ls @ \<lparr>m_size = sz, m_addr = addr\<rparr> # rs"
      using co none lsa by auto
    have rsn: "\<forall>e\<in>set rs. m_size e \<noteq> 0" using rsa by blast
    show ?thesis
    proof (cases "m_limit mp < Suc (length ls + length rs)")
      case True
      then show ?thesis using mfree_loses [OF A loc rsn none(2) sz addr none(1)] c ls by auto
    next
      case False
      then obtain t ts' where t: "ts = t # ts'" using lim A by (cases ts) auto
      show ?thesis using mfree_inserts [OF A [unfolded t] loc rsn none(2) sz addr none(1)] False c ls A t
        by auto
    qed
  qed
qed

section \<open>Correctness\<close>

lemma free_space_bounds:
  assumes "rmap_ok mp" "x \<in> free_space mp"
  shows "0 < x" "Suc x < 2 ^ 32"
proof -
  obtain e where "e \<in> set (segs mp)" "m_addr e \<le> x" "x < m_addr e + m_size e"
    using assms(2) by (auto simp: free_space_def seg_space_def extent_def)
  moreover have "wf_segs 0 (segs mp)" using assms(1) by (simp add: rmap_ok_def)
  ultimately show "0 < x" "Suc x < 2 ^ 32"
    using wf_segs_bounds [of 0 "segs mp" e] by auto
qed

lemma malloc_cases:
  assumes "rmap_ok mp" "0 < sz"
  shows "(malloc mp sz = Ret (0, mp) \<and> (\<forall>e\<in>set (segs mp). m_size e < sz)) \<or>
    (\<exists>addr mp'. malloc mp sz = Ret (addr, mp') \<and> rmap_ok mp' \<and> 0 < addr \<and>
       m_limit mp' = m_limit mp \<and> length (m_map mp') = length (m_map mp) \<and>
       extent addr sz \<subseteq> free_space mp \<and> free_space mp' = free_space mp - extent addr sz)"
proof (cases "first_fit sz (segs mp)")
  case None
  then show ?thesis using malloc_refines [OF assms] first_fit_None [of sz "segs mp"] by auto
next
  case (Some r)
  obtain addr es where r: "r = (addr, es)" by (cases r)
  have "wf_segs 0 (segs mp)" using assms(1) by (simp add: rmap_ok_def)
  from first_fit_Some [OF Some [unfolded r] this assms(2)] malloc_refines [OF assms] Some r
  show ?thesis by (auto simp: free_space_def)
qed

lemma mfree_cases:
  assumes "rmap_ok mp" "0 < sz" "0 < addr" "addr + sz < 2 ^ 32"
    "extent addr sz \<inter> free_space mp = {}" "m_limit mp < length (m_map mp)"
  shows "\<exists>mp' lost. mfree mp sz addr = Ret (mp', lost) \<and> rmap_ok mp' \<and>
     m_limit mp' = m_limit mp \<and> length (m_map mp') = length (m_map mp) \<and>
     (lost \<longrightarrow> mp' = mp \<and> m_limit mp \<le> length (segs mp)) \<and>
     (\<not> lost \<longrightarrow> segs mp' = coalesce sz addr (segs mp) \<and>
        free_space mp' = free_space mp \<union> extent addr sz)"
proof -
  let ?c = "coalesce sz addr (segs mp)"
  have wf: "wf_segs 0 (segs mp)" using assms(1) by (simp add: rmap_ok_def)
  have c: "wf_segs 0 ?c" "seg_space ?c = seg_space (segs mp) \<union> extent addr sz"
    using coalesce_spec [OF wf assms(3,2,4)] assms(5) by (auto simp: free_space_def)
  have len: "length ?c \<le> Suc (length (segs mp))"
    by (rule coalesce_length)
  show ?thesis
  proof (cases "m_limit mp < length ?c \<and> length (segs mp) < length ?c")
    case True
    then show ?thesis using mfree_array [OF assms] len assms(1) by auto
  next
    case False
    then obtain ts where "mfree mp sz addr = Ret (mp\<lparr>m_map := ?c @ mapend # ts\<rparr>, False)"
      "Suc (length ?c + length ts) = length (m_map mp)"
      using mfree_array [OF assms] by (auto split: if_splits)
    then show ?thesis
      using rmap_okI [OF c(1), of "mp\<lparr>m_map := ?c @ mapend # ts\<rparr>" ts] c(2)
      by (auto simp: free_space_def)
  qed
qed

text \<open>Well-formed lists of segments with the same addresses are equal.\<close>

lemma seg_space_first:
  assumes "wf_segs lo (e # es)"
  shows "m_addr e \<in> seg_space (e # es)" "\<forall>x\<in>seg_space (e # es). m_addr e \<le> x"
    "m_addr e + m_size e \<notin> seg_space (e # es)"
    "\<forall>x. m_addr e \<le> x \<and> x < m_addr e + m_size e \<longrightarrow> x \<in> seg_space (e # es)"
  using assms by (force simp: extent_def dest: wf_segs_space_above)+

lemma wf_segs_head_eq:
  assumes "wf_segs lo (e # es)" "wf_segs lo' (f # fs)" "seg_space (e # es) = seg_space (f # fs)"
  shows "e = f"
proof -
  have a: "m_addr e = m_addr f"
    using seg_space_first(1,2) [OF assms(1)] seg_space_first(1,2) [OF assms(2)]
    unfolding assms(3) by (meson antisym)
  have "m_size e = m_size f"
  proof (rule ccontr)
    assume "m_size e \<noteq> m_size f"
    then have "m_size e < m_size f \<or> m_size f < m_size e" by linarith
    then show False
      using seg_space_first(3,4) [OF assms(1)] seg_space_first(3,4) [OF assms(2)] a
      unfolding assms(3) by (metis add_less_cancel_left le_add1)
  qed
  with a show ?thesis by (auto intro: mapent.equality)
qed

lemma seg_space_rest:
  assumes "wf_segs (m_addr e + m_size e) es"
  shows "seg_space es = seg_space (e # es) - extent (m_addr e) (m_size e)"
  using wf_segs_space_above [OF assms] by (force simp: extent_def)

lemma wf_segs_unique_list:
  "wf_segs lo es \<Longrightarrow> wf_segs lo' fs \<Longrightarrow> seg_space es = seg_space fs \<Longrightarrow> es = fs"
proof (induction es arbitrary: lo lo' fs)
  case Nil
  then show ?case by (cases fs) (auto simp: extent_def)
next
  case (Cons e es)
  then obtain f fs' where fs: "fs = f # fs'"
    using seg_space_first(1) [OF Cons.prems(1)] by (cases fs) auto
  have ef: "e = f" using wf_segs_head_eq Cons.prems fs by blast
  have wf: "wf_segs (m_addr e + m_size e) es" "wf_segs (m_addr e + m_size e) fs'"
    using Cons.prems fs ef by auto
  have "seg_space es = seg_space fs'"
    using seg_space_rest [OF wf(1)] seg_space_rest [OF wf(2)] Cons.prems(3) fs ef by simp
  then show ?case using Cons.IH wf fs ef by blast
qed

text \<open>
  C12. \<open>malloc\<close> on a well-formed map never faults: either no segment is large enough, it
  returns 0 and the map is unchanged, or it returns the non-zero start of \<open>sz\<close> consecutive
  free addresses, removes exactly these from the free space and keeps the map well formed.
\<close>

theorem malloc_correct:
  assumes "rmap_ok mp" "0 < sz"
  shows "(malloc mp sz = Ret (0, mp) \<and> (\<forall>e\<in>set (segs mp). m_size e < sz)) \<or>
    (\<exists>addr mp'. malloc mp sz = Ret (addr, mp') \<and> rmap_ok mp' \<and> 0 < addr \<and>
       m_limit mp' = m_limit mp \<and> length (m_map mp') = length (m_map mp) \<and>
       extent addr sz \<subseteq> free_space mp \<and> free_space mp' = free_space mp - extent addr sz)"
  using assms by (rule malloc_cases)

theorem malloc_correct_witness:
  "let mp = \<lparr>m_map = [\<lparr>m_size = 3, m_addr = 10\<rparr>, \<lparr>m_size = 4, m_addr = 20\<rparr>, mapend], m_limit = 2\<rparr>
   in \<exists>mp'. malloc mp 4 = Ret (20, mp') \<and> rmap_ok mp' \<and>
        free_space mp' = free_space mp - extent 20 4"
proof -
  let ?mp = "\<lparr>m_map = [\<lparr>m_size = 3, m_addr = 10\<rparr>, \<lparr>m_size = 4, m_addr = 20\<rparr>, mapend], m_limit = 2\<rparr>"
  let ?mp' = "\<lparr>m_map = [\<lparr>m_size = 3, m_addr = 10\<rparr>, mapend, mapend], m_limit = 2\<rparr>"
  have ok: "rmap_ok ?mp" by (simp add: rmap_ok_def segs_def)
  have run: "malloc ?mp 4 = Ret (20, ?mp')" by code_simp
  have "rmap_ok ?mp' \<and> free_space ?mp' = free_space ?mp - extent 20 4"
    using malloc_correct [OF ok, of 4] unfolding run by simp
  then show ?thesis unfolding Let_def run by blast
qed

text \<open>
  C13. \<open>mfree\<close> of an area disjoint from the free space of a well-formed map, with
  \<^verbatim>\<open>m_limit\<close> the last slot as \<^verbatim>\<open>map.h\<close> documents, never faults and keeps the map well
  formed. Either it adds exactly the area to the free space, or it prints the overflow
  warning, the map is unchanged and all slots were taken.
\<close>

theorem mfree_correct:
  assumes "rmap_ok mp" "0 < sz" "0 < addr" "addr + sz < 2 ^ 32"
    "extent addr sz \<inter> free_space mp = {}" "m_limit mp < length (m_map mp)"
  shows "\<exists>mp' lost. mfree mp sz addr = Ret (mp', lost) \<and> rmap_ok mp' \<and>
     m_limit mp' = m_limit mp \<and> length (m_map mp') = length (m_map mp) \<and>
     (if lost then mp' = mp \<and> m_limit mp \<le> length (segs mp)
      else free_space mp' = free_space mp \<union> extent addr sz)"
proof -
  obtain mp' lost where "mfree mp sz addr = Ret (mp', lost)" "rmap_ok mp'" "m_limit mp' = m_limit mp"
    "length (m_map mp') = length (m_map mp)" "lost \<longrightarrow> mp' = mp \<and> m_limit mp \<le> length (segs mp)"
    "\<not> lost \<longrightarrow> free_space mp' = free_space mp \<union> extent addr sz"
    using mfree_cases [OF assms] by blast
  then show ?thesis by (intro exI [of _ mp'] exI [of _ lost]) simp
qed

theorem mfree_correct_witness:
  "let mp = \<lparr>m_map = [\<lparr>m_size = 3, m_addr = 10\<rparr>, \<lparr>m_size = 4, m_addr = 20\<rparr>, mapend], m_limit = 2\<rparr>
   in \<exists>mp'. mfree mp 7 13 = Ret (mp', False) \<and> rmap_ok mp' \<and>
        free_space mp' = free_space mp \<union> extent 13 7"
proof -
  let ?mp = "\<lparr>m_map = [\<lparr>m_size = 3, m_addr = 10\<rparr>, \<lparr>m_size = 4, m_addr = 20\<rparr>, mapend], m_limit = 2\<rparr>"
  have ok: "rmap_ok ?mp" by (simp add: rmap_ok_def segs_def)
  have dis: "extent 13 7 \<inter> free_space ?mp = {}"
    by (simp add: segs_def free_space_def extent_disjoint Int_Un_distrib)
  have run: "mfree ?mp 7 13 =
      Ret (\<lparr>m_map = [\<lparr>m_size = 14, m_addr = 10\<rparr>, mapend, mapend], m_limit = 2\<rparr>, False)"
    by code_simp
  have "\<exists>mp' lost. mfree ?mp 7 13 = Ret (mp', lost) \<and> rmap_ok mp' \<and> m_limit mp' = m_limit ?mp \<and>
      length (m_map mp') = length (m_map ?mp) \<and>
      (if lost then mp' = ?mp \<and> m_limit ?mp \<le> length (segs ?mp)
       else free_space mp' = free_space ?mp \<union> extent 13 7)"
    by (rule mfree_correct [OF ok _ _ _ dis]) simp_all
  then show ?thesis unfolding Let_def run by (elim exE) simp
qed

text \<open>
  C32. Freeing what \<open>malloc\<close> has just returned gives back the same list of segments:
  allocation and release leave no fragmentation behind.
\<close>

theorem malloc_mfree_restores:
  assumes "rmap_ok mp" "0 < sz" "length (segs mp) \<le> m_limit mp" "m_limit mp < length (m_map mp)"
    "malloc mp sz = Ret (addr, mp')" "addr \<noteq> 0"
  shows "\<exists>mp''. mfree mp' sz addr = Ret (mp'', False) \<and> segs mp'' = segs mp \<and> rmap_ok mp''"
proof -
  have m: "rmap_ok mp'" "0 < addr" "m_limit mp' = m_limit mp" "length (m_map mp') = length (m_map mp)"
    and sub: "extent addr sz \<subseteq> free_space mp" and fs: "free_space mp' = free_space mp - extent addr sz"
    using malloc_cases [OF assms(1,2)] assms(5,6) by auto
  have "addr + sz - 1 \<in> free_space mp" using sub assms(2) by (auto simp: extent_def)
  then have top: "addr + sz < 2 ^ 32" using free_space_bounds(2) [OF assms(1)] assms(2) by fastforce
  have "extent addr sz \<inter> free_space mp' = {}" "m_limit mp' < length (m_map mp')"
    using fs m assms(4) by auto
  note free = mfree_array [OF m(1) assms(2) m(2) top this]
  let ?c = "coalesce sz addr (segs mp')"
  have wf: "wf_segs 0 (segs mp)" "wf_segs 0 (segs mp')"
    using assms(1) m(1) by (simp_all add: rmap_ok_def)
  have c: "wf_segs 0 ?c" "seg_space ?c = seg_space (segs mp)"
    using coalesce_spec [OF wf(2) m(2) assms(2) top] fs sub by (auto simp: free_space_def)
  then have eq: "?c = segs mp" using wf_segs_unique_list wf by blast
  then obtain ts where "mfree mp' sz addr = Ret (mp'\<lparr>m_map := segs mp @ mapend # ts\<rparr>, False)"
    using free m assms(3) by (auto split: if_splits)
  then show ?thesis using rmap_okI [OF wf(1), of "mp'\<lparr>m_map := segs mp @ mapend # ts\<rparr>" ts] by auto
qed

theorem malloc_mfree_restores_witness:
  "let mp = \<lparr>m_map = [\<lparr>m_size = 3, m_addr = 10\<rparr>, \<lparr>m_size = 4, m_addr = 20\<rparr>, mapend], m_limit = 2\<rparr>;
       mp' = \<lparr>m_map = [\<lparr>m_size = 3, m_addr = 10\<rparr>, mapend, mapend], m_limit = 2\<rparr>
   in malloc mp 4 = Ret (20, mp') \<and>
      (\<exists>mp''. mfree mp' 4 20 = Ret (mp'', False) \<and> segs mp'' = segs mp \<and> rmap_ok mp'')"
proof -
  let ?mp = "\<lparr>m_map = [\<lparr>m_size = 3, m_addr = 10\<rparr>, \<lparr>m_size = 4, m_addr = 20\<rparr>, mapend], m_limit = 2\<rparr>"
  let ?mp' = "\<lparr>m_map = [\<lparr>m_size = 3, m_addr = 10\<rparr>, mapend, mapend], m_limit = 2\<rparr>"
  have m: "malloc ?mp 4 = Ret (20, ?mp')"
    by code_simp
  have "\<exists>mp''. mfree ?mp' 4 20 = Ret (mp'', False) \<and> segs mp'' = segs ?mp \<and> rmap_ok mp''"
    by (rule malloc_mfree_restores [of ?mp 4 20 ?mp', OF _ _ _ _ m]) (simp_all add: rmap_ok_def segs_def)
  with m show ?thesis unfolding Let_def by blast
qed

end
