(* ===== verification/Rmap_Malloc3.thy ===== *)
theory Rmap_Malloc3
  imports Rmap
begin

text \<open>
  The allocation of the three segments of a process (\<^verbatim>\<open>malloc3\<close> of
  \<^verbatim>\<open>src/sys/kernel/subr_rmap.c\<close>), the initial swap map of \<^verbatim>\<open>src/sys/pic32/machdep.c\<close>,
  and the interface that a resource map offers to its clients: areas handed out are
  disjoint from each other and from the free space until they are released.
\<close>

section \<open>malloc3\<close>

text \<open>
  The loop variables: the entries of the map, \<^verbatim>\<open>madd[3]\<close> and \<^verbatim>\<open>remap\<close> as indices
  (\<open>None\<close> is the null pointer), and \<^verbatim>\<open>found\<close>.
\<close>

record m3state =
  m3_map :: "mapent list"
  m3_madd :: "nat option list"
  m3_remap :: "nat option"
  m3_found :: nat

definition m3_take :: "nat list \<Rightarrow> nat \<Rightarrow> nat \<Rightarrow> m3state \<Rightarrow> m3state" where
  "m3_take sizes bp next st =
     (let a = (m3_map st)[bp := (m3_map st ! bp)\<lparr>m_size := m_size (m3_map st ! bp) - sizes ! next\<rparr>]
      in \<lparr>m3_map = a, m3_madd = (m3_madd st)[next := Some bp],
          m3_remap = (if m_size (a ! bp) = 0 \<and> m3_remap st = None then Some bp else m3_remap st),
          m3_found = Suc (m3_found st)\<rparr>)"

text \<open>The inner loop over the three requests; \<open>True\<close> is the jump to \<open>resolve\<close>.\<close>

function m3_requests :: "nat list \<Rightarrow> nat \<Rightarrow> nat \<Rightarrow> m3state \<Rightarrow> bool \<times> m3state" where
  "m3_requests sizes bp next st =
     (if next < 3 then
        (if m3_madd st ! next = None \<and> sizes ! next \<le> m_size (m3_map st ! bp) then
           (let st' = m3_take sizes bp next st
            in if m3_found st' = 3 then (True, st') else m3_requests sizes bp (Suc next) st')
         else m3_requests sizes bp (Suc next) st)
      else (False, st))"
  by pat_completeness auto
termination
  by (relation "measure (\<lambda>(sizes, bp, next, st). 3 - next)") auto

declare m3_requests.simps [simp del]

lemma m3_requests_length [simp]:
  "length (m3_map (snd (m3_requests sizes bp next st))) = length (m3_map st)"
proof (induction sizes bp "next" st rule: m3_requests.induct)
  case (1 sizes bp "next" st)
  then show ?case
    by (subst m3_requests.simps) (auto simp: Let_def m3_take_def)
qed

function m3_scan :: "nat list \<Rightarrow> nat \<Rightarrow> m3state \<Rightarrow> (bool \<times> m3state) outcome" where
  "m3_scan sizes bp st =
     (if bp < length (m3_map st) then
        (if m_size (m3_map st ! bp) = 0 then Ret (False, st)
         else let r = m3_requests sizes bp 0 st
              in if fst r then Ret r else m3_scan sizes (Suc bp) (snd r))
      else Fault)"
  by pat_completeness auto
termination
  by (relation "measure (\<lambda>(sizes, bp, st). length (m3_map st) - bp)") auto

declare m3_scan.simps [simp del]

text \<open>Restore the old sizes.\<close>

fun m3_restore :: "nat list \<Rightarrow> nat option list \<Rightarrow> mapent list \<Rightarrow> mapent list" where
  "m3_restore (sz # sizes) (Some i # madd) a =
     m3_restore sizes madd (a[i := (a ! i)\<lparr>m_size := u32 (m_size (a ! i) + sz)\<rparr>])"
| "m3_restore (sz # sizes) (None # madd) a = m3_restore sizes madd a"
| "m3_restore sizes madd a = a"

text \<open>Got it all: update the addresses; the allocated addresses in the order of the requests.\<close>

fun m3_resolve :: "nat list \<Rightarrow> nat option list \<Rightarrow> mapent list \<Rightarrow> nat list \<times> mapent list" where
  "m3_resolve (sz # sizes) (Some i # madd) a =
     (let r = m3_resolve sizes madd (a[i := (a ! i)\<lparr>m_addr := u32 (m_addr (a ! i) + sz)\<rparr>])
      in (m_addr (a ! i) # fst r, snd r))"
| "m3_resolve sizes madd a = ([], a)"

text \<open>Remove the entries of size 0; an address of 0 ends the map.\<close>

function m3_compact :: "mapent list \<Rightarrow> nat \<Rightarrow> nat \<Rightarrow> mapent list outcome" where
  "m3_compact a remap bp =
     (if bp < length a then
        (if m_size (a ! bp) \<noteq> 0 \<or> m_addr (a ! bp) = 0 then
           (if m_addr (a ! bp) = 0 then Ret (a[remap := a ! bp])
            else m3_compact (a[remap := a ! bp]) (Suc remap) (Suc bp))
         else m3_compact a remap (Suc bp))
      else Fault)"
  by pat_completeness auto
termination
  by (relation "measure (\<lambda>(a, remap, bp). length a - bp)") auto

declare m3_compact.simps [simp del]

text \<open>The result is the address of the u-area (0 on failure), the array \<open>a\<close> and the map.\<close>

definition malloc3 :: "rmap \<Rightarrow> nat \<Rightarrow> nat \<Rightarrow> nat \<Rightarrow> (nat \<times> nat list \<times> rmap) outcome" where
  "malloc3 mp d_size s_size u_size =
     (let sizes = [d_size, s_size, u_size];
          st0 = \<lparr>m3_map = m_map mp, m3_madd = [None, None, None], m3_remap = None, m3_found = 0\<rparr>
      in bind_outcome (m3_scan sizes 0 st0) (\<lambda>(resolve, st).
           if resolve then
             (let r = m3_resolve sizes (m3_madd st) (m3_map st)
              in bind_outcome
                   (case m3_remap st of
                      None \<Rightarrow> Ret (snd r)
                    | Some remap \<Rightarrow> m3_compact (snd r) remap (Suc remap))
                   (\<lambda>a'. Ret (fst r ! 2, fst r, mp\<lparr>m_map := a'\<rparr>)))
           else Ret (0, [], mp\<lparr>m_map := m3_restore sizes (m3_madd st) (m3_map st)\<rparr>)))"

section \<open>The search\<close>

definition m3_used :: "nat list \<Rightarrow> nat option list \<Rightarrow> nat \<Rightarrow> nat" where
  "m3_used sizes madd i =
     (if madd ! 0 = Some i then sizes ! 0 else 0) + (if madd ! 1 = Some i then sizes ! 1 else 0) +
     (if madd ! 2 = Some i then sizes ! 2 else 0)"

definition m3_remap_ok :: "nat \<Rightarrow> nat \<Rightarrow> m3state \<Rightarrow> bool" where
  "m3_remap_ok N b st \<longleftrightarrow> (case m3_remap st of
       None \<Rightarrow> \<forall>i<N. m_size (m3_map st ! i) \<noteq> 0
     | Some k \<Rightarrow> k < N \<and> k \<le> b \<and> m_size (m3_map st ! k) = 0 \<and> (\<forall>i<k. m_size (m3_map st ! i) \<noteq> 0))"

definition m3_inv :: "nat list \<Rightarrow> mapent list \<Rightarrow> nat \<Rightarrow> nat \<Rightarrow> m3state \<Rightarrow> bool" where
  "m3_inv sizes a0 N b st \<longleftrightarrow>
     length (m3_madd st) = 3 \<and> length (m3_map st) = length a0 \<and> m3_remap_ok N b st \<and>
     (\<forall>i<length a0. m_addr (m3_map st ! i) = m_addr (a0 ! i) \<and>
        m_size (m3_map st ! i) + m3_used sizes (m3_madd st) i = m_size (a0 ! i)) \<and>
     (\<forall>n<3. \<forall>i. m3_madd st ! n = Some i \<longrightarrow> i < N) \<and>
     m3_found st = length (filter (\<lambda>x. \<exists>y. x = Some y) (m3_madd st))"

lemma list_of_3: "length xs = 3 \<Longrightarrow> xs = [xs ! 0, xs ! 1, xs ! 2]"
  by (auto simp: numeral_3_eq_3 numeral_2_eq_2 length_Suc_conv)

lemma less_3_cases: "(n::nat) < 3 \<Longrightarrow> n = 0 \<or> n = 1 \<or> n = 2"
  by auto

lemma filter_update_Some:
  "n < length xs \<Longrightarrow> xs ! n = None \<Longrightarrow>
   length (filter (\<lambda>x. \<exists>y. x = Some y) (xs[n := Some b])) = Suc (length (filter (\<lambda>x. \<exists>y. x = Some y) xs))"
  by (induction xs arbitrary: n) (auto split: nat.splits simp: nth_Cons)

lemma m3_used_update:
  assumes "length madd = 3" "n < 3" "madd ! n = None"
  shows "m3_used sizes (madd[n := Some b]) i =
     m3_used sizes madd i + (if i = b then sizes ! n else 0)"
  using assms less_3_cases [of n] by (auto simp: m3_used_def nth_list_update)

lemma m3_inv_mono: "m3_inv sizes a0 N b st \<Longrightarrow> b \<le> b' \<Longrightarrow> m3_inv sizes a0 N b' st"
  by (auto simp: m3_inv_def m3_remap_ok_def split: option.splits)

lemma m3_take_inv:
  assumes "m3_inv sizes a0 N bp st" "bp < N" "N \<le> length a0" "n < 3" "m3_madd st ! n = None"
    "sizes ! n \<le> m_size (m3_map st ! bp)"
  shows "m3_inv sizes a0 N bp (m3_take sizes bp n st)"
proof -
  have "m_size (m3_map st ! bp) + m3_used sizes (m3_madd st) bp = m_size (a0 ! bp)"
    using assms by (simp add: m3_inv_def)
  moreover have "m3_remap_ok N bp (m3_take sizes bp n st)"
    using assms by (auto simp: m3_inv_def m3_remap_ok_def m3_take_def Let_def nth_list_update
        split: option.splits)
  ultimately show ?thesis
    using assms
    by (simp add: m3_inv_def m3_take_def Let_def m3_used_update filter_update_Some)
      (auto simp: nth_list_update)
qed

lemma m3_requests_inv:
  assumes "m3_inv sizes a0 N bp st" "bp < N" "N \<le> length a0"
  shows "m3_inv sizes a0 N bp (snd (m3_requests sizes bp n st)) \<and>
     (fst (m3_requests sizes bp n st) \<longrightarrow> m3_found (snd (m3_requests sizes bp n st)) = 3)"
  using assms
proof (induction sizes bp n st rule: m3_requests.induct)
  case (1 sizes bp n st)
  then show ?case
    using m3_take_inv [of sizes a0 N bp st n]
    by (subst (1 2 3) m3_requests.simps) (auto simp: Let_def)
qed

lemma m3_requests_other:
  "i \<noteq> bp \<Longrightarrow> m3_map (snd (m3_requests sizes bp n st)) ! i = m3_map st ! i"
proof (induction sizes bp n st rule: m3_requests.induct)
  case (1 sizes bp n st)
  then show ?case
    by (subst m3_requests.simps) (auto simp: Let_def m3_take_def)
qed

lemma m3_scan_inv:
  assumes "m3_inv sizes a0 N bp st" "bp \<le> N" "N < length a0" "m_size (a0 ! N) = 0"
    "\<forall>i<N. bp \<le> i \<longrightarrow> 0 < m_size (m3_map st ! i)"
  shows "\<exists>resolve st'. m3_scan sizes bp st = Ret (resolve, st') \<and> m3_inv sizes a0 N N st' \<and>
     (resolve \<longrightarrow> m3_found st' = 3)"
  using assms
proof (induction sizes bp st rule: m3_scan.induct)
  case (1 sizes bp st)
  have len: "bp < length (m3_map st)" using 1 by (auto simp: m3_inv_def)
  show ?case
  proof (cases "bp = N")
    case True
    then have "m_size (m3_map st ! bp) = 0" using 1 by (auto simp: m3_inv_def)
    then show ?thesis using 1 len True by (subst m3_scan.simps) auto
  next
    case False
    then have lt: "bp < N" "m_size (m3_map st ! bp) \<noteq> 0" using 1 by auto
    obtain b st1 where r: "m3_requests sizes bp 0 st = (b, st1)" by fastforce
    have "m3_inv sizes a0 N bp st1 \<and> (b \<longrightarrow> m3_found st1 = 3)"
      using m3_requests_inv [of sizes a0 N bp st 0] 1 lt r by simp
    then have inv: "m3_inv sizes a0 N (Suc bp) st1 \<and> (b \<longrightarrow> m3_found st1 = 3 \<and> m3_inv sizes a0 N N st1)"
      using lt by (auto elim!: m3_inv_mono)
    have "\<forall>i<N. Suc bp \<le> i \<longrightarrow> 0 < m_size (m3_map st1 ! i)"
      using 1(6) m3_requests_other [of _ bp sizes 0 st] r by auto
    then show ?thesis
      using 1(1) [OF len lt(2), of "(b, st1)"] inv r lt len 1(4,5)
      by (cases b; subst m3_scan.simps) (auto simp: Let_def)
  qed
qed

lemma m3_found_all:
  assumes "m3_inv sizes a0 N b st" "m3_found st = 3"
  obtains i j k where "m3_madd st = [Some i, Some j, Some k]" "i < N" "j < N" "k < N"
proof -
  obtain x y z where m: "m3_madd st = [x, y, z]"
    using assms list_of_3 by (metis m3_inv_def)
  then have "x \<noteq> None \<and> y \<noteq> None \<and> z \<noteq> None"
    using assms by (auto simp: m3_inv_def split: if_splits)
  moreover have "\<forall>n<3. \<forall>i. m3_madd st ! n = Some i \<longrightarrow> i < N"
    using assms by (simp add: m3_inv_def)
  ultimately show thesis using that m by (auto simp: numeral_3_eq_3 All_less_Suc)
qed

lemma m3_restore_spec:
  assumes "m3_inv [d, s, u] a0 N b st" "N \<le> length a0" "\<forall>i<N. m_size (a0 ! i) < 2 ^ 32"
  shows "m3_restore [d, s, u] (m3_madd st) (m3_map st) = a0"
proof -
  obtain x y z where m: "m3_madd st = [x, y, z]"
    using assms list_of_3 by (metis m3_inv_def)
  have "\<forall>n<3. \<forall>i. m3_madd st ! n = Some i \<longrightarrow> i < N"
    using assms unfolding m3_inv_def by blast
  then have bnd: "\<And>i. x = Some i \<or> y = Some i \<or> z = Some i \<Longrightarrow> i < N"
    using m by (auto simp: numeral_3_eq_3 All_less_Suc)
  have len: "length (m3_map st) = length a0" using assms by (simp add: m3_inv_def)
  have ent: "m_addr (m3_map st ! i) = m_addr (a0 ! i) \<and>
      m_size (m3_map st ! i) + m3_used [d, s, u] [x, y, z] i = m_size (a0 ! i) \<and>
      (i < N \<longrightarrow> m_size (a0 ! i) < 4294967296)" if "i < length a0" for i
    using assms m that by (simp add: m3_inv_def)
  show ?thesis
  proof (rule nth_equalityI)
    show "length (m3_restore [d, s, u] (m3_madd st) (m3_map st)) = length a0"
      using len m by (cases x; cases y; cases z) auto
    fix i assume "i < length (m3_restore [d, s, u] (m3_madd st) (m3_map st))"
    then have i: "i < length a0" using len m by (cases x; cases y; cases z) auto
    show "m3_restore [d, s, u] (m3_madd st) (m3_map st) ! i = a0 ! i"
      using m ent [OF i] i len bnd
      by (cases x; cases y; cases z)
        (auto intro!: mapent.equality simp: m3_used_def nth_list_update split: if_splits)
  qed
qed

lemma m3_requests_found:
  "m3_found st < 3 \<Longrightarrow> \<not> fst (m3_requests sizes bp n st) \<Longrightarrow> m3_found (snd (m3_requests sizes bp n st)) < 3"
proof (induction sizes bp n st rule: m3_requests.induct)
  case (1 sizes bp n st)
  have f: "m3_found (m3_take sizes bp n st) = Suc (m3_found st)" by (simp add: m3_take_def Let_def)
  show ?case
    using 1 f by (subst m3_requests.simps; subst (asm) (5) m3_requests.simps)
      (auto simp: Let_def split: if_splits)
qed

lemma m3_requests_enough:
  assumes "length sizes = 3" "length (m3_madd st) = 3" "bp < length (m3_map st)"
    "sum_list (drop n sizes) \<le> m_size (m3_map st ! bp)" "m3_found st < 3"
    "m3_found st + length (filter (\<lambda>x. x = None) (drop n (m3_madd st))) = 3"
  shows "fst (m3_requests sizes bp n st)"
  using assms
proof (induction sizes bp n st rule: m3_requests.induct)
  case (1 sizes bp n st)
  have n: "n < 3" using 1(8) 1(7) 1(4) by (cases "n < 3") auto
  have d: "drop n sizes = sizes ! n # drop (Suc n) sizes"
    "drop n (m3_madd st) = m3_madd st ! n # drop (Suc n) (m3_madd st)"
    using n 1 by (simp_all add: Cons_nth_drop_Suc)
  have f: "m3_found (m3_take sizes bp n st) = Suc (m3_found st)"
    "drop (Suc n) (m3_madd (m3_take sizes bp n st)) = drop (Suc n) (m3_madd st)"
    "length (m3_madd (m3_take sizes bp n st)) = length (m3_madd st)"
    "length (m3_map (m3_take sizes bp n st)) = length (m3_map st)"
    "m_size (m3_map (m3_take sizes bp n st) ! bp) = m_size (m3_map st ! bp) - sizes ! n"
    using 1(5) by (simp_all add: m3_take_def Let_def)
  show ?case
  proof (cases "m3_madd st ! n = None")
    case True
    then show ?thesis using 1 n d f
      by (subst m3_requests.simps) (auto simp: Let_def)
  next
    case False
    then show ?thesis using 1 n d
      by (subst m3_requests.simps) auto
  qed
qed

lemma m3_scan_fails:
  assumes "m3_inv sizes a0 N bp st" "bp \<le> N" "N < length a0" "length sizes = 3" "m3_found st < 3"
    "\<forall>i<N. bp \<le> i \<longrightarrow> m_size (m3_map st ! i) = m_size (a0 ! i) \<and> 0 < m_size (a0 ! i)"
    "m3_scan sizes bp st = Ret (False, st')" "bp \<le> i" "i < N"
  shows "m_size (a0 ! i) < sum_list sizes"
  using assms
proof (induction sizes bp st rule: m3_scan.induct)
  case (1 sizes bp st)
  have len: "bp < length (m3_map st)" using 1 by (auto simp: m3_inv_def)
  have nz: "m_size (m3_map st ! bp) \<noteq> 0" using 1 by auto
  obtain b st1 where r: "m3_requests sizes bp 0 st = (b, st1)" by fastforce
  have scan: "if b then False else m3_scan sizes (Suc bp) st1 = Ret (False, st')"
    using 1(8) len nz r by (subst (asm) m3_scan.simps) (auto simp: Let_def split: if_splits)
  then have nb: "\<not> b" by (cases b) auto
  have inv: "m3_inv sizes a0 N (Suc bp) st1"
    using m3_requests_inv [of sizes a0 N bp st 0] 1 r by (auto elim!: m3_inv_mono)
  have found: "m3_found st1 < 3"
    using m3_requests_found [of st sizes bp 0] 1 r nb by simp
  have count: "m3_found st + length (filter (\<lambda>x. x = None) (m3_madd st)) = 3"
    using 1(2) sum_length_filter_compl [of "\<lambda>x. \<exists>y. x = Some y" "m3_madd st"]
    by (simp add: m3_inv_def)
  have small: "m_size (m3_map st ! bp) < sum_list sizes"
    using m3_requests_enough [of sizes st bp 0] 1 r nb count len
    by (auto simp: m3_inv_def simp flip: not_less)
  show ?case
  proof (cases "i = bp")
    case True
    then show ?thesis using small 1 by simp
  next
    case False
    have "\<forall>i<N. Suc bp \<le> i \<longrightarrow> m_size (m3_map st1 ! i) = m_size (a0 ! i) \<and> 0 < m_size (a0 ! i)"
      using 1(7) m3_requests_other [of _ bp sizes 0 st] r by auto
    then show ?thesis
      using 1(1) [OF len nz refl] r nb scan inv found False 1 by auto
  qed
qed

lemma m3_resolve_spec:
  assumes "i < length a" "j < length a" "k < length a"
    "\<forall>x\<in>{i, j, k}. m_addr (a ! x) + m3_used [d, s, u] [Some i, Some j, Some k] x < 2 ^ 32"
  shows "\<exists>a'. m3_resolve [d, s, u] [Some i, Some j, Some k] a =
      ([m_addr (a ! i), m_addr (a ! j) + (if i = j then d else 0),
        m_addr (a ! k) + (if i = k then d else 0) + (if j = k then s else 0)], a') \<and>
    length a' = length a \<and>
    (\<forall>x<length a. a' ! x = \<lparr>m_size = m_size (a ! x),
       m_addr = m_addr (a ! x) + m3_used [d, s, u] [Some i, Some j, Some k] x\<rparr>)"
proof -
  have "m_addr (a ! i) + m3_used [d, s, u] [Some i, Some j, Some k] i < 4294967296"
    "m_addr (a ! j) + m3_used [d, s, u] [Some i, Some j, Some k] j < 4294967296"
    "m_addr (a ! k) + m3_used [d, s, u] [Some i, Some j, Some k] k < 4294967296"
    using assms by auto
  then show ?thesis using assms(1-3)
    by (cases "i = j"; cases "j = k"; cases "i = k")
      (simp_all add: m3_used_def Let_def nth_list_update, (auto intro: mapent.equality)?)
qed

lemma m3_compact_spec:
  assumes "mid \<noteq> []" "\<forall>e\<in>set rest. m_addr e \<noteq> 0"
  shows "\<exists>ts'. m3_compact (pre @ mid @ rest @ mapend # ts) (length pre) (length pre + length mid)
            = Ret (pre @ filter (\<lambda>e. m_size e \<noteq> 0) rest @ mapend # ts') \<and>
         length (pre @ filter (\<lambda>e. m_size e \<noteq> 0) rest @ mapend # ts') =
         length (pre @ mid @ rest @ mapend # ts)"
  using assms
proof (induction rest arbitrary: pre mid)
  case Nil
  then obtain m ms where mid: "mid = m # ms" by (cases mid) auto
  have "m3_compact (pre @ mid @ [] @ mapend # ts) (length pre) (length pre + length mid)
      = Ret (pre @ mapend # ms @ mapend # ts)"
    using mid by (subst m3_compact.simps) (simp add: nth_append list_update_append)
  then show ?case using mid by auto
next
  case (Cons r rs)
  obtain m ms where mid: "mid = m # ms" using Cons.prems by (cases mid) auto
  show ?case
  proof (cases "m_size r = 0")
    case True
    then have "m3_compact (pre @ mid @ (r # rs) @ mapend # ts) (length pre) (length pre + length mid)
        = m3_compact (pre @ (mid @ [r]) @ rs @ mapend # ts) (length pre) (length pre + length (mid @ [r]))"
      using Cons.prems by (subst m3_compact.simps) (simp add: nth_append)
    with Cons.IH [of "mid @ [r]" pre] Cons.prems True show ?thesis by auto
  next
    case False
    have "m3_compact (pre @ mid @ (r # rs) @ mapend # ts) (length pre) (length pre + length mid)
        = m3_compact ((pre @ [r]) @ (ms @ [r]) @ rs @ mapend # ts) (length (pre @ [r]))
            (length (pre @ [r]) + length (ms @ [r]))"
      using mid False Cons.prems
      by (subst m3_compact.simps) (simp add: nth_append list_update_append)
    with Cons.IH [of "ms @ [r]" "pre @ [r]"] Cons.prems mid False show ?thesis by auto
  qed
qed

section \<open>Carving the areas out of the map\<close>

definition shrinks :: "mapent \<Rightarrow> mapent \<Rightarrow> bool" where
  "shrinks e e' \<longleftrightarrow> m_addr e \<le> m_addr e' \<and> m_addr e' + m_size e' = m_addr e + m_size e"

lemma wf_segs_shrinks:
  "list_all2 shrinks es es' \<Longrightarrow> wf_segs lo es \<Longrightarrow> wf_segs lo (filter (\<lambda>e. m_size e \<noteq> 0) es')"
proof (induction es es' arbitrary: lo rule: list_all2_induct)
  case (Cons e es e' es')
  then have wf: "wf_segs (m_addr e + m_size e) (filter (\<lambda>e. m_size e \<noteq> 0) es')" by simp
  then have "wf_segs lo (filter (\<lambda>e. m_size e \<noteq> 0) es')"
    using Cons.prems by (auto intro: wf_segs_mono)
  with wf Cons show ?case by (auto simp: shrinks_def)
qed simp

lemma seg_space_nonempty: "seg_space (filter (\<lambda>e. m_size e \<noteq> 0) es) = seg_space es"
  by (induction es) (auto simp: extent_def)

lemma seg_space_nth:
  "x \<in> seg_space es \<longleftrightarrow>
   (\<exists>i<length es. m_addr (es ! i) \<le> x \<and> x < m_addr (es ! i) + m_size (es ! i))"
  by (auto simp: seg_space_def extent_def in_set_conv_nth Bex_def)

lemma wf_segs_above_nth: "wf_segs lo es \<Longrightarrow> i < length es \<Longrightarrow> lo < m_addr (es ! i)"
  by (metis nth_mem wf_segs_bounds)

lemma wf_segs_ordered:
  "wf_segs lo es \<Longrightarrow> i < j \<Longrightarrow> j < length es \<Longrightarrow> m_addr (es ! i) + m_size (es ! i) < m_addr (es ! j)"
proof (induction es arbitrary: lo i j)
  case (Cons e es)
  then show ?case
    by (cases i; cases j) (auto dest: wf_segs_above_nth)
qed simp

lemma wf_segs_unique:
  assumes "wf_segs lo es" "i < length es" "j < length es"
    "m_addr (es ! i) \<le> x" "x < m_addr (es ! i) + m_size (es ! i)"
    "m_addr (es ! j) \<le> x" "x < m_addr (es ! j) + m_size (es ! j)"
  shows "i = j"
  using wf_segs_ordered [OF assms(1), of i j] wf_segs_ordered [OF assms(1), of j i] assms
  by (cases i j rule: linorder_cases) auto

lemma m3_carve:
  assumes wf: "wf_segs lo es" and ijk: "i < length es" "j < length es" "k < length es"
    and used: "\<forall>n<length es. m3_used [d, s, u] [Some i, Some j, Some k] n \<le> m_size (es ! n)"
    and es': "length es' = length es"
      "\<forall>n<length es. es' ! n =
         \<lparr>m_size = m_size (es ! n) - m3_used [d, s, u] [Some i, Some j, Some k] n,
          m_addr = m_addr (es ! n) + m3_used [d, s, u] [Some i, Some j, Some k] n\<rparr>"
    and x: "x = m_addr (es ! i)" and y: "y = m_addr (es ! j) + (if i = j then d else 0)"
    and z: "z = m_addr (es ! k) + (if i = k then d else 0) + (if j = k then s else 0)"
  shows "extent x d \<inter> extent y s = {}" "extent x d \<inter> extent z u = {}" "extent y s \<inter> extent z u = {}"
    "extent x d \<union> extent y s \<union> extent z u \<subseteq> seg_space es"
    "seg_space es' = seg_space es - (extent x d \<union> extent y s \<union> extent z u)"
    "list_all2 shrinks es es'"
proof -
  let ?used = "m3_used [d, s, u] [Some i, Some j, Some k]"
  have ui: "?used i \<le> m_size (es ! i)" "?used j \<le> m_size (es ! j)" "?used k \<le> m_size (es ! k)"
    using used ijk by auto
  have inx: "m_addr (es ! i) \<le> t \<and> t < m_addr (es ! i) + ?used i" if "t \<in> extent x d" for t
    using that x by (auto simp: extent_def m3_used_def)
  have iny: "m_addr (es ! j) \<le> t \<and> t < m_addr (es ! j) + ?used j" if "t \<in> extent y s" for t
    using that y by (auto simp: extent_def m3_used_def split: if_splits)
  have inz: "m_addr (es ! k) \<le> t \<and> t < m_addr (es ! k) + ?used k" if "t \<in> extent z u" for t
    using that z by (auto simp: extent_def m3_used_def split: if_splits)
  have uniq: "n = m" if "m_addr (es ! n) \<le> t \<and> t < m_addr (es ! n) + ?used n"
     "m_addr (es ! m) \<le> t \<and> t < m_addr (es ! m) + m_size (es ! m)" "n < length es" "m < length es" for n m t
    using wf_segs_unique [OF wf that(3,4), of t] that used by (metis add_left_mono order_less_le_trans)
  have sub: "\<And>n t. n < length es \<Longrightarrow> t < m_addr (es ! n) + ?used n \<Longrightarrow> t < m_addr (es ! n) + m_size (es ! n)"
    using used by (meson add_left_mono order_less_le_trans)
  have "False" if t: "t \<in> extent x d" "t \<in> extent y s" for t
  proof -
    have "i = j" using uniq [of i t j] inx iny sub [of j t] ijk t by blast
    then show False using t x y z by (auto simp: extent_def split: if_splits)
  qed
  then show "extent x d \<inter> extent y s = {}" by blast
  have "False" if t: "t \<in> extent x d" "t \<in> extent z u" for t
  proof -
    have "i = k" using uniq [of i t k] inx inz sub [of k t] ijk t by blast
    then show False using t x y z by (auto simp: extent_def split: if_splits)
  qed
  then show "extent x d \<inter> extent z u = {}" by blast
  have "False" if t: "t \<in> extent y s" "t \<in> extent z u" for t
  proof -
    have "j = k" using uniq [of j t k] iny inz sub [of k t] ijk t by blast
    then show False using t x y z by (auto simp: extent_def split: if_splits)
  qed
  then show "extent y s \<inter> extent z u = {}" by blast
  have old: "t \<in> seg_space es" if "n < length es" "m_addr (es ! n) \<le> t \<and> t < m_addr (es ! n) + ?used n" for n t
    using that sub by (auto simp: seg_space_nth)
  show "extent x d \<union> extent y s \<union> extent z u \<subseteq> seg_space es"
    using old [OF ijk(1) inx] old [OF ijk(2) iny] old [OF ijk(3) inz] by blast
  have fill: "t \<in> extent x d \<union> extent y s \<union> extent z u"
    if "m_addr (es ! n) \<le> t" "t < m_addr (es ! n) + ?used n" for n t
    using that x y z by (auto simp: extent_def m3_used_def split: if_splits)
  have new: "t \<in> seg_space es' \<longleftrightarrow>
      (\<exists>n<length es. m_addr (es ! n) + ?used n \<le> t \<and> t < m_addr (es ! n) + m_size (es ! n))" for t
    using es' used by (auto simp: seg_space_nth)
  show "seg_space es' = seg_space es - (extent x d \<union> extent y s \<union> extent z u)"
  proof (rule set_eqI)
    fix t
    have "t \<notin> extent x d \<union> extent y s \<union> extent z u"
      if "n < length es" "m_addr (es ! n) + ?used n \<le> t" "t < m_addr (es ! n) + m_size (es ! n)" for n
      using that inx [of t] iny [of t] inz [of t] uniq [of i t n] uniq [of j t n] uniq [of k t n] ijk
      by force
    then show "t \<in> seg_space es' \<longleftrightarrow> t \<in> seg_space es - (extent x d \<union> extent y s \<union> extent z u)"
      unfolding new Diff_iff seg_space_nth [of t es] using fill by (meson add_leD1 not_le)
  qed
  show "list_all2 shrinks es es'"
    using es' used by (auto simp: list_all2_conv_all_nth shrinks_def)
qed

lemma m3_scan_start:
  assumes "rmap_ok mp"
  defines "st0 \<equiv> \<lparr>m3_map = m_map mp, m3_madd = [None, None, None], m3_remap = None, m3_found = 0\<rparr>"
  shows "m3_inv sizes (m_map mp) (length (segs mp)) 0 st0"
    "\<forall>i<length (segs mp). 0 < m_size (m_map mp ! i)"
    "length (segs mp) < length (m_map mp)" "m_size (m_map mp ! length (segs mp)) = 0"
proof -
  obtain ts where ts: "m_map mp = segs mp @ mapend # ts" "wf_segs 0 (segs mp)"
    using assms by (auto elim: rmap_okE)
  show pos: "\<forall>i<length (segs mp). 0 < m_size (m_map mp ! i)"
    using ts by (metis nth_append nth_mem wf_segs_sizes)
  then show "m3_inv sizes (m_map mp) (length (segs mp)) 0 st0"
    by (simp add: m3_inv_def m3_remap_ok_def m3_used_def st0_def less_3_cases)
       (auto dest!: less_3_cases)
  show "length (segs mp) < length (m_map mp)" "m_size (m_map mp ! length (segs mp)) = 0"
    using assms by (auto simp: rmap_ok_def)
qed

lemma m3_compacted:
  assumes inv: "m3_remap_ok N b st" and a: "length es = N" "\<forall>e\<in>set es. m_addr e \<noteq> 0"
    and sz: "\<forall>i<N. m_size (es ! i) = m_size (m3_map st ! i)"
  shows "\<exists>ts'. (case m3_remap st of
           None \<Rightarrow> Ret (es @ mapend # ts)
         | Some remap \<Rightarrow> m3_compact (es @ mapend # ts) remap (Suc remap))
       = Ret (filter (\<lambda>e. m_size e \<noteq> 0) es @ mapend # ts') \<and>
       length (filter (\<lambda>e. m_size e \<noteq> 0) es @ mapend # ts') = length (es @ mapend # ts)"
proof (cases "m3_remap st")
  case None
  then have "filter (\<lambda>e. m_size e \<noteq> 0) es = es"
    using inv a sz by (auto simp: m3_remap_ok_def in_set_conv_nth intro!: filter_True)
  with None show ?thesis by simp
next
  case (Some k)
  then have k: "k < N" "m_size (es ! k) = 0" "\<forall>i<k. m_size (es ! i) \<noteq> 0"
    using inv sz by (auto simp: m3_remap_ok_def)
  have es: "es = take k es @ es ! k # drop (Suc k) es"
    using k a by (simp add: id_take_nth_drop)
  have "\<forall>e\<in>set (take k es). m_size e \<noteq> 0"
    using k a by (auto simp: in_set_conv_nth)
  then have f: "filter (\<lambda>e. m_size e \<noteq> 0) es = take k es @ filter (\<lambda>e. m_size e \<noteq> 0) (drop (Suc k) es)"
    using k by (subst es) simp
  have addrs: "\<forall>e\<in>set (drop (Suc k) es). m_addr e \<noteq> 0" using a by (meson in_set_dropD)
  have eq: "take k es @ [es ! k] @ drop (Suc k) es @ mapend # ts = es @ mapend # ts"
    "length (take k es) = k" "k + length [es ! k] = Suc k"
    using es k a by simp_all
  show ?thesis
    using m3_compact_spec [of "[es ! k]" "drop (Suc k) es" "take k es" ts, unfolded eq, OF _ addrs]
    unfolding f Some by simp
qed

lemma m3_resolved:
  assumes ok: "rmap_ok mp" and inv: "m3_inv [d, s, u] (m_map mp) (length (segs mp)) b st"
    and m: "m3_madd st = [Some i, Some j, Some k]"
    and ijk: "i < length (segs mp)" "j < length (segs mp)" "k < length (segs mp)"
  defines "used \<equiv> m3_used [d, s, u] [Some i, Some j, Some k]"
  obtains es ts where "m3_resolve [d, s, u] (m3_madd st) (m3_map st) =
      ([m_addr (segs mp ! i), m_addr (segs mp ! j) + (if i = j then d else 0),
        m_addr (segs mp ! k) + (if i = k then d else 0) + (if j = k then s else 0)], es @ mapend # ts)"
    "length es = length (segs mp)" "length (es @ mapend # ts) = length (m_map mp)"
    "\<forall>n<length (segs mp). used n \<le> m_size (segs mp ! n) \<and> 0 < m_addr (segs mp ! n) \<and>
       m_size (m3_map st ! n) = m_size (segs mp ! n) - used n"
    "\<forall>n<length (segs mp). es ! n =
       \<lparr>m_size = m_size (segs mp ! n) - used n, m_addr = m_addr (segs mp ! n) + used n\<rparr>"
proof -
  let ?N = "length (segs mp)"
  obtain ts where ts: "m_map mp = segs mp @ mapend # ts" and wf: "wf_segs 0 (segs mp)"
    using ok by (auto elim: rmap_okE)
  have len: "length (m3_map st) = length (m_map mp)"
    and ent: "\<And>n. n < length (m_map mp) \<Longrightarrow> m_addr (m3_map st ! n) = m_addr (m_map mp ! n) \<and>
      m_size (m3_map st ! n) + used n = m_size (m_map mp ! n)"
    using inv m by (auto simp: m3_inv_def used_def)
  have seg: "m_addr (m3_map st ! n) = m_addr (segs mp ! n) \<and> n < length (m3_map st) \<and>
    m_size (m3_map st ! n) + used n = m_size (segs mp ! n) \<and>
    0 < m_addr (segs mp ! n) \<and> m_addr (segs mp ! n) + m_size (segs mp ! n) < 2 ^ 32" if "n < ?N" for n
    using that ts wf_segs_bounds [OF wf nth_mem] ent [of n] len by (auto simp: nth_append)
  have small: "\<forall>n\<in>{i, j, k}. m_addr (m3_map st ! n) + used n < 2 ^ 32"
    using seg [OF ijk(1)] seg [OF ijk(2)] seg [OF ijk(3)] by auto
  have in_map: "i < length (m3_map st)" "j < length (m3_map st)" "k < length (m3_map st)"
    and addrs: "m_addr (m3_map st ! i) = m_addr (segs mp ! i)" "m_addr (m3_map st ! j) = m_addr (segs mp ! j)"
      "m_addr (m3_map st ! k) = m_addr (segs mp ! k)"
    using seg ijk by simp_all
  have used_N: "used ?N = 0" using ijk by (simp add: used_def m3_used_def)
  obtain a where a: "m3_resolve [d, s, u] (m3_madd st) (m3_map st) =
      ([m_addr (segs mp ! i), m_addr (segs mp ! j) + (if i = j then d else 0),
        m_addr (segs mp ! k) + (if i = k then d else 0) + (if j = k then s else 0)], a)"
    "length a = length (m_map mp)" "\<forall>n<length (m_map mp).
        a ! n = \<lparr>m_size = m_size (m3_map st ! n), m_addr = m_addr (m3_map st ! n) + used n\<rparr>"
    using m3_resolve_spec [OF in_map small [unfolded used_def]] unfolding m len used_def addrs by blast
  have "a ! ?N = mapend"
    using a(3) ent [of ?N] used_N ts by simp
  then have split: "take ?N a @ mapend # drop (Suc ?N) a = a"
    using a(2) ts by (metis add_Suc_right id_take_nth_drop length_Cons length_append less_add_Suc1)
  show thesis
  proof (rule that [of "take ?N a" "drop (Suc ?N) a"])
    show "\<forall>n<?N. used n \<le> m_size (segs mp ! n) \<and> 0 < m_addr (segs mp ! n) \<and>
       m_size (m3_map st ! n) = m_size (segs mp ! n) - used n"
      using seg by (metis add_diff_cancel_right' le_add2)
    show "\<forall>n<?N. take ?N a ! n =
       \<lparr>m_size = m_size (segs mp ! n) - used n, m_addr = m_addr (segs mp ! n) + used n\<rparr>"
      using seg a(3) len by (metis add_diff_cancel_right' nth_take)
  qed (use a split ts in auto)
qed

lemma m3_success:
  assumes ok: "rmap_ok mp" and inv: "m3_inv [d, s, u] (m_map mp) (length (segs mp)) b st"
    and m: "m3_madd st = [Some i, Some j, Some k]"
    and ijk: "i < length (segs mp)" "j < length (segs mp)" "k < length (segs mp)"
  shows "\<exists>x y z a a'. m3_resolve [d, s, u] (m3_madd st) (m3_map st) = ([x, y, z], a) \<and>
     (case m3_remap st of None \<Rightarrow> Ret a | Some remap \<Rightarrow> m3_compact a remap (Suc remap)) = Ret a' \<and>
     rmap_ok (mp\<lparr>m_map := a'\<rparr>) \<and> length a' = length (m_map mp) \<and>
     extent x d \<inter> extent y s = {} \<and> extent x d \<inter> extent z u = {} \<and> extent y s \<inter> extent z u = {} \<and>
     extent x d \<union> extent y s \<union> extent z u \<subseteq> free_space mp \<and>
     free_space (mp\<lparr>m_map := a'\<rparr>) = free_space mp - (extent x d \<union> extent y s \<union> extent z u)"
proof -
  let ?f = "filter (\<lambda>e. m_size e \<noteq> 0)" and ?used = "m3_used [d, s, u] [Some i, Some j, Some k]"
  have wf: "wf_segs 0 (segs mp)" using ok by (simp add: rmap_ok_def)
  have ro: "m3_remap_ok (length (segs mp)) b st" using inv by (simp add: m3_inv_def)
  from m3_resolved [OF ok inv m ijk] obtain x y z es ts where
    res: "m3_resolve [d, s, u] (m3_madd st) (m3_map st) = ([x, y, z], es @ mapend # ts)"
    and xyz: "x = m_addr (segs mp ! i)" "y = m_addr (segs mp ! j) + (if i = j then d else 0)"
      "z = m_addr (segs mp ! k) + (if i = k then d else 0) + (if j = k then s else 0)"
    and es: "length es = length (segs mp)" "length (es @ mapend # ts) = length (m_map mp)"
      "\<forall>n<length (segs mp). ?used n \<le> m_size (segs mp ! n) \<and> 0 < m_addr (segs mp ! n) \<and>
         m_size (m3_map st ! n) = m_size (segs mp ! n) - ?used n"
      "\<forall>n<length (segs mp). es ! n =
         \<lparr>m_size = m_size (segs mp ! n) - ?used n, m_addr = m_addr (segs mp ! n) + ?used n\<rparr>"
    by metis
  have used: "\<forall>n<length (segs mp). ?used n \<le> m_size (segs mp ! n)" using es(3) by blast
  note carve = m3_carve [OF wf ijk used es(1,4) xyz]
  have addrs: "\<forall>e\<in>set es. m_addr e \<noteq> 0"
    using es(1,3,4) by (auto simp: in_set_conv_nth)
  have szs: "\<forall>n<length (segs mp). m_size (es ! n) = m_size (m3_map st ! n)"
    using es(3,4) by simp
  obtain ts' where comp: "(case m3_remap st of None \<Rightarrow> Ret (es @ mapend # ts)
        | Some remap \<Rightarrow> m3_compact (es @ mapend # ts) remap (Suc remap)) = Ret (?f es @ mapend # ts')"
    "length (?f es @ mapend # ts') = length (m_map mp)"
    using m3_compacted [OF ro es(1) addrs szs, of ts] es(2) by auto
  have new: "rmap_ok (mp\<lparr>m_map := ?f es @ mapend # ts'\<rparr>) \<and>
      segs (mp\<lparr>m_map := ?f es @ mapend # ts'\<rparr>) = ?f es"
    by (rule rmap_okI [OF wf_segs_shrinks [OF carve(6) wf]]) simp
  then have "free_space (mp\<lparr>m_map := ?f es @ mapend # ts'\<rparr>) =
      free_space mp - (extent x d \<union> extent y s \<union> extent z u)"
    using carve(5) seg_space_nonempty [of es] by (simp add: free_space_def)
  then show ?thesis
    using res comp new carve(1-4) unfolding free_space_def by blast
qed

lemma malloc3_cases:
  assumes ok: "rmap_ok mp"
  shows "(malloc3 mp d s u = Ret (0, [], mp) \<and> (\<forall>e\<in>set (segs mp). m_size e < d + s + u)) \<or>
    (\<exists>x y z mp'. malloc3 mp d s u = Ret (z, [x, y, z], mp') \<and> rmap_ok mp' \<and>
       m_limit mp' = m_limit mp \<and> length (m_map mp') = length (m_map mp) \<and>
       extent x d \<inter> extent y s = {} \<and> extent x d \<inter> extent z u = {} \<and> extent y s \<inter> extent z u = {} \<and>
       extent x d \<union> extent y s \<union> extent z u \<subseteq> free_space mp \<and>
       free_space mp' = free_space mp - (extent x d \<union> extent y s \<union> extent z u))"
proof -
  let ?N = "length (segs mp)" and ?sizes = "[d, s, u]"
  let ?st0 = "\<lparr>m3_map = m_map mp, m3_madd = [None, None, None], m3_remap = None, m3_found = 0\<rparr>"
  obtain ts where ts: "m_map mp = segs mp @ mapend # ts" and wf: "wf_segs 0 (segs mp)"
    using ok by (auto elim: rmap_okE)
  note start = m3_scan_start [OF ok]
  obtain res st where scan: "m3_scan ?sizes 0 ?st0 = Ret (res, st)"
    and inv: "m3_inv ?sizes (m_map mp) ?N ?N st" and found: "res \<longrightarrow> m3_found st = 3"
    using m3_scan_inv [of ?sizes "m_map mp" ?N 0 ?st0] start by auto
  show ?thesis
  proof (cases res)
    case False
    have "\<forall>i<?N. m_size (m_map mp ! i) < 2 ^ 32"
      using wf_segs_bounds [OF wf nth_mem] ts by (metis add_lessD1 add.commute nth_append)
    then have "m3_restore ?sizes (m3_madd st) (m3_map st) = m_map mp"
      using m3_restore_spec [OF inv] start by auto
    moreover have "m_size (segs mp ! i) < d + s + u" if "i < ?N" for i
      using m3_scan_fails [of ?sizes "m_map mp" ?N 0 ?st0 st i] start scan False that ts
      by (simp add: nth_append)
    ultimately show ?thesis
      using scan False by (auto simp: malloc3_def Let_def in_set_conv_nth)
  next
    case True
    then obtain i j k where m: "m3_madd st = [Some i, Some j, Some k]" and ijk: "i < ?N" "j < ?N" "k < ?N"
      using m3_found_all [OF inv] found by blast
    from m3_success [OF ok inv m ijk] obtain x y z a a' where
      res: "m3_resolve ?sizes (m3_madd st) (m3_map st) = ([x, y, z], a)"
      "(case m3_remap st of None \<Rightarrow> Ret a | Some remap \<Rightarrow> m3_compact a remap (Suc remap)) = Ret a'"
      and new: "rmap_ok (mp\<lparr>m_map := a'\<rparr>)" "length a' = length (m_map mp)"
      "extent x d \<inter> extent y s = {}" "extent x d \<inter> extent z u = {}" "extent y s \<inter> extent z u = {}"
      "extent x d \<union> extent y s \<union> extent z u \<subseteq> free_space mp"
      "free_space (mp\<lparr>m_map := a'\<rparr>) = free_space mp - (extent x d \<union> extent y s \<union> extent z u)"
      by blast
    have "malloc3 mp d s u = Ret (z, [x, y, z], mp\<lparr>m_map := a'\<rparr>)"
      using scan True res by (cases "m3_remap st") (simp_all add: malloc3_def Let_def)
    with new show ?thesis
      by (intro disjI2 exI [of _ x] exI [of _ y] exI [of _ z] exI [of _ "mp\<lparr>m_map := a'\<rparr>"]) simp
  qed
qed

text \<open>
  C23. \<open>malloc3\<close> on a well-formed map never faults. Either it fails, returns 0, restores the
  map exactly as it was and no single segment would have held the three areas; or it returns
  three pairwise disjoint areas of free space, in the order of the requests, removes exactly
  these from the free space and keeps the map well formed. Requests of size 0 are allowed.
\<close>

theorem malloc3_correct:
  assumes "rmap_ok mp"
  shows "(malloc3 mp d s u = Ret (0, [], mp) \<and> (\<forall>e\<in>set (segs mp). m_size e < d + s + u)) \<or>
    (\<exists>x y z mp'. malloc3 mp d s u = Ret (z, [x, y, z], mp') \<and> rmap_ok mp' \<and>
       m_limit mp' = m_limit mp \<and> length (m_map mp') = length (m_map mp) \<and>
       extent x d \<inter> extent y s = {} \<and> extent x d \<inter> extent z u = {} \<and> extent y s \<inter> extent z u = {} \<and>
       extent x d \<union> extent y s \<union> extent z u \<subseteq> free_space mp \<and>
       free_space mp' = free_space mp - (extent x d \<union> extent y s \<union> extent z u))"
  using assms by (rule malloc3_cases)

theorem malloc3_correct_witness:
  "let mp = \<lparr>m_map = [\<lparr>m_size = 3, m_addr = 10\<rparr>, \<lparr>m_size = 4, m_addr = 20\<rparr>, mapend], m_limit = 2\<rparr>
   in \<exists>mp'. malloc3 mp 4 0 2 = Ret (10, [20, 10, 10], mp') \<and> rmap_ok mp' \<and>
        free_space mp' = free_space mp - (extent 20 4 \<union> extent 10 0 \<union> extent 10 2)"
proof -
  let ?mp = "\<lparr>m_map = [\<lparr>m_size = 3, m_addr = 10\<rparr>, \<lparr>m_size = 4, m_addr = 20\<rparr>, mapend], m_limit = 2\<rparr>"
  let ?mp' = "\<lparr>m_map = [\<lparr>m_size = 1, m_addr = 12\<rparr>, mapend, mapend], m_limit = 2\<rparr>"
  have ok: "rmap_ok ?mp" by (simp add: rmap_ok_def segs_def)
  have run: "malloc3 ?mp 4 0 2 = Ret (10, [20, 10, 10], ?mp')" by code_simp
  have "rmap_ok ?mp' \<and> free_space ?mp' = free_space ?mp - (extent 20 4 \<union> extent 10 0 \<union> extent 10 2)"
    using malloc3_correct [OF ok, of 4 0 2] unfolding run by simp
  then show ?thesis unfolding Let_def run by blast
qed

section \<open>Clients of a map\<close>

text \<open>
  The requests that the swapper makes: one area (\<open>malloc\<close>) or three (\<open>malloc3\<close>). The
  answer is the list of addresses, empty on failure.
\<close>

fun rmap_grab :: "rmap \<Rightarrow> nat list \<Rightarrow> (nat list \<times> rmap) outcome" where
  "rmap_grab mp [sz] =
     bind_outcome (malloc mp sz) (\<lambda>(addr, mp'). Ret (if addr = 0 then [] else [addr], mp'))"
| "rmap_grab mp [d, s, u] = bind_outcome (malloc3 mp d s u) (\<lambda>(_, a, mp'). Ret (a, mp'))"
| "rmap_grab mp _ = Ret ([], mp)"

datatype area_op = Grab "nat list" | Release nat

text \<open>
  A client keeps the non-empty areas it was given (address and size) and releases them one
  at a time by position. The flag says whether a release was lost to an overflow of the map.
\<close>

fun area_step ::
  "('s \<Rightarrow> nat list \<Rightarrow> (nat list \<times> 's) outcome) \<Rightarrow> ('s \<Rightarrow> nat \<Rightarrow> nat \<Rightarrow> ('s \<times> bool) outcome) \<Rightarrow>
   area_op \<Rightarrow> 's \<times> (nat \<times> nat) list \<times> bool \<Rightarrow> ('s \<times> (nat \<times> nat) list \<times> bool) outcome" where
  "area_step grab release (Grab sizes) (st, held, lost) =
     bind_outcome (grab st sizes) (\<lambda>(addrs, st').
       Ret (st', filter (\<lambda>(a, sz). sz \<noteq> 0) (zip addrs sizes) @ held, lost))"
| "area_step grab release (Release i) (st, held, lost) =
     (if i < length held then
        bind_outcome (release st (snd (held ! i)) (fst (held ! i))) (\<lambda>(st', l).
          Ret (st', take i held @ drop (Suc i) held, lost \<or> l))
      else Ret (st, held, lost))"

fun area_run ::
  "('s \<Rightarrow> nat list \<Rightarrow> (nat list \<times> 's) outcome) \<Rightarrow> ('s \<Rightarrow> nat \<Rightarrow> nat \<Rightarrow> ('s \<times> bool) outcome) \<Rightarrow>
   area_op list \<Rightarrow> 's \<times> (nat \<times> nat) list \<times> bool \<Rightarrow> ('s \<times> (nat \<times> nat) list \<times> bool) outcome" where
  "area_run grab release [] st = Ret st"
| "area_run grab release (op # ops) st =
     bind_outcome (area_step grab release op st) (area_run grab release ops)"

definition areas :: "(nat \<times> nat) list \<Rightarrow> nat set" where
  "areas held = (\<Union>(a, sz)\<in>set held. extent a sz)"

definition areas_apart :: "(nat \<times> nat) list \<Rightarrow> bool" where
  "areas_apart held \<longleftrightarrow>
     sorted_wrt (\<lambda>(a, s) (b, t). extent a s \<inter> extent b t = {}) held \<and> (\<forall>(a, s)\<in>set held. 0 < s)"

lemma areas_simps [simp]:
  "areas [] = {}" "areas ((a, s) # held) = extent a s \<union> areas held"
  "areas (held @ held') = areas held \<union> areas held'"
  by (auto simp: areas_def)

lemma areas_apart_append:
  "areas_apart (xs @ ys) \<longleftrightarrow> areas_apart xs \<and> areas_apart ys \<and> areas xs \<inter> areas ys = {}"
  by (fastforce simp: areas_apart_def sorted_wrt_append areas_def)

lemma areas_apart_Cons:
  "areas_apart ((a, s) # ys) \<longleftrightarrow> 0 < s \<and> areas_apart ys \<and> extent a s \<inter> areas ys = {}"
  using areas_apart_append [of "[(a, s)]" ys] by (auto simp: areas_apart_def)

locale area_allocator =
  fixes ok :: "'s \<Rightarrow> bool" and space :: "'s \<Rightarrow> nat set"
    and request_ok :: "nat list \<Rightarrow> bool"
    and grab :: "'s \<Rightarrow> nat list \<Rightarrow> (nat list \<times> 's) outcome"
    and release :: "'s \<Rightarrow> nat \<Rightarrow> nat \<Rightarrow> ('s \<times> bool) outcome"
  assumes space_bounds: "ok st \<Longrightarrow> x \<in> space st \<Longrightarrow> 0 < x \<and> Suc x < 2 ^ 32"
    and grab_law: "ok st \<Longrightarrow> request_ok sizes \<Longrightarrow>
      \<exists>addrs st'. grab st sizes = Ret (addrs, st') \<and> ok st' \<and>
        areas_apart (filter (\<lambda>(a, sz). sz \<noteq> 0) (zip addrs sizes)) \<and>
        areas (filter (\<lambda>(a, sz). sz \<noteq> 0) (zip addrs sizes)) \<subseteq> space st \<and>
        space st' = space st - areas (filter (\<lambda>(a, sz). sz \<noteq> 0) (zip addrs sizes))"
    and release_law: "ok st \<Longrightarrow> 0 < sz \<Longrightarrow> 0 < a \<Longrightarrow> a + sz < 2 ^ 32 \<Longrightarrow>
      extent a sz \<inter> space st = {} \<Longrightarrow>
      \<exists>st' l. release st sz a = Ret (st', l) \<and> ok st' \<and>
        space st' = (if l then space st else space st \<union> extent a sz)"
begin

definition client_inv :: "nat set \<Rightarrow> 's \<times> (nat \<times> nat) list \<times> bool \<Rightarrow> bool" where
  "client_inv S0 = (\<lambda>(st, held, lost). ok st \<and> areas_apart held \<and> areas held \<inter> space st = {} \<and>
     areas held \<union> space st \<subseteq> S0 \<and> (\<not> lost \<longrightarrow> areas held \<union> space st = S0))"

lemma client_start: "ok st \<Longrightarrow> client_inv (space st) (st, [], False)"
  by (simp add: client_inv_def areas_apart_def)

lemma client_grab:
  assumes "client_inv S0 (st, held, lost)" "request_ok sizes"
  shows "\<exists>c. area_step grab release (Grab sizes) (st, held, lost) = Ret c \<and> client_inv S0 c"
proof -
  let ?new = "\<lambda>addrs. filter (\<lambda>(a, sz). sz \<noteq> 0) (zip addrs sizes)"
  have inv: "ok st" "areas_apart held" "areas held \<inter> space st = {}" "areas held \<union> space st \<subseteq> S0"
    "\<not> lost \<longrightarrow> areas held \<union> space st = S0"
    using assms(1) by (auto simp: client_inv_def)
  obtain addrs st' where g: "grab st sizes = Ret (addrs, st')" "ok st'" "areas_apart (?new addrs)"
    "areas (?new addrs) \<subseteq> space st" "space st' = space st - areas (?new addrs)"
    using grab_law [OF inv(1) assms(2)] by blast
  have "areas_apart (?new addrs @ held)"
    using g inv unfolding areas_apart_append by blast
  moreover have "areas (?new addrs @ held) \<inter> space st' = {}"
    "areas (?new addrs @ held) \<union> space st' = areas held \<union> space st"
    using g(4,5) inv(3) unfolding areas_simps by blast+
  ultimately have "client_inv S0 (st', ?new addrs @ held, lost)"
    using g(2) inv(4,5) unfolding client_inv_def prod.case by blast
  then show ?thesis using g(1) by simp
qed

lemma client_release:
  assumes "client_inv S0 (st, held, lost)" "\<forall>x\<in>S0. 0 < x \<and> Suc x < 2 ^ 32"
  shows "\<exists>c. area_step grab release (Release i) (st, held, lost) = Ret c \<and> client_inv S0 c"
proof (cases "i < length held")
  case True
  obtain a sz where h: "held ! i = (a, sz)" by fastforce
  let ?l = "take i held" and ?r = "drop (Suc i) held"
  have held: "held = ?l @ (a, sz) # ?r" using True h by (metis id_take_nth_drop)
  have inv: "ok st" "areas_apart (?l @ (a, sz) # ?r)" "areas (?l @ (a, sz) # ?r) \<inter> space st = {}"
    "areas (?l @ (a, sz) # ?r) \<union> space st \<subseteq> S0"
    "\<not> lost \<longrightarrow> areas (?l @ (a, sz) # ?r) \<union> space st = S0"
    using assms(1) held by (auto simp: client_inv_def)
  have sz: "0 < sz" using inv(2) by (simp add: areas_apart_append areas_apart_Cons)
  have "a \<in> S0" "a + sz - 1 \<in> S0" using inv(4) sz by (auto simp: extent_def)
  then have b: "0 < a" "a + sz < 2 ^ 32" using assms(2) sz by fastforce+
  obtain st' l where r: "release st sz a = Ret (st', l)" "ok st'"
    "space st' = (if l then space st else space st \<union> extent a sz)"
    using release_law [OF inv(1) sz b] inv(3) by auto
  have "areas_apart (?l @ ?r)" "extent a sz \<inter> areas (?l @ ?r) = {}"
    using inv(2) by (auto simp: areas_apart_append areas_apart_Cons)
  then have "client_inv S0 (st', ?l @ ?r, lost \<or> l)"
    using r(2,3) inv(3-5) unfolding client_inv_def areas_simps prod.case
    by (cases l) (simp_all, blast+)
  then show ?thesis using r(1) True h by simp
next
  case False
  then show ?thesis using assms(1) by simp
qed

lemma client_run:
  assumes "client_inv S0 c" "\<forall>x\<in>S0. 0 < x \<and> Suc x < 2 ^ 32"
    "\<forall>sizes. Grab sizes \<in> set ops \<longrightarrow> request_ok sizes"
  shows "\<exists>c'. area_run grab release ops c = Ret c' \<and> client_inv S0 c'"
  using assms
proof (induction ops arbitrary: c)
  case (Cons op ops)
  obtain st held lost where c: "c = (st, held, lost)" by (cases c)
  have "\<exists>c'. area_step grab release op c = Ret c' \<and> client_inv S0 c'"
    using client_grab client_release Cons.prems unfolding c by (cases op) auto
  then show ?case using Cons by fastforce
qed simp

lemma client_safe:
  assumes "ok st" "\<forall>sizes. Grab sizes \<in> set ops \<longrightarrow> request_ok sizes"
  shows "\<exists>st' held lost. area_run grab release ops (st, [], False) = Ret (st', held, lost) \<and> ok st' \<and>
     areas_apart held \<and> areas held \<inter> space st' = {} \<and> areas held \<union> space st' \<subseteq> space st \<and>
     (lost \<or> areas held \<union> space st' = space st)"
proof -
  have "\<forall>x\<in>space st. 0 < x \<and> Suc x < 2 ^ 32" using space_bounds assms(1) by blast
  from client_run [OF client_start [OF assms(1)] this assms(2)]
  obtain c where "area_run grab release ops (st, [], False) = Ret c" "client_inv (space st) c" by blast
  then show ?thesis by (cases c) (auto simp: client_inv_def)
qed

end

text \<open>A map whose \<^verbatim>\<open>m_limit\<close> is its last slot, as \<^verbatim>\<open>map.h\<close> documents.\<close>

definition rmap_sound :: "rmap \<Rightarrow> bool" where
  "rmap_sound mp \<longleftrightarrow> rmap_ok mp \<and> m_limit mp < length (m_map mp)"

text \<open>\<open>malloc\<close> panics on size 0, so a single request is not empty.\<close>

fun rmap_request :: "nat list \<Rightarrow> bool" where
  "rmap_request [sz] = (0 < sz)"
| "rmap_request sizes = True"

lemma rmap_grab_law:
  assumes "rmap_sound mp" "rmap_request sizes"
  shows "\<exists>addrs mp'. rmap_grab mp sizes = Ret (addrs, mp') \<and> rmap_sound mp' \<and>
        areas_apart (filter (\<lambda>(a, sz). sz \<noteq> 0) (zip addrs sizes)) \<and>
        areas (filter (\<lambda>(a, sz). sz \<noteq> 0) (zip addrs sizes)) \<subseteq> free_space mp \<and>
        free_space mp' = free_space mp - areas (filter (\<lambda>(a, sz). sz \<noteq> 0) (zip addrs sizes))"
proof -
  have ok: "rmap_ok mp" "m_limit mp < length (m_map mp)" using assms by (auto simp: rmap_sound_def)
  have e0: "extent a 0 = {}" for a by (simp add: extent_def)
  consider (one) sz where "sizes = [sz]" "0 < sz" | (three) d s u where "sizes = [d, s, u]"
    | (other) "rmap_grab mp sizes = Ret ([], mp)"
    using assms(2) by (cases "(mp, sizes)" rule: rmap_grab.cases) auto
  then show ?thesis
  proof cases
    case one
    then show ?thesis
      using malloc_cases [OF ok(1), of sz] ok
      by (auto simp: rmap_sound_def areas_apart_def)
  next
    case three
    then show ?thesis
      using malloc3_cases [OF ok(1), of d s u] ok
      by (auto simp: rmap_sound_def areas_apart_def areas_def e0)
  next
    case other
    then show ?thesis using assms(1) by (simp add: areas_apart_def)
  qed
qed

interpretation rmap_areas: area_allocator rmap_sound free_space rmap_request rmap_grab mfree
proof
  show "rmap_sound st \<Longrightarrow> x \<in> free_space st \<Longrightarrow> 0 < x \<and> Suc x < 2 ^ 32" for st x
    using free_space_bounds by (auto simp: rmap_sound_def)
  show "\<exists>st' l. mfree st sz a = Ret (st', l) \<and> rmap_sound st' \<and>
      free_space st' = (if l then free_space st else free_space st \<union> extent a sz)"
    if "rmap_sound st" "0 < sz" "0 < a" "a + sz < 2 ^ 32" "extent a sz \<inter> free_space st = {}" for st sz a
    using mfree_cases [of st sz a] that unfolding rmap_sound_def by (metis (full_types))
qed (rule rmap_grab_law)

text \<open>
  C10. Any sequence of \<open>malloc\<close>, \<open>malloc3\<close> and releases of what is held runs to its end
  without a panic or a fault: the areas held are non-empty, pairwise disjoint, disjoint from
  the free space and inside the space of the start. As long as no release overflows the map,
  areas held and free space together are exactly the space of the start.
\<close>

theorem rmap_clients_safe:
  assumes "rmap_sound mp" "\<forall>sizes. Grab sizes \<in> set ops \<longrightarrow> rmap_request sizes"
  shows "\<exists>mp' held lost. area_run rmap_grab mfree ops (mp, [], False) = Ret (mp', held, lost) \<and>
     rmap_sound mp' \<and> areas_apart held \<and> areas held \<inter> free_space mp' = {} \<and>
     areas held \<union> free_space mp' \<subseteq> free_space mp \<and>
     (lost \<or> areas held \<union> free_space mp' = free_space mp)"
  using assms by (rule rmap_areas.client_safe)

theorem rmap_clients_safe_witness:
  "let mp = \<lparr>m_map = [\<lparr>m_size = 9, m_addr = 10\<rparr>, mapend, mapend], m_limit = 2\<rparr>
   in \<exists>mp' held lost. area_run rmap_grab mfree [Grab [2], Grab [3, 0, 1], Release 1] (mp, [], False)
        = Ret (mp', held, lost) \<and> rmap_sound mp' \<and> areas_apart held \<and> areas held \<inter> free_space mp' = {}"
proof -
  let ?mp = "\<lparr>m_map = [\<lparr>m_size = 9, m_addr = 10\<rparr>, mapend, mapend], m_limit = 2\<rparr>"
  have "rmap_sound ?mp" by (simp add: rmap_sound_def rmap_ok_def segs_def)
  from rmap_clients_safe [OF this, of "[Grab [2], Grab [3, 0, 1], Release 1]"]
  show ?thesis unfolding Let_def by auto
qed

section \<open>The swap map\<close>

definition SMAPSIZ :: nat where
  "SMAPSIZ = 25"

text \<open>
  \<^verbatim>\<open>swapmap\<close> as it is initialised: \<^verbatim>\<open>swapent\<close> has \<^verbatim>\<open>SMAPSIZ\<close> zeroed entries and
  \<^verbatim>\<open>m_limit\<close> is the address of entry \<^verbatim>\<open>SMAPSIZ\<close>, one past the last slot.
\<close>

definition swapmap :: rmap where
  "swapmap = \<lparr>m_map = replicate SMAPSIZ mapend, m_limit = SMAPSIZ\<rparr>"

text \<open>Releases of the areas \<open>(size, addr)\<close> in order.\<close>

fun mfree_all :: "(nat \<times> nat) list \<Rightarrow> rmap \<Rightarrow> rmap outcome" where
  "mfree_all [] mp = Ret mp"
| "mfree_all ((sz, addr) # rest) mp = bind_outcome (mfree mp sz addr) (\<lambda>(mp', _). mfree_all rest mp')"

text \<open>
  The initial swap map admits one segment too many: 24 releases of areas that do not touch
  each other fill the 25 entries (with the end mark), and the 25th, instead of being reported
  as lost, stores past the end of the array. With \<^verbatim>\<open>m_limit\<close> at the last slot the same
  releases all return.
\<close>

theorem swapmap_overflow:
  "mfree_all (map (\<lambda>k. (1, 2 * k + 2)) [0..<25]) swapmap = Fault \<and>
   (\<exists>mp. mfree_all (map (\<lambda>k. (1, 2 * k + 2)) [0..<25]) (swapmap\<lparr>m_limit := SMAPSIZ - 1\<rparr>) = Ret mp)"
proof
  show "mfree_all (map (\<lambda>k. (1, 2 * k + 2)) [0..<25]) swapmap = Fault"
    by code_simp
  have "(case mfree_all (map (\<lambda>k. (1, 2 * k + 2)) [0..<25]) (swapmap\<lparr>m_limit := SMAPSIZ - 1\<rparr>) of
     Ret mp \<Rightarrow> True | _ \<Rightarrow> False)" by code_simp
  then show "\<exists>mp. mfree_all (map (\<lambda>k. (1, 2 * k + 2)) [0..<25]) (swapmap\<lparr>m_limit := SMAPSIZ - 1\<rparr>) = Ret mp"
    by (auto split: outcome.splits)
qed

end
