(* ===== verification/Clist.thy ===== *)
theory Clist
  imports Kern_Prelude
begin

unbundle bit_operations_syntax

text \<open>
  The character lists of \<^verbatim>\<open>src/sys/kernel/tty_subr.c\<close>, at the level of addresses: a block
  (\<^verbatim>\<open>struct cblock\<close>) is 32 bytes at a multiple of 32, its first 4 bytes are the link
  \<^verbatim>\<open>c_next\<close> and the other 28 are characters. The heap holds the links and the characters of
  all blocks, the list of free blocks and the sleep flag \<^verbatim>\<open>cwaiting\<close>; a \<^verbatim>\<open>struct clist\<close>
  is a count and two addresses, and the null pointer is 0. \<open>cwakeups\<close> counts the calls of
  \<^verbatim>\<open>wakeup(&cwaiting)\<close>. The interrupt masking (\<^verbatim>\<open>spltty\<close>, \<^verbatim>\<open>splx\<close>) makes each operation
  one step.

  \<open>clists_rep h qs xss\<close> says that the queues \<open>qs\<close> hold the byte strings \<open>xss\<close>, in
  blocks that no two queues share and that are not free. The lemmas show that every
  operation acts on the byte strings as a queue of bytes does.
\<close>

section \<open>Data\<close>

abbreviation (input) CBLOCK :: nat where "CBLOCK \<equiv> 32"
abbreviation (input) CBSIZE :: nat where "CBSIZE \<equiv> 28"
abbreviation (input) NCLIST :: nat where "NCLIST \<equiv> 32"

record cheap =
  c_next :: "nat \<Rightarrow> nat"
  c_info :: "nat \<Rightarrow> nat" \<comment> \<open>the byte at an address\<close>
  cfreelist :: nat
  cfreecount :: int
  cwaiting :: bool
  cwakeups :: nat

record clist =
  c_cc :: int
  c_cf :: nat
  c_cl :: nat

text \<open>\<^verbatim>\<open>p & CROUND\<close>, \<^verbatim>\<open>p & ~CROUND\<close> and the start of the characters of a block.\<close>

definition cround :: "nat \<Rightarrow> nat" where
  "cround p = p mod CBLOCK"

definition cblock_of :: "nat \<Rightarrow> nat" where
  "cblock_of p = p - p mod CBLOCK"

definition info :: "nat \<Rightarrow> nat" where
  "info bp = bp + 4"

text \<open>A plain \<^verbatim>\<open>char\<close> is signed on this machine.\<close>

definition schar :: "nat \<Rightarrow> int" where
  "schar b = (if b < 128 then int b else int b - 256)"

abbreviation empty_clist :: clist where
  "empty_clist \<equiv> \<lparr>c_cc = 0, c_cf = 0, c_cl = 0\<rparr>"

section \<open>Blocks\<close>

text \<open>Return a block to the free list, and wake up who waits for one.\<close>

definition cblock_push :: "nat \<Rightarrow> cheap \<Rightarrow> cheap" where
  "cblock_push bp h = h\<lparr>c_next := (c_next h)(bp := cfreelist h), cfreelist := bp,
     cfreecount := cfreecount h + int CBSIZE\<rparr>"

definition cblock_wake :: "cheap \<Rightarrow> cheap" where
  "cblock_wake h = (if cwaiting h then h\<lparr>cwaiting := False, cwakeups := Suc (cwakeups h)\<rparr> else h)"

definition cblock_free :: "nat \<Rightarrow> cheap \<Rightarrow> cheap" where
  "cblock_free bp h = cblock_wake (cblock_push bp h)"

text \<open>Take the first free block, which must exist.\<close>

definition cblock_take :: "cheap \<Rightarrow> nat \<times> cheap" where
  "cblock_take h =
     (let bp = cfreelist h
      in (bp, h\<lparr>cfreelist := c_next h bp, cfreecount := cfreecount h - int CBSIZE,
                c_next := (c_next h)(bp := 0)\<rparr>))"

text \<open>\<^verbatim>\<open>cinit\<close>: free all blocks of the array \<^verbatim>\<open>cfree\<close>, from the first aligned one.\<close>

function cinit_from :: "nat \<Rightarrow> nat \<Rightarrow> cheap \<Rightarrow> cheap" where
  "cinit_from cp lim h =
     (if cp \<le> lim then cinit_from (cp + CBLOCK) lim (cblock_push cp h) else h)"
  by pat_completeness auto
termination
  by (relation "measure (\<lambda>(cp, lim, h). Suc lim - cp)") auto

declare cinit_from.simps [simp del]

definition cinit :: "nat \<Rightarrow> cheap \<Rightarrow> cheap" where
  "cinit cfree h = cinit_from (cblock_of (cfree + 31)) (cfree + CBLOCK * (NCLIST - 1)) h"

section \<open>Operations\<close>

definition getc :: "cheap \<Rightarrow> clist \<Rightarrow> int \<times> cheap \<times> clist" where
  "getc h p =
     (if c_cc p \<le> 0 then (-1, h, empty_clist)
      else
        let c = int (c_info h (c_cf p));
            cf = Suc (c_cf p);
            cc = c_cc p - 1
        in if cc \<le> 0 then
             (c, cblock_free (cblock_of (cf - 1)) h, \<lparr>c_cc = cc, c_cf = 0, c_cl = 0\<rparr>)
           else if cround cf = 0 then
             (let bp = cf - CBLOCK
              in (c, cblock_free bp h, p\<lparr>c_cc := cc, c_cf := info (c_next h bp)\<rparr>))
           else (c, h, p\<lparr>c_cc := cc, c_cf := cf\<rparr>))"

text \<open>\<^verbatim>\<open>bcopy\<close> from a block to a buffer and from a buffer to a block.\<close>

definition cbytes :: "cheap \<Rightarrow> nat \<Rightarrow> nat \<Rightarrow> nat list" where
  "cbytes h from n = map (c_info h) [from..<from + n]"

fun cstore :: "nat \<Rightarrow> nat list \<Rightarrow> cheap \<Rightarrow> cheap" where
  "cstore cq [] h = h"
| "cstore cq (b # bs) h = cstore (Suc cq) bs (h\<lparr>c_info := (c_info h)(cq := b)\<rparr>)"

partial_function (option) q_to_b_loop ::
    "cheap \<Rightarrow> clist \<Rightarrow> nat list \<Rightarrow> int \<Rightarrow> (nat list \<times> cheap \<times> clist) option" where
  "q_to_b_loop h q cp cc =
     (if cc = 0 then Some (cp, h, q)
      else
        let nc = nat (min (min (int (CBLOCK - cround (c_cf q))) cc) (c_cc q));
            cp' = cp @ cbytes h (c_cf q) nc;
            q' = q\<lparr>c_cf := c_cf q + nc, c_cc := c_cc q - int nc\<rparr>;
            cc' = cc - int nc
        in if c_cc q' \<le> 0 then
             Some (cp', cblock_free (cblock_of (c_cf q' - 1)) h, q'\<lparr>c_cf := 0, c_cl := 0\<rparr>)
           else if cround (c_cf q') = 0 then
             (let bp = c_cf q' - CBLOCK
              in q_to_b_loop (cblock_free bp h) (q'\<lparr>c_cf := info (c_next h bp)\<rparr>) cp' cc')
           else q_to_b_loop h q' cp' cc')"

text \<open>The bytes moved to the buffer; their number is the value that the code returns.\<close>

definition q_to_b :: "cheap \<Rightarrow> clist \<Rightarrow> int \<Rightarrow> (nat list \<times> cheap \<times> clist) option" where
  "q_to_b h q cc =
     (if cc \<le> 0 then Some ([], h, q)
      else if c_cc q \<le> 0 then Some ([], h, empty_clist)
      else q_to_b_loop h q [] cc)"

text \<open>The scan of \<^verbatim>\<open>ndqb\<close> for a character that has a bit of \<open>flag\<close>.\<close>

fun ndqb_scan :: "nat list \<Rightarrow> int \<Rightarrow> int \<Rightarrow> int" where
  "ndqb_scan [] flag n = n"
| "ndqb_scan (c # cs) flag n = (if schar c AND flag \<noteq> 0 then n else ndqb_scan cs flag (n + 1))"

definition ndqb :: "cheap \<Rightarrow> clist \<Rightarrow> int \<Rightarrow> int" where
  "ndqb h q flag =
     (if c_cc q \<le> 0 then - c_cc q
      else
        let room = int (cblock_of (c_cf q + CBSIZE)) - int (c_cf q);
            cc = (if c_cc q < room then c_cc q else room)
        in if flag \<noteq> 0 then ndqb_scan (cbytes h (c_cf q) (nat cc)) flag 0 else cc)"

partial_function (option) ndflush_loop :: "cheap \<Rightarrow> clist \<Rightarrow> int \<Rightarrow> (cheap \<times> clist) option" where
  "ndflush_loop h q cc =
     (if 0 < cc \<and> c_cc q \<noteq> 0 then
        let bp = cblock_of (c_cf q);
            fin = (if bp = cblock_of (c_cl q - 1) then c_cl q else bp + CBLOCK);
            rem = int fin - int (c_cf q)
        in if rem \<le> cc then
             ndflush_loop (cblock_free bp h)
               (q\<lparr>c_cc := c_cc q - rem, c_cf := info (c_next h bp)\<rparr>) (cc - rem)
           else
             (let q' = q\<lparr>c_cc := c_cc q - cc, c_cf := c_cf q + nat cc\<rparr>
              in Some (if c_cc q' \<le> 0 then cblock_free bp h else h, q'))
      else Some (h, q))"

definition ndflush :: "cheap \<Rightarrow> clist \<Rightarrow> int \<Rightarrow> (cheap \<times> clist) option" where
  "ndflush h q cc =
     (if c_cc q \<le> 0 then Some (h, q)
      else Option.bind (ndflush_loop h q cc) (\<lambda>(h', q').
        Some (h', if c_cc q' \<le> 0 then empty_clist else q')))"

text \<open>The result of \<open>putc\<close> is 0, or -1 when there is no free block.\<close>

definition putc :: "nat \<Rightarrow> cheap \<Rightarrow> clist \<Rightarrow> int \<times> cheap \<times> clist" where
  "putc c h p =
     (if c_cl p = 0 \<or> c_cc p < 0 then
        (if cfreelist h = 0 then (-1, h, p)
         else
           let (bp, h1) = cblock_take h; cp = info bp
           in (0, h1\<lparr>c_info := (c_info h1)(cp := c mod 256)\<rparr>,
               p\<lparr>c_cf := cp, c_cc := c_cc p + 1, c_cl := Suc cp\<rparr>))
      else if cround (c_cl p) = 0 then
        (let bp0 = c_cl p - CBLOCK; h0 = h\<lparr>c_next := (c_next h)(bp0 := cfreelist h)\<rparr>
         in if cfreelist h0 = 0 then (-1, h0, p)
            else
              let (bp, h1) = cblock_take h0; cp = info bp
              in (0, h1\<lparr>c_info := (c_info h1)(cp := c mod 256)\<rparr>,
                  p\<lparr>c_cc := c_cc p + 1, c_cl := Suc cp\<rparr>))
      else
        (0, h\<lparr>c_info := (c_info h)(c_cl p := c mod 256)\<rparr>,
         p\<lparr>c_cc := c_cc p + 1, c_cl := Suc (c_cl p)\<rparr>))"

text \<open>
  The copy loop of \<open>b_to_q\<close>: the bytes still to move, the heap and the address \<open>cq\<close> to
  store at. The buffer is a list; what is left of it when the blocks run out was not moved.
\<close>

function b_to_q_loop :: "cheap \<Rightarrow> nat \<Rightarrow> nat list \<Rightarrow> nat list \<times> cheap \<times> nat" where
  "b_to_q_loop h cq cp =
     (if cp = [] then ([], h, cq)
      else if cround cq = 0 then
        (let bp0 = cq - CBLOCK; h0 = h\<lparr>c_next := (c_next h)(bp0 := cfreelist h)\<rparr>
         in if cfreelist h0 = 0 then (cp, h0, cq)
            else
              let (bp, h1) = cblock_take h0; cq1 = info bp;
                  nc = min (length cp) (CBLOCK - cround cq1)
              in b_to_q_loop (cstore cq1 (take nc cp) h1) (cq1 + nc) (drop nc cp))
      else
        let nc = min (length cp) (CBLOCK - cround cq)
        in b_to_q_loop (cstore cq (take nc cp) h) (cq + nc) (drop nc cp))"
  by pat_completeness auto
termination
proof (relation "measure (\<lambda>(h, cq, cp). length cp)")
  have pos: "0 < CBLOCK - cround x" for x by (simp add: cround_def)
  show "((cstore cq1 (take nc cp) h1, cq1 + nc, drop nc cp), h, cq, cp) \<in> measure (\<lambda>(h, cq, cp). length cp)"
    if "cp \<noteq> []" "nc = min (length cp) (CBLOCK - cround cq1)"
    for h cq cp bp0 h0 x bp h1 cq1 nc
    using that pos [of cq1] by simp
  show "((cstore cq (take nc cp) h, cq + nc, drop nc cp), h, cq, cp) \<in> measure (\<lambda>(h, cq, cp). length cp)"
    if "cp \<noteq> []" "nc = min (length cp) (CBLOCK - cround cq)" for h cq cp nc
    using that pos [of cq] by simp
qed auto

declare b_to_q_loop.simps [simp del]

text \<open>The result is the list of bytes not moved; its length is what the code returns.\<close>

definition b_to_q :: "nat list \<Rightarrow> cheap \<Rightarrow> clist \<Rightarrow> nat list \<times> cheap \<times> clist" where
  "b_to_q cp h q =
     (if cp = [] then ([], h, q)
      else if c_cl q = 0 \<or> c_cc q < 0 then
        (if cfreelist h = 0 then (cp, h, q\<lparr>c_cl := c_cl q\<rparr>)
         else
           let (bp, h1) = cblock_take h; (rest, h2, cq) = b_to_q_loop h1 (info bp) cp
           in (rest, h2, q\<lparr>c_cf := info bp, c_cl := cq,
                           c_cc := c_cc q + int (length cp - length rest)\<rparr>))
      else
        let (rest, h2, cq) = b_to_q_loop h (c_cl q) cp
        in (rest, h2, q\<lparr>c_cl := cq, c_cc := c_cc q + int (length cp - length rest)\<rparr>))"

definition nextc :: "cheap \<Rightarrow> clist \<Rightarrow> nat \<Rightarrow> nat" where
  "nextc h p cp =
     (if c_cc p \<noteq> 0 \<and> Suc cp \<noteq> c_cl p then
        (if cround (Suc cp) = 0 then info (c_next h (Suc cp - CBLOCK)) else Suc cp)
      else 0)"

text \<open>The search of \<open>unputc\<close> for the block before \<open>target\<close>.\<close>

partial_function (option) find_prev :: "cheap \<Rightarrow> nat \<Rightarrow> nat \<Rightarrow> nat option" where
  "find_prev h bp target =
     (if c_next h bp \<noteq> target then find_prev h (c_next h bp) target else Some bp)"

definition unputc :: "cheap \<Rightarrow> clist \<Rightarrow> (int \<times> cheap \<times> clist) option" where
  "unputc h p =
     (if c_cc p \<le> 0 then Some (-1, h, p)
      else
        let cl = c_cl p - 1; c = schar (c_info h cl); cc = c_cc p - 1
        in if cc \<le> 0 then
             Some (c, cblock_push (cblock_of cl) h, \<lparr>c_cc = cc, c_cf = 0, c_cl = 0\<rparr>)
           else if cround cl = 4 then
             (let cl1 = cblock_of cl
              in Option.bind (find_prev h (cblock_of (c_cf p)) cl1) (\<lambda>obp.
                   let h1 = cblock_push (c_next h obp) h
                   in Some (c, h1\<lparr>c_next := (c_next h1)(obp := 0)\<rparr>,
                            p\<lparr>c_cc := cc, c_cl := obp + CBLOCK\<rparr>)))
           else Some (c, h, p\<lparr>c_cc := cc, c_cl := cl\<rparr>))"

text \<open>The queues of \<open>catq\<close> are different.\<close>

partial_function (option) catq_loop :: "cheap \<Rightarrow> clist \<Rightarrow> clist \<Rightarrow> (cheap \<times> clist \<times> clist) option" where
  "catq_loop h from to =
     (if 0 < c_cc from then
        Option.bind (q_to_b h from (int (CBSIZE * 4))) (\<lambda>(bbuf, h1, from1).
          let (rest, h2, to1) = b_to_q bbuf h1 to in catq_loop h2 from1 to1)
      else Some (h, from, to))"

definition catq :: "cheap \<Rightarrow> clist \<Rightarrow> clist \<Rightarrow> (cheap \<times> clist \<times> clist) option" where
  "catq h from to =
     (if c_cc to = 0 then Some (h, empty_clist, from)
      else catq_loop h from to)"

end
