(* ===== verification/Clist_Rep.thy ===== *)
theory Clist_Rep
  imports Clist "HOL-Library.Multiset"
begin

unbundle bit_operations_syntax

text \<open>
  The representation of byte strings by character lists (\<open>clists_rep\<close>) and the effect of
  every operation of \<^verbatim>\<open>tty_subr.c\<close> on it. Each operation is first shown correct on one
  queue and the free list (\<open>local_rep\<close>), touching only their blocks (\<open>evolves\<close>), and
  then lifted to all queues.
\<close>

section \<open>Representation\<close>

definition block_ok :: "nat \<Rightarrow> bool" where
  "block_ok b \<longleftrightarrow> CBLOCK dvd b \<and> 0 < b"

fun chain :: "(nat \<Rightarrow> nat) \<Rightarrow> nat \<Rightarrow> nat list \<Rightarrow> bool" where
  "chain nx p [] = (p = 0)"
| "chain nx p (b # bs) = (p = b \<and> chain nx (nx b) bs)"

fun qseg :: "cheap \<Rightarrow> nat \<Rightarrow> nat list \<Rightarrow> nat \<Rightarrow> nat list \<Rightarrow> bool" where
  "qseg h f [] l xs = False"
| "qseg h f [b] l xs = (b + 4 \<le> f \<and> f < l \<and> l \<le> b + 32 \<and> xs = map (c_info h) [f..<l])"
| "qseg h f (b # c # bs) l xs =
     (b + 4 \<le> f \<and> f < b + 32 \<and> c_next h b = c \<and>
      (\<exists>ys. xs = map (c_info h) [f..<b + 32] @ ys \<and> qseg h (c + 4) (c # bs) l ys))"

definition clist_rep :: "cheap \<Rightarrow> clist \<Rightarrow> nat list \<Rightarrow> nat list \<Rightarrow> bool" where
  "clist_rep h q bs xs \<longleftrightarrow>
     (if bs = [] then xs = [] \<and> q = empty_clist
      else c_cc q = int (length xs) \<and> qseg h (c_cf q) bs (c_cl q) xs)"

definition free_rep :: "cheap \<Rightarrow> nat list \<Rightarrow> bool" where
  "free_rep h fl \<longleftrightarrow> chain (c_next h) (cfreelist h) fl \<and> cfreecount h = 28 * int (length fl)"

definition same_off :: "nat set \<Rightarrow> cheap \<Rightarrow> cheap \<Rightarrow> bool" where
  "same_off S h h' \<longleftrightarrow> (\<forall>b. b \<notin> S \<longrightarrow> c_next h' b = c_next h b) \<and>
     (\<forall>a. cblock_of a \<notin> S \<longrightarrow> c_info h' a = c_info h a)"

definition local_rep :: "cheap \<Rightarrow> clist \<Rightarrow> nat list \<Rightarrow> nat list \<Rightarrow> nat list \<Rightarrow> bool" where
  "local_rep h q fl bs xs \<longleftrightarrow> distinct (fl @ bs) \<and> (\<forall>b\<in>set (fl @ bs). block_ok b) \<and>
     free_rep h fl \<and> clist_rep h q bs xs"

definition clists_rep :: "nat set \<Rightarrow> cheap \<Rightarrow> clist list \<Rightarrow> nat list list \<Rightarrow> bool" where
  "clists_rep B h qs xss \<longleftrightarrow> (\<exists>fl bss. length bss = length qs \<and> length xss = length qs \<and>
     distinct (fl @ concat bss) \<and> set (fl @ concat bss) = B \<and> (\<forall>b\<in>B. block_ok b) \<and> free_rep h fl \<and>
     (\<forall>i<length qs. clist_rep h (qs ! i) (bss ! i) (xss ! i)))"

section \<open>Addresses\<close>

lemma block_addr:
  assumes "block_ok b" "b \<le> a" "a < b + 32"
  shows "cblock_of a = b" "cround a = a - b"
proof -
  obtain k where "b = 32 * k" using assms(1) by (auto simp: block_ok_def dvd_def)
  moreover have "a = b + (a - b)" "a - b < 32" using assms by auto
  ultimately have "a mod 32 = a - b" by (metis mod_less mod_mult_self4)
  then show "cblock_of a = b" "cround a = a - b"
    using assms by (auto simp: cblock_of_def cround_def)
qed

lemma block_end:
  assumes "block_ok b" shows "cround (b + 32) = 0"
  using assms by (auto simp: block_ok_def cround_def)

lemma qseg_nonempty: "qseg h f bs l xs \<Longrightarrow> xs \<noteq> [] \<and> bs \<noteq> []"
  by (induction h f bs l xs rule: qseg.induct) auto

lemma qseg_head:
  "qseg h f bs l xs \<Longrightarrow> hd bs + 4 \<le> f \<and> f < hd bs + 32"
  by (induction h f bs l xs rule: qseg.induct) auto

lemma qseg_last:
  "qseg h f bs l xs \<Longrightarrow> last bs + 4 < l \<and> l \<le> last bs + 32"
  by (induction h f bs l xs rule: qseg.induct) auto

lemma qseg_cong:
  assumes "\<And>b. b \<in> set (butlast bs) \<Longrightarrow> c_next h' b = c_next h b"
    "\<And>a b. b \<in> set bs \<Longrightarrow> b + 4 \<le> a \<Longrightarrow> a < b + 32 \<Longrightarrow> c_info h' a = c_info h a"
  shows "qseg h' f bs l xs = qseg h f bs l xs"
  using assms
proof (induction h f bs l xs rule: qseg.induct)
  case (2 h f b l xs)
  then show ?case by (auto intro!: map_cong)
next
  case (3 h f b c bs l xs)
  have "map (c_info h') [f..<b + 32] = map (c_info h) [f..<b + 32]" if "b + 4 \<le> f"
    using 3(3) [of b] that by (auto intro!: map_cong)
  moreover have "c_next h' b = c_next h b" using 3(2) by simp
  moreover have "qseg h' (c + 4) (c # bs) l ys = qseg h (c + 4) (c # bs) l ys" for ys
    by (rule 3(1)) (use 3(2,3) in auto)
  ultimately show ?case by auto
qed simp

lemma qseg_frame:
  assumes "same_off S h h'" "set bs \<inter> S = {}" "\<forall>b\<in>set bs. block_ok b"
  shows "qseg h' f bs l xs = qseg h f bs l xs"
proof (rule qseg_cong)
  show "c_next h' b = c_next h b" if "b \<in> set (butlast bs)" for b
    using that assms by (auto simp: same_off_def dest: in_set_butlastD)
  show "c_info h' a = c_info h a" if "b \<in> set bs" "b + 4 \<le> a" "a < b + 32" for a b
    using that assms block_addr(1) [of b a] by (auto simp: same_off_def)
qed

lemma clist_rep_frame:
  assumes "same_off S h h'" "set bs \<inter> S = {}" "\<forall>b\<in>set bs. block_ok b"
  shows "clist_rep h' q bs xs = clist_rep h q bs xs"
  using qseg_frame [OF assms] by (simp add: clist_rep_def)

text \<open>Taking \<open>n\<close> bytes from the front, at most up to the end of the first block.\<close>

lemma qseg_drop:
  assumes "qseg h f (b # bs) l xs" "n \<le> length xs" "f + n \<le> b + 32"
  shows "take n xs = cbytes h f n \<and>
     (if n = length xs then bs = [] \<and> f + n = l
      else if f + n = b + 32 then bs \<noteq> [] \<and> c_next h b = hd bs \<and> qseg h (hd bs + 4) bs l (drop n xs)
      else qseg h (f + n) (b # bs) l (drop n xs))"
proof (cases bs)
  case Nil
  then have "b + 4 \<le> f" "f < l" "l \<le> b + 32" "xs = map (c_info h) [f..<l]" using assms by auto
  moreover have "take n [f..<l] = [f..<f + n]" using calculation assms(2) by simp
  ultimately show ?thesis using Nil assms(2)
    by (auto simp: cbytes_def take_map drop_map)
next
  case (Cons c cs)
  then obtain ys where ys: "xs = map (c_info h) [f..<b + 32] @ ys" "qseg h (c + 4) (c # cs) l ys"
    and b: "b + 4 \<le> f" "f < b + 32" "c_next h b = c" using assms by auto
  have "ys \<noteq> []" using qseg_nonempty ys by blast
  have t: "take n xs = cbytes h f n"
    using ys(1) assms(3) by (simp add: cbytes_def take_map)
  have d: "drop n xs = map (c_info h) [f + n..<b + 32] @ ys"
    using ys(1) assms(3) by (simp add: drop_map)
  have "0 < length ys" "length xs = b + 32 - f + length ys" using \<open>ys \<noteq> []\<close> ys(1) by auto
  then have "n < length xs" using assms(3) b(2) by linarith
  then show ?thesis using t d ys b Cons assms(3) by auto
qed

lemma cstore_simps [simp]:
  "c_next (cstore a ys h) = c_next h" "cfreelist (cstore a ys h) = cfreelist h"
  "cfreecount (cstore a ys h) = cfreecount h"
  by (induction ys arbitrary: a h) auto

lemma cstore_info: "c_info (cstore a ys h) x = (if a \<le> x \<and> x < a + length ys then ys ! (x - a) else c_info h x)"
proof (induction ys arbitrary: a h)
  case (Cons y ys)
  then show ?case by (auto simp: nth_Cons' Suc_diff_le)
qed simp

lemma cstore_read: "map (c_info (cstore a ys h)) [a..<a + length ys] = ys"
  by (rule nth_equalityI) (auto simp: cstore_info)

lemma cstore_below: "l \<le> a \<Longrightarrow> map (c_info (cstore a ys h)) [f..<l] = map (c_info h) [f..<l]"
  by (auto simp: cstore_info)

lemma qseg_extend:
  assumes "qseg h f bs l xs" "l + length ys \<le> last bs + 32"
    "distinct bs" "\<forall>b\<in>set bs. block_ok b"
  shows "qseg (cstore l ys h) f bs (l + length ys) (xs @ ys)"
  using assms
proof (induction h f bs l xs rule: qseg.induct)
  case (2 h f b l xs)
  then have "map (c_info (cstore l ys h)) [f..<l + length ys] = xs @ ys"
    by (simp add: upt_add_eq_append [of f l] cstore_below cstore_read)
  then show ?case using 2 by simp
next
  case (3 h f b c bs l xs)
  from 3(2) obtain zs where zs: "xs = map (c_info h) [f..<b + 32] @ zs" "qseg h (c + 4) (c # bs) l zs"
    and b: "b + 4 \<le> f" "f < b + 32" "c_next h b = c" by auto
  define e where "e = last (c # bs)"
  have e: "e + 4 < l" "e \<in> set (c # bs)" "l + length ys \<le> e + 32"
    using qseg_last [OF zs(2)] 3(3) unfolding e_def by auto
  then have eb: "block_ok e" "block_ok b" "e \<noteq> b" using 3(4,5) by auto
  have "c_info (cstore l ys h) a = c_info h a" if "b + 4 \<le> a" "a < b + 32" for a
  proof (rule ccontr)
    assume "c_info (cstore l ys h) a \<noteq> c_info h a"
    then have "l \<le> a \<and> a < l + length ys" unfolding cstore_info by presburger
    then have "cblock_of a = e" using e by (intro block_addr(1) eb) auto
    moreover have "cblock_of a = b" using that by (intro block_addr(1) eb) auto
    ultimately show False using eb by simp
  qed
  then have "map (c_info (cstore l ys h)) [f..<b + 32] = map (c_info h) [f..<b + 32]"
    using b by simp
  moreover have "qseg (cstore l ys h) (c + 4) (c # bs) (l + length ys) (zs @ ys)"
    by (rule 3(1)) (use 3(3-5) zs(2) in auto)
  ultimately show ?case using b zs(1) by simp
qed simp

lemma qseg_append_block:
  assumes "qseg h f bs (last bs + 32) xs" "c_next h (last bs) = nb" "qseg h (nb + 4) [nb] l ys"
  shows "qseg h f (bs @ [nb]) l (xs @ ys)"
  using assms
proof (induction h f bs "last bs + 32" xs rule: qseg.induct)
  case (3 h f b c bs xs)
  then obtain zs where zs: "xs = map (c_info h) [f..<b + 32] @ zs"
    "qseg h (c + 4) (c # bs) (last (c # bs) + 32) zs"
    and b: "b + 4 \<le> f" "f < b + 32" "c_next h b = c" by auto
  have "qseg h (c + 4) ((c # bs) @ [nb]) l (zs @ ys)"
    using 3(1) [OF _ zs(2)] 3(3,4) by simp
  then show ?case using zs(1) b by simp
qed auto

lemma qseg_new_block:
  assumes "ys \<noteq> []" "length ys \<le> 28"
  shows "qseg (cstore (nb + 4) ys h) (nb + 4) [nb] (nb + 4 + length ys) ys"
  using assms cstore_read [of "nb + 4" ys h] by simp

lemma cbytes_1: "cbytes h a (Suc 0) = [c_info h a]"
  by (simp add: cbytes_def)

lemma qseg_unsnoc:
  assumes "qseg h f bs l (xs @ [x])" "xs \<noteq> []"
  shows "x = c_info h (l - 1) \<and>
     (if l = last bs + 5 then butlast bs \<noteq> [] \<and> c_next h (last (butlast bs)) = last bs \<and>
                         qseg h f (butlast bs) (last (butlast bs) + 32) xs
      else qseg h f bs (l - 1) xs)"
  using assms
proof (induction h f bs l "xs @ [x]" arbitrary: xs rule: qseg.induct)
  case (2 h f b l)
  then obtain k where k: "l = Suc k" "f \<le> k" by (cases l) auto
  then have "xs @ [x] = map (c_info h) [f..<k] @ [c_info h k]" using 2(1) by simp
  then have xs: "xs = map (c_info h) [f..<k]" "x = c_info h k" by auto
  have "f < k" using xs(1) 2(2) by (cases "f < k") auto
  then show ?case using 2(1) k xs by simp
next
  case (3 h f b c bs l)
  then obtain ys where ys: "xs @ [x] = map (c_info h) [f..<b + 32] @ ys" "qseg h (c + 4) (c # bs) l ys"
    and b: "b + 4 \<le> f" "f < b + 32" "c_next h b = c" by auto
  obtain zs z where z: "ys = zs @ [z]" using qseg_nonempty [OF ys(2)] by (cases ys rule: rev_cases) auto
  then have xs: "xs = map (c_info h) [f..<b + 32] @ zs" "x = z" using ys(1) by auto
  show ?case
  proof (cases "zs = []")
    case True
    then have "bs = [] \<and> l = c + 5 \<and> x = c_info h (c + 4)"
      using qseg_drop [OF ys(2), of 1] z xs(2) True by (simp add: cbytes_1)
    then show ?thesis using True b xs by (simp add: add.commute)
  next
    case False
    have "x = c_info h (l - 1) \<and> (if l = last (c # bs) + 5
      then butlast (c # bs) \<noteq> [] \<and> c_next h (last (butlast (c # bs))) = last (c # bs) \<and>
           qseg h (c + 4) (butlast (c # bs)) (last (butlast (c # bs)) + 32) zs
      else qseg h (c + 4) (c # bs) (l - 1) zs)"
      by (rule 3(1) [OF _ False]) (use ys(2) z xs(2) in simp)
    then show ?thesis using b xs by (cases "bs = []"; cases "butlast bs = []") (simp_all split: if_splits)
  qed
qed simp

section \<open>The free list\<close>

lemma chain_upd [simp]: "b \<notin> set bs \<Longrightarrow> chain (nx(b := v)) p bs = chain nx p bs"
  by (induction bs arbitrary: p) auto

lemma cblock_push_simps [simp]:
  "c_next (cblock_push b h) = (c_next h)(b := cfreelist h)" "c_info (cblock_push b h) = c_info h"
  "cfreelist (cblock_push b h) = b" "cfreecount (cblock_push b h) = cfreecount h + 28"
  by (simp_all add: cblock_push_def)

lemma cblock_free_simps [simp]:
  "c_next (cblock_free b h) = (c_next h)(b := cfreelist h)" "c_info (cblock_free b h) = c_info h"
  "cfreelist (cblock_free b h) = b" "cfreecount (cblock_free b h) = cfreecount h + 28"
  by (simp_all add: cblock_free_def cblock_wake_def)

lemma free_rep_push:
  assumes "free_rep h fl" "b \<notin> set fl"
  shows "free_rep (cblock_push b h) (b # fl)" "free_rep (cblock_free b h) (b # fl)"
  using assms by (auto simp: free_rep_def)

lemma free_rep_empty:
  assumes "free_rep h fl" "\<forall>b\<in>set fl. block_ok b"
  shows "cfreelist h = 0 \<longleftrightarrow> fl = []"
  using assms by (cases fl) (auto simp: free_rep_def block_ok_def)

lemma free_rep_take:
  assumes "free_rep h (b # fl)" "b \<notin> set fl"
  obtains h' where "cblock_take h = (b, h')" "free_rep h' fl" "c_info h' = c_info h"
    "c_next h' = (c_next h)(b := 0)" "cfreelist h = b"
proof
  have b: "cfreelist h = b" using assms by (simp add: free_rep_def)
  show "cblock_take h = (b, h\<lparr>cfreelist := c_next h b, cfreecount := cfreecount h - 28,
                c_next := (c_next h)(b := 0)\<rparr>)" using b by (simp add: cblock_take_def)
  show "free_rep (h\<lparr>cfreelist := c_next h b, cfreecount := cfreecount h - 28,
                c_next := (c_next h)(b := 0)\<rparr>) fl"
    using assms by (auto simp: free_rep_def)
qed (use assms in \<open>auto simp: free_rep_def\<close>)

definition evolves :: "cheap \<Rightarrow> nat list \<Rightarrow> nat list \<Rightarrow> cheap \<Rightarrow> nat list \<Rightarrow> nat list \<Rightarrow> bool" where
  "evolves h fl bs h' fl' bs' \<longleftrightarrow> set (fl' @ bs') = set (fl @ bs) \<and> same_off (set (fl @ bs)) h h'"

lemma evolves_refl [simp]: "evolves h fl bs h fl bs"
  by (simp add: evolves_def same_off_def)

lemma same_off_trans: "same_off S h h1 \<Longrightarrow> same_off S h1 h2 \<Longrightarrow> same_off S h h2"
  by (simp add: same_off_def)

lemma evolves_trans:
  "evolves h fl bs h1 fl1 bs1 \<Longrightarrow> evolves h1 fl1 bs1 h2 fl2 bs2 \<Longrightarrow> evolves h fl bs h2 fl2 bs2"
  unfolding evolves_def by (metis same_off_trans)

lemma same_off_free: "b \<in> S \<Longrightarrow> same_off S h (cblock_free b h) \<and> same_off S h (cblock_push b h)"
  by (auto simp: same_off_def)

section \<open>Taking bytes from the front\<close>

text \<open>What \<open>getc\<close> and the loop of \<open>q_to_b\<close> do after reading \<open>n\<close> bytes.\<close>

definition consume :: "cheap \<Rightarrow> clist \<Rightarrow> nat \<Rightarrow> cheap \<times> clist" where
  "consume h q n =
     (let cf = c_cf q + n; cc = c_cc q - int n
      in if cc \<le> 0 then (cblock_free (cblock_of (cf - 1)) h, \<lparr>c_cc = cc, c_cf = 0, c_cl = 0\<rparr>)
         else if cround cf = 0 then
           (cblock_free (cf - CBLOCK) h, q\<lparr>c_cc := cc, c_cf := info (c_next h (cf - CBLOCK))\<rparr>)
         else (h, q\<lparr>c_cc := cc, c_cf := cf\<rparr>))"

lemma local_rep_blocks:
  assumes "local_rep h q fl bs xs" "xs \<noteq> []"
  obtains b bs' where "bs = b # bs'" "qseg h (c_cf q) (b # bs') (c_cl q) xs" "c_cc q = int (length xs)"
    "block_ok b" "b + 4 \<le> c_cf q" "c_cf q < b + 32"
    "CBLOCK - cround (c_cf q) = b + 32 - c_cf q"
proof -
  have ne: "bs \<noteq> []" using assms by (auto simp: local_rep_def clist_rep_def)
  then obtain b bs' where bs: "bs = b # bs'" by (cases bs) auto
  have q: "qseg h (c_cf q) (b # bs') (c_cl q) xs" "c_cc q = int (length xs)" "block_ok b"
    using assms(1) bs by (auto simp: local_rep_def clist_rep_def)
  moreover have f: "b + 4 \<le> c_cf q" "c_cf q < b + 32" using qseg_head [OF q(1)] by auto
  moreover have "cround (c_cf q) = c_cf q - b" using block_addr(2) [OF q(3), of "c_cf q"] f by simp
  ultimately show thesis using that [OF bs] f by simp
qed

text \<open>The bytes already consumed in the first block.\<close>

definition front :: "clist \<Rightarrow> nat list \<Rightarrow> nat" where
  "front q bs = (if bs = [] then 0 else c_cf q - (hd bs + 4))"

lemma front_less: "local_rep h q fl bs xs \<Longrightarrow> front q bs < CBSIZE"
  using qseg_head [of h "c_cf q" bs "c_cl q" xs]
  by (auto simp: front_def local_rep_def clist_rep_def split: if_splits)

lemma consume_local:
  assumes rep: "local_rep h q fl bs xs" and n: "0 < n" "n \<le> length xs" "n \<le> CBLOCK - cround (c_cf q)"
  shows "cbytes h (c_cf q) n = take n xs"
    "\<exists>h' q' fl' bs'. consume h q n = (h', q') \<and> local_rep h' q' fl' bs' (drop n xs) \<and>
       evolves h fl bs h' fl' bs' \<and>
       CBSIZE * length fl + front q bs + n \<le> CBSIZE * length fl' + front q' bs'"
proof -
  have "xs \<noteq> []" using n by auto
  then obtain b bs' where bs: "bs = b # bs'" and seg: "qseg h (c_cf q) (b # bs') (c_cl q) xs"
    and cc: "c_cc q = int (length xs)" and b: "block_ok b" and f: "b + 4 \<le> c_cf q" "c_cf q < b + 32"
    and r: "CBLOCK - cround (c_cf q) = b + 32 - c_cf q"
    by (rule local_rep_blocks [OF rep])
  have le: "c_cf q + n \<le> b + 32" using n(3) r f by simp
  note d = qseg_drop [OF seg n(2) le]
  show "cbytes h (c_cf q) n = take n xs" using d by simp
  have rep': "b \<notin> set fl" "b \<notin> set bs'" "distinct (fl @ bs')" "\<forall>c\<in>set (fl @ b # bs'). block_ok c"
    "free_rep h fl" using rep bs by (auto simp: local_rep_def)
  note push = free_rep_push(2) [OF rep'(5,1)]
  have ev: "evolves h fl bs (cblock_free b h) (b # fl) bs'"
    using bs same_off_free [of b] by (auto simp: evolves_def)
  consider (all) "n = length xs" | (nxt) "n \<noteq> length xs" "c_cf q + n = b + 32"
    | (ins) "n \<noteq> length xs" "c_cf q + n \<noteq> b + 32" by blast
  then show "\<exists>h' q' fl' bs'. consume h q n = (h', q') \<and> local_rep h' q' fl' bs' (drop n xs) \<and>
       evolves h fl bs h' fl' bs' \<and>
       CBSIZE * length fl + front q bs + n \<le> CBSIZE * length fl' + front q' bs'"
  proof cases
    case all
    have "cblock_of (c_cf q + n - 1) = b" by (rule block_addr(1) [OF b]) (use f le n in auto)
    then have "consume h q n = (cblock_free b h, empty_clist)" using all cc by (simp add: consume_def)
    moreover have "local_rep (cblock_free b h) empty_clist (b # fl) bs' (drop n xs)"
      using all d rep' push by (auto simp: local_rep_def clist_rep_def)
    moreover have "front q bs + n \<le> CBSIZE" using le f bs by (simp add: front_def)
    then have "CBSIZE * length fl + front q bs + n \<le> CBSIZE * length (b # fl) + front empty_clist bs'"
      by simp
    ultimately show ?thesis using ev by (intro exI conjI)
  next
    case nxt
    let ?q = "q\<lparr>c_cc := c_cc q - int n, c_cf := info (c_next h b)\<rparr>"
    have "consume h q n = (cblock_free b h, ?q)"
      using nxt cc n block_end [OF b] by (simp add: consume_def)
    moreover have "qseg (cblock_free b h) (hd bs' + 4) bs' (c_cl q) (drop n xs)"
      using d nxt rep'(2) by (subst qseg_cong [of _ _ h]) (auto dest: in_set_butlastD)
    then have "local_rep (cblock_free b h) ?q (b # fl) bs' (drop n xs)"
      using nxt d rep' push cc n by (auto simp: local_rep_def clist_rep_def info_def)
    moreover have "CBSIZE * length fl + front q bs + n \<le> CBSIZE * length (b # fl) + front ?q bs'"
      using nxt f bs by (simp add: front_def)
    ultimately show ?thesis using ev by (intro exI conjI)
  next
    case ins
    have "cround (c_cf q + n) = c_cf q + n - b"
      by (rule block_addr(2) [OF b]) (use f le ins in auto)
    then have "consume h q n = (h, q\<lparr>c_cc := c_cc q - int n, c_cf := c_cf q + n\<rparr>)"
      using ins cc n f by (simp add: consume_def)
    moreover have "local_rep h (q\<lparr>c_cc := c_cc q - int n, c_cf := c_cf q + n\<rparr>) fl bs (drop n xs)"
      using ins d rep rep' cc bs n by (simp add: local_rep_def clist_rep_def)
    moreover have "CBSIZE * length fl + front q bs + n \<le>
        CBSIZE * length fl + front (q\<lparr>c_cc := c_cc q - int n, c_cf := c_cf q + n\<rparr>) bs"
      using f bs by (simp add: front_def)
    ultimately show ?thesis using evolves_refl [of h fl bs] by (intro exI conjI)
  qed
qed

lemma local_rep_cc:
  assumes "local_rep h q fl bs xs"
  shows "c_cc q = int (length xs) \<and> (xs = [] \<longleftrightarrow> bs = [])"
proof (cases "bs = []")
  case False
  then have "c_cc q = int (length xs)" "qseg h (c_cf q) bs (c_cl q) xs"
    using assms by (simp_all add: local_rep_def clist_rep_def)
  then show ?thesis using qseg_nonempty by blast
qed (use assms in \<open>simp add: local_rep_def clist_rep_def\<close>)

lemma local_rep_empty:
  assumes "local_rep h q fl bs []"
  shows "q = empty_clist" "bs = []"
proof -
  show "bs = []" using local_rep_cc [OF assms] by blast
  with assms show "q = empty_clist" unfolding local_rep_def clist_rep_def by metis
qed

lemma getc_consume:
  "0 < c_cc q \<Longrightarrow> getc h q = (int (c_info h (c_cf q)), consume h q 1)"
  by (simp add: getc_def consume_def Let_def)

lemma getc_local:
  assumes "local_rep h q fl bs (x # xs)"
  shows "\<exists>h' q' fl' bs'. getc h q = (int x, h', q') \<and> local_rep h' q' fl' bs' xs \<and>
     evolves h fl bs h' fl' bs'"
proof -
  have "0 < CBLOCK - cround (c_cf q)" by (simp add: cround_def)
  then have n: "1 \<le> CBLOCK - cround (c_cf q)" by simp
  have one: "0 < (1::nat)" "1 \<le> length (x # xs)" by simp_all
  obtain h' q' fl' bs' where c: "consume h q 1 = (h', q')" "local_rep h' q' fl' bs' (drop 1 (x # xs))"
    "evolves h fl bs h' fl' bs'"
    using consume_local(2) [OF assms one n] by (elim exE conjE)
  have "c_info h (c_cf q) = x"
    using consume_local(1) [OF assms one n] by (simp add: cbytes_1)
  moreover have "0 < c_cc q" using local_rep_cc [OF assms] by simp
  ultimately have "getc h q = (int x, h', q')" using getc_consume c(1) by simp
  then show ?thesis using c(2,3) unfolding drop_Suc_Cons One_nat_def drop_0 by (intro exI conjI)
qed

lemma nat_min_int: "nat (min (min (int a) (int b)) (int c)) = min (min a b) c"
  by (simp add: min_def)

lemma clist_upd_order: "q\<lparr>c_cf := f, c_cc := n\<rparr> = q\<lparr>c_cc := n, c_cf := f\<rparr>"
  by simp

lemma q_to_b_loop_step:
  assumes "cc \<noteq> 0" "nc = nat (min (min (int (CBLOCK - cround (c_cf q))) cc) (c_cc q))"
    "consume h q nc = (h', q')"
  shows "q_to_b_loop h q cp cc =
     (if c_cc q - int nc \<le> 0 then Some (cp @ cbytes h (c_cf q) nc, h', q')
      else q_to_b_loop h' q' (cp @ cbytes h (c_cf q) nc) (cc - int nc))"
proof -
  let ?cf = "c_cf q + nc" and ?cc = "c_cc q - int nc"
  have "q_to_b_loop h q cp cc =
     (if ?cc \<le> 0 then Some (cp @ cbytes h (c_cf q) nc, cblock_free (cblock_of (?cf - 1)) h,
         \<lparr>c_cc = ?cc, c_cf = 0, c_cl = 0\<rparr>)
      else if cround ?cf = 0 then
        q_to_b_loop (cblock_free (?cf - CBLOCK) h)
          (q\<lparr>c_cc := ?cc, c_cf := info (c_next h (?cf - CBLOCK))\<rparr>) (cp @ cbytes h (c_cf q) nc) (cc - int nc)
      else q_to_b_loop h (q\<lparr>c_cc := ?cc, c_cf := ?cf\<rparr>) (cp @ cbytes h (c_cf q) nc) (cc - int nc))"
    unfolding q_to_b_loop.simps [of h q cp cc] Let_def assms(2) [symmetric]
    using assms(1) by (simp add: clist_upd_order)
  then show ?thesis using assms(3) unfolding consume_def Let_def
    by (cases "?cc \<le> 0"; cases "cround ?cf = 0") simp_all
qed

lemma q_to_b_loop_local:
  assumes "local_rep h q fl bs xs" "xs \<noteq> []"
  shows "\<exists>h' q' fl' bs'. q_to_b_loop h q cp (int n) = Some (cp @ take n xs, h', q') \<and>
     local_rep h' q' fl' bs' (drop n xs) \<and> evolves h fl bs h' fl' bs' \<and>
     CBSIZE * length fl + front q bs + min n (length xs) \<le> CBSIZE * length fl' + front q' bs'"
  using assms
proof (induction n arbitrary: h q fl bs xs cp rule: less_induct)
  case (less n)
  show ?case
  proof (cases "n = 0")
    case True
    then have "q_to_b_loop h q cp (int n) = Some (cp, h, q)" by (subst q_to_b_loop.simps) simp
    then show ?thesis using True less.prems(1) evolves_refl [of h fl bs]
      by (intro exI [of _ h] exI [of _ q] exI [of _ fl] exI [of _ bs]) simp
  next
    case False
    have cc: "c_cc q = int (length xs)" using local_rep_cc less.prems by blast
    define nc where "nc = min (min (CBLOCK - cround (c_cf q)) n) (length xs)"
    have "0 < CBLOCK - cround (c_cf q)" by (simp add: cround_def)
    then have nc: "0 < nc" "nc \<le> length xs" "nc \<le> CBLOCK - cround (c_cf q)" "nc \<le> n"
      "nc = nat (min (min (int (CBLOCK - cround (c_cf q))) (int n)) (c_cc q))"
      using False less.prems(2) unfolding nc_def cc nat_min_int by simp_all
    obtain h1 q1 fl1 bs1 where c: "consume h q nc = (h1, q1)" "local_rep h1 q1 fl1 bs1 (drop nc xs)"
      "evolves h fl bs h1 fl1 bs1"
      "CBSIZE * length fl + front q bs + nc \<le> CBSIZE * length fl1 + front q1 bs1"
      using consume_local(2) [OF less.prems(1) nc(1-3)] by blast
    have b: "cbytes h (c_cf q) nc = take nc xs"
      using consume_local(1) [OF less.prems(1) nc(1-3)] by blast
    have "int n \<noteq> 0" using False by simp
    note step = q_to_b_loop_step [OF this nc(5) c(1), of cp, unfolded b cc]
    show ?thesis
    proof (cases "nc = length xs")
      case True
      then have r: "q_to_b_loop h q cp (int n) = Some (cp @ take n xs, h1, q1)"
        "drop n xs = drop nc xs" "min n (length xs) = nc"
        unfolding step using True nc(4) by simp_all
      show ?thesis using c(2-4) unfolding r by (intro exI conjI) (rule refl, assumption+)
    next
      case ne: False
      have less': "n - nc < n" using nc(1,4) by simp
      have "drop nc xs \<noteq> []" using ne nc(2) by simp
      from less.IH [OF less' c(2) this, of "cp @ take nc xs"] obtain h' q' fl' bs' where
        r: "q_to_b_loop h1 q1 (cp @ take nc xs) (int (n - nc)) = Some ((cp @ take nc xs) @ take (n - nc) (drop nc xs), h', q')"
        "local_rep h' q' fl' bs' (drop (n - nc) (drop nc xs))" "evolves h1 fl1 bs1 h' fl' bs'"
        "CBSIZE * length fl1 + front q1 bs1 + min (n - nc) (length (drop nc xs)) \<le> CBSIZE * length fl' + front q' bs'"
        by (elim exE conjE)
      have t: "(cp @ take nc xs) @ take (n - nc) (drop nc xs) = cp @ take n xs"
        using nc(4) by (metis append_assoc le_add_diff_inverse take_add)
      have d: "drop (n - nc) (drop nc xs) = drop n xs" using nc(4) by simp
      have i: "int n - int nc = int (n - nc)" using nc(4) by simp
      have "\<not> int (length xs) - int nc \<le> 0" using ne nc(2) by simp
      then have "q_to_b_loop h q cp (int n) = Some (cp @ take n xs, h', q')"
        "local_rep h' q' fl' bs' (drop n xs)"
        using r(1,2) unfolding step i t d by (simp_all only: if_False)
      moreover have "CBSIZE * length fl + front q bs + min n (length xs) \<le> CBSIZE * length fl' + front q' bs'"
        using c(4) r(4) nc(2,4) by auto
      ultimately show ?thesis using evolves_trans [OF c(3) r(3)] by blast
    qed
  qed
qed

section \<open>Appending bytes\<close>

definition seg_rep :: "cheap \<Rightarrow> nat \<Rightarrow> nat list \<Rightarrow> nat list \<Rightarrow> nat \<Rightarrow> nat list \<Rightarrow> bool" where
  "seg_rep h f fl bs l xs \<longleftrightarrow> distinct (fl @ bs) \<and> (\<forall>b\<in>set (fl @ bs). block_ok b) \<and>
     free_rep h fl \<and> qseg h f bs l xs"

lemma same_off_cstore:
  assumes "b \<in> S" "block_ok b" "b \<le> a" "a + length ys \<le> b + 32"
  shows "same_off S h (cstore a ys h)"
  using assms block_addr(1) [of b] by (fastforce simp: same_off_def cstore_info)

lemma qseg_end:
  assumes "qseg h f bs l xs" "\<forall>b\<in>set bs. block_ok b"
  shows "cround l = 0 \<longleftrightarrow> l = last bs + 32" "l \<noteq> last bs + 32 \<Longrightarrow> CBLOCK - cround l = last bs + 32 - l"
    "0 < l" "cblock_of (l - 1) = last bs"
proof -
  have l: "last bs + 4 < l" "l \<le> last bs + 32" using qseg_last [OF assms(1)] by auto
  have "bs \<noteq> []" using qseg_nonempty [OF assms(1)] by simp
  then have b: "block_ok (last bs)" using assms(2) by simp
  have c: "cround l = l - last bs" if "l < last bs + 32"
    using block_addr(2) [OF b _ that] l by simp
  show "cround l = 0 \<longleftrightarrow> l = last bs + 32"
    using c l block_end [OF b] by (cases "l < last bs + 32") auto
  show "l \<noteq> last bs + 32 \<Longrightarrow> CBLOCK - cround l = last bs + 32 - l" using c l by auto
  show "0 < l" using l by simp
  show "cblock_of (l - 1) = last bs" by (rule block_addr(1) [OF b]) (use l in auto)
qed

lemma seg_rep_extend:
  assumes "seg_rep h f fl bs l xs" "l + length ys \<le> last bs + 32"
  shows "seg_rep (cstore l ys h) f fl bs (l + length ys) (xs @ ys)"
    "evolves h fl bs (cstore l ys h) fl bs"
proof -
  have seg: "qseg h f bs l xs" "distinct bs" "\<forall>b\<in>set bs. block_ok b" "bs \<noteq> []"
    using assms(1) qseg_nonempty by (auto simp: seg_rep_def)
  show "seg_rep (cstore l ys h) f fl bs (l + length ys) (xs @ ys)"
    using assms(1) qseg_extend [OF seg(1) assms(2) seg(2,3)] by (simp add: seg_rep_def free_rep_def)
  have "same_off (set (fl @ bs)) h (cstore l ys h)"
    by (rule same_off_cstore [of "last bs"]) (use seg qseg_last [OF seg(1)] assms(2) in auto)
  then show "evolves h fl bs (cstore l ys h) fl bs" by (simp add: evolves_def)
qed

text \<open>Linking a fresh block after a full one and filling it.\<close>

lemma seg_rep_grow:
  assumes rep: "seg_rep h f (nb # fl) bs (last bs + 32) xs"
    and ys: "ys \<noteq> []" "length ys \<le> CBSIZE"
    and h1: "c_next h1 = ((c_next h)(last bs := nb))(nb := 0)" "c_info h1 = c_info h" "free_rep h1 fl"
  shows "seg_rep (cstore (nb + 4) ys h1) f fl (bs @ [nb]) (nb + 4 + length ys) (xs @ ys)"
    "evolves h (nb # fl) bs (cstore (nb + 4) ys h1) fl (bs @ [nb])"
proof -
  let ?h = "cstore (nb + 4) ys h1"
  have seg: "qseg h f bs (last bs + 32) xs" "distinct (nb # fl @ bs)" "\<forall>b\<in>set (nb # fl @ bs). block_ok b"
    "bs \<noteq> []" using rep qseg_nonempty by (auto simp: seg_rep_def)
  have nb: "nb \<notin> set bs" "block_ok nb" "nb \<noteq> last bs" using seg(2-4) by auto
  have "qseg ?h f bs (last bs + 32) xs"
  proof (subst qseg_cong [of bs ?h h])
    show "c_next ?h b = c_next h b" if "b \<in> set (butlast bs)" for b
      using that h1(1) nb(1) seg(2,4)
      by (metis append_butlast_last_id cstore_simps(1) distinct.simps(2) distinct_append
          fun_upd_other in_set_butlastD not_distinct_conv_prefix)
    show "c_info ?h a = c_info h a" if "b \<in> set bs" "b + 4 \<le> a" "a < b + 32" for a b
      using block_addr(1) [of b a] block_addr(1) [of nb a] that nb seg(3) ys(2) h1(2)
      by (auto simp: cstore_info)
  qed (use seg in auto)
  moreover have "c_next ?h (last bs) = nb" using h1(1) nb(3) by simp
  ultimately have "qseg ?h f (bs @ [nb]) (nb + 4 + length ys) (xs @ ys)"
    using qseg_append_block [OF _ _ qseg_new_block [OF ys, of nb h1]] by simp
  then show "seg_rep ?h f fl (bs @ [nb]) (nb + 4 + length ys) (xs @ ys)"
    using seg h1(3) by (auto simp: seg_rep_def free_rep_def)
  have "same_off (set (nb # fl @ bs)) h h1"
    using h1(1,2) seg(4) by (auto simp: same_off_def)
  moreover have "same_off (set (nb # fl @ bs)) h1 ?h"
    by (rule same_off_cstore [of nb]) (use nb ys in auto)
  ultimately have "same_off (set ((nb # fl) @ bs)) h ?h" using same_off_trans by (simp only: append_Cons)
  then show "evolves h (nb # fl) bs ?h fl (bs @ [nb])"
    unfolding evolves_def by auto
qed

definition room :: "nat list \<Rightarrow> nat \<Rightarrow> nat list \<Rightarrow> nat" where
  "room bs l fl = (last bs + 32 - l) + CBSIZE * length fl"

lemma b_to_q_loop_full:
  assumes "seg_rep h f [] bs (last bs + 32) xs" "cp \<noteq> []"
  shows "\<exists>h'. b_to_q_loop h (last bs + 32) cp = (cp, h', last bs + 32) \<and>
     seg_rep h' f [] bs (last bs + 32) xs \<and> evolves h [] bs h' [] bs"
proof -
  let ?h = "h\<lparr>c_next := (c_next h)(last bs := cfreelist h)\<rparr>"
  have seg: "qseg h f bs (last bs + 32) xs" "distinct bs" "\<forall>b\<in>set bs. block_ok b" "free_rep h []"
    using assms(1) by (auto simp: seg_rep_def)
  have ne: "bs \<noteq> []" using qseg_nonempty [OF seg(1)] by simp
  have "cround (last bs + 32) = 0" "cfreelist h = 0"
    using qseg_end(1) [OF seg(1,3)] seg(4) by (auto simp: free_rep_def)
  then have "b_to_q_loop h (last bs + 32) cp = (cp, ?h, last bs + 32)"
    using assms(2) by (subst b_to_q_loop.simps) (simp add: Let_def)
  moreover have "last bs \<notin> set (butlast bs)"
    using seg(2) ne by (metis append_butlast_last_id distinct_append not_distinct_conv_prefix)
  then have "qseg ?h f bs (last bs + 32) xs"
    using seg(1) by (subst qseg_cong [of bs ?h h]) auto
  then have "seg_rep ?h f [] bs (last bs + 32) xs"
    using seg by (simp add: seg_rep_def free_rep_def)
  moreover have "evolves h [] bs ?h [] bs" using ne by (auto simp: evolves_def same_off_def)
  ultimately show ?thesis by blast
qed

lemma b_to_q_loop_new:
  assumes "seg_rep h f (nb # fl) bs (last bs + 32) xs" "cp \<noteq> []" "n = min (length cp) CBSIZE"
  shows "\<exists>h'. b_to_q_loop h (last bs + 32) cp = b_to_q_loop h' (nb + 4 + n) (drop n cp) \<and>
     seg_rep h' f fl (bs @ [nb]) (nb + 4 + n) (xs @ take n cp) \<and> evolves h (nb # fl) bs h' fl (bs @ [nb])"
proof -
  let ?h0 = "h\<lparr>c_next := (c_next h)(last bs := nb)\<rparr>"
  have seg: "qseg h f bs (last bs + 32) xs" "distinct (nb # fl @ bs)" "\<forall>b\<in>set (nb # fl @ bs). block_ok b"
    "free_rep h (nb # fl)" using assms(1) by (auto simp: seg_rep_def)
  have ne: "bs \<noteq> []" using qseg_nonempty [OF seg(1)] by simp
  have nb: "cfreelist h = nb" "nb \<noteq> 0" using seg(3,4) by (auto simp: free_rep_def block_ok_def)
  have "last bs \<notin> set (nb # fl)" using seg(2) ne last_in_set by auto
  then have "free_rep ?h0 (nb # fl)" using seg(4) by (simp add: free_rep_def)
  then obtain h1 where h1: "cblock_take ?h0 = (nb, h1)" "free_rep h1 fl" "c_info h1 = c_info ?h0"
    "c_next h1 = (c_next ?h0)(nb := 0)" using free_rep_take seg(2) by (metis distinct.simps(2) Un_iff set_append)
  have r: "CBLOCK - cround (info nb) = CBSIZE"
    using block_addr(2) [of nb "nb + 4"] seg(3) by (simp add: info_def)
  have "cround (last bs + 32) = 0" using qseg_end(1) [OF seg(1)] seg(3) by simp
  then have "b_to_q_loop h (last bs + 32) cp = b_to_q_loop (cstore (nb + 4) (take n cp) h1) (nb + 4 + n) (drop n cp)"
    using assms(2,3) nb h1(1) r by (subst b_to_q_loop.simps) (simp add: Let_def info_def)
  moreover have "take n cp \<noteq> []" "length (take n cp) \<le> CBSIZE" "length (take n cp) = n"
    using assms(2,3) by auto
  ultimately show ?thesis
    using seg_rep_grow [OF assms(1), of "take n cp" h1] h1 by auto
qed

lemma b_to_q_loop_in:
  assumes "seg_rep h f fl bs l xs" "l \<noteq> last bs + 32" "cp \<noteq> []" "n = min (length cp) (last bs + 32 - l)"
  shows "\<exists>h'. b_to_q_loop h l cp = b_to_q_loop h' (l + n) (drop n cp) \<and>
     seg_rep h' f fl bs (l + n) (xs @ take n cp) \<and> evolves h fl bs h' fl bs"
proof -
  have seg: "qseg h f bs l xs" "\<forall>b\<in>set bs. block_ok b" using assms(1) by (auto simp: seg_rep_def)
  have l: "l < last bs + 32" using qseg_last [OF seg(1)] assms(2) by simp
  have "b_to_q_loop h l cp = b_to_q_loop (cstore l (take n cp) h) (l + n) (drop n cp)"
    using assms(2-4) qseg_end(1,2) [OF seg] by (subst b_to_q_loop.simps) (simp add: Let_def)
  moreover have "length (take n cp) = n" "l + n \<le> last bs + 32" using assms(4) l by auto
  ultimately show ?thesis using seg_rep_extend [OF assms(1), of "take n cp"] by auto
qed

lemma b_to_q_loop_local:
  assumes "seg_rep h f fl bs l xs" "k = min (length cp) (room bs l fl)"
  shows "\<exists>h' fl' bs' l'. b_to_q_loop h l cp = (drop k cp, h', l') \<and>
     seg_rep h' f fl' bs' l' (xs @ take k cp) \<and> evolves h fl bs h' fl' bs'"
  using assms
proof (induction "length cp" arbitrary: h fl bs l xs cp k rule: less_induct)
  case less
  have l: "l \<le> last bs + 32" using less.prems(1) qseg_last by (auto simp: seg_rep_def)
  consider (nil) "cp = []" | (full) "cp \<noteq> []" "l = last bs + 32" "fl = []"
    | (new) nb fl1 where "cp \<noteq> []" "l = last bs + 32" "fl = nb # fl1"
    | (ins) "cp \<noteq> []" "l \<noteq> last bs + 32" by (cases fl) auto
  then show ?case
  proof cases
    case nil
    then have "b_to_q_loop h l cp = (drop k cp, h, l)" by (subst b_to_q_loop.simps) simp
    then show ?thesis using less.prems(1) evolves_refl [of h fl bs] nil by (intro exI conjI) auto
  next
    case full
    then show ?thesis using b_to_q_loop_full [of h f bs xs cp] less.prems by (auto simp: room_def)
  next
    case new
    define n where "n = min (length cp) CBSIZE"
    obtain h1 where h1: "b_to_q_loop h l cp = b_to_q_loop h1 (nb + 4 + n) (drop n cp)"
      "seg_rep h1 f fl1 (bs @ [nb]) (nb + 4 + n) (xs @ take n cp)" "evolves h fl bs h1 fl1 (bs @ [nb])"
      using b_to_q_loop_new [of h f nb fl1 bs xs cp n] less.prems(1) new n_def by auto
    have "length (drop n cp) < length cp" using new(1) by (simp add: n_def)
    from less.hyps [OF this h1(2) refl] obtain h' fl' bs' l' k' where
      r: "k' = min (length (drop n cp)) (room (bs @ [nb]) (nb + 4 + n) fl1)"
      "b_to_q_loop h1 (nb + 4 + n) (drop n cp) = (drop k' (drop n cp), h', l')"
      "seg_rep h' f fl' bs' l' ((xs @ take n cp) @ take k' (drop n cp))" "evolves h1 fl1 (bs @ [nb]) h' fl' bs'"
      by blast
    have k: "k = n + k'" using new less.prems(2) r(1) by (auto simp: room_def n_def min_def)
    have e: "drop k' (drop n cp) = drop k cp" "(xs @ take n cp) @ take k' (drop n cp) = xs @ take k cp"
      unfolding k by (simp add: add.commute) (simp add: take_add)
    have "b_to_q_loop h l cp = (drop k cp, h', l')" "seg_rep h' f fl' bs' l' (xs @ take k cp)"
      using h1(1) r(2,3) unfolding e by simp_all
    then show ?thesis using evolves_trans [OF h1(3) r(4)] by blast
  next
    case ins
    define n where "n = min (length cp) (last bs + 32 - l)"
    obtain h1 where h1: "b_to_q_loop h l cp = b_to_q_loop h1 (l + n) (drop n cp)"
      "seg_rep h1 f fl bs (l + n) (xs @ take n cp)" "evolves h fl bs h1 fl bs"
      using b_to_q_loop_in [OF less.prems(1) ins(2,1) n_def] by auto
    have "length (drop n cp) < length cp" using ins l by (simp add: n_def)
    from less.hyps [OF this h1(2) refl] obtain h' fl' bs' l' k' where
      r: "k' = min (length (drop n cp)) (room bs (l + n) fl)"
      "b_to_q_loop h1 (l + n) (drop n cp) = (drop k' (drop n cp), h', l')"
      "seg_rep h' f fl' bs' l' ((xs @ take n cp) @ take k' (drop n cp))" "evolves h1 fl bs h' fl' bs'"
      by blast
    have k: "k = n + k'" using ins less.prems(2) r(1) l by (auto simp: room_def n_def min_def)
    have e: "drop k' (drop n cp) = drop k cp" "(xs @ take n cp) @ take k' (drop n cp) = xs @ take k cp"
      unfolding k by (simp add: add.commute) (simp add: take_add)
    have "b_to_q_loop h l cp = (drop k cp, h', l')" "seg_rep h' f fl' bs' l' (xs @ take k cp)"
      using h1(1) r(2,3) unfolding e by simp_all
    then show ?thesis using evolves_trans [OF h1(3) r(4)] by blast
  qed
qed

definition avail :: "clist \<Rightarrow> nat list \<Rightarrow> nat list \<Rightarrow> nat" where
  "avail q bs fl = (if bs = [] then CBSIZE * length fl else room bs (c_cl q) fl)"

lemma local_rep_seg:
  assumes "local_rep h q fl bs xs" "bs \<noteq> []"
  shows "seg_rep h (c_cf q) fl bs (c_cl q) xs" "c_cc q = int (length xs)" "0 < c_cl q"
proof -
  show s: "seg_rep h (c_cf q) fl bs (c_cl q) xs" and "c_cc q = int (length xs)"
    using assms by (simp_all add: local_rep_def seg_rep_def clist_rep_def)
  show "0 < c_cl q" using s qseg_end(3) by (auto simp: seg_rep_def)
qed

lemma seg_rep_local:
  assumes "seg_rep h f fl bs l xs" "q = \<lparr>c_cc = int (length xs), c_cf = f, c_cl = l\<rparr>"
  shows "local_rep h q fl bs xs"
  using assms qseg_nonempty [of h f bs l xs] by (simp add: local_rep_def seg_rep_def clist_rep_def)

lemma b_to_q_first:
  assumes "free_rep h (nb # fl)" "distinct (nb # fl)" "\<forall>b\<in>set (nb # fl). block_ok b"
    "cp \<noteq> []" "k = min (length cp) (CBSIZE * Suc (length fl))" "cblock_take h = (nb, h1)"
  shows "\<exists>h' fl' bs' l'. b_to_q_loop h1 (nb + 4) cp = (drop k cp, h', l') \<and>
     seg_rep h' (nb + 4) fl' bs' l' (take k cp) \<and> evolves h (nb # fl) [] h' fl' bs'"
proof -
  define n where "n = min (length cp) CBSIZE"
  let ?h = "cstore (nb + 4) (take n cp) h1"
  have nb: "block_ok nb" "nb \<notin> set fl" using assms by auto
  have h1: "free_rep h1 fl" "c_info h1 = c_info h" "c_next h1 = (c_next h)(nb := 0)"
    using free_rep_take [OF assms(1) nb(2)] assms(6) by auto
  have r: "cround (nb + 4) = 4" using block_addr(2) [OF nb(1), of "nb + 4"] by simp
  have step: "b_to_q_loop h1 (nb + 4) cp = b_to_q_loop ?h (nb + 4 + n) (drop n cp)"
    using assms(4) r by (subst b_to_q_loop.simps) (simp add: Let_def n_def)
  have n: "take n cp \<noteq> []" "length (take n cp) = n" "n \<le> 28" using assms(4) by (auto simp: n_def)
  have "qseg ?h (nb + 4) [nb] (nb + 4 + n) (take n cp)"
    using qseg_new_block [of "take n cp" nb h1] n by simp
  then have seg: "seg_rep ?h (nb + 4) fl [nb] (nb + 4 + n) (take n cp)"
    using h1(1) nb assms(2,3) by (simp add: seg_rep_def free_rep_def)
  have "same_off (set (nb # fl)) h1 ?h"
    by (rule same_off_cstore [of nb]) (use nb n in auto)
  moreover have "same_off (set (nb # fl)) h h1" using h1(2,3) by (simp add: same_off_def)
  ultimately have off: "same_off (set (nb # fl)) h ?h" using same_off_trans by blast
  have ev: "evolves h (nb # fl) [] ?h fl [nb]" using off unfolding evolves_def by auto
  define k' where "k' = min (length (drop n cp)) (room [nb] (nb + 4 + n) fl)"
  have k: "k = n + k'" using assms(5) n by (auto simp: k'_def room_def n_def min_def)
  obtain h' fl' bs' l' where r: "b_to_q_loop ?h (nb + 4 + n) (drop n cp) = (drop k' (drop n cp), h', l')"
    "seg_rep h' (nb + 4) fl' bs' l' (take n cp @ take k' (drop n cp))" "evolves ?h fl [nb] h' fl' bs'"
    using b_to_q_loop_local [OF seg k'_def] by blast
  have e: "drop k' (drop n cp) = drop k cp" "take n cp @ take k' (drop n cp) = take k cp"
    unfolding k by (simp add: add.commute) (simp add: take_add)
  show ?thesis using r(1,2) evolves_trans [OF ev r(3)] unfolding step e by blast
qed

lemma b_to_q_local:
  assumes rep: "local_rep h q fl bs xs" and k: "k = min (length cp) (avail q bs fl)"
  shows "\<exists>h' q' fl' bs'. b_to_q cp h q = (drop k cp, h', q') \<and>
     local_rep h' q' fl' bs' (xs @ take k cp) \<and> evolves h fl bs h' fl' bs'"
proof -
  have fl: "free_rep h fl" "\<forall>b\<in>set fl. block_ok b" "distinct fl"
    using rep by (auto simp: local_rep_def)
  consider (nil) "cp = []" | (out) "cp \<noteq> []" "bs = []" "fl = []"
    | (first) nb fl1 where "cp \<noteq> []" "bs = []" "fl = nb # fl1" | (more) "cp \<noteq> []" "bs \<noteq> []"
    by (cases fl) auto
  then show ?thesis
  proof cases
    case nil
    then have "b_to_q cp h q = (drop k cp, h, q)" by (simp add: b_to_q_def)
    then show ?thesis using rep evolves_refl [of h fl bs] nil by (intro exI conjI) auto
  next
    case out
    have "xs = []" "q = empty_clist" using rep out by (simp_all add: local_rep_def clist_rep_def)
    moreover have "cfreelist h = 0" using free_rep_empty [OF fl(1,2)] out by simp
    moreover have "k = 0" using k out by (simp add: avail_def)
    ultimately have "b_to_q cp h q = (drop k cp, h, q)" "xs @ take k cp = xs"
      using out by (simp_all add: b_to_q_def)
    then show ?thesis using rep evolves_refl [of h fl bs] by (intro exI conjI) auto
  next
    case first
    have q: "xs = []" "q = empty_clist" using rep first by (simp_all add: local_rep_def clist_rep_def)
    obtain h1 where h1: "cblock_take h = (nb, h1)" "cfreelist h = nb"
      using free_rep_take [of h nb fl1] fl first by auto
    have nz: "nb \<noteq> 0" using fl(2) first by (simp add: block_ok_def)
    have "k = min (length cp) (CBSIZE * Suc (length fl1))" using k first by (simp add: avail_def)
    from b_to_q_first [OF _ _ _ first(1) this h1(1)] fl first
    obtain h' fl' bs' l' where r: "b_to_q_loop h1 (nb + 4) cp = (drop k cp, h', l')"
      "seg_rep h' (nb + 4) fl' bs' l' (take k cp)" "evolves h fl bs h' fl' bs'" by auto
    have len: "length cp - length (drop k cp) = length (take k cp)" by simp
    have "b_to_q cp h q = (drop k cp, h', \<lparr>c_cc = int (length (take k cp)), c_cf = nb + 4, c_cl = l'\<rparr>)"
      using first(1) q h1 nz r(1) len by (simp add: b_to_q_def Let_def info_def)
    then show ?thesis
      using seg_rep_local [OF r(2) refl] r(3) q(1) by (intro exI conjI) auto
  next
    case more
    note seg = local_rep_seg [OF rep more(2)]
    have "k = min (length cp) (room bs (c_cl q) fl)" using k more by (simp add: avail_def)
    from b_to_q_loop_local [OF seg(1) this] obtain h' fl' bs' l' where
      r: "b_to_q_loop h (c_cl q) cp = (drop k cp, h', l')"
      "seg_rep h' (c_cf q) fl' bs' l' (xs @ take k cp)" "evolves h fl bs h' fl' bs'" by blast
    have len: "length cp - length (drop k cp) = length (take k cp)" by simp
    have "b_to_q cp h q = (drop k cp, h',
        \<lparr>c_cc = int (length (xs @ take k cp)), c_cf = c_cf q, c_cl = l'\<rparr>)"
      using more(1) seg(2,3) r(1) len by (simp add: b_to_q_def)
    then show ?thesis
      using seg_rep_local [OF r(2) refl] r(3) by (intro exI conjI) auto
  qed
qed

text \<open>\<open>putc\<close> is \<open>b_to_q\<close> of one byte.\<close>

lemma putc_b_to_q:
  assumes "cfreelist h = 0 \<or> cround (info (cfreelist h)) \<noteq> 0"
  shows "putc c h p =
     (case b_to_q [c mod 256] h p of (rest, h', p') \<Rightarrow> (if rest = [] then 0 else -1, h', p'))"
proof -
  have r: "min (Suc 0) (CBLOCK - cround x) = Suc 0" for x by (simp add: cround_def min_def)
  have nil: "b_to_q_loop h cq [] = ([], h, cq)" for h cq by (subst b_to_q_loop.simps) simp
  have one: "b_to_q_loop h cq [b] =
     (if cround cq = 0 then
        (let h0 = h\<lparr>c_next := (c_next h)(cq - CBLOCK := cfreelist h)\<rparr>
         in if cfreelist h = 0 then ([b], h0, cq)
            else let (bp, h1) = cblock_take h0
                 in ([], h1\<lparr>c_info := (c_info h1)(info bp := b)\<rparr>, Suc (info bp)))
      else ([], h\<lparr>c_info := (c_info h)(cq := b)\<rparr>, Suc cq))" for h cq b
    by (subst b_to_q_loop.simps) (simp add: Let_def r nil split: prod.splits)
  show ?thesis
  proof (cases "c_cl p = 0 \<or> c_cc p < 0")
    case True
    then show ?thesis using assms by (auto simp: putc_def b_to_q_def one Let_def cblock_take_def)
  next
    case False
    then show ?thesis by (auto simp: putc_def b_to_q_def one Let_def cblock_take_def)
  qed
qed

lemma putc_local:
  assumes rep: "local_rep h q fl bs xs"
  shows "\<exists>h' q' fl' bs'. putc c h q = (if avail q bs fl = 0 then -1 else 0, h', q') \<and>
     local_rep h' q' fl' bs' (if avail q bs fl = 0 then xs else xs @ [c mod 256]) \<and>
     evolves h fl bs h' fl' bs'"
proof -
  have fl: "free_rep h fl" "\<forall>b\<in>set fl. block_ok b" using rep by (auto simp: local_rep_def)
  have "cfreelist h = 0 \<or> cround (info (cfreelist h)) \<noteq> 0"
  proof (cases fl)
    case (Cons b bs)
    then have "block_ok b" "cfreelist h = b" using fl by (auto simp: free_rep_def)
    then show ?thesis using block_addr(2) [of b "b + 4"] by (simp add: info_def)
  qed (use fl in \<open>simp add: free_rep_def\<close>)
  note eq = putc_b_to_q [OF this, of c q]
  define k where "k = min (length [c mod 256]) (avail q bs fl)"
  obtain h' q' fl' bs' where b: "b_to_q [c mod 256] h q = (drop k [c mod 256], h', q')"
    "local_rep h' q' fl' bs' (xs @ take k [c mod 256])" "evolves h fl bs h' fl' bs'"
    using b_to_q_local [OF rep k_def] by blast
  have "k = (if avail q bs fl = 0 then 0 else 1)" by (simp add: k_def)
  then show ?thesis using b unfolding eq by (intro exI conjI) auto
qed

section \<open>Removing the last byte\<close>

lemma find_prev_step:
  "find_prev h bp target = (if c_next h bp \<noteq> target then find_prev h (c_next h bp) target else Some bp)"
  by (rule find_prev.simps)

lemma find_prev_last:
  assumes "qseg h f (b # c # bs) l xs" "distinct (b # c # bs)"
  shows "find_prev h b (last (c # bs)) = Some (last (butlast (b # c # bs)))"
  using assms
proof (induction bs arbitrary: f b c xs)
  case Nil
  then show ?case by (subst find_prev_step) simp
next
  case (Cons d bs)
  from Cons.prems(1) obtain ys where ys: "qseg h (c + 4) (c # d # bs) l ys" and next_b: "c_next h b = c" by auto
  have "find_prev h c (last (d # bs)) = Some (last (butlast (c # d # bs)))"
    by (rule Cons.IH [OF ys]) (use Cons.prems(2) in simp)
  moreover have "c \<noteq> last (d # bs)" using Cons.prems(2) last_in_set [of "d # bs"] by auto
  ultimately show ?case using next_b by (subst find_prev_step) simp
qed

lemma butlast_not_last: "distinct bs \<Longrightarrow> bs \<noteq> [] \<Longrightarrow> last bs \<notin> set (butlast bs)"
  by (metis append_butlast_last_id distinct_append not_distinct_conv_prefix)

lemma unputc_last_block:
  assumes rep: "local_rep h q fl bs (xs @ [x])" and ne: "xs \<noteq> []" and l: "c_cl q = last bs + 5"
  shows "\<exists>h' q' fl' bs'. unputc h q = Some (schar x, h', q') \<and> local_rep h' q' fl' bs' xs \<and>
     evolves h fl bs h' fl' bs'"
proof -
  have "bs \<noteq> []" using local_rep_cc [OF rep] by auto
  note seg = local_rep_seg [OF rep this]
  have q: "qseg h (c_cf q) bs (c_cl q) (xs @ [x])" "distinct (fl @ bs)" "\<forall>b\<in>set (fl @ bs). block_ok b"
    "free_rep h fl" using seg(1) by (auto simp: seg_rep_def)
  let ?obp = "last (butlast bs)" and ?e = "last bs"
  have u: "x = c_info h (c_cl q - 1)" "butlast bs \<noteq> []" "c_next h ?obp = ?e"
    "qseg h (c_cf q) (butlast bs) (?obp + 32) xs"
    using qseg_unsnoc [OF q(1) ne] l by simp_all
  obtain b t where t: "bs = b # t" "t \<noteq> []" using u(2) by (cases bs) (auto split: if_splits)
  obtain c cs where "t = c # cs" using t(2) by (cases t) auto
  with t have bs: "bs = b # c # cs" by simp
  have e: "block_ok ?e" "?e \<notin> set fl" "?e \<notin> set (butlast bs)"
    using q(2,3) \<open>bs \<noteq> []\<close> butlast_not_last by auto
  have cl: "c_cl q - 1 = ?e + 4" using l by simp
  have r: "cround (?e + 4) = 4" "cblock_of (?e + 4) = ?e"
    using block_addr [OF e(1), of "?e + 4"] by simp_all
  have f: "cblock_of (c_cf q) = b"
    by (rule block_addr(1)) (use q(3) bs qseg_head [OF q(1)] in auto)
  have prev: "find_prev h (cblock_of (c_cf q)) ?e = Some ?obp"
    using find_prev_last [of h "c_cf q" b c cs "c_cl q" "xs @ [x]"] q(1,2) f bs by simp
  let ?h = "(cblock_push ?e h)\<lparr>c_next := (c_next (cblock_push ?e h))(?obp := 0)\<rparr>"
  let ?q = "\<lparr>c_cc = int (length xs), c_cf = c_cf q, c_cl = ?obp + 32\<rparr>"
  have "unputc h q = Some (schar x, ?h, ?q)"
    using seg(2) ne u(1,3) r prev unfolding unputc_def Let_def cl by simp
  moreover have obp: "?obp \<in> set (butlast bs)" using u(2) by simp
  then have obp': "?obp \<in> set bs" "?obp \<noteq> ?e" using e(3) by (auto dest: in_set_butlastD)
  moreover have "?obp \<notin> set (?e # fl)" using q(2) obp' by auto
  then have free: "free_rep ?h (?e # fl)"
    using free_rep_push(1) [OF q(4) e(2)] by (simp add: free_rep_def)
  moreover have "qseg ?h (c_cf q) (butlast bs) (?obp + 32) xs"
    using u(4) e(3) butlast_not_last [of "butlast bs"] q(2) u(2)
    by (subst qseg_cong [of _ _ h]) (auto simp: distinct_butlast dest: in_set_butlastD)
  then have "local_rep ?h ?q (?e # fl) (butlast bs) xs"
    using q(2,3) e u(2) free
    by (auto simp: local_rep_def clist_rep_def distinct_butlast dest: in_set_butlastD)
  moreover have "set (?e # butlast bs) = set bs"
    using \<open>bs \<noteq> []\<close> by (metis append_butlast_last_id set_append Un_commute list.simps(15) insert_is_Un empty_set)
  then have "evolves h fl bs ?h (?e # fl) (butlast bs)"
    using obp'(1) \<open>bs \<noteq> []\<close> by (auto simp: evolves_def same_off_def)
  ultimately show ?thesis by blast
qed

lemma unputc_local:
  assumes rep: "local_rep h q fl bs (xs @ [x])"
  shows "\<exists>h' q' fl' bs'. unputc h q = Some (schar x, h', q') \<and> local_rep h' q' fl' bs' xs \<and>
     evolves h fl bs h' fl' bs'"
proof -
  have ne: "bs \<noteq> []" using local_rep_cc [OF rep] by auto
  note seg = local_rep_seg [OF rep ne]
  have q: "qseg h (c_cf q) bs (c_cl q) (xs @ [x])" "distinct (fl @ bs)" "\<forall>b\<in>set (fl @ bs). block_ok b"
    "free_rep h fl" using seg(1) by (auto simp: seg_rep_def)
  have okb: "\<forall>b\<in>set bs. block_ok b" using q(3) by simp
  have l: "last bs + 4 < c_cl q" "c_cl q \<le> last bs + 32" using qseg_last [OF q(1)] by auto
  consider (one) "xs = []" | (last) "xs \<noteq> []" "c_cl q = last bs + 5" | (more) "xs \<noteq> []" "c_cl q \<noteq> last bs + 5"
    by blast
  then show ?thesis
  proof cases
    case one
    obtain b bs' where bs: "bs = b # bs'" using ne by (cases bs) auto
    have f: "b + 4 \<le> c_cf q" "c_cf q < b + 32" using qseg_head [OF q(1)] bs by auto
    have d: "bs' = []" "c_cf q + 1 = c_cl q" "[x] = cbytes h (c_cf q) 1"
      using qseg_drop [of h "c_cf q" b bs' "c_cl q" "[x]" 1] q(1) one bs f by simp_all
    have "cblock_of (c_cf q) = b" by (rule block_addr(1)) (use f okb bs in auto)
    then have "unputc h q = Some (schar x, cblock_push b h, empty_clist)"
      using seg(2) one d(3) by (simp add: unputc_def Let_def cbytes_1 flip: d(2))
    moreover have "local_rep (cblock_push b h) empty_clist (b # fl) [] xs"
      using free_rep_push(1) [OF q(4), of b] q(2,3) bs d(1) one by (simp add: local_rep_def clist_rep_def)
    moreover have "evolves h fl bs (cblock_push b h) (b # fl) []"
      using bs d(1) by (simp add: evolves_def same_off_def)
    ultimately show ?thesis by blast
  next
    case last
    then show ?thesis by (rule unputc_last_block [OF rep])
  next
    case more
    have u: "x = c_info h (c_cl q - 1)" "qseg h (c_cf q) bs (c_cl q - 1) xs"
      using qseg_unsnoc [OF q(1) more(1)] more(2) by simp_all
    have "block_ok (last bs)" using ne okb by simp
    then have "cround (c_cl q - 1) = c_cl q - 1 - last bs" using l by (intro block_addr(2)) auto
    then have "cround (c_cl q - 1) \<noteq> 4" using l more(2) by simp
    then have "unputc h q = Some (schar x, h, \<lparr>c_cc = int (length xs), c_cf = c_cf q, c_cl = c_cl q - 1\<rparr>)"
      using seg(2) more(1) u(1) by (simp add: unputc_def Let_def)
    moreover have "seg_rep h (c_cf q) fl bs (c_cl q - 1) xs"
      using q(2-4) u(2) by (simp add: seg_rep_def)
    ultimately show ?thesis using seg_rep_local [OF _ refl] evolves_refl [of h fl bs] by blast
  qed
qed

section \<open>Flushing\<close>

definition flushed :: "cheap \<times> clist \<Rightarrow> cheap \<times> clist" where
  "flushed = (\<lambda>(h, q). (h, if c_cc q \<le> 0 then empty_clist else q))"

lemma ndflush_loop_stop: "cc \<le> 0 \<or> c_cc q = 0 \<Longrightarrow> ndflush_loop h q cc = Some (h, q)"
  by (subst ndflush_loop.simps) auto

text \<open>One round that frees the first block is \<open>consume\<close> of all its bytes.\<close>

lemma ndflush_block:
  assumes rep: "local_rep h q fl bs xs" and "xs \<noteq> []"
  defines "b \<equiv> cblock_of (c_cf q)"
  defines "rem \<equiv> (if b = cblock_of (c_cl q - 1) then c_cl q else b + CBLOCK) - c_cf q"
  shows "0 < rem" "rem \<le> length xs" "rem \<le> CBLOCK - cround (c_cf q)"
    "rem < length xs \<Longrightarrow> consume h q rem = (cblock_free b h, q\<lparr>c_cc := c_cc q - int rem, c_cf := info (c_next h b)\<rparr>)"
    "rem = length xs \<Longrightarrow> consume h q rem = (cblock_free b h, empty_clist)"
    "int (if b = cblock_of (c_cl q - 1) then c_cl q else b + CBLOCK) - int (c_cf q) = int rem"
    "n < rem \<Longrightarrow> cround (c_cf q + n) \<noteq> 0"
proof -
  obtain b' bs' where bs: "bs = b' # bs'" and seg: "qseg h (c_cf q) (b' # bs') (c_cl q) xs"
    and cc: "c_cc q = int (length xs)" and b': "block_ok b'" and f: "b' + 4 \<le> c_cf q" "c_cf q < b' + 32"
    and r: "CBLOCK - cround (c_cf q) = b' + 32 - c_cf q"
    by (rule local_rep_blocks [OF rep assms(2)])
  have bb: "b = b'" unfolding b_def by (rule block_addr(1) [OF b']) (use f in auto)
  have okb: "\<forall>b\<in>set (b' # bs'). block_ok b" and dist: "distinct (b' # bs')"
    using rep bs by (auto simp: local_rep_def)
  note e = qseg_end(4) [OF seg okb]
  have "b' = last (b' # bs') \<longleftrightarrow> bs' = []"
    using dist last_in_set [of bs'] by (cases "bs' = []") fastforce+
  then have rem: "rem = (if bs' = [] then c_cl q else b' + 32) - c_cf q"
    unfolding rem_def bb e by (cases "bs' = []") simp_all
  have one: "bs' = [] \<Longrightarrow> c_cf q < c_cl q \<and> c_cl q \<le> b' + 32 \<and> length xs = c_cl q - c_cf q"
    using seg by (metis length_map length_upt qseg.simps(2))
  have two: "bs' \<noteq> [] \<Longrightarrow> b' + 32 - c_cf q < length xs"
  proof -
    assume "bs' \<noteq> []"
    then obtain c cs where "bs' = c # cs" by (cases bs') auto
    then obtain ys where "xs = map (c_info h) [c_cf q..<b' + 32] @ ys" "ys \<noteq> []"
      using seg qseg_nonempty by fastforce
    then show "b' + 32 - c_cf q < length xs" by simp
  qed
  have bounds: "c_cf q + rem \<le> b' + 32 \<and> 0 < rem \<and> rem \<le> length xs \<and>
      (if bs' = [] then rem = length xs else c_cf q + rem = b' + 32 \<and> rem < length xs)"
  proof (cases "bs' = []")
    case True
    then show ?thesis using one [OF True] rem by simp
  next
    case False
    then show ?thesis using two [OF False] rem f by simp
  qed
  then have fin: "c_cf q + rem \<le> b' + 32" "0 < rem" "rem \<le> length xs" by simp_all
  show "0 < rem" "rem \<le> length xs" by (rule fin)+
  show "rem \<le> CBLOCK - cround (c_cf q)" unfolding r using fin(1) by simp
  show "consume h q rem = (cblock_free b h, empty_clist)" if "rem = length xs"
  proof -
    have "cblock_of (c_cf q + rem - 1) = b'" by (rule block_addr(1) [OF b']) (use f fin in auto)
    then show ?thesis using that cc bb by (simp add: consume_def Let_def)
  qed
  show "consume h q rem = (cblock_free b h, q\<lparr>c_cc := c_cc q - int rem, c_cf := info (c_next h b)\<rparr>)"
    if "rem < length xs"
  proof -
    have "c_cf q + rem = b' + 32" using bounds that by (simp split: if_splits)
    then show ?thesis using that cc bb block_end [OF b'] by (simp add: consume_def Let_def)
  qed
  show "int (if b = cblock_of (c_cl q - 1) then c_cl q else b + CBLOCK) - int (c_cf q) = int rem"
    using fin(2) unfolding rem_def by auto
  show "cround (c_cf q + n) \<noteq> 0" if "n < rem"
    using block_addr(2) [OF b', of "c_cf q + n"] f fin(1) that by simp
qed

lemma ndflush_loop_local:
  assumes "local_rep h q fl bs xs" "xs \<noteq> []"
  shows "\<exists>h1 q1 h' q' fl' bs'. ndflush_loop h q (int n) = Some (h1, q1) \<and> flushed (h1, q1) = (h', q') \<and>
     local_rep h' q' fl' bs' (drop n xs) \<and> evolves h fl bs h' fl' bs'"
  using assms
proof (induction n arbitrary: h q fl bs xs rule: less_induct)
  case (less n)
  have cc: "c_cc q = int (length xs)" "0 < length xs" using local_rep_cc less.prems by auto
  define b where "b = cblock_of (c_cf q)"
  define rem where "rem = (if b = cblock_of (c_cl q - 1) then c_cl q else b + CBLOCK) - c_cf q"
  note blk = ndflush_block [OF less.prems, folded b_def, folded rem_def]
  show ?case
  proof (cases "n = 0")
    case True
    then have "ndflush_loop h q (int n) = Some (h, q)" by (simp add: ndflush_loop_stop)
    moreover have "flushed (h, q) = (h, q)" using cc by (simp add: flushed_def)
    ultimately show ?thesis using True less.prems(1) evolves_refl [of h fl bs] by (metis drop0)
  next
    case n0: False
    obtain h1 q1 fl1 bs1 where c: "consume h q rem = (h1, q1)" "local_rep h1 q1 fl1 bs1 (drop rem xs)"
      "evolves h fl bs h1 fl1 bs1"
      using consume_local(2) [OF less.prems(1) blk(1-3)] by (elim exE conjE)
    let ?q = "q\<lparr>c_cc := c_cc q - int rem, c_cf := info (c_next h b)\<rparr>"
    have loop: "ndflush_loop h q (int n) =
      (if rem \<le> n then ndflush_loop (cblock_free b h) ?q (int n - int rem)
       else Some (if length xs \<le> n then cblock_free b h else h, q\<lparr>c_cc := c_cc q - int n, c_cf := c_cf q + n\<rparr>))"
      using n0 cc unfolding ndflush_loop.simps [of h q "int n"] Let_def b_def [symmetric] blk(6)
      by simp
    consider (small) "n < rem" | (all) "rem \<le> n" "rem = length xs" | (block) "rem \<le> n" "rem < length xs"
      using blk(2) by linarith
    then show ?thesis
    proof cases
      case small
      have lim: "n \<le> length xs" "n \<le> CBLOCK - cround (c_cf q)" "0 < n" "n < length xs"
        using small blk(2,3) n0 by auto
      obtain h2 q2 fl2 bs2 where c2: "consume h q n = (h2, q2)" "local_rep h2 q2 fl2 bs2 (drop n xs)"
        "evolves h fl bs h2 fl2 bs2"
        using consume_local(2) [OF less.prems(1) lim(3,1,2)] by (elim exE conjE)
      have "consume h q n = (h, q\<lparr>c_cc := c_cc q - int n, c_cf := c_cf q + n\<rparr>)"
        using lim(4) cc blk(7) [OF small] by (simp add: consume_def Let_def)
      then have "h2 = h" "q2 = q\<lparr>c_cc := c_cc q - int n, c_cf := c_cf q + n\<rparr>" using c2(1) by auto
      then show ?thesis using loop small c2(2,3) lim(4) cc
        by (intro exI [of _ h] exI [of _ q2] exI [of _ fl2] exI [of _ bs2]) (simp add: flushed_def)
    next
      case all
      then have h1: "h1 = cblock_free b h" "q1 = empty_clist" using blk(5) c(1) by auto
      have "ndflush_loop h q (int n) = Some (h1, ?q)"
        using loop all cc h1 by (simp add: ndflush_loop_stop)
      moreover have "flushed (h1, ?q) = (h1, q1)" using all cc h1 by (simp add: flushed_def)
      moreover have "drop n xs = drop rem xs" using all by simp
      ultimately show ?thesis using c(2,3) by metis
    next
      case block
      then have h1: "h1 = cblock_free b h" "q1 = ?q" using blk(4) c(1) by auto
      have "drop rem xs \<noteq> []" "n - rem < n" using block blk(1) n0 by auto
      from less.IH [OF this(2) c(2) this(1)] obtain h2 q2 h' q' fl' bs' where
        r: "ndflush_loop h1 q1 (int (n - rem)) = Some (h2, q2)" "flushed (h2, q2) = (h', q')"
        "local_rep h' q' fl' bs' (drop (n - rem) (drop rem xs))" "evolves h1 fl1 bs1 h' fl' bs'"
        by (elim exE conjE)
      have "int n - int rem = int (n - rem)" "drop (n - rem) (drop rem xs) = drop n xs" using block by simp_all
      then show ?thesis using loop block r h1 evolves_trans [OF c(3) r(4)]
        by (intro exI conjI) (simp_all only: if_True)
    qed
  qed
qed

lemma ndflush_local:
  assumes "local_rep h q fl bs xs"
  shows "\<exists>h' q' fl' bs'. ndflush h q cc = Some (h', q') \<and> local_rep h' q' fl' bs' (drop (nat cc) xs) \<and>
     evolves h fl bs h' fl' bs'"
proof (cases "xs = [] \<or> cc \<le> 0")
  case True
  have "ndflush h q cc = Some (h, q)"
  proof (cases "xs = []")
    case True
    then show ?thesis using local_rep_cc [OF assms] by (simp add: ndflush_def)
  next
    case False
    then show ?thesis using local_rep_cc [OF assms] \<open>xs = [] \<or> cc \<le> 0\<close>
      by (simp add: ndflush_def ndflush_loop_stop)
  qed
  moreover have "drop (nat cc) xs = xs" using True by auto
  ultimately show ?thesis using assms evolves_refl [of h fl bs] by (intro exI conjI) auto
next
  case False
  have xs: "xs \<noteq> []" using False by simp
  have cc: "0 < c_cc q" "int (nat cc) = cc" using local_rep_cc [OF assms] False by auto
  obtain h1 q1 h' q' fl' bs' where r: "ndflush_loop h q (int (nat cc)) = Some (h1, q1)"
    "flushed (h1, q1) = (h', q')" "local_rep h' q' fl' bs' (drop (nat cc) xs)" "evolves h fl bs h' fl' bs'"
    using ndflush_loop_local [OF assms xs, of "nat cc"] by (elim exE conjE)
  have "ndflush h q cc = Some (h', q')"
    using r(1,2) cc unfolding ndflush_def by (auto simp: flushed_def)
  then show ?thesis using r(3,4) by blast
qed

section \<open>Reading in place\<close>

fun qaddrs :: "nat \<Rightarrow> nat list \<Rightarrow> nat \<Rightarrow> nat list" where
  "qaddrs f [] l = []"
| "qaddrs f [b] l = [f..<l]"
| "qaddrs f (b # c # bs) l = [f..<b + 32] @ qaddrs (c + 4) (c # bs) l"

lemma qaddrs_read: "qseg h f bs l xs \<Longrightarrow> xs = map (c_info h) (qaddrs f bs l)"
  by (induction h f bs l xs rule: qseg.induct) auto

lemma qaddrs_hd: "qseg h f bs l xs \<Longrightarrow> qaddrs f bs l \<noteq> [] \<and> hd (qaddrs f bs l) = f"
  by (induction h f bs l xs rule: qseg.induct) (auto simp: hd_append)

lemma qaddrs_last: "qseg h f bs l xs \<Longrightarrow> last (qaddrs f bs l) = l - 1"
proof (induction h f bs l xs rule: qseg.induct)
  case (3 h f b c bs l xs)
  then obtain ys where ys: "qseg h (c + 4) (c # bs) l ys" by auto
  then show ?case using 3(1) [OF ys] qaddrs_hd [OF ys] by simp
qed auto

text \<open>The successor of an address of the queue, without the test for the end.\<close>

definition after :: "cheap \<Rightarrow> nat \<Rightarrow> nat" where
  "after h a = (if cround (Suc a) = 0 then info (c_next h (Suc a - CBLOCK)) else Suc a)"

lemma upt_after:
  assumes "block_ok b" "b \<le> f" "l \<le> b + 32" "Suc k < l - f"
  shows "after h ([f..<l] ! k) = [f..<l] ! Suc k"
proof -
  have "cround (Suc (f + k)) \<noteq> 0"
    using block_addr(2) [OF assms(1), of "Suc (f + k)"] assms by simp
  then show ?thesis using assms(4) by (simp add: after_def)
qed

lemma qaddrs_after:
  assumes "qseg h f bs l xs" "\<forall>b\<in>set bs. block_ok b" "Suc k < length (qaddrs f bs l)"
  shows "after h (qaddrs f bs l ! k) = qaddrs f bs l ! Suc k"
  using assms
proof (induction h f bs l xs arbitrary: k rule: qseg.induct)
  case (2 h f b l xs)
  then show ?case using upt_after [of b f l k h] by simp
next
  case (3 h f b c bs l xs)
  from 3(2) obtain ys where ys: "qseg h (c + 4) (c # bs) l ys" and b: "b + 4 \<le> f" "f < b + 32" "c_next h b = c" by auto
  have okb: "block_ok b" "\<forall>b\<in>set (c # bs). block_ok b" using 3(3) by auto
  let ?m = "b + 32 - f" and ?r = "qaddrs (c + 4) (c # bs) l"
  have hd: "?r ! 0 = c + 4" using qaddrs_hd [OF ys] by (metis hd_conv_nth)
  note IH = 3(1) [OF ys okb(2), of "k - ?m"]
  consider (low) "Suc k < ?m" | (edge) "Suc k = ?m" | (high) "?m \<le> k" by linarith
  then show ?case
  proof cases
    case low
    then show ?thesis using upt_after [OF okb(1), of f "b + 32" k h] b by (simp add: nth_append)
  next
    case edge
    then have a: "Suc (f + k) = b + 32" "k < ?m" using b by auto
    have "after h (f + k) = c + 4"
      unfolding after_def a(1) using block_end [OF okb(1)] b(3) by (simp add: info_def)
    then show ?thesis using a edge hd by (simp add: nth_append)
  next
    case high
    have "Suc (k - ?m) < length ?r" using 3(4) high b by simp
    note IH [OF this]
    then show ?thesis using high b by (simp add: nth_append Suc_diff_le)
  qed
qed simp

lemma nextc_after:
  assumes "qseg h (c_cf q) bs (c_cl q) xs" "c_cc q = int (length xs)" "\<forall>b\<in>set bs. block_ok b"
    "distinct (qaddrs (c_cf q) bs (c_cl q))" "k < length xs"
  shows "nextc h q (qaddrs (c_cf q) bs (c_cl q) ! k) =
     (if Suc k < length xs then qaddrs (c_cf q) bs (c_cl q) ! Suc k else 0)"
proof -
  let ?a = "qaddrs (c_cf q) bs (c_cl q)"
  have len: "length ?a = length xs" using arg_cong [OF qaddrs_read [OF assms(1)], of length] by simp
  have l: "0 < c_cl q" using qseg_end(3) [OF assms(1,3)] .
  have lst: "?a ! (length xs - 1) = c_cl q - 1"
    using qaddrs_last [OF assms(1)] len assms(5) by (metis last_conv_nth length_0_conv not_less_zero)
  have "Suc (?a ! k) = c_cl q \<longleftrightarrow> \<not> Suc k < length xs"
  proof
    assume "Suc (?a ! k) = c_cl q"
    then have "?a ! k = ?a ! (length xs - 1)" using lst by simp
    then have "k = length xs - 1" using assms(4,5) len by (simp add: nth_eq_iff_index_eq)
    then show "\<not> Suc k < length xs" by simp
  next
    assume "\<not> Suc k < length xs"
    then have "k = length xs - 1" using assms(5) by simp
    then show "Suc (?a ! k) = c_cl q" using lst l by simp
  qed
  moreover have "after h (?a ! k) = ?a ! Suc k" if "Suc k < length xs"
    using qaddrs_after [OF assms(1,3)] that len by simp
  ultimately show ?thesis using assms(2,5) by (auto simp: nextc_def after_def)
qed

lemma qaddrs_in_blocks:
  "qseg h f bs l xs \<Longrightarrow> a \<in> set (qaddrs f bs l) \<Longrightarrow> \<exists>b\<in>set bs. b + 4 \<le> a \<and> a < b + 32"
proof (induction h f bs l xs rule: qseg.induct)
  case (3 h f b c bs l xs)
  from 3(2) obtain ys where ys: "qseg h (c + 4) (c # bs) l ys" and b: "b + 4 \<le> f" by auto
  show ?case
  proof (cases "a \<in> set [f..<b + 32]")
    case False
    then have "a \<in> set (qaddrs (c + 4) (c # bs) l)" using 3(3) by auto
    then show ?thesis using 3(1) [OF ys] by auto
  qed (use b in auto)
qed auto

lemma qaddrs_distinct:
  "qseg h f bs l xs \<Longrightarrow> \<forall>b\<in>set bs. block_ok b \<Longrightarrow> distinct bs \<Longrightarrow> distinct (qaddrs f bs l)"
proof (induction h f bs l xs rule: qseg.induct)
  case (3 h f b c bs l xs)
  from 3(2) obtain ys where ys: "qseg h (c + 4) (c # bs) l ys" and b: "b + 4 \<le> f" by auto
  have "set [f..<b + 32] \<inter> set (qaddrs (c + 4) (c # bs) l) = {}"
  proof (rule ccontr)
    assume "set [f..<b + 32] \<inter> set (qaddrs (c + 4) (c # bs) l) \<noteq> {}"
    then obtain a where a: "f \<le> a" "a < b + 32" "a \<in> set (qaddrs (c + 4) (c # bs) l)" by auto
    then obtain d where d: "d \<in> set (c # bs)" "d + 4 \<le> a" "a < d + 32"
      using qaddrs_in_blocks [OF ys] by blast
    have "cblock_of a = d" by (rule block_addr(1)) (use d 3(3) in auto)
    moreover have "cblock_of a = b" by (rule block_addr(1)) (use a b 3(3) in auto)
    ultimately show False using d(1) 3(4) by simp
  qed
  moreover have "distinct (qaddrs (c + 4) (c # bs) l)" using 3(1) [OF ys] 3(3,4) by simp
  ultimately show ?case by simp
qed auto

lemma nextc_local:
  assumes "local_rep h q fl bs xs"
  shows "\<exists>ps. map (c_info h) ps = xs \<and> (ps = [] \<or> hd ps = c_cf q) \<and>
     (\<forall>k<length ps. nextc h q (ps ! k) = (if Suc k < length ps then ps ! Suc k else 0))"
proof (cases "bs = []")
  case True
  then show ?thesis using local_rep_cc [OF assms] by (intro exI [of _ "[]"]) simp
next
  case False
  note seg = local_rep_seg [OF assms False]
  have q: "qseg h (c_cf q) bs (c_cl q) xs" "\<forall>b\<in>set bs. block_ok b" "distinct bs"
    using seg(1) by (auto simp: seg_rep_def)
  let ?a = "qaddrs (c_cf q) bs (c_cl q)"
  have r: "xs = map (c_info h) ?a" by (rule qaddrs_read [OF q(1)])
  then have len: "length ?a = length xs" by (metis length_map)
  have "\<forall>k<length ?a. nextc h q (?a ! k) = (if Suc k < length ?a then ?a ! Suc k else 0)"
    using nextc_after [OF q(1) seg(2) q(2) qaddrs_distinct [OF q]] len by simp
  then show ?thesis using r qaddrs_hd [OF q(1)] by (intro exI [of _ ?a] conjI) auto
qed

lemma ndqb_scan_takeWhile:
  "ndqb_scan cs flag n = n + int (length (takeWhile (\<lambda>c. schar c AND flag = 0) cs))"
  by (induction cs arbitrary: n) auto

lemma ndqb_local:
  assumes rep: "local_rep h q fl bs xs" and ne: "xs \<noteq> []"
  defines "blk \<equiv> take (CBLOCK - cround (c_cf q)) xs"
  shows "blk \<noteq> []" "ndqb h q flag = int (length (if flag = 0 then blk else takeWhile (\<lambda>c. schar c AND flag = 0) blk))"
proof -
  obtain b bs' where seg: "qseg h (c_cf q) (b # bs') (c_cl q) xs"
    and cc: "c_cc q = int (length xs)" and b: "block_ok b" and f: "b + 4 \<le> c_cf q" "c_cf q < b + 32"
    and r: "CBLOCK - cround (c_cf q) = b + 32 - c_cf q"
    using local_rep_blocks [OF rep ne] by metis
  show "blk \<noteq> []" using ne f r by (simp add: blk_def)
  have "block_ok (b + 32)" using b by (simp add: block_ok_def)
  then have "cblock_of (c_cf q + 28) = b + 32" by (rule block_addr(1)) (use f in auto)
  then have room: "int (cblock_of (c_cf q + CBSIZE)) - int (c_cf q) = int (b + 32 - c_cf q)" using f by simp
  define n where "n = min (length xs) (b + 32 - c_cf q)"
  have n: "(if c_cc q < int (b + 32 - c_cf q) then c_cc q else int (b + 32 - c_cf q)) = int n"
    using cc by (simp add: n_def)
  have "cbytes h (c_cf q) n = take n xs"
    using qseg_drop [OF seg, of n] f by (simp add: n_def)
  moreover have "take n xs = blk" "n = length blk" by (simp_all add: blk_def n_def r min_def)
  moreover have "0 < c_cc q" using cc ne by simp
  ultimately show "ndqb h q flag = int (length (if flag = 0 then blk else takeWhile (\<lambda>c. schar c AND flag = 0) blk))"
    unfolding ndqb_def Let_def room n by (simp add: ndqb_scan_takeWhile)
qed

section \<open>All the queues\<close>

lemma mset_concat_update:
  "i < length bss \<Longrightarrow> mset (concat (bss[i := b])) + mset (bss ! i) = mset (concat bss) + mset b"
  by (induction bss arbitrary: i) (auto split: nat.splits simp: nth_Cons ac_simps)

lemma mset_swap:
  fixes a :: "'a multiset"
  assumes "a + b = c + d" "e + d = f + b"
  shows "a + e = c + f"
proof -
  have "(a + e) + (b + d) = (a + b) + (e + d)" by (simp only: ac_simps)
  also have "\<dots> = (c + f) + (b + d)" unfolding assms by (simp only: ac_simps)
  finally show ?thesis by simp
qed

lemma set_nth_concat: "i < length bss \<Longrightarrow> set (bss ! i) \<subseteq> set (concat bss)"
  unfolding set_concat using nth_mem by blast

lemma concat_apart:
  assumes "distinct (concat bss)" "i < length bss" "j < length bss" "i \<noteq> j"
  shows "set (bss ! i) \<inter> set (bss ! j) = {}"
proof -
  have "bss = take i bss @ bss ! i # drop (Suc i) bss" using assms(2) by (rule id_take_nth_drop)
  then have c: "concat bss = concat (take i bss) @ bss ! i @ concat (drop (Suc i) bss)"
    by (metis concat.simps(2) concat_append)
  have "bss ! j \<in> set (take i bss) \<union> set (drop (Suc i) bss)"
  proof (cases "j < i")
    case True
    then have "bss ! j = take i bss ! j" "j < length (take i bss)" using assms by auto
    then show ?thesis by (metis UnI1 nth_mem)
  next
    case False
    then have "bss ! j = drop (Suc i) bss ! (j - Suc i)" "j - Suc i < length (drop (Suc i) bss)"
      using assms by auto
    then show ?thesis by (metis UnI2 nth_mem)
  qed
  then show ?thesis using assms(1) unfolding c by auto
qed

lemma clists_rep_lift:
  assumes rep: "clists_rep B h qs xss" and i: "i < length qs"
    and op: "\<And>fl bs. local_rep h (qs ! i) fl bs (xss ! i) \<Longrightarrow>
       \<exists>fl' bs'. local_rep h' q' fl' bs' xs' \<and> evolves h fl bs h' fl' bs'"
  shows "clists_rep B h' (qs[i := q']) (xss[i := xs'])"
proof -
  obtain fl bss where len: "length bss = length qs" "length xss = length qs"
    and d: "distinct (fl @ concat bss)" and B: "set (fl @ concat bss) = B" "\<forall>b\<in>B. block_ok b"
    and fr: "free_rep h fl" and q: "\<forall>i<length qs. clist_rep h (qs ! i) (bss ! i) (xss ! i)"
    using rep unfolding clists_rep_def by blast
  let ?bs = "bss ! i"
  have sub: "set ?bs \<subseteq> set (concat bss)" by (rule set_nth_concat) (use i len in simp)
  have "distinct (concat bss)" using d by simp
  then have "distinct ?bs" using i len by (metis distinct_concat_iff nth_mem)
  then have "local_rep h (qs ! i) fl ?bs (xss ! i)"
    using d B fr q i sub by (auto simp: local_rep_def)
  then obtain fl' bs' where l: "local_rep h' q' fl' bs' xs'" and ev: "evolves h fl ?bs h' fl' bs'"
    using op by blast
  have d': "distinct (fl' @ bs')" "distinct (fl @ ?bs)" "free_rep h' fl'" "clist_rep h' q' bs' xs'"
    using l \<open>local_rep h (qs ! i) fl ?bs (xss ! i)\<close> unfolding local_rep_def by blast+
  have eq: "mset fl' + mset bs' = mset fl + mset ?bs"
    using ev set_eq_iff_mset_eq_distinct [OF d'(1,2)] unfolding evolves_def mset_append by blast
  have m: "mset (fl' @ concat (bss[i := bs'])) = mset (fl @ concat bss)"
    unfolding mset_append by (rule mset_swap [OF eq mset_concat_update]) (use i len in simp)
  have other: "clist_rep h' (qs ! j) (bss ! j) (xss ! j)" if "j < length qs" "j \<noteq> i" for j
  proof -
    have "set (bss ! j) \<subseteq> set (concat bss)" by (rule set_nth_concat) (use that len in simp)
    then have "set (bss ! j) \<inter> set (fl @ ?bs) = {}" "\<forall>b\<in>set (bss ! j). block_ok b"
      using d B concat_apart [of bss j i] that i len by auto
    then show ?thesis using clist_rep_frame [of "set (fl @ ?bs)" h h'] ev q that by (auto simp: evolves_def)
  qed
  have "clist_rep h' (qs[i := q'] ! j) (bss[i := bs'] ! j) (xss[i := xs'] ! j)" if "j < length qs" for j
    using that d'(4) len i other by (cases "j = i") simp_all
  moreover have "distinct (fl' @ concat (bss[i := bs']))" "set (fl' @ concat (bss[i := bs'])) = B"
    using mset_eq_imp_distinct_iff [OF m] mset_eq_setD [OF m] d B by auto
  ultimately show ?thesis using d'(3) B(2) len unfolding clists_rep_def
    by (intro exI [of _ fl'] exI [of _ "bss[i := bs']"]) simp
qed

lemma clists_rep_local:
  assumes "clists_rep B h qs xss" "i < length qs"
  obtains fl bs where "local_rep h (qs ! i) fl bs (xss ! i)"
proof -
  obtain fl bss where len: "length bss = length qs"
    and d: "distinct (fl @ concat bss)" and B: "set (fl @ concat bss) = B" "\<forall>b\<in>B. block_ok b"
    and fr: "free_rep h fl" and q: "\<forall>i<length qs. clist_rep h (qs ! i) (bss ! i) (xss ! i)"
    using assms(1) unfolding clists_rep_def by blast
  have sub: "set (bss ! i) \<subseteq> set (concat bss)" by (rule set_nth_concat) (use assms(2) len in simp)
  have "distinct (concat bss)" using d by simp
  then have "distinct (bss ! i)" using assms(2) len by (metis distinct_concat_iff nth_mem)
  then have "local_rep h (qs ! i) fl (bss ! i) (xss ! i)"
    using d B fr q assms(2) sub by (auto simp: local_rep_def)
  then show thesis by (rule that)
qed

lemma clists_rep_nth_empty:
  assumes "clists_rep B h qs xss" "i < length qs" "xss ! i = []"
  shows "qs ! i = empty_clist"
proof -
  obtain fl bs where "local_rep h (qs ! i) fl bs (xss ! i)" by (rule clists_rep_local [OF assms(1,2)])
  then show ?thesis using local_rep_empty(1) assms(3) by metis
qed

lemma clists_rep_cc:
  assumes "clists_rep B h qs xss" "i < length qs"
  shows "c_cc (qs ! i) = int (length (xss ! i))"
proof -
  obtain fl bs where "local_rep h (qs ! i) fl bs (xss ! i)" by (rule clists_rep_local [OF assms])
  then show ?thesis using local_rep_cc by blast
qed

lemma getc_clists:
  assumes rep: "clists_rep B h qs xss" and i: "i < length qs"
  shows "case xss ! i of
      [] \<Rightarrow> getc h (qs ! i) = (-1, h, qs ! i)
    | x # xs \<Rightarrow> \<exists>h' q'. getc h (qs ! i) = (int x, h', q') \<and> clists_rep B h' (qs[i := q']) (xss[i := xs])"
proof (cases "xss ! i")
  case Nil
  then show ?thesis using clists_rep_nth_empty [OF rep i] by (simp add: getc_def)
next
  case (Cons x xs)
  obtain fl bs where "local_rep h (qs ! i) fl bs (x # xs)" using clists_rep_local [OF rep i] Cons by metis
  from getc_local [OF this] obtain h' q' where g: "getc h (qs ! i) = (int x, h', q')" by blast
  have "clists_rep B h' (qs[i := q']) (xss[i := xs])"
  proof (rule clists_rep_lift [OF rep i])
    fix fl bs assume "local_rep h (qs ! i) fl bs (xss ! i)"
    from getc_local [OF this [unfolded Cons]] g
    show "\<exists>fl' bs'. local_rep h' q' fl' bs' xs \<and> evolves h fl bs h' fl' bs'" by auto
  qed
  then show ?thesis using g Cons by simp
qed

lemma q_to_b_local:
  assumes "local_rep h q fl bs xs"
  shows "\<exists>h' q' fl' bs'. q_to_b h q cc = Some (take (nat cc) xs, h', q') \<and>
     local_rep h' q' fl' bs' (drop (nat cc) xs) \<and> evolves h fl bs h' fl' bs' \<and>
     CBSIZE * length fl + front q bs + min (nat cc) (length xs) \<le> CBSIZE * length fl' + front q' bs'"
proof -
  consider (none) "cc \<le> 0" | (empty) "0 < cc" "xs = []" | (some) "0 < cc" "xs \<noteq> []" by linarith
  then show ?thesis
  proof cases
    case none
    then have "q_to_b h q cc = Some (take (nat cc) xs, h, q)" by (simp add: q_to_b_def)
    then show ?thesis using assms none evolves_refl [of h fl bs] by (intro exI conjI) auto
  next
    case empty
    have "q = empty_clist" "bs = []" using local_rep_empty assms empty by auto
    then have "q_to_b h q cc = Some (take (nat cc) xs, h, q)" using empty by (simp add: q_to_b_def)
    then show ?thesis using assms empty evolves_refl [of h fl bs] by (intro exI conjI) auto
  next
    case some
    have "q_to_b h q cc = q_to_b_loop h q [] (int (nat cc))"
      using some local_rep_cc [OF assms] by (simp add: q_to_b_def)
    then show ?thesis using q_to_b_loop_local [OF assms some(2), of "[]" "nat cc"] by simp
  qed
qed

lemma q_to_b_clists:
  assumes rep: "clists_rep B h qs xss" and i: "i < length qs"
  shows "\<exists>h' q'. q_to_b h (qs ! i) cc = Some (take (nat cc) (xss ! i), h', q') \<and>
     clists_rep B h' (qs[i := q']) (xss[i := drop (nat cc) (xss ! i)]) \<and>
     (cc = int (CBSIZE * 4) \<longrightarrow> int (length (take (nat cc) (xss ! i))) \<le> cfreecount h')"
proof -
  obtain fl bs where l: "local_rep h (qs ! i) fl bs (xss ! i)" by (rule clists_rep_local [OF rep i])
  from q_to_b_local [OF l, of cc] obtain h' q' fl' bs' where
    g: "q_to_b h (qs ! i) cc = Some (take (nat cc) (xss ! i), h', q')"
      "local_rep h' q' fl' bs' (drop (nat cc) (xss ! i))"
      "CBSIZE * length fl + front (qs ! i) bs + min (nat cc) (length (xss ! i)) \<le> CBSIZE * length fl' + front q' bs'"
    by blast
  have "clists_rep B h' (qs[i := q']) (xss[i := drop (nat cc) (xss ! i)])"
  proof (rule clists_rep_lift [OF rep i])
    fix fl bs assume "local_rep h (qs ! i) fl bs (xss ! i)"
    from q_to_b_local [OF this, of cc] g(1)
    show "\<exists>fl' bs'. local_rep h' q' fl' bs' (drop (nat cc) (xss ! i)) \<and> evolves h fl bs h' fl' bs'" by auto
  qed
  moreover have "int (length (take (nat cc) (xss ! i))) \<le> cfreecount h'" if "cc = int (CBSIZE * 4)"
  proof -
    have fc: "cfreecount h' = 28 * int (length fl')" using g(2) by (simp add: local_rep_def free_rep_def)
    show ?thesis
    proof (cases "drop (nat cc) (xss ! i) = []")
      case True
      then have "bs' = []" using local_rep_cc [OF g(2)] by blast
      then show ?thesis using g(3) fc by (simp add: front_def)
    next
      case False
      then have "length (xss ! i) > 112" using that by simp
      then have "CBSIZE * length fl' + front q' bs' \<ge> 112" using g(3) that by simp
      then have "length fl' \<ge> 4" using front_less [OF g(2)] by simp
      then show ?thesis using fc that by simp
    qed
  qed
  ultimately show ?thesis using g(1) by blast
qed

lemma b_to_q_clists:
  assumes rep: "clists_rep B h qs xss" and i: "i < length qs"
  shows "\<exists>k h' q'. b_to_q cp h (qs ! i) = (drop k cp, h', q') \<and> k \<le> length cp \<and>
     clists_rep B h' (qs[i := q']) (xss[i := xss ! i @ take k cp]) \<and>
     (k = length cp \<or> cfreecount h \<le> int k)"
proof -
  obtain fl bs where l: "local_rep h (qs ! i) fl bs (xss ! i)" by (rule clists_rep_local [OF rep i])
  define k where "k = min (length cp) (avail (qs ! i) bs fl)"
  from b_to_q_local [OF l k_def] obtain h' q' where g: "b_to_q cp h (qs ! i) = (drop k cp, h', q')" by blast
  have "clists_rep B h' (qs[i := q']) (xss[i := xss ! i @ take k cp])"
  proof (rule clists_rep_lift [OF rep i])
    fix fl1 bs1 assume l1: "local_rep h (qs ! i) fl1 bs1 (xss ! i)"
    define k1 where "k1 = min (length cp) (avail (qs ! i) bs1 fl1)"
    from b_to_q_local [OF l1 k1_def] g have e: "drop k cp = drop k1 cp" by auto
    have "k = k1" using arg_cong [OF e, of length] by (simp add: k_def k1_def)
    with b_to_q_local [OF l1 k1_def] g
    show "\<exists>fl' bs'. local_rep h' q' fl' bs' (xss ! i @ take k cp) \<and> evolves h fl1 bs1 h' fl' bs'" by auto
  qed
  moreover have "cfreecount h \<le> int (avail (qs ! i) bs fl)"
    using l by (simp add: local_rep_def free_rep_def avail_def room_def)
  ultimately show ?thesis using g by (intro exI [of _ k] exI [of _ h'] exI [of _ q']) (auto simp: k_def)
qed

lemma putc_clists:
  assumes rep: "clists_rep B h qs xss" and i: "i < length qs"
  shows "\<exists>r h' q'. putc c h (qs ! i) = (r, h', q') \<and>
     (r = 0 \<and> clists_rep B h' (qs[i := q']) (xss[i := xss ! i @ [c mod 256]]) \<or>
      r = -1 \<and> cfreelist h = 0 \<and> clists_rep B h' (qs[i := q']) xss)"
proof -
  obtain fl bs where l: "local_rep h (qs ! i) fl bs (xss ! i)" by (rule clists_rep_local [OF rep i])
  let ?r = "if avail (qs ! i) bs fl = 0 then - 1 else 0 :: int"
  let ?xs = "if avail (qs ! i) bs fl = 0 then xss ! i else xss ! i @ [c mod 256]"
  from putc_local [OF l, of c] obtain h' q' where g: "putc c h (qs ! i) = (?r, h', q')" by blast
  have u: "clists_rep B h' (qs[i := q']) (xss[i := ?xs])"
  proof (rule clists_rep_lift [OF rep i])
    fix fl1 bs1 assume l1: "local_rep h (qs ! i) fl1 bs1 (xss ! i)"
    from putc_local [OF l1, of c] g have "avail (qs ! i) bs1 fl1 = 0 \<longleftrightarrow> avail (qs ! i) bs fl = 0"
      by (auto split: if_splits)
    with putc_local [OF l1, of c] g
    show "\<exists>fl' bs'. local_rep h' q' fl' bs' ?xs \<and> evolves h fl1 bs1 h' fl' bs'" by auto
  qed
  show ?thesis
  proof (cases "avail (qs ! i) bs fl = 0")
    case True
    then have "fl = []" by (auto simp: avail_def room_def split: if_splits)
    then have "cfreelist h = 0" using l by (simp add: local_rep_def free_rep_def)
    then show ?thesis using g u True by simp
  next
    case False
    then show ?thesis using g u by simp
  qed
qed

lemma unputc_clists:
  assumes rep: "clists_rep B h qs xss" and i: "i < length qs"
  shows "if xss ! i = [] then unputc h (qs ! i) = Some (-1, h, qs ! i)
     else \<exists>h' q'. unputc h (qs ! i) = Some (schar (last (xss ! i)), h', q') \<and>
            clists_rep B h' (qs[i := q']) (xss[i := butlast (xss ! i)])"
proof (cases "xss ! i = []")
  case True
  then show ?thesis using clists_rep_nth_empty [OF rep i] by (simp add: unputc_def)
next
  case False
  then obtain ys y where x: "xss ! i = ys @ [y]" by (cases "xss ! i" rule: rev_cases) auto
  then have e: "last (xss ! i) = y" "butlast (xss ! i) = ys" by simp_all
  obtain fl bs where l: "local_rep h (qs ! i) fl bs (xss ! i)" by (rule clists_rep_local [OF rep i])
  from unputc_local [OF l [unfolded x]] obtain h' q' where
    g: "unputc h (qs ! i) = Some (schar y, h', q')" by auto
  have "clists_rep B h' (qs[i := q']) (xss[i := ys])"
  proof (rule clists_rep_lift [OF rep i])
    fix fl bs assume l1: "local_rep h (qs ! i) fl bs (xss ! i)"
    from unputc_local [OF l1 [unfolded x]] g
    show "\<exists>fl' bs'. local_rep h' q' fl' bs' ys \<and> evolves h fl bs h' fl' bs'" by auto
  qed
  then show ?thesis using g False unfolding e by simp
qed

lemma ndflush_clists:
  assumes rep: "clists_rep B h qs xss" and i: "i < length qs"
  shows "\<exists>h' q'. ndflush h (qs ! i) cc = Some (h', q') \<and>
     clists_rep B h' (qs[i := q']) (xss[i := drop (nat cc) (xss ! i)])"
proof -
  obtain fl bs where l: "local_rep h (qs ! i) fl bs (xss ! i)" by (rule clists_rep_local [OF rep i])
  from ndflush_local [OF l, of cc] obtain h' q' where g: "ndflush h (qs ! i) cc = Some (h', q')" by blast
  have "clists_rep B h' (qs[i := q']) (xss[i := drop (nat cc) (xss ! i)])"
  proof (rule clists_rep_lift [OF rep i])
    fix fl bs assume l1: "local_rep h (qs ! i) fl bs (xss ! i)"
    from ndflush_local [OF l1, of cc] g
    show "\<exists>fl' bs'. local_rep h' q' fl' bs' (drop (nat cc) (xss ! i)) \<and> evolves h fl bs h' fl' bs'" by auto
  qed
  then show ?thesis using g by blast
qed

lemma clists_rep_move:
  assumes rep: "clists_rep B h qs xss" and i: "i < length qs" "j < length qs" "i \<noteq> j"
    and emp: "xss ! j = []"
  shows "clists_rep B h (qs[i := empty_clist, j := qs ! i]) (xss[i := [], j := xss ! i])"
proof -
  obtain fl bss where len: "length bss = length qs" "length xss = length qs"
    and d: "distinct (fl @ concat bss)" and B: "set (fl @ concat bss) = B" "\<forall>b\<in>B. block_ok b"
    and fr: "free_rep h fl" and q: "\<forall>i<length qs. clist_rep h (qs ! i) (bss ! i) (xss ! i)"
    using rep unfolding clists_rep_def by blast
  have "clist_rep h (qs ! j) (bss ! j) []" using q i(2) emp by metis
  then have ej: "bss ! j = []" using qseg_nonempty by (metis clist_rep_def)
  let ?bss = "bss[i := [], j := bss ! i]"
  have "mset (concat (bss[i := []])) + mset (bss ! i) = mset (concat bss)"
    "mset (concat ?bss) + mset (bss[i := []] ! j) = mset (concat (bss[i := []])) + mset (bss ! i)"
    using mset_concat_update [of i bss "[]"] mset_concat_update [of j "bss[i := []]" "bss ! i"] i len
    by (simp_all del: nth_list_update_neq)
  then have m: "mset (fl @ concat ?bss) = mset (fl @ concat bss)" using ej i len by simp
  have "clist_rep h (qs[i := empty_clist, j := qs ! i] ! k) (?bss ! k) (xss[i := [], j := xss ! i] ! k)"
    if "k < length qs" for k
  proof -
    consider "k = j" | "k = i" "k \<noteq> j" | "k \<noteq> i" "k \<noteq> j" by blast
    then show ?thesis using q that i len by cases (simp_all add: clist_rep_def)
  qed
  moreover have "distinct (fl @ concat ?bss)" "set (fl @ concat ?bss) = B"
    using mset_eq_imp_distinct_iff [OF m] mset_eq_setD [OF m] d B by auto
  ultimately show ?thesis using fr B(2) len unfolding clists_rep_def
    by (intro exI [of _ fl] exI [of _ ?bss]) simp
qed

lemma catq_loop_step:
  assumes "0 < c_cc from" "q_to_b h from (int (CBSIZE * 4)) = Some (bbuf, h1, from1)"
    "b_to_q bbuf h1 to = (rest, h2, to1)"
  shows "catq_loop h from to = catq_loop h2 from1 to1"
  using assms by (subst catq_loop.simps) simp

lemma catq_loop_clists:
  assumes "clists_rep B h qs xss" "i < length qs" "j < length qs" "i \<noteq> j" "length xss = length qs"
  shows "\<exists>h' f' t'. catq_loop h (qs ! i) (qs ! j) = Some (h', f', t') \<and>
     clists_rep B h' (qs[i := f', j := t']) (xss[i := [], j := xss ! j @ xss ! i])"
  using assms
proof (induction "length (xss ! i)" arbitrary: h qs xss rule: less_induct)
  case less
  have cc: "c_cc (qs ! i) = int (length (xss ! i))" using clists_rep_cc less.prems by blast
  show ?case
  proof (cases "xss ! i = []")
    case True
    then have "catq_loop h (qs ! i) (qs ! j) = Some (h, qs ! i, qs ! j)"
      using cc by (subst catq_loop.simps) simp
    moreover have "qs[i := qs ! i, j := qs ! j] = qs" "xss[i := [], j := xss ! j @ xss ! i] = xss"
      using True less.prems(4) by (simp_all add: list_update_id list_update_same_conv) (metis True list_update_id)
    ultimately show ?thesis using less.prems(1) by metis
  next
    case False
    let ?n = "nat (int (CBSIZE * 4))" and ?xs = "xss ! i"
    obtain h1 f1 where q: "q_to_b h (qs ! i) (int (CBSIZE * 4)) = Some (take ?n ?xs, h1, f1)"
      "clists_rep B h1 (qs[i := f1]) (xss[i := drop ?n ?xs])" "int (length (take ?n ?xs)) \<le> cfreecount h1"
      using q_to_b_clists [OF less.prems(1,2), of "int (CBSIZE * 4)"] by blast
    have jth: "qs[i := f1] ! j = qs ! j" "xss[i := drop ?n ?xs] ! j = xss ! j" using less.prems(4) by simp_all
    have jl: "j < length (qs[i := f1])" using less.prems(3) by simp
    obtain k h2 t1 where b: "b_to_q (take ?n ?xs) h1 (qs ! j) = (drop k (take ?n ?xs), h2, t1)"
      "k \<le> length (take ?n ?xs)"
      "clists_rep B h2 (qs[i := f1, j := t1]) (xss[i := drop ?n ?xs, j := xss ! j @ take k (take ?n ?xs)])"
      "k = length (take ?n ?xs) \<or> cfreecount h1 \<le> int k"
      using b_to_q_clists [OF q(2) jl, of "take ?n ?xs"] unfolding jth by (elim exE conjE)
    have "k = length (take ?n ?xs)" using b(2,4) q(3) by linarith
    then have k: "take k (take ?n ?xs) = take ?n ?xs" by (intro take_all) (simp only: order_refl)
    let ?qs = "qs[i := f1, j := t1]" and ?xss = "xss[i := drop ?n ?xs, j := xss ! j @ take ?n ?xs]"
    have nth: "?qs ! i = f1" "?qs ! j = t1" "?xss ! i = drop ?n ?xs" "?xss ! j = xss ! j @ take ?n ?xs"
      "length ?qs = length qs" "length ?xss = length qs"
      using less.prems by simp_all
    have "length (?xss ! i) < length ?xs" unfolding nth using False by simp
    from less.hyps [OF this b(3) [unfolded k]] less.prems(2-4) nth(5,6) obtain h' f' t' where
      r: "catq_loop h2 f1 t1 = Some (h', f', t')"
      "clists_rep B h' (?qs[i := f', j := t']) (?xss[i := [], j := (xss ! j @ take ?n ?xs) @ drop ?n ?xs])"
      unfolding nth by metis
    have e: "?qs[i := f', j := t'] = qs[i := f', j := t']"
      "?xss[i := [], j := (xss ! j @ take ?n ?xs) @ drop ?n ?xs] = xss[i := [], j := xss ! j @ ?xs]"
      using less.prems(4) by (simp_all add: list_update_swap)
    have "catq_loop h (qs ! i) (qs ! j) = Some (h', f', t')"
      using catq_loop_step [OF _ q(1) b(1)] cc False r(1) by simp
    then show ?thesis using r(2) unfolding e by blast
  qed
qed

end
