(* ===== verification/Clist_Spec.thy ===== *)
theory Clist_Spec
  imports Clist_Rep
begin

unbundle bit_operations_syntax

text \<open>
  What the character lists promise: a set of byte queues \<open>qspec\<close>, which the operations of
  \<open>Clist\<close> refine for every sequence of calls; the properties of \<open>catq\<close>, \<open>b_to_q\<close>,
  \<open>nextc\<close>, \<open>ndqb\<close> and of the initial free list.
\<close>

section \<open>Byte queues\<close>

datatype qop =
    Putc nat nat | Getc nat | Unputc nat | Ndflush nat int | Catq nat nat
  | Bq nat "nat list" | Qb nat int

text \<open>
  The abstract operations on numbered byte strings. Only the number of bytes accepted by
  \<open>putc\<close> and \<open>b_to_q\<close> is left open, since the free blocks are shared with other queues.
\<close>

inductive qspec :: "qop \<Rightarrow> nat list list \<Rightarrow> int list \<Rightarrow> nat list list \<Rightarrow> bool" where
  put: "qspec (Putc i c) xss [0] (xss[i := xss ! i @ [c mod 256]])"
| put_full: "qspec (Putc i c) xss [-1] xss"
| get_empty: "xss ! i = [] \<Longrightarrow> qspec (Getc i) xss [-1] xss"
| get: "xss ! i = x # xs \<Longrightarrow> qspec (Getc i) xss [int x] (xss[i := xs])"
| unput_empty: "xss ! i = [] \<Longrightarrow> qspec (Unputc i) xss [-1] xss"
| unput: "xss ! i \<noteq> [] \<Longrightarrow> qspec (Unputc i) xss [schar (last (xss ! i))] (xss[i := butlast (xss ! i)])"
| flush: "qspec (Ndflush i n) xss [] (xss[i := drop (nat n) (xss ! i)])"
| cat: "qspec (Catq i j) xss [] (xss[i := [], j := xss ! j @ xss ! i])"
| put_buf: "k \<le> length cp \<Longrightarrow> qspec (Bq i cp) xss [int (length cp - k)] (xss[i := xss ! i @ take k cp])"
| get_buf: "qspec (Qb i n) xss (map int (take (nat n) (xss ! i))) (xss[i := drop (nat n) (xss ! i)])"

inductive_cases qspec_GetcE: "qspec (Getc i) xss r yss"

fun qop_ok :: "nat \<Rightarrow> qop \<Rightarrow> bool" where
  "qop_ok n (Catq i j) \<longleftrightarrow> i < n \<and> j < n \<and> i \<noteq> j"
| "qop_ok n (Putc i c) \<longleftrightarrow> i < n"
| "qop_ok n (Getc i) \<longleftrightarrow> i < n"
| "qop_ok n (Unputc i) \<longleftrightarrow> i < n"
| "qop_ok n (Ndflush i k) \<longleftrightarrow> i < n"
| "qop_ok n (Bq i cp) \<longleftrightarrow> i < n"
| "qop_ok n (Qb i k) \<longleftrightarrow> i < n"

text \<open>One call on the queues, with its result.\<close>

fun clist_step :: "qop \<Rightarrow> cheap \<times> clist list \<Rightarrow> (int list \<times> cheap \<times> clist list) option" where
  "clist_step (Putc i c) (h, qs) =
     (case putc c h (qs ! i) of (r, h', q') \<Rightarrow> Some ([r], h', qs[i := q']))"
| "clist_step (Getc i) (h, qs) =
     (case getc h (qs ! i) of (r, h', q') \<Rightarrow> Some ([r], h', qs[i := q']))"
| "clist_step (Unputc i) (h, qs) =
     Option.bind (unputc h (qs ! i)) (\<lambda>(r, h', q'). Some ([r], h', qs[i := q']))"
| "clist_step (Ndflush i n) (h, qs) =
     Option.bind (ndflush h (qs ! i) n) (\<lambda>(h', q'). Some ([], h', qs[i := q']))"
| "clist_step (Catq i j) (h, qs) =
     Option.bind (catq h (qs ! i) (qs ! j)) (\<lambda>(h', f', t'). Some ([], h', qs[i := f', j := t']))"
| "clist_step (Bq i cp) (h, qs) =
     (case b_to_q cp h (qs ! i) of (rest, h', q') \<Rightarrow> Some ([int (length rest)], h', qs[i := q']))"
| "clist_step (Qb i n) (h, qs) =
     Option.bind (q_to_b h (qs ! i) n) (\<lambda>(bs, h', q'). Some (map int bs, h', qs[i := q']))"

fun clist_state :: "nat set \<Rightarrow> nat \<Rightarrow> cheap \<times> clist list \<Rightarrow> nat list list \<Rightarrow> bool" where
  "clist_state B n (h, qs) xss \<longleftrightarrow> clists_rep B h qs xss \<and> length qs = n"

lemma clists_rep_length: "clists_rep B h qs xss \<Longrightarrow> length xss = length qs"
  by (auto simp: clists_rep_def)

lemma catq_clists:
  assumes rep: "clists_rep B h qs xss" and i: "i < length qs" "j < length qs" "i \<noteq> j"
  shows "\<exists>h' f' t'. catq h (qs ! i) (qs ! j) = Some (h', f', t') \<and>
     clists_rep B h' (qs[i := f', j := t']) (xss[i := [], j := xss ! j @ xss ! i])"
proof (cases "xss ! j = []")
  case True
  then have "catq h (qs ! i) (qs ! j) = Some (h, empty_clist, qs ! i)"
    using clists_rep_nth_empty [OF rep i(2)] by (simp add: catq_def)
  then show ?thesis using clists_rep_move [OF rep i True] True by simp
next
  case False
  then have "catq h (qs ! i) (qs ! j) = catq_loop h (qs ! i) (qs ! j)"
    using clists_rep_cc [OF rep i(2)] by (simp add: catq_def)
  then show ?thesis using catq_loop_clists [OF rep i clists_rep_length [OF rep]] by simp
qed

lemma clist_sim:
  assumes "clist_state B n s xss" "qop_ok n op"
  shows "\<exists>r s' yss. clist_step op s = Some (r, s') \<and> clist_state B n s' yss \<and> qspec op xss r yss"
proof -
  obtain h qs where s: "s = (h, qs)" by (cases s)
  have rep: "clists_rep B h qs xss" and n: "length qs = n" using assms(1) s by auto
  show ?thesis
  proof (cases op)
    case (Putc i c)
    then show ?thesis using putc_clists [OF rep, of i c] assms(2) n s by (fastforce intro: qspec.intros)
  next
    case (Getc i)
    then have i: "i < length qs" using assms(2) n by simp
    show ?thesis
    proof (cases "xss ! i")
      case Nil
      then show ?thesis using getc_clists [OF rep i] Getc s rep n by (auto intro: qspec.intros)
    next
      case (Cons x xs)
      then show ?thesis using getc_clists [OF rep i] qspec.get [OF Cons] Getc s n by fastforce
    qed
  next
    case (Unputc i)
    then have i: "i < length qs" using assms(2) n by simp
    then show ?thesis
      using unputc_clists [OF rep i] Unputc s rep n by (cases "xss ! i = []") (fastforce intro: qspec.intros)+
  next
    case (Ndflush i k)
    then show ?thesis using ndflush_clists [OF rep, of i k] assms(2) n s by (fastforce intro: qspec.intros)
  next
    case (Catq i j)
    then show ?thesis using catq_clists [OF rep, of i j] assms(2) n s by (fastforce intro: qspec.intros)
  next
    case (Bq i cp)
    then have i: "i < length qs" using assms(2) n by simp
    obtain k h' q' where b: "b_to_q cp h (qs ! i) = (drop k cp, h', q')" "k \<le> length cp"
      "clists_rep B h' (qs[i := q']) (xss[i := xss ! i @ take k cp])"
      using b_to_q_clists [OF rep i, of cp] by blast
    then show ?thesis using Bq s n qspec.put_buf [OF b(2), of i xss] by auto
  next
    case (Qb i k)
    then have i: "i < length qs" using assms(2) n by simp
    obtain h' q' where "q_to_b h (qs ! i) k = Some (take (nat k) (xss ! i), h', q')"
      "clists_rep B h' (qs[i := q']) (xss[i := drop (nat k) (xss ! i)])"
      using q_to_b_clists [OF rep i, of k] by blast
    then show ?thesis using Qb s n qspec.get_buf [of i k xss] by auto
  qed
qed

interpretation clist_queues: simulation clist_step "clist_state B n" "qop_ok n" qspec for B n
  by unfold_locales (rule clist_sim)

section \<open>The initial free list\<close>

lemma cblock_of_mult: "cblock_of a = 32 * (a div 32)"
  by (simp add: cblock_of_def minus_mod_eq_mult_div)

lemma cblock_of_up:
  assumes "block_ok b"
  shows "cblock_of (a + 31) \<le> b \<longleftrightarrow> a \<le> b"
proof -
  obtain k where b: "b = 32 * k" using assms by (auto simp: block_ok_def dvd_def)
  have "(a + 31) div 32 \<le> k \<longleftrightarrow> a \<le> 32 * k" by linarith
  then show ?thesis unfolding cblock_of_mult b by simp
qed

lemma block_ok_up: "0 < a \<Longrightarrow> block_ok (cblock_of (a + 31))"
  unfolding cblock_of_mult block_ok_def by (auto simp: div_greater_zero_iff)

lemma cinit_from_rep:
  assumes "block_ok cp" "free_rep h fl" "distinct fl" "\<forall>b\<in>set fl. block_ok b \<and> b < cp"
  shows "\<exists>fl'. free_rep (cinit_from cp lim h) fl' \<and> distinct fl' \<and>
     set fl' = set fl \<union> {b. block_ok b \<and> cp \<le> b \<and> b \<le> lim}"
  using assms
proof (induction cp lim h arbitrary: fl rule: cinit_from.induct)
  case (1 cp lim h)
  show ?case
  proof (cases "cp \<le> lim")
    case True
    have "block_ok (cp + 32)" using 1(2) by (simp add: block_ok_def)
    moreover have "free_rep (cblock_push cp h) (cp # fl)" "distinct (cp # fl)"
      "\<forall>b\<in>set (cp # fl). block_ok b \<and> b < cp + 32"
      using free_rep_push(1) [OF 1(3), of cp] 1(2,4,5) by auto
    ultimately obtain fl' where f: "free_rep (cinit_from (cp + 32) lim (cblock_push cp h)) fl'" "distinct fl'"
      "set fl' = set (cp # fl) \<union> {b. block_ok b \<and> cp + 32 \<le> b \<and> b \<le> lim}"
      using 1(1) [OF True] by blast
    have "b = cp \<or> cp + 32 \<le> b" if "block_ok b" "cp \<le> b" for b
      using that 1(2) by (auto simp: block_ok_def dvd_def)
    then have "set (cp # fl) \<union> {b. block_ok b \<and> cp + 32 \<le> b \<and> b \<le> lim} =
        set fl \<union> {b. block_ok b \<and> cp \<le> b \<and> b \<le> lim}"
      using 1(2) True by auto
    then show ?thesis using f True by (subst cinit_from.simps) auto
  next
    case False
    then show ?thesis using 1(3,4) by (subst cinit_from.simps) (auto intro!: exI [of _ fl])
  qed
qed

lemma cinit_clists:
  assumes "0 < cfree" "cfreelist h = 0" "cfreecount h = 0"
  shows "clists_rep {b. 32 dvd b \<and> cfree \<le> b \<and> b + 32 \<le> cfree + 32 * NCLIST}
     (cinit cfree h) (replicate n empty_clist) (replicate n [])"
proof -
  let ?B = "{b. 32 dvd b \<and> cfree \<le> b \<and> b + 32 \<le> cfree + 32 * NCLIST}"
  let ?cp = "cblock_of (cfree + 31)"
  have "free_rep h []" using assms(2,3) by (simp add: free_rep_def)
  from cinit_from_rep [OF block_ok_up [OF assms(1)] this, of "cfree + CBLOCK * (NCLIST - 1)"]
  obtain fl where fl: "free_rep (cinit cfree h) fl" "distinct fl"
    "set fl = {b. block_ok b \<and> ?cp \<le> b \<and> b \<le> cfree + CBLOCK * (NCLIST - 1)}"
    by (auto simp: cinit_def)
  have "set fl = ?B"
    unfolding fl(3) using assms(1) cblock_of_up by (auto simp: block_ok_def)
  moreover have "\<forall>b\<in>?B. block_ok b" using assms(1) by (auto simp: block_ok_def)
  moreover have "concat (replicate n []) = ([] :: nat list)" by (induction n) auto
  ultimately show ?thesis
    using fl(1,2) unfolding clists_rep_def
    by (intro exI [of _ fl] exI [of _ "replicate n []"]) (simp add: clist_rep_def)
qed

section \<open>Properties\<close>

text \<open>
  C7. Every sequence of calls of \<open>putc\<close>, \<open>getc\<close>, \<open>unputc\<close>, \<open>ndflush\<close>, \<open>catq\<close>,
  \<open>b_to_q\<close> and \<open>q_to_b\<close> on queues that represent byte strings returns, keeps the
  representation (no block is lost or shared) and gives exactly the results that the byte
  queues \<open>qspec\<close> allow.
\<close>

theorem clist_refines_queues:
  assumes "clists_rep B h qs xss" "\<forall>op\<in>set ops. qop_ok (length qs) op"
  shows "\<exists>rs h' qs' yss. run_steps clist_step ops (h, qs) = Some (rs, h', qs') \<and>
     clists_rep B h' qs' yss \<and> spec_run qspec ops xss rs yss"
proof -
  have "clist_state B (length qs) (h, qs) xss" using assms(1) by simp
  from clist_queues.run_refines [OF this assms(2)] show ?thesis by fastforce
qed

theorem clist_refines_queues_witness:
  "let h = \<lparr>c_next = (\<lambda>_. 0), c_info = (\<lambda>_. 0), cfreelist = 0, cfreecount = 0, cwaiting = False, cwakeups = 0\<rparr>
   in \<exists>rs h' qs' yss. run_steps clist_step [Putc 0 65, Putc 0 66, Getc 0] (cinit 100 h, [empty_clist])
        = Some (rs, h', qs') \<and> spec_run qspec [Putc 0 65, Putc 0 66, Getc 0] [[]] rs yss"
proof -
  let ?h = "\<lparr>c_next = (\<lambda>_. 0), c_info = (\<lambda>_. 0), cfreelist = 0, cfreecount = 0, cwaiting = False, cwakeups = 0\<rparr>"
  have "clists_rep {b. 32 dvd b \<and> 100 \<le> b \<and> b + 32 \<le> 100 + 32 * NCLIST} (cinit 100 ?h) [empty_clist] [[]]"
    using cinit_clists [of 100 ?h 1] by simp
  from clist_refines_queues [OF this, of "[Putc 0 65, Putc 0 66, Getc 0]"]
  show ?thesis unfolding Let_def by auto
qed

text \<open>
  \<open>b_to_q\<close> appends a prefix of the buffer and leaves every other queue as it is; it stops
  before the end only after moving at least as many bytes as there were free places
  (\<^verbatim>\<open>cfreecount\<close>). \<open>putc\<close> fails only when there is no free block.
\<close>

theorem b_to_q_putc_progress:
  assumes "clists_rep B h qs xss" "i < length qs"
  shows "(\<exists>k h' q'. b_to_q cp h (qs ! i) = (drop k cp, h', q') \<and> k \<le> length cp \<and>
      clists_rep B h' (qs[i := q']) (xss[i := xss ! i @ take k cp]) \<and>
      (k = length cp \<or> cfreecount h \<le> int k)) \<and>
    (\<exists>r h' q'. putc c h (qs ! i) = (r, h', q') \<and>
      (r = 0 \<and> clists_rep B h' (qs[i := q']) (xss[i := xss ! i @ [c mod 256]]) \<or>
       r = -1 \<and> cfreelist h = 0 \<and> clists_rep B h' (qs[i := q']) xss))"
  using b_to_q_clists [OF assms] putc_clists [OF assms] by blast

theorem b_to_q_putc_progress_witness:
  "let h = \<lparr>c_next = (\<lambda>_. 0), c_info = (\<lambda>_. 0), cfreelist = 0, cfreecount = 0, cwaiting = False, cwakeups = 0\<rparr>
   in \<exists>k h' q'. b_to_q [1, 2, 3] (cinit 100 h) empty_clist = (drop k [1, 2, 3], h', q') \<and>
        (k = 3 \<or> cfreecount (cinit 100 h) \<le> int k)"
proof -
  let ?h = "\<lparr>c_next = (\<lambda>_. 0), c_info = (\<lambda>_. 0), cfreelist = 0, cfreecount = 0, cwaiting = False, cwakeups = 0\<rparr>"
  have "clists_rep {b. 32 dvd b \<and> 100 \<le> b \<and> b + 32 \<le> 100 + 32 * NCLIST} (cinit 100 ?h) [empty_clist] [[]]"
    using cinit_clists [of 100 ?h 1] by simp
  from b_to_q_putc_progress [OF this, of 0 "[1, 2, 3]" 0] show ?thesis unfolding Let_def by auto
qed

text \<open>
  Following \<open>nextc\<close> from \<^verbatim>\<open>c_cf\<close> visits the bytes of a queue in order and then gives
  the null pointer; \<open>ndqb\<close> counts the bytes up to the end of the first block, at least one,
  or with a flag up to the first byte that has one of its bits.
\<close>

theorem nextc_ndqb_read:
  assumes "clists_rep B h qs xss" "i < length qs"
  shows "(\<exists>ps. map (c_info h) ps = xss ! i \<and> (ps = [] \<or> hd ps = c_cf (qs ! i)) \<and>
      (\<forall>k<length ps. nextc h (qs ! i) (ps ! k) = (if Suc k < length ps then ps ! Suc k else 0))) \<and>
    (xss ! i \<noteq> [] \<longrightarrow> (\<exists>n. 0 < n \<and> ndqb h (qs ! i) 0 = int (length (take n (xss ! i))) \<and>
      (\<forall>flag. flag \<noteq> 0 \<longrightarrow> ndqb h (qs ! i) flag =
         int (length (takeWhile (\<lambda>c. schar c AND flag = 0) (take n (xss ! i)))))))"
proof -
  obtain fl bs where l: "local_rep h (qs ! i) fl bs (xss ! i)" by (rule clists_rep_local [OF assms])
  have "0 < CBLOCK - cround (c_cf (qs ! i))" by (simp add: cround_def)
  moreover have "ndqb h (qs ! i) 0 = int (length (take (CBLOCK - cround (c_cf (qs ! i))) (xss ! i)))"
    "\<forall>flag. flag \<noteq> 0 \<longrightarrow> ndqb h (qs ! i) flag = int (length (takeWhile (\<lambda>c. schar c AND flag = 0)
       (take (CBLOCK - cround (c_cf (qs ! i))) (xss ! i))))" if "xss ! i \<noteq> []"
    using ndqb_local(2) [OF l that, of 0] ndqb_local(2) [OF l that] by auto
  ultimately show ?thesis using nextc_local [OF l] by blast
qed

theorem nextc_ndqb_read_witness:
  "let h = \<lparr>c_next = (\<lambda>_. 0), c_info = (\<lambda>_. 7), cfreelist = 0, cfreecount = 0, cwaiting = False, cwakeups = 0\<rparr>;
       q = \<lparr>c_cc = 2, c_cf = 36, c_cl = 38\<rparr>
   in \<exists>n. 0 < n \<and> ndqb h q 0 = int (length (take n [7::nat, 7]))"
proof -
  let ?h = "\<lparr>c_next = (\<lambda>_. 0), c_info = (\<lambda>_. 7), cfreelist = 0, cfreecount = 0, cwaiting = False, cwakeups = 0\<rparr>"
  let ?q = "\<lparr>c_cc = 2, c_cf = 36, c_cl = 38\<rparr>"
  have "clists_rep {32} ?h [?q] [[7, 7]]"
    unfolding clists_rep_def
    by (intro exI [of _ "[]"] exI [of _ "[[32]]"])
      (simp add: clist_rep_def free_rep_def block_ok_def upt_rec)
  from nextc_ndqb_read [OF this, of 0] show ?thesis unfolding Let_def by auto
qed

text \<open>
  \<open>cinit\<close> puts on the free list exactly the aligned blocks that lie inside the array
  \<^verbatim>\<open>cfree\<close>, wherever the array starts; from there all queues are empty.
\<close>

theorem cinit_correct:
  assumes "0 < cfree" "cfreelist h = 0" "cfreecount h = 0"
  shows "clists_rep {b. 32 dvd b \<and> cfree \<le> b \<and> b + 32 \<le> cfree + 32 * NCLIST}
     (cinit cfree h) (replicate n empty_clist) (replicate n [])"
  using assms by (rule cinit_clists)

theorem cinit_correct_witness:
  "let h = \<lparr>c_next = (\<lambda>_. 0), c_info = (\<lambda>_. 0), cfreelist = 0, cfreecount = 0, cwaiting = False, cwakeups = 0\<rparr>
   in clists_rep {b. 32 dvd b \<and> 100 \<le> b \<and> b + 32 \<le> 100 + 32 * 32} (cinit 100 h) [empty_clist] [[]]"
  using cinit_correct [of 100 "\<lparr>c_next = (\<lambda>_. 0), c_info = (\<lambda>_. 0), cfreelist = 0, cfreecount = 0,
      cwaiting = False, cwakeups = 0\<rparr>" 1] by simp

end
