(* ===== verification/Callout.thy ===== *)
theory Callout
  imports Kern_Prelude "HOL-Library.Multiset"
begin

text \<open>
  The timeout queue of \<^verbatim>\<open>src/sys/kernel/kern_clock.c\<close>: \<open>timeout\<close>, \<open>untimeout\<close>, the part of
  \<open>hardclock\<close> that counts the queue down and the loop of \<open>softclock\<close> that runs what is due.
  The linked list \<^verbatim>\<open>calltodo\<close> is the list of its entries in order and \<^verbatim>\<open>callfree\<close> the list
  of the free slots of \<^verbatim>\<open>callout[]\<close>. An entry stores the ticks from the one before it;
  \<open>ticks_left\<close> adds them up, and the lemmas say what each operation does to the ticks left
  of every entry. A function is a value of \<open>cfunc\<close>, so that \<open>untimeout\<close> can compare them: the kernel
  passes \<open>schedcpu\<close>, \<open>endtsleep\<close> and (in \<^verbatim>\<open>tty.c\<close>) \<open>wakeup\<close> to \<open>timeout\<close>, and no other.
\<close>

section \<open>Data\<close>

datatype cfunc = F_schedcpu | F_endtsleep | F_wakeup

record callout =
  c_slot :: nat \<comment> \<open>the index in \<^verbatim>\<open>callout[]\<close>\<close>
  c_time :: int
  c_func :: cfunc
  c_arg :: nat

record callq =
  calltodo :: "callout list"
  callfree :: "nat list"

abbreviation (input) NCALL :: nat where "NCALL \<equiv> 18"

section \<open>Operations\<close>

definition coutinit :: callq where
  "coutinit = \<lparr>calltodo = [], callfree = [0..<NCALL]\<rparr>"

text \<open>The search for the place of a new entry, which takes the ticks of the entries before it off \<open>t\<close>.\<close>

fun timeout_insert :: "callout \<Rightarrow> int \<Rightarrow> callout list \<Rightarrow> callout list" where
  "timeout_insert pnew t [] = [pnew\<lparr>c_time := t\<rparr>]"
| "timeout_insert pnew t (p2 # rest) =
     (if c_time p2 < t
      then p2 # timeout_insert pnew (if 0 < c_time p2 then t - c_time p2 else t) rest
      else pnew\<lparr>c_time := t\<rparr> # p2\<lparr>c_time := c_time p2 - t\<rparr> # rest)"

definition timeout :: "cfunc \<Rightarrow> nat \<Rightarrow> int \<Rightarrow> callq \<Rightarrow> callq outcome" where
  "timeout fun arg t q =
     (let t = (if t \<le> 0 then 1 else t)
      in case callfree q of
           [] \<Rightarrow> Panic ''timeout table overflow''
         | pnew # rest \<Rightarrow>
             Ret \<lparr>calltodo = timeout_insert \<lparr>c_slot = pnew, c_time = 0, c_func = fun, c_arg = arg\<rparr> t (calltodo q),
                  callfree = rest\<rparr>)"

text \<open>The first matching entry is taken out, and its ticks are given to the one after it.\<close>

fun untimeout_remove :: "cfunc \<Rightarrow> nat \<Rightarrow> callout list \<Rightarrow> nat option \<times> callout list" where
  "untimeout_remove fun arg [] = (None, [])"
| "untimeout_remove fun arg (p2 # rest) =
     (if c_func p2 = fun \<and> c_arg p2 = arg then
        (Some (c_slot p2),
         case rest of
           [] \<Rightarrow> []
         | p3 # rest' \<Rightarrow> (if 0 < c_time p2 then p3\<lparr>c_time := c_time p3 + c_time p2\<rparr> else p3) # rest')
      else (let r = untimeout_remove fun arg rest in (fst r, p2 # snd r)))"

definition untimeout :: "cfunc \<Rightarrow> nat \<Rightarrow> callq \<Rightarrow> callq" where
  "untimeout fun arg q =
     (let r = untimeout_remove fun arg (calltodo q)
      in case fst r of
           None \<Rightarrow> q
         | Some p2 \<Rightarrow> \<lparr>calltodo = snd r, callfree = p2 # callfree q\<rparr>)"

text \<open>The count down of \<open>hardclock\<close> and its flag \<^verbatim>\<open>needsoft\<close>.\<close>

fun hardclock_tick :: "callout list \<Rightarrow> bool \<times> callout list" where
  "hardclock_tick [] = (False, [])"
| "hardclock_tick (p1 # rest) =
     (let p1' = p1\<lparr>c_time := c_time p1 - 1\<rparr>
      in if 0 < c_time p1' then (False, p1' # rest)
         else if c_time p1' = 0 then (True, p1' # rest)
         else (True, p1' # snd (hardclock_tick rest)))"

text \<open>
  The loop of \<open>softclock\<close>: the entry is freed before its function is called. \<open>call\<close> is the
  effect of a function on the rest of the system, in which the queue is found by \<open>get\<close> and
  replaced by \<open>put\<close>. The calls made are collected in order.
\<close>

partial_function (option) softclock_loop ::
    "('s \<Rightarrow> callq) \<Rightarrow> (callq \<Rightarrow> 's \<Rightarrow> 's) \<Rightarrow> (cfunc \<Rightarrow> nat \<Rightarrow> 's \<Rightarrow> 's outcome) \<Rightarrow> 's \<Rightarrow>
     (cfunc \<times> nat) list \<Rightarrow> ((cfunc \<times> nat) list \<times> 's outcome) option" where
  "softclock_loop get put call s log =
     (case calltodo (get s) of
        [] \<Rightarrow> Some (log, Ret s)
      | p1 # rest \<Rightarrow>
          if 0 < c_time p1 then Some (log, Ret s)
          else
            (case call (c_func p1) (c_arg p1)
                    (put \<lparr>calltodo = rest, callfree = c_slot p1 # callfree (get s)\<rparr> s) of
               Ret s' \<Rightarrow> softclock_loop get put call s' (log @ [(c_func p1, c_arg p1)])
             | bad \<Rightarrow> Some (log @ [(c_func p1, c_arg p1)], bad)))"

text \<open>
  A sequence of clock interrupts: \<open>step\<close> is what one does, with the calls it makes and an
  outcome.
\<close>

fun clock_run :: "('i \<Rightarrow> 's \<Rightarrow> ((cfunc \<times> nat) list \<times> 's outcome) option) \<Rightarrow> 'i list \<Rightarrow> 's \<Rightarrow> 's option" where
  "clock_run step [] s = Some s"
| "clock_run step (i # is) s =
     (case step i s of
        Some (log, Ret s') \<Rightarrow> clock_run step is s'
      | _ \<Rightarrow> None)"

section \<open>Ticks left\<close>

fun ticks_left :: "int \<Rightarrow> callout list \<Rightarrow> (callout \<times> int) list" where
  "ticks_left n [] = []"
| "ticks_left n (c # cs) =
     (let n' = n + max 0 (c_time c) in (c\<lparr>c_time := 0\<rparr>, n') # ticks_left n' cs)"

text \<open>Entries that are due come first; later ones never have negative times.\<close>

fun callq_ok :: "callout list \<Rightarrow> bool" where
  "callq_ok [] = True"
| "callq_ok (c # cs) = (if 0 < c_time c then list_all (\<lambda>x. 0 \<le> c_time x) cs else callq_ok cs)"


lemma nonneg_callq_ok: "list_all (\<lambda>x. 0 \<le> c_time x) cs \<Longrightarrow> callq_ok cs"
  by (induction cs) auto

lemma callq_ok_tl: "callq_ok (c # cs) \<Longrightarrow> callq_ok cs"
  by (auto split: if_splits intro: nonneg_callq_ok)

text \<open>What the queue promises: the pending calls, each with the ticks until it is due, soonest first.\<close>

definition agenda :: "callq \<Rightarrow> (callout \<times> int) list" where
  "agenda q = ticks_left 0 (calltodo q)"

definition agenda_insert :: "callout \<Rightarrow> int \<Rightarrow> (callout \<times> int) list \<Rightarrow> (callout \<times> int) list" where
  "agenda_insert c t xs = takeWhile (\<lambda>x. snd x < t) xs @ (c, t) # dropWhile (\<lambda>x. snd x < t) xs"

fun agenda_remove :: "cfunc \<Rightarrow> nat \<Rightarrow> (callout \<times> int) list \<Rightarrow> (callout \<times> int) list" where
  "agenda_remove fun arg [] = []"
| "agenda_remove fun arg (x # xs) =
     (if c_func (fst x) = fun \<and> c_arg (fst x) = arg then xs else x # agenda_remove fun arg xs)"

text \<open>The queue is in order and every slot of the table is either free or pending, once.\<close>

definition callq_inv :: "callq \<Rightarrow> bool" where
  "callq_inv q \<longleftrightarrow> callq_ok (calltodo q) \<and>
     distinct (map c_slot (calltodo q) @ callfree q) \<and>
     set (map c_slot (calltodo q) @ callfree q) = {..<NCALL}"

section \<open>The queue against its agenda\<close>

lemma ticks_left_nonneg: "x \<in> set (ticks_left n cs) \<Longrightarrow> n \<le> snd x"
proof (induction cs arbitrary: n)
  case (Cons c cs)
  show ?case
  proof (cases "x = (c\<lparr>c_time := 0\<rparr>, n + max 0 (c_time c))")
    case False
    then have "n + max 0 (c_time c) \<le> snd x"
      using Cons.prems by (intro Cons.IH) (simp add: Let_def)
    then show ?thesis by linarith
  qed simp
qed simp

lemma ticks_left_sorted: "sorted (map snd (ticks_left n cs))"
  by (induction cs arbitrary: n) (auto simp: Let_def dest: ticks_left_nonneg)

lemma map_ticks_left: "map fst (ticks_left n cs) = map (\<lambda>c. c\<lparr>c_time := 0\<rparr>) cs"
  by (induction cs arbitrary: n) (auto simp: Let_def)

lemma ticks_left_append:
  "ticks_left n (xs @ ys) = ticks_left n xs @ ticks_left (n + sum_list (map (\<lambda>c. max 0 (c_time c)) xs)) ys"
  by (induction xs arbitrary: n) (auto simp: Let_def algebra_simps)

lemma ticks_left_insert:
  assumes "0 < t"
  shows "ticks_left n (timeout_insert p t cs) = agenda_insert (p\<lparr>c_time := 0\<rparr>) (n + t) (ticks_left n cs)"
  using assms
proof (induction cs arbitrary: n t)
  case (Cons c cs)
  show ?case
  proof (cases "c_time c < t")
    case True
    then show ?thesis
      using Cons.IH [of "t - c_time c" "n + c_time c"] Cons.IH [of t n] Cons.prems
      by (auto simp: Let_def agenda_insert_def max_def)
  qed (use Cons.prems in \<open>auto simp: Let_def agenda_insert_def\<close>)
qed (simp add: agenda_insert_def)

lemma timeout_insert_nonneg:
  "list_all (\<lambda>x. 0 \<le> c_time x) cs \<Longrightarrow> 0 < t \<Longrightarrow> list_all (\<lambda>x. 0 \<le> c_time x) (timeout_insert p t cs)"
  by (induction cs arbitrary: t) auto

lemma callq_ok_insert: "callq_ok cs \<Longrightarrow> 0 < t \<Longrightarrow> callq_ok (timeout_insert p t cs)"
  by (induction cs arbitrary: t)
    (auto intro: timeout_insert_nonneg nonneg_callq_ok split: if_splits)

lemma mset_slots_insert:
  "mset (map c_slot (timeout_insert p t cs)) = add_mset (c_slot p) (mset (map c_slot cs))"
  by (induction cs arbitrary: t) auto

lemma ticks_left_remove:
  assumes "callq_ok cs"
  shows "ticks_left n (snd (untimeout_remove f a cs)) = agenda_remove f a (ticks_left n cs)"
  using assms
proof (induction f a cs arbitrary: n rule: untimeout_remove.induct)
  case (2 f a c cs)
  show ?case
  proof (cases "c_func c = f \<and> c_arg c = a")
    case True
    then show ?thesis using 2(2) by (cases cs) (auto simp: Let_def max_def ac_simps split: if_splits)
  next
    case False
    then show ?thesis using 2(1) [OF False] callq_ok_tl [OF 2(2)] by (auto simp: Let_def)
  qed
qed simp

lemma remove_nonneg:
  "list_all (\<lambda>x. 0 \<le> c_time x) cs \<Longrightarrow> list_all (\<lambda>x. 0 \<le> c_time x) (snd (untimeout_remove f a cs))"
  by (induction f a cs rule: untimeout_remove.induct) (auto simp: Let_def split: list.splits)

lemma callq_ok_remove: "callq_ok cs \<Longrightarrow> callq_ok (snd (untimeout_remove f a cs))"
proof (induction f a cs rule: untimeout_remove.induct)
  case (2 f a c cs)
  show ?case
  proof (cases "c_func c = f \<and> c_arg c = a")
    case True
    then show ?thesis using 2(2) callq_ok_tl [OF 2(2)]
      by (cases cs) (auto intro: nonneg_callq_ok split: if_splits)
  next
    case False
    then show ?thesis
      using 2(1) [OF False] 2(2) callq_ok_tl [OF 2(2)] remove_nonneg [of cs f a]
      by (auto simp: Let_def split: if_splits)
  qed
qed simp

lemma mset_slots_remove:
  "mset (map c_slot cs) = mset (map c_slot (snd (untimeout_remove f a cs))) +
     (case fst (untimeout_remove f a cs) of None \<Rightarrow> {#} | Some s \<Rightarrow> {#s#})"
  by (induction f a cs rule: untimeout_remove.induct) (auto simp: Let_def split: list.splits option.splits)

lemma untimeout_remove_None: "fst (untimeout_remove f a cs) = None \<Longrightarrow> snd (untimeout_remove f a cs) = cs"
  by (induction f a cs rule: untimeout_remove.induct) (auto simp: Let_def split: if_splits)

lemma ticks_left_cong_time:
  "max 0 (c_time c') = max 0 (c_time c) + d \<Longrightarrow> c'\<lparr>c_time := 0\<rparr> = c\<lparr>c_time := 0\<rparr> \<Longrightarrow>
   ticks_left n (c' # cs) = (c\<lparr>c_time := 0\<rparr>, n + max 0 (c_time c) + d) # ticks_left (n + max 0 (c_time c) + d) cs"
  by (simp add: Let_def algebra_simps)

lemma ticks_left_shift: "ticks_left (n + d) cs = map (\<lambda>(c, m). (c, m + d)) (ticks_left n cs)"
  by (induction cs arbitrary: n) (auto simp: Let_def, metis add.assoc add.commute)

lemma ticks_left_tick:
  "ticks_left 0 (snd (hardclock_tick cs)) = map (\<lambda>(c, m). (c, max 0 (m - 1))) (ticks_left 0 cs)"
proof (induction cs)
  case (Cons c cs)
  show ?case
  proof (cases "0 < c_time c")
    case True
    have "ticks_left (c_time c - 1) cs = map (\<lambda>(c, m). (c, m - 1)) (ticks_left (c_time c) cs)"
      using ticks_left_shift [of "c_time c" "-1" cs] by simp
    also have "\<dots> = map (\<lambda>(c, m). (c, max 0 (m - 1))) (ticks_left (c_time c) cs)"
      using True by (auto dest: ticks_left_nonneg)
    finally have shifted: "ticks_left (c_time c - 1) cs = \<dots>" .
    show ?thesis
    proof (cases "c_time c = 1")
      case True
      then show ?thesis using shifted by (simp add: Let_def)
    next
      case False
      then show ?thesis using shifted True by (simp add: Let_def)
    qed
  qed (use Cons.IH in \<open>auto simp: Let_def\<close>)
qed simp

lemma callq_ok_tick: "callq_ok cs \<Longrightarrow> callq_ok (snd (hardclock_tick cs))"
  by (induction cs) (auto simp: Let_def intro: nonneg_callq_ok split: if_splits)

lemma map_slot_tick [simp]: "map c_slot (snd (hardclock_tick cs)) = map c_slot cs"
  by (induction cs) (auto simp: Let_def)

lemma needsoft_iff: "fst (hardclock_tick cs) \<longleftrightarrow> (\<exists>x\<in>set (ticks_left 0 cs). snd x \<le> 1)"
proof (cases cs)
  case (Cons c cs')
  then show ?thesis by (auto simp: Let_def max_def split: if_splits dest: ticks_left_nonneg)
qed simp

lemma due_takeWhile:
  "callq_ok cs \<Longrightarrow> takeWhile (\<lambda>x. snd x \<le> 0) (ticks_left 0 cs) =
     map (\<lambda>c. (c\<lparr>c_time := 0\<rparr>, 0)) (takeWhile (\<lambda>c. c_time c \<le> 0) cs)"
  by (induction cs) (auto simp: Let_def max_def)

section \<open>Operations keep the queue in order\<close>

lemma callq_invI:
  assumes "callq_ok cs" "mset (map c_slot cs) + mset free = mset [0..<NCALL]"
  shows "callq_inv \<lparr>calltodo = cs, callfree = free\<rparr>"
proof -
  have *: "mset (map c_slot cs @ free) = mset [0..<NCALL]" using assms(2) by simp
  have "distinct (map c_slot cs @ free)" using mset_eq_imp_distinct_iff [OF *] by simp
  moreover have "set (map c_slot cs @ free) = {..<NCALL}"
    using mset_eq_setD [OF *] by (simp add: atLeast_upt lessThan_atLeast0)
  ultimately show ?thesis using assms(1) by (simp add: callq_inv_def)
qed

lemma callq_inv_slots:
  "callq_inv q \<Longrightarrow> mset (map c_slot (calltodo q)) + mset (callfree q) = mset [0..<NCALL]"
  using set_eq_iff_mset_eq_distinct [of "map c_slot (calltodo q) @ callfree q" "[0..<NCALL]"]
  unfolding callq_inv_def mset_append by (simp add: lessThan_atLeast0)

lemma callq_inv_coutinit: "callq_inv coutinit"
  by (auto simp: callq_inv_def coutinit_def)

lemma timeout_spec:
  assumes "callq_inv q" "callfree q = slot # rest"
  shows "\<exists>q'. timeout f a t q = Ret q' \<and> callq_inv q' \<and> callfree q' = rest \<and>
    agenda q' = agenda_insert \<lparr>c_slot = slot, c_time = 0, c_func = f, c_arg = a\<rparr> (max 1 t) (agenda q)"
proof -
  let ?p = "\<lparr>c_slot = slot, c_time = 0, c_func = f, c_arg = a\<rparr>"
  let ?cs = "timeout_insert ?p (max 1 t) (calltodo q)"
  have ret: "timeout f a t q = Ret \<lparr>calltodo = ?cs, callfree = rest\<rparr>"
    using assms(2) by (auto simp: timeout_def max_def Let_def)
  have "mset (map c_slot ?cs) + mset rest = mset (map c_slot (calltodo q)) + mset (callfree q)"
    using assms(2) by (simp add: mset_slots_insert del: mset_map)
  then have "callq_inv \<lparr>calltodo = ?cs, callfree = rest\<rparr>"
    using assms(1) callq_inv_slots [OF assms(1)]
    by (intro callq_invI callq_ok_insert) (auto simp: callq_inv_def)
  then show ?thesis using ret by (simp add: agenda_def ticks_left_insert)
qed

lemma untimeout_spec:
  assumes "callq_inv q"
  shows "callq_inv (untimeout f a q)" "agenda (untimeout f a q) = agenda_remove f a (agenda q)"
proof -
  let ?r = "untimeout_remove f a (calltodo q)"
  have ok: "callq_ok (calltodo q)" using assms by (simp add: callq_inv_def)
  have "callq_inv (untimeout f a q) \<and> agenda (untimeout f a q) = agenda_remove f a (agenda q)"
  proof (cases "fst ?r")
    case None
    then show ?thesis
      using assms ticks_left_remove [OF ok, of 0 f a] untimeout_remove_None [OF None]
      by (simp add: untimeout_def agenda_def Let_def)
  next
    case (Some slot)
    have "callq_inv \<lparr>calltodo = snd ?r, callfree = slot # callfree q\<rparr>"
      using callq_inv_slots [OF assms] mset_slots_remove [of "calltodo q" f a] Some
      by (intro callq_invI callq_ok_remove ok) simp
    then show ?thesis
      using Some ticks_left_remove [OF ok, of 0 f a] by (simp add: untimeout_def agenda_def Let_def)
  qed
  then show "callq_inv (untimeout f a q)" "agenda (untimeout f a q) = agenda_remove f a (agenda q)"
    by auto
qed

lemma tick_spec:
  assumes "callq_inv q"
  shows "callq_inv (q\<lparr>calltodo := snd (hardclock_tick (calltodo q))\<rparr>)"
    "agenda (q\<lparr>calltodo := snd (hardclock_tick (calltodo q))\<rparr>) =
      map (\<lambda>(c, m). (c, max 0 (m - 1))) (agenda q)"
  using assms callq_ok_tick [of "calltodo q"] unfolding callq_inv_def agenda_def
  by (simp_all add: ticks_left_tick del: set_append distinct_append)

lemma agenda_insert_set [simp]: "set (agenda_insert c t xs) = insert (c, t) (set xs)"
  unfolding agenda_insert_def
  by (metis Un_insert_right list.simps(15) set_append takeWhile_dropWhile_id)

definition due :: "callq \<Rightarrow> (callout \<times> int) list" where
  "due q = takeWhile (\<lambda>x. snd x \<le> 0) (agenda q)"

lemma due_insert:
  "0 < t \<Longrightarrow> takeWhile (\<lambda>x. snd x \<le> 0) (agenda_insert c t xs) = takeWhile (\<lambda>x. snd x \<le> 0) xs"
  unfolding agenda_insert_def by (induction xs) auto

text \<open>
  \<open>extends q q'\<close>: nothing pending was lost or moved, and what was added is not yet due. It is
  what a function called by \<open>softclock\<close> may do to the queue, and \<open>timeout\<close> does no more.
\<close>

definition extends :: "callq \<Rightarrow> callq \<Rightarrow> bool" where
  "extends q q' \<longleftrightarrow> set (agenda q) \<subseteq> set (agenda q') \<and> due q' = due q"

lemma extends_refl [simp]: "extends q q"
  by (simp add: extends_def)

lemma extends_trans: "extends q q' \<Longrightarrow> extends q' q'' \<Longrightarrow> extends q q''"
  by (auto simp: extends_def)

lemma timeout_extends:
  assumes "callq_inv q" "callfree q \<noteq> []"
  shows "\<exists>q'. timeout f a t q = Ret q' \<and> callq_inv q' \<and> extends q q'"
proof -
  obtain slot rest where "callfree q = slot # rest" using assms(2) by (cases "callfree q") auto
  from timeout_spec [OF assms(1) this, of f a t] show ?thesis
    by (auto simp: extends_def due_def due_insert)
qed

lemma softclock_pop:
  assumes "callq_inv q" "calltodo q = p # rest" "c_time p \<le> 0"
  defines "q' \<equiv> \<lparr>calltodo = rest, callfree = c_slot p # callfree q\<rparr>"
  shows "callq_inv q'" "agenda q = (p\<lparr>c_time := 0\<rparr>, 0) # agenda q'"
    "due q = (p\<lparr>c_time := 0\<rparr>, 0) # due q'"
proof -
  show "callq_inv q'"
    unfolding q'_def using assms(1-3) callq_inv_slots [OF assms(1)]
    by (intro callq_invI) (auto simp: callq_inv_def)
  show "agenda q = (p\<lparr>c_time := 0\<rparr>, 0) # agenda q'"
    using assms(2,3) by (simp add: agenda_def q'_def Let_def)
  then show "due q = (p\<lparr>c_time := 0\<rparr>, 0) # due q'"
    by (simp add: due_def)
qed

lemma due_Nil_iff: "due q = [] \<longleftrightarrow> calltodo q = [] \<or> 0 < c_time (hd (calltodo q))"
  by (cases "calltodo q") (auto simp: due_def agenda_def Let_def max_def)

lemma agenda_nonneg: "x \<in> set (agenda q) \<Longrightarrow> 0 \<le> snd x"
  unfolding agenda_def by (rule ticks_left_nonneg)

lemma sorted_takeWhile_set:
  "sorted (map snd xs) \<Longrightarrow> set (takeWhile (\<lambda>x. snd x \<le> n) xs) = {x \<in> set xs. snd x \<le> (n :: int)}"
  by (induction xs) (auto dest: set_takeWhileD)

lemma due_set: "set (due q) = {x \<in> set (agenda q). snd x = 0}"
proof -
  have "set (due q) = {x \<in> set (agenda q). snd x \<le> 0}"
    unfolding due_def by (rule sorted_takeWhile_set) (simp add: agenda_def ticks_left_sorted)
  then show ?thesis using agenda_nonneg [of _ q] by force
qed

lemma needsoft_due:
  assumes "callq_inv q"
  shows "fst (hardclock_tick (calltodo q)) \<longleftrightarrow>
    due (q\<lparr>calltodo := snd (hardclock_tick (calltodo q))\<rparr>) \<noteq> []"
proof -
  let ?q = "q\<lparr>calltodo := snd (hardclock_tick (calltodo q))\<rparr>"
  have "due ?q \<noteq> [] \<longleftrightarrow> (\<exists>x\<in>set (agenda ?q). snd x = 0)"
    using due_set [of ?q] by (metis (mono_tags, lifting) empty_iff emptyE equals0I mem_Collect_eq set_empty)
  also have "\<dots> \<longleftrightarrow> (\<exists>x\<in>set (agenda q). max 0 (snd x - 1) = 0)"
    unfolding tick_spec(2) [OF assms] by (simp add: split_beta)
  also have "\<dots> \<longleftrightarrow> (\<exists>x\<in>set (agenda q). snd x \<le> 1)"
    by (intro bex_cong refl) linarith
  finally show ?thesis by (simp add: needsoft_iff agenda_def)
qed

text \<open>
  The interface between the clock and the functions it calls. \<open>get\<close> and \<open>put\<close> find the queue
  in the state of the system; a called function returns, and extends the queue.
\<close>

locale timeout_handlers =
  fixes get :: "'s \<Rightarrow> callq"
    and put :: "callq \<Rightarrow> 's \<Rightarrow> 's"
    and call :: "cfunc \<Rightarrow> nat \<Rightarrow> 's \<Rightarrow> 's outcome"
    and good :: "'s \<Rightarrow> bool"
  assumes get_put: "get (put q s) = q"
    and good_put: "good s \<Longrightarrow> good (put q s)"
    and call_extends: "good s \<Longrightarrow> callq_inv (get s) \<Longrightarrow> callfree (get s) \<noteq> [] \<Longrightarrow>
      \<exists>s'. call f a s = Ret s' \<and> good s' \<and> callq_inv (get s') \<and> extends (get s) (get s')"
begin

lemma softclock_runs_due:
  assumes "good s" "callq_inv (get s)"
  shows "\<exists>s'. softclock_loop get put call s log =
      Some (log @ map (\<lambda>x. (c_func (fst x), c_arg (fst x))) (due (get s)), Ret s') \<and>
    good s' \<and> callq_inv (get s') \<and> due (get s') = [] \<and>
    (\<forall>x\<in>set (agenda (get s)). 0 < snd x \<longrightarrow> x \<in> set (agenda (get s')))"
  using assms
proof (induction "length (due (get s))" arbitrary: s log)
  case 0
  then show ?case
    by (subst softclock_loop.simps) (auto simp: due_Nil_iff split: list.splits)
next
  case (Suc n)
  then obtain p rest where p: "calltodo (get s) = p # rest" "c_time p \<le> 0"
    using due_Nil_iff [of "get s"] by (cases "calltodo (get s)") auto
  let ?q = "\<lparr>calltodo = rest, callfree = c_slot p # callfree (get s)\<rparr>"
  note pop = softclock_pop [OF Suc.prems(2) p]
  obtain s1 where s1: "call (c_func p) (c_arg p) (put ?q s) = Ret s1" "good s1" "callq_inv (get s1)"
      "extends ?q (get s1)"
    using call_extends [OF good_put [OF Suc.prems(1), of ?q], of "c_func p" "c_arg p"] pop(1)
    by (auto simp: get_put)
  have "n = length (due (get s1))" using Suc.hyps(2) pop(3) s1(4) by (simp add: extends_def)
  from Suc.hyps(1) [OF this s1(2,3), of "log @ [(c_func p, c_arg p)]"]
  obtain s' where s': "softclock_loop get put call s1 (log @ [(c_func p, c_arg p)]) =
      Some ((log @ [(c_func p, c_arg p)]) @ map (\<lambda>x. (c_func (fst x), c_arg (fst x))) (due (get s1)), Ret s')"
      "good s'" "callq_inv (get s')" "due (get s') = []"
      "\<forall>x\<in>set (agenda (get s1)). 0 < snd x \<longrightarrow> x \<in> set (agenda (get s'))"
    by blast
  have "softclock_loop get put call s log = softclock_loop get put call s1 (log @ [(c_func p, c_arg p)])"
    using p s1(1) by (subst softclock_loop.simps) simp
  moreover have "due (get s) = (p\<lparr>c_time := 0\<rparr>, 0) # due (get s1)"
    using pop(3) s1(4) by (simp add: extends_def)
  ultimately show ?case
    using s' pop(2) s1(4) by (auto simp: extends_def)
qed

text \<open>
  The end of a clock interrupt that counted down the queue \<open>q\<close>: \<open>softclock\<close> runs when it is asked for and the
  interrupted code ran at the base priority.
\<close>

lemma interrupt_spec:
  assumes "good s" "callq_inv q" "get s = q\<lparr>calltodo := snd (hardclock_tick (calltodo q))\<rparr>"
    "fst (hardclock_tick (calltodo q)) \<longrightarrow> needsoft"
  shows "\<exists>log s'. (if needsoft \<and> b then softclock_loop get put call s [] else Some ([], Ret s)) = Some (log, Ret s') \<and>
    good s' \<and> callq_inv (get s') \<and>
    (\<forall>(c, n)\<in>set (agenda q). 1 < n \<or> \<not> b \<longrightarrow> (c, max 0 (n - 1)) \<in> set (agenda (get s'))) \<and>
    (\<forall>(c, n)\<in>set (agenda q). n \<le> 1 \<and> b \<longrightarrow> (c_func c, c_arg c) \<in> set log)"
proof -
  note tick = tick_spec [OF assms(2)]
  have inv: "callq_inv (get s)" unfolding assms(3) by (rule tick(1))
  have ticked: "(c, max 0 (n - 1)) \<in> set (agenda (get s))" if "(c, n) \<in> set (agenda q)" for c n
    using that unfolding assms(3) tick(2) by force
  have soft: "n \<le> 1 \<Longrightarrow> needsoft" if "(c, n) \<in> set (agenda q)" for c n
    using that assms(4) unfolding needsoft_iff agenda_def by force
  show ?thesis
  proof (cases "needsoft \<and> b")
    case True
    obtain s' where s': "softclock_loop get put call s [] =
        Some (map (\<lambda>x. (c_func (fst x), c_arg (fst x))) (due (get s)), Ret s')" "good s'" "callq_inv (get s')"
        "\<forall>x\<in>set (agenda (get s)). 0 < snd x \<longrightarrow> x \<in> set (agenda (get s'))"
      using softclock_runs_due [OF assms(1) inv, of "[]"] by auto
    have "(c_func c, c_arg c) \<in> set (map (\<lambda>x. (c_func (fst x), c_arg (fst x))) (due (get s)))"
      if "(c, n) \<in> set (agenda q)" "n \<le> 1" for c n
      using ticked [OF that(1)] that(2) by (force simp: due_set)
    moreover have "(c, max 0 (n - 1)) \<in> set (agenda (get s'))" if "(c, n) \<in> set (agenda q)" "1 < n" for c n
      using ticked [OF that(1)] that(2) s'(4) by force
    ultimately show ?thesis using s' True by (intro exI conjI) auto
  next
    case False
    moreover have "\<not> b" if "(c, n) \<in> set (agenda q)" "n \<le> 1" for c n
      using soft [OF that] False by blast
    moreover have "\<forall>(c, n)\<in>set (agenda q). (c, max 0 (n - 1)) \<in> set (agenda (get s))" using ticked by blast
    ultimately show ?thesis using inv assms(1) by (intro exI [of _ "[]"] exI [of _ s]) auto
  qed
qed

end

text \<open>
  The interface of the clock itself: an interrupt brings every pending call one tick nearer, and makes those that are due if it
  found the base priority, which \<open>base\<close> says of it.
\<close>

locale clock_interrupts =
  fixes get :: "'s \<Rightarrow> callq"
    and good :: "'s \<Rightarrow> bool"
    and base :: "'i \<Rightarrow> bool"
    and step :: "'i \<Rightarrow> 's \<Rightarrow> ((cfunc \<times> nat) list \<times> 's outcome) option"
  assumes step_spec: "good s \<Longrightarrow> callq_inv (get s) \<Longrightarrow>
    \<exists>log s'. step i s = Some (log, Ret s') \<and> good s' \<and> callq_inv (get s') \<and>
      (\<forall>(c, n)\<in>set (agenda (get s)). 1 < n \<or> \<not> base i \<longrightarrow> (c, max 0 (n - 1)) \<in> set (agenda (get s'))) \<and>
      (\<forall>(c, n)\<in>set (agenda (get s)). n \<le> 1 \<and> base i \<longrightarrow> (c_func c, c_arg c) \<in> set log)"
begin

text \<open>
  A pending call with \<open>n\<close> ticks left stays pending as long as no interrupt from the \<open>n\<close>th on
  finds the base priority.
\<close>

lemma clock_run_pending:
  assumes "good s" "callq_inv (get s)" "(c, n) \<in> set (agenda (get s))"
    "\<forall>j<length is. n \<le> int j + 1 \<longrightarrow> \<not> base (is ! j)"
  shows "\<exists>s'. clock_run step is s = Some s' \<and> good s' \<and> callq_inv (get s') \<and>
    (c, max 0 (n - int (length is))) \<in> set (agenda (get s'))"
  using assms
proof (induction "is" arbitrary: s n)
  case Nil
  then show ?case using agenda_nonneg [OF Nil(3)] by (auto simp: max_def)
next
  case (Cons i "is")
  have b: "1 < n \<or> \<not> base i" using Cons.prems(4)[rule_format, of 0] by auto
  obtain log s1 where s1: "step i s = Some (log, Ret s1)" "good s1"
      "callq_inv (get s1)" "(c, max 0 (n - 1)) \<in> set (agenda (get s1))"
    using step_spec [OF Cons.prems(1,2), of i] Cons.prems(3) b by blast
  have "\<forall>j<length is. max 0 (n - 1) \<le> int j + 1 \<longrightarrow> \<not> base (is ! j)"
    using Cons.prems(4) by (auto dest: spec [of _ "Suc _"])
  from Cons.IH [OF s1(2-4) this] have "\<exists>s'. clock_run step is s1 = Some s' \<and> good s' \<and>
      callq_inv (get s') \<and> (c, max 0 (max 0 (n - 1) - int (length is))) \<in> set (agenda (get s'))" .
  moreover have "max 0 (max 0 (n - 1) - int (length is)) = max 0 (n - int (length (i # is)))"
    by (simp add: max_def)
  ultimately show ?case using s1(1) by simp
qed

lemma clock_run_fires:
  assumes "good s" "callq_inv (get s)" "(c, n) \<in> set (agenda (get s))"
    "\<forall>j<length is. n \<le> int j + 1 \<longrightarrow> \<not> base (is ! j)" "n \<le> int (length is) + 1" "base i"
  shows "\<exists>s' log s''. clock_run step is s = Some s' \<and>
    (c, max 0 (n - int (length is))) \<in> set (agenda (get s')) \<and>
    step i s' = Some (log, Ret s'') \<and> (c_func c, c_arg c) \<in> set log"
proof -
  obtain s' where s': "clock_run step is s = Some s'" "good s'" "callq_inv (get s')"
      "(c, max 0 (n - int (length is))) \<in> set (agenda (get s'))"
    using clock_run_pending [OF assms(1-4)] by blast
  obtain log s'' where h: "step i s' = Some (log, Ret s'')"
      "\<forall>(c, n)\<in>set (agenda (get s')). n \<le> 1 \<and> base i \<longrightarrow> (c_func c, c_arg c) \<in> set log"
    using step_spec [OF s'(2,3), of i] by blast
  have "(c_func c, c_arg c) \<in> set log" using h(2) s'(4) assms(5,6) by fastforce
  then show ?thesis using s'(1,4) h(1) by blast
qed

end

section \<open>The contract of the queue\<close>

text \<open>
  C9. The timeout queue keeps its agenda: \<open>timeout\<close> panics exactly when all the slots of the
  table are pending, and otherwise adds the call with \<open>t\<close> (at least one) ticks left without
  moving any other; \<open>untimeout\<close> removes the first matching call and leaves the ticks of all others;
  a tick of \<open>hardclock\<close> brings every pending call one tick nearer and asks for \<open>softclock\<close> exactly
  when a call is due. Each of them keeps the order of the queue and loses no slot.
\<close>

theorem callout_agenda:
  assumes "callq_inv q"
  shows "(timeout f a t q = Panic ''timeout table overflow'' \<and> length (agenda q) = NCALL \<or>
      (\<exists>q' slot. timeout f a t q = Ret q' \<and> callq_inv q' \<and> slot \<in> set (callfree q) \<and>
         agenda q' = agenda_insert \<lparr>c_slot = slot, c_time = 0, c_func = f, c_arg = a\<rparr> (max 1 t) (agenda q))) \<and>
    callq_inv (untimeout f a q) \<and> agenda (untimeout f a q) = agenda_remove f a (agenda q) \<and>
    callq_inv (q\<lparr>calltodo := snd (hardclock_tick (calltodo q))\<rparr>) \<and>
    agenda (q\<lparr>calltodo := snd (hardclock_tick (calltodo q))\<rparr>) =
      map (\<lambda>(c, m). (c, max 0 (m - 1))) (agenda q) \<and>
    (fst (hardclock_tick (calltodo q)) \<longleftrightarrow>
      due (q\<lparr>calltodo := snd (hardclock_tick (calltodo q))\<rparr>) \<noteq> []) \<and>
    sorted (map snd (agenda q))"
proof (intro conjI)
  show "timeout f a t q = Panic ''timeout table overflow'' \<and> length (agenda q) = NCALL \<or>
      (\<exists>q' slot. timeout f a t q = Ret q' \<and> callq_inv q' \<and> slot \<in> set (callfree q) \<and>
         agenda q' = agenda_insert \<lparr>c_slot = slot, c_time = 0, c_func = f, c_arg = a\<rparr> (max 1 t) (agenda q))"
  proof (cases "callfree q")
    case Nil
    have "length (agenda q) = length (map c_slot (calltodo q))"
      using arg_cong [OF map_ticks_left [of 0 "calltodo q"], of length] by (simp add: agenda_def)
    also have "\<dots> = NCALL"
      using arg_cong [OF callq_inv_slots [OF assms], of size] Nil by simp
    finally show ?thesis using Nil by (simp add: timeout_def)
  next
    case (Cons slot rest)
    then show ?thesis using timeout_spec [OF assms Cons, of f a t] by auto
  qed
  show "sorted (map snd (agenda q))" by (simp add: agenda_def ticks_left_sorted)
qed (rule needsoft_due untimeout_spec tick_spec assms)+

theorem callout_agenda_witness:
  "agenda (untimeout F_endtsleep 3 \<lparr>calltodo = [\<lparr>c_slot = 1, c_time = 2, c_func = F_endtsleep, c_arg = 3\<rparr>,
       \<lparr>c_slot = 0, c_time = 5, c_func = F_schedcpu, c_arg = 0\<rparr>], callfree = [2..<18]\<rparr>) =
   [(\<lparr>c_slot = 0, c_time = 0, c_func = F_schedcpu, c_arg = 0\<rparr>, 7)]"
proof -
  have inv: "callq_inv \<lparr>calltodo = [\<lparr>c_slot = 1, c_time = 2, c_func = F_endtsleep, c_arg = 3\<rparr>,
       \<lparr>c_slot = 0, c_time = 5, c_func = F_schedcpu, c_arg = 0\<rparr>], callfree = [2..<18]\<rparr>"
    by (auto simp: callq_inv_def simp del: upt_rec_numeral)
  show ?thesis
    using callout_agenda [OF inv, of F_endtsleep 3, THEN conjunct2, THEN conjunct2, THEN conjunct1]
    by (simp add: agenda_def)
qed

end
