(* ===== verification/Proc.thy ===== *)
theory Proc
  imports Kern_Prelude Callout
begin

text \<open>
  The process table and the lists over it: \<^verbatim>\<open>src/sys/include/proc.h\<close>,
  \<^verbatim>\<open>src/sys/kernel/kern_proc.c\<close> and the fields of \<^verbatim>\<open>struct user\<close>
  (\<^verbatim>\<open>src/sys/include/user.h\<close>) that scheduling, signals and the clock use.

  A process is its index in \<^verbatim>\<open>proc[]\<close>. A list linked through \<^verbatim>\<open>p_link\<close>, \<^verbatim>\<open>p_nxt\<close> or
  \<^verbatim>\<open>p_hash\<close> is the list of the indices on it, in order. The sleep queues and the run queue
  share the field \<^verbatim>\<open>p_link\<close>: that no process is ever on two of them, which makes the lists a
  faithful reading, is part of the invariant \<open>sched_inv\<close> of theory \<open>Sched_Inv\<close>. Bit masks (\<^verbatim>\<open>p_flag\<close>,
  \<^verbatim>\<open>p_sig\<close>, \<^verbatim>\<open>p_sigmask\<close>) are sets of bits. A sleep channel is an address; 0 is no channel.
\<close>

section \<open>Processes\<close>

datatype pstat = S_FREE | SSLEEP | SWAIT | SRUN | SIDL | SZOMB | SSTOP

datatype pflag =
    SLOAD | SSYS | SLOCK | SSWAP | P_TRACED | P_WAITED | P_SINTR | SVFORK | SVFPRNT | SVFDONE
  | P_TIMEOUT | P_NOCLDSTOP | P_SELECT

record itimer =
  it_interval :: nat
  it_value :: nat

record proc =
  p_pptr :: "nat option"
  p_flag :: "pflag set"
  p_uid :: int
  p_pid :: int
  p_ppid :: int
  p_sig :: "nat set"
  p_stat :: pstat
  p_pri :: int
  p_cpu :: nat \<comment> \<open>the 8 bits of the field\<close>
  p_time :: int
  p_nice :: int
  p_slptime :: int
  p_ptracesig :: nat
  p_sigmask :: "nat set"
  p_sigignore :: "nat set"
  p_sigcatch :: "nat set"
  p_pgrp :: int
  p_wchan :: nat
  p_realtimer :: itimer

section \<open>The user area\<close>

text \<open>The disposition of a signal: \<^verbatim>\<open>SIG_DFL\<close>, \<^verbatim>\<open>SIG_IGN\<close> or the address of a handler.\<close>

datatype sig_t = SIG_DFL | SIG_IGN | Handler nat

datatype saflag = SA_ONSTACK | SA_RESTART | SA_DISABLE | SA_NOCLDSTOP

datatype psflag = SAS_OLDMASK | SAS_ALTSTACK

record sigaltstk =
  ss_base :: nat
  ss_size :: int
  ss_flags :: "saflag set"

record uprof =
  pr_base :: nat
  pr_size :: nat
  pr_off :: nat
  pr_scale :: nat

record user =
  u_procp :: nat
  u_error :: errno
  u_ruid :: int
  u_signal :: "nat \<Rightarrow> sig_t"
  u_sigmask :: "nat \<Rightarrow> nat set"
  u_sigonstack :: "nat set"
  u_sigintr :: "nat set"
  u_oldmask :: "nat set"
  u_psflags :: "psflag set"
  u_sigstk :: sigaltstk
  u_sigtramp :: nat
  ru_utime :: int
  ru_stime :: int
  ru_nvcsw :: int
  ru_nsignals :: int
  u_vtimer :: itimer \<comment> \<open>\<^verbatim>\<open>u_timer[ITIMER_VIRTUAL - 1]\<close>\<close>
  u_ptimer :: itimer \<comment> \<open>\<^verbatim>\<open>u_timer[ITIMER_PROF - 1]\<close>\<close>
  u_prof :: uprof
  cpu_cur :: int \<comment> \<open>\<^verbatim>\<open>u_rlimit[RLIMIT_CPU].rlim_cur\<close>\<close>
  cpu_max :: int \<comment> \<open>\<^verbatim>\<open>u_rlimit[RLIMIT_CPU].rlim_max\<close>\<close>

section \<open>The state of the scheduler\<close>

text \<open>
  \<open>a_lbolt\<close>, \<open>a_runin\<close> and \<open>a_runout\<close> are the addresses of the variables \<^verbatim>\<open>lbolt\<close>, \<^verbatim>\<open>runin\<close> and
  \<^verbatim>\<open>runout\<close>, which are used as channels; \<open>a_proc i\<close> is the address of \<^verbatim>\<open>proc[i]\<close>, on which its owner waits for
  its children.
\<close>

record addrs =
  a_lbolt :: nat
  a_runin :: nat
  a_runout :: nat
  a_proc :: "nat \<Rightarrow> nat"

record ks =
  procs :: "nat \<Rightarrow> proc"
  allproc :: "nat list"
  freeproc :: "nat list"
  zombproc :: "nat list"
  pidhash :: "nat \<Rightarrow> nat list"
  qs :: "nat list"
  slpque :: "nat \<Rightarrow> nat list"
  runrun :: nat
  curpri :: int
  runin :: bool
  runout :: bool
  noproc :: bool
  callouts :: callq
  addrs :: addrs
  u :: user

abbreviation (input) NPROC :: nat where "NPROC \<equiv> 25"
abbreviation (input) PIDHSZ :: nat where "PIDHSZ \<equiv> 16"
abbreviation (input) SQSIZE :: nat where "SQSIZE \<equiv> 16"
abbreviation (input) PUSER :: int where "PUSER \<equiv> 50"
abbreviation (input) PZERO :: int where "PZERO \<equiv> 25"
abbreviation (input) NZERO :: int where "NZERO \<equiv> 0"
abbreviation (input) HZ :: int where "HZ \<equiv> 200"

text \<open>Access to one process and to the running one.\<close>

definition upd_proc :: "nat \<Rightarrow> (proc \<Rightarrow> proc) \<Rightarrow> ks \<Rightarrow> ks" where
  "upd_proc p f s = s\<lparr>procs := (procs s)(p := f (procs s p))\<rparr>"

definition curp :: "ks \<Rightarrow> proc" where
  "curp s = procs s (u_procp (u s))"

definition upd_user :: "(user \<Rightarrow> user) \<Rightarrow> ks \<Rightarrow> ks" where
  "upd_user f s = s\<lparr>u := f (u s)\<rparr>"

definition set_error :: "errno \<Rightarrow> ks \<Rightarrow> ks" where
  "set_error e s = upd_user (u_error_update (\<lambda>_. e)) s"

text \<open>The kernel's data before \<^verbatim>\<open>main\<close> runs: all zero. Only the addresses are the linker's.\<close>

definition proc_zero :: proc where
  "proc_zero = \<lparr>p_pptr = None, p_flag = {}, p_uid = 0, p_pid = 0, p_ppid = 0, p_sig = {}, p_stat = S_FREE, p_pri = 0,
     p_cpu = 0, p_time = 0, p_nice = 0, p_slptime = 0, p_ptracesig = 0, p_sigmask = {}, p_sigignore = {},
     p_sigcatch = {}, p_pgrp = 0, p_wchan = 0, p_realtimer = \<lparr>it_interval = 0, it_value = 0\<rparr>\<rparr>"

definition user_zero :: user where
  "user_zero = \<lparr>u_procp = 0, u_error = E_OK, u_ruid = 0, u_signal = (\<lambda>_. SIG_DFL), u_sigmask = (\<lambda>_. {}),
     u_sigonstack = {}, u_sigintr = {}, u_oldmask = {}, u_psflags = {},
     u_sigstk = \<lparr>ss_base = 0, ss_size = 0, ss_flags = {}\<rparr>, u_sigtramp = 0, ru_utime = 0, ru_stime = 0,
     ru_nvcsw = 0, ru_nsignals = 0, u_vtimer = \<lparr>it_interval = 0, it_value = 0\<rparr>,
     u_ptimer = \<lparr>it_interval = 0, it_value = 0\<rparr>, u_prof = \<lparr>pr_base = 0, pr_size = 0, pr_off = 0, pr_scale = 0\<rparr>,
     cpu_cur = 0, cpu_max = 0\<rparr>"

definition ks_zero :: "addrs \<Rightarrow> ks" where
  "ks_zero a = \<lparr>procs = (\<lambda>_. proc_zero), allproc = [], freeproc = [], zombproc = [], pidhash = (\<lambda>_. []), qs = [],
     slpque = (\<lambda>_. []), runrun = 0, curpri = 0, runin = False, runout = False, noproc = False,
     callouts = \<lparr>calltodo = [], callfree = []\<rparr>, addrs = a, u = user_zero\<rparr>"

section \<open>Finding processes\<close>

definition PIDHASH :: "int \<Rightarrow> nat" where
  "PIDHASH pid = nat (pid mod 16)"

definition pfind :: "int \<Rightarrow> ks \<Rightarrow> nat option" where
  "pfind pid s = List.find (\<lambda>p. p_pid (procs s p) = pid) (pidhash s (PIDHASH pid))"

text \<open>
  The walk from a process to its ancestors. It stops at a process whose parent has
  pid 0; a cycle of parents, which the table never has, would make it run forever.
\<close>

partial_function (option) inferior :: "nat \<Rightarrow> ks \<Rightarrow> bool outcome option" where
  "inferior p s =
     (if p = u_procp (u s) then Some (Ret True)
      else if p_ppid (procs s p) = 0 then Some (Ret False)
      else (case p_pptr (procs s p) of
              None \<Rightarrow> Some Fault
            | Some p' \<Rightarrow> inferior p' s))"

text \<open>The lists at boot: every slot but the first is free, in its natural order.\<close>

fun pqinit_free :: "nat \<Rightarrow> nat list \<Rightarrow> nat list" where
  "pqinit_free p free = (if p \<le> 1 then free else pqinit_free (p - 1) ((p - 1) # free))"

declare pqinit_free.simps [simp del]

definition pqinit :: "ks \<Rightarrow> ks" where
  "pqinit s = s\<lparr>freeproc := pqinit_free NPROC [], allproc := [0], zombproc := []\<rparr>"

section \<open>Lemmas\<close>

lemma procs_upd_proc [simp]: "procs (upd_proc p f s) q = (if q = p then f (procs s p) else procs s q)"
  by (simp add: upd_proc_def)

lemma upd_proc_sel [simp]:
  "allproc (upd_proc p f s) = allproc s" "freeproc (upd_proc p f s) = freeproc s"
  "zombproc (upd_proc p f s) = zombproc s" "pidhash (upd_proc p f s) = pidhash s"
  "qs (upd_proc p f s) = qs s" "slpque (upd_proc p f s) = slpque s" "runrun (upd_proc p f s) = runrun s"
  "curpri (upd_proc p f s) = curpri s" "runin (upd_proc p f s) = runin s" "runout (upd_proc p f s) = runout s"
  "noproc (upd_proc p f s) = noproc s" "callouts (upd_proc p f s) = callouts s"
  "addrs (upd_proc p f s) = addrs s" "u (upd_proc p f s) = u s"
  by (simp_all add: upd_proc_def)

lemma upd_user_sel [simp]:
  "procs (upd_user f s) = procs s"
  "allproc (upd_user f s) = allproc s" "freeproc (upd_user f s) = freeproc s"
  "zombproc (upd_user f s) = zombproc s" "pidhash (upd_user f s) = pidhash s"
  "qs (upd_user f s) = qs s" "slpque (upd_user f s) = slpque s" "runrun (upd_user f s) = runrun s"
  "curpri (upd_user f s) = curpri s" "runin (upd_user f s) = runin s" "runout (upd_user f s) = runout s"
  "noproc (upd_user f s) = noproc s" "callouts (upd_user f s) = callouts s"
  "addrs (upd_user f s) = addrs s" "u (upd_user f s) = f (u s)"
  by (simp_all add: upd_user_def)

lemma PIDHASH_less: "PIDHASH pid < PIDHSZ"
  by (simp add: PIDHASH_def nat_less_iff)

lemma pqinit_free_eq: "pqinit_free (Suc k) free = [1..<Suc k] @ free"
proof (induction k arbitrary: free)
  case (Suc k)
  have "pqinit_free (Suc (Suc k)) free = pqinit_free (Suc k) (Suc k # free)"
    by (subst pqinit_free.simps) simp
  also have "\<dots> = [1..<Suc k] @ Suc k # free" by (rule Suc.IH)
  also have "\<dots> = [1..<Suc (Suc k)] @ free" by simp
  finally show ?case .
qed (subst pqinit_free.simps, simp)

text \<open>
  The pid hash chains hold exactly the processes in use, each on the chain of its pid, and pids
  are unique. Under it \<open>pfind\<close> finds the process of a pid wherever it is.
\<close>

definition pid_ok :: "ks \<Rightarrow> bool" where
  "pid_ok s \<longleftrightarrow> (\<forall>h<PIDHSZ. \<forall>p\<in>set (pidhash s h). PIDHASH (p_pid (procs s p)) = h \<and> p < NPROC) \<and>
     (\<forall>p\<in>set (allproc s). p \<in> set (pidhash s (PIDHASH (p_pid (procs s p))))) \<and>
     inj_on (\<lambda>p. p_pid (procs s p)) (\<Union>h<PIDHSZ. set (pidhash s h))"

lemma pid_okD:
  assumes "pid_ok s"
  shows "h < PIDHSZ \<Longrightarrow> p \<in> set (pidhash s h) \<Longrightarrow> PIDHASH (p_pid (procs s p)) = h"
    and "h < PIDHSZ \<Longrightarrow> p \<in> set (pidhash s h) \<Longrightarrow> q \<in> set (pidhash s h) \<Longrightarrow>
      p_pid (procs s p) = p_pid (procs s q) \<Longrightarrow> p = q"
  using assms unfolding pid_ok_def inj_on_def by auto

lemma find_mem: "List.find P xs = Some x \<Longrightarrow> x \<in> set xs \<and> P x"
  by (induction xs) (auto split: if_splits)

lemma pfind_iff:
  assumes "pid_ok s"
  shows "pfind pid s = Some p \<longleftrightarrow> (\<exists>h<PIDHSZ. p \<in> set (pidhash s h)) \<and> p_pid (procs s p) = pid"
proof
  assume "pfind pid s = Some p"
  then show "(\<exists>h<PIDHSZ. p \<in> set (pidhash s h)) \<and> p_pid (procs s p) = pid"
    using find_mem PIDHASH_less [of pid] unfolding pfind_def by fastforce
next
  assume "(\<exists>h<PIDHSZ. p \<in> set (pidhash s h)) \<and> p_pid (procs s p) = pid"
  then obtain h where h: "h < PIDHSZ" "p \<in> set (pidhash s h)" "p_pid (procs s p) = pid" by auto
  then have ph: "PIDHASH pid = h" using pid_okD(1) [OF assms h(1,2)] by simp
  then obtain q where q: "pfind pid s = Some q"
    using h(2,3) unfolding pfind_def
    by (cases "List.find (\<lambda>p. p_pid (procs s p) = pid) (pidhash s h)") (auto simp: find_None_iff)
  then have "q \<in> set (pidhash s h)" "p_pid (procs s q) = pid"
    using find_mem ph unfolding pfind_def by fastforce+
  then have "q = p" using pid_okD(2) [OF assms h(1) _ h(2)] h(3) by simp
  then show "pfind pid s = Some p" using q by simp
qed

end
