(* ===== verification/Sched.thy ===== *)
theory Sched
  imports Proc
begin

text \<open>
  The scheduler: \<^verbatim>\<open>src/sys/kernel/kern_synch.c\<close>. Sleep queues, the run queue, priorities and the
  choice of the next process to run. Interrupt masking (\<^verbatim>\<open>splhigh\<close>, \<^verbatim>\<open>splx\<close>) makes every operation
  one step. \<open>tsleep\<close> and \<open>sleep\<close>, which switch contexts, are not modelled; \<open>schedcpu\<close> is in
  theory \<open>Clock\<close>. The invariant and the proofs are in theory \<open>Sched_Inv\<close>.
\<close>

section \<open>Priorities\<close>

definition HASH :: "nat \<Rightarrow> nat" where
  "HASH x = (x div 32) mod SQSIZE"

definition incr_runrun :: "ks \<Rightarrow> ks" where
  "incr_runrun s = s\<lparr>runrun := runrun s + 1\<rparr>"

definition usrpri :: "proc \<Rightarrow> int" where
  "usrpri pp = (let p = int (p_cpu pp) div 16 + (PUSER + p_nice pp) in if 127 < p then 127 else p)"

definition setpri :: "nat \<Rightarrow> ks \<Rightarrow> ks" where
  "setpri pp s =
     (let p = usrpri (procs s pp);
          s = (if p < curpri s then incr_runrun s else s)
      in upd_proc pp (p_pri_update (\<lambda>_. s8 p)) s)"

text \<open>
  The decay of the processor usage over the seconds slept. \<^verbatim>\<open>SCHMAG\<close> is the text \<^verbatim>\<open>8/10\<close>, and
  in \<^verbatim>\<open>SCHMAG * a\<close> the division comes first.
\<close>

function updatepri_loop :: "int \<Rightarrow> int \<Rightarrow> int \<times> int" where
  "updatepri_loop a slptime =
     (if a = 0 then (a, slptime)
      else let slptime = s8 (slptime - 1)
           in if slptime = 0 then (a, slptime) else updatepri_loop (cdiv 8 10 * a) slptime)"
  by auto
termination by (relation "measure (\<lambda>(a, slptime). nat \<bar>a\<bar>)") (auto simp: cdiv_def)

declare updatepri_loop.simps [simp del]

definition updatepri :: "nat \<Rightarrow> ks \<Rightarrow> ks" where
  "updatepri p s =
     (let r = updatepri_loop (int (p_cpu (procs s p))) (s8 (p_slptime (procs s p) - 1));
          a = (if fst r < 0 then 0 else if 255 < fst r then 255 else fst r)
      in setpri p (upd_proc p (\<lambda>x. x\<lparr>p_slptime := snd r, p_cpu := nat a\<rparr>) s))"

section \<open>The run queue\<close>

definition setrq :: "nat \<Rightarrow> ks \<Rightarrow> ks" where
  "setrq p s = s\<lparr>qs := p # qs s\<rparr>"

definition remrq :: "nat \<Rightarrow> ks \<Rightarrow> ks outcome" where
  "remrq p s = (if p \<in> set (qs s) then Ret (s\<lparr>qs := remove1 p (qs s)\<rparr>) else Panic ''remrq'')"

text \<open>
  The search of \<open>swtch\<close> for the runnable process with the best priority. \<open>pp\<close> and \<open>n\<close> are the
  best one so far and its priority.
\<close>

fun swtch_scan :: "(nat \<Rightarrow> proc) \<Rightarrow> nat list \<Rightarrow> nat option \<Rightarrow> int \<Rightarrow> nat option \<times> int" where
  "swtch_scan ps [] pp n = (pp, n)"
| "swtch_scan ps (p # rest) pp n =
     (if SLOAD \<in> p_flag (ps p) \<and> p_pri (ps p) < n
      then swtch_scan ps rest (Some p) (p_pri (ps p))
      else swtch_scan ps rest pp n)"

text \<open>
  One pass of the loop of \<open>swtch\<close> in the idle process: the process to resume and whether it resumes
  from \<^verbatim>\<open>u_ssave\<close>, or nothing when the machine idles until the next interrupt.
\<close>

definition swtch_select :: "ks \<Rightarrow> (nat \<times> bool) option \<times> ks" where
  "swtch_select s =
     (let s = s\<lparr>noproc := False, runrun := 0\<rparr>;
          r = swtch_scan (procs s) (qs s) None 128
      in case fst r of
           None \<Rightarrow> (None, s\<lparr>noproc := True\<rparr>)
         | Some p \<Rightarrow>
             (let s = s\<lparr>qs := remove1 p (qs s), curpri := snd r\<rparr>;
                  n = SSWAP \<in> p_flag (procs s p)
              in (Some (p, n), upd_proc p (p_flag_update (\<lambda>f. f - {SSWAP})) s)))"

section \<open>Sleep queues\<close>

definition unsleep :: "nat \<Rightarrow> ks \<Rightarrow> ks outcome" where
  "unsleep p s =
     (let h = HASH (p_wchan (procs s p))
      in if p_wchan (procs s p) = 0 then Ret s
         else if p \<in> set (slpque s h)
         then Ret (upd_proc p (p_wchan_update (\<lambda>_. 0)) (s\<lparr>slpque := (slpque s)(h := remove1 p (slpque s h))\<rparr>))
         else Fault)"

text \<open>
  One pass of \<open>wakeup\<close> over its queue: stopped processes that wait on the channel are taken off
  it, and the first sleeping one ends the pass. The result is the table, what is left of the
  queue and that process.
\<close>

fun wakeup_scan :: "nat \<Rightarrow> (nat \<Rightarrow> proc) \<Rightarrow> nat list \<Rightarrow> ((nat \<Rightarrow> proc) \<times> nat list \<times> nat option) outcome" where
  "wakeup_scan chan ps [] = Ret (ps, [], None)"
| "wakeup_scan chan ps (p # rest) =
     (if p_stat (ps p) \<noteq> SSLEEP \<and> p_stat (ps p) \<noteq> SSTOP then Panic ''wakeup''
      else if p_wchan (ps p) = chan then
        (let ps' = ps(p := (ps p)\<lparr>p_wchan := 0\<rparr>)
         in if p_stat (ps p) = SSLEEP then Ret (ps', rest, Some p)
            else wakeup_scan chan (ps'(p := (ps' p)\<lparr>p_slptime := 0\<rparr>)) rest)
      else bind_outcome (wakeup_scan chan ps rest) (\<lambda>(ps', rest', w). Ret (ps', p # rest', w)))"

text \<open>The inline expansion of \<open>setrun\<close> in \<open>wakeup\<close>, up to the wakeup of the swapper.\<close>

definition wakeup_run :: "nat \<Rightarrow> ks \<Rightarrow> ks" where
  "wakeup_run p s =
     (let s = (if 1 < p_slptime (procs s p) then updatepri p s else s);
          s = upd_proc p (\<lambda>x. x\<lparr>p_slptime := 0, p_stat := SRUN\<rparr>) s;
          s = (if SLOAD \<in> p_flag (procs s p) then setrq p s else s)
      in incr_runrun s)"

text \<open>
  Each pass starts again from the head of the queue. The nested call for the swapper comes after
  \<^verbatim>\<open>runout\<close> is cleared, so it never nests again, and every pass but the last takes a process
  off a queue of at most \<open>NPROC\<close>: 64 passes are enough for both.
\<close>

fun wakeup_n :: "nat \<Rightarrow> nat \<Rightarrow> ks \<Rightarrow> ks outcome" where
  "wakeup_n 0 chan s = Diverge"
| "wakeup_n (Suc n) chan s =
     bind_outcome (wakeup_scan chan (procs s) (slpque s (HASH chan)))
       (\<lambda>(ps, q, w).
          let s = s\<lparr>procs := ps, slpque := (slpque s)(HASH chan := q)\<rparr>
          in case w of
               None \<Rightarrow> Ret s
             | Some p \<Rightarrow>
                 (let s = wakeup_run p s
                  in if SLOAD \<notin> p_flag (procs s p) \<and> runout s
                     then bind_outcome (wakeup_n n (a_runout (addrs s)) (s\<lparr>runout := False\<rparr>)) (wakeup_n n chan)
                     else wakeup_n n chan s))"

definition wakeup :: "nat \<Rightarrow> ks \<Rightarrow> ks outcome" where
  "wakeup chan s = wakeup_n 64 chan s"

definition wake_swapper :: "ks \<Rightarrow> ks outcome" where
  "wake_swapper s = (if runout s then wakeup (a_runout (addrs s)) (s\<lparr>runout := False\<rparr>) else Ret s)"

definition setrun :: "nat \<Rightarrow> ks \<Rightarrow> ks outcome" where
  "setrun p s =
     bind_outcome
       (case p_stat (procs s p) of
          SSTOP \<Rightarrow> unsleep p s
        | SSLEEP \<Rightarrow> unsleep p s
        | SIDL \<Rightarrow> Ret s
        | _ \<Rightarrow> Panic ''setrun'')
       (\<lambda>s. let s = (if 1 < p_slptime (procs s p) then updatepri p s else s);
                s = upd_proc p (p_stat_update (\<lambda>_. SRUN)) s;
                s = (if SLOAD \<in> p_flag (procs s p) then setrq p s else s);
                s = (if p_pri (procs s p) < curpri s then incr_runrun s else s)
            in if SLOAD \<notin> p_flag (procs s p) then wake_swapper s else Ret s)"

text \<open>The timeout of a \<open>tsleep\<close>.\<close>

definition endtsleep :: "nat \<Rightarrow> ks \<Rightarrow> ks outcome" where
  "endtsleep p s =
     (if p_wchan (procs s p) \<noteq> 0 then
        bind_outcome (if p_stat (procs s p) = SSLEEP then setrun p s else unsleep p s)
          (\<lambda>s. Ret (upd_proc p (p_flag_update (\<lambda>f. insert P_TIMEOUT f)) s))
      else Ret s)"

end
