(* ===== verification/Sched_Inv.thy ===== *)
theory Sched_Inv
  imports Sched
begin

text \<open>
  The invariant of the sleep and run queues and what the operations of theory \<open>Sched\<close> do under it.
  \<open>sched_inv r s\<close>: the sleep queue of a hash value holds exactly the processes whose channel has that
  hash, each once; whoever waits on a channel is asleep or stopped, and whoever is asleep waits on a
  channel; the run queue holds exactly the processes that are in core and runnable, except the
  process \<open>r\<close> that has the processor. \<open>wk C s s'\<close>: from \<open>s\<close> to \<open>s'\<close> only processes that waited on a channel
  in \<open>C\<close> were touched, and those were woken.
\<close>

section \<open>The invariant\<close>

definition proc_ok :: "proc \<Rightarrow> bool" where
  "proc_ok x \<longleftrightarrow> p_cpu x \<le> 255 \<and> -20 \<le> p_nice x \<and> p_nice x \<le> 20 \<and> 0 \<le> p_slptime x \<and> p_slptime x \<le> 127 \<and>
     -128 \<le> p_pri x \<and> p_pri x \<le> 127"

definition queues_ok :: "ks \<Rightarrow> bool" where
  "queues_ok s \<longleftrightarrow> distinct (qs s) \<and> (\<forall>h<SQSIZE. distinct (slpque s h)) \<and>
     (\<forall>h<SQSIZE. \<forall>p. p \<in> set (slpque s h) \<longleftrightarrow>
        p < NPROC \<and> p_wchan (procs s p) \<noteq> 0 \<and> HASH (p_wchan (procs s p)) = h)"

definition states_ok :: "nat option \<Rightarrow> ks \<Rightarrow> bool" where
  "states_ok r s \<longleftrightarrow>
     (\<forall>p<NPROC. p_wchan (procs s p) \<noteq> 0 \<longrightarrow> p_stat (procs s p) = SSLEEP \<or> p_stat (procs s p) = SSTOP) \<and>
     (\<forall>p<NPROC. p_stat (procs s p) = SSLEEP \<longrightarrow> p_wchan (procs s p) \<noteq> 0) \<and>
     (\<forall>p. p \<in> set (qs s) \<longleftrightarrow>
        p < NPROC \<and> p_stat (procs s p) = SRUN \<and> SLOAD \<in> p_flag (procs s p) \<and> r \<noteq> Some p) \<and>
     (\<forall>p. r = Some p \<longrightarrow> p < NPROC \<and> p_stat (procs s p) = SRUN)"

definition sched_inv :: "nat option \<Rightarrow> ks \<Rightarrow> bool" where
  "sched_inv r s \<longleftrightarrow> queues_ok s \<and> states_ok r s \<and> (\<forall>p<NPROC. proc_ok (procs s p)) \<and>
     a_runout (addrs s) \<noteq> 0"

lemma HASH_less [simp]: "HASH x < SQSIZE"
  by (simp add: HASH_def)

text \<open>The invariant speaks only about the queues and these fields.\<close>

lemma sched_inv_cong:
  assumes "sched_inv r s" "qs s' = qs s" "slpque s' = slpque s" "addrs s' = addrs s"
    "\<And>p. p_stat (procs s' p) = p_stat (procs s p)" "\<And>p. p_wchan (procs s' p) = p_wchan (procs s p)"
    "\<And>p. SLOAD \<in> p_flag (procs s' p) \<longleftrightarrow> SLOAD \<in> p_flag (procs s p)"
    "\<And>p. p < NPROC \<Longrightarrow> proc_ok (procs s' p)"
  shows "sched_inv r s'"
  using assms unfolding sched_inv_def queues_ok_def states_ok_def by simp

lemma sched_invD:
  assumes "sched_inv r s"
  shows "h < SQSIZE \<Longrightarrow> distinct (slpque s h)"
    and "h < SQSIZE \<Longrightarrow> p \<in> set (slpque s h) \<longleftrightarrow>
      p < NPROC \<and> p_wchan (procs s p) \<noteq> 0 \<and> HASH (p_wchan (procs s p)) = h"
    and "p < NPROC \<Longrightarrow> p_wchan (procs s p) \<noteq> 0 \<Longrightarrow> p_stat (procs s p) = SSLEEP \<or> p_stat (procs s p) = SSTOP"
    and "p < NPROC \<Longrightarrow> p_stat (procs s p) = SSLEEP \<Longrightarrow> p_wchan (procs s p) \<noteq> 0"
    and "p \<in> set (qs s) \<longleftrightarrow> p < NPROC \<and> p_stat (procs s p) = SRUN \<and> SLOAD \<in> p_flag (procs s p) \<and> r \<noteq> Some p"
    and "r = Some p \<Longrightarrow> p < NPROC \<and> p_stat (procs s p) = SRUN"
    and "p < NPROC \<Longrightarrow> proc_ok (procs s p)"
    and "distinct (qs s)"
    and "a_runout (addrs s) \<noteq> 0"
  using assms unfolding sched_inv_def queues_ok_def states_ok_def by (blast | metis)+

lemma sched_invI:
  assumes "queues_ok s"
    and "\<And>p. p < NPROC \<Longrightarrow> p_wchan (procs s p) \<noteq> 0 \<Longrightarrow> p_stat (procs s p) = SSLEEP \<or> p_stat (procs s p) = SSTOP"
    and "\<And>p. p < NPROC \<Longrightarrow> p_stat (procs s p) = SSLEEP \<Longrightarrow> p_wchan (procs s p) \<noteq> 0"
    and "\<And>p. p \<in> set (qs s) \<longleftrightarrow> p < NPROC \<and> p_stat (procs s p) = SRUN \<and> SLOAD \<in> p_flag (procs s p) \<and> r \<noteq> Some p"
    and "\<And>p. r = Some p \<Longrightarrow> p < NPROC \<and> p_stat (procs s p) = SRUN"
    and "\<And>p. p < NPROC \<Longrightarrow> proc_ok (procs s p)"
    and "a_runout (addrs s) \<noteq> 0"
  shows "sched_inv r s"
  unfolding sched_inv_def states_ok_def
  by (intro conjI allI impI assms(1,7)) (assumption | rule assms | metis assms)+

lemma slpque_le:
  assumes "sched_inv r s" "h < SQSIZE"
  shows "length (slpque s h) \<le> NPROC"
proof -
  have "distinct (slpque s h)" "set (slpque s h) \<subseteq> {..<NPROC}"
    using assms by (auto simp: sched_inv_def queues_ok_def)
  then show ?thesis
    using card_mono [of "{..<NPROC}" "set (slpque s h)"] by (simp add: distinct_card)
qed

section \<open>Priorities\<close>

lemma usrpri_bounds:
  assumes "proc_ok x"
  shows "30 \<le> usrpri x" "usrpri x \<le> 127"
  using assms by (auto simp: usrpri_def proc_ok_def Let_def)

lemma updatepri_loop_eq:
  "updatepri_loop a t = (if a = 0 then (a, t) else if s8 (t - 1) = 0 then (a, 0) else (0, s8 (t - 1)))"
  by (subst updatepri_loop.simps, subst updatepri_loop.simps) (simp add: cdiv_def Let_def)

text \<open>\<open>pri_upd p s s'\<close>: only the priority and the usage counters of \<open>p\<close> changed, and \<^verbatim>\<open>runrun\<close>.\<close>

definition pri_core :: "proc \<Rightarrow> proc" where
  "pri_core x = x\<lparr>p_pri := 0, p_cpu := 0, p_slptime := 0\<rparr>"

definition pri_upd :: "nat \<Rightarrow> ks \<Rightarrow> ks \<Rightarrow> bool" where
  "pri_upd p s s' \<longleftrightarrow> (\<exists>n x. s' = s\<lparr>runrun := n, procs := (procs s)(p := x)\<rparr> \<and>
     pri_core x = pri_core (procs s p) \<and> (proc_ok (procs s p) \<longrightarrow> proc_ok x))"

lemma pri_updI:
  assumes "s' = s\<lparr>runrun := n, procs := (procs s)(p := x)\<rparr>" "pri_core x = pri_core (procs s p)"
    "proc_ok (procs s p) \<Longrightarrow> proc_ok x"
  shows "pri_upd p s s'"
  using assms unfolding pri_upd_def by blast

lemma pri_updE:
  assumes "pri_upd p s s'"
  obtains n x where "s' = s\<lparr>runrun := n, procs := (procs s)(p := x)\<rparr>" "pri_core x = pri_core (procs s p)"
    "proc_ok (procs s p) \<longrightarrow> proc_ok x"
  using assms unfolding pri_upd_def by blast

lemma pri_core_sel:
  "pri_core x = pri_core y \<Longrightarrow> p_stat x = p_stat y" "pri_core x = pri_core y \<Longrightarrow> p_wchan x = p_wchan y"
  "pri_core x = pri_core y \<Longrightarrow> p_flag x = p_flag y" "pri_core x = pri_core y \<Longrightarrow> p_pptr x = p_pptr y"
  by (cases x; cases y; simp add: pri_core_def)+

lemma setpri_pri_upd: "pri_upd p s (setpri p s)"
proof (rule pri_updI)
  show "setpri p s = s\<lparr>runrun := (if usrpri (procs s p) < curpri s then runrun s + 1 else runrun s),
      procs := (procs s)(p := (procs s p)\<lparr>p_pri := s8 (usrpri (procs s p))\<rparr>)\<rparr>"
    by (simp add: setpri_def Let_def incr_runrun_def upd_proc_def)
  show "proc_ok ((procs s p)\<lparr>p_pri := s8 (usrpri (procs s p))\<rparr>)" if "proc_ok (procs s p)"
    using that usrpri_bounds [OF that] by (simp add: proc_ok_def s8_id)
qed (simp add: pri_core_def)

lemma pri_upd_trans:
  assumes "pri_upd p s s'" "pri_upd p s' s''"
  shows "pri_upd p s s''"
proof -
  from assms(1) obtain n x where 1: "s' = s\<lparr>runrun := n, procs := (procs s)(p := x)\<rparr>"
    "pri_core x = pri_core (procs s p)" "proc_ok (procs s p) \<longrightarrow> proc_ok x" by (rule pri_updE)
  from assms(2) obtain m y where 2: "s'' = s'\<lparr>runrun := m, procs := (procs s')(p := y)\<rparr>"
    "pri_core y = pri_core (procs s' p)" "proc_ok (procs s' p) \<longrightarrow> proc_ok y" by (rule pri_updE)
  show ?thesis by (rule pri_updI [where n = m and x = y]) (use 1 2 in simp_all)
qed

lemma updatepri_pri_upd:
  assumes "1 < p_slptime (procs s p)"
  shows "pri_upd p s (updatepri p s)"
proof -
  define r where "r = updatepri_loop (int (p_cpu (procs s p))) (s8 (p_slptime (procs s p) - 1))"
  define a where "a = (if fst r < 0 then 0 else if 255 < fst r then 255 else fst r)"
  let ?s = "upd_proc p (\<lambda>x. x\<lparr>p_slptime := snd r, p_cpu := nat a\<rparr>) s"
  have "proc_ok (procs ?s p)" if ok: "proc_ok (procs s p)"
  proof -
    have "s8 (p_slptime (procs s p) - 1) = p_slptime (procs s p) - 1"
      "s8 (p_slptime (procs s p) - 1 - 1) = p_slptime (procs s p) - 2"
      using ok assms by (auto simp: proc_ok_def s8_id)
    then show ?thesis using ok assms by (auto simp: a_def r_def updatepri_loop_eq proc_ok_def)
  qed
  then have "pri_upd p s ?s"
    by (intro pri_updI [where n = "runrun s" and x = "procs ?s p"]) (simp_all add: upd_proc_def pri_core_def)
  moreover have "updatepri p s = setpri p ?s" by (simp add: updatepri_def Let_def a_def r_def)
  ultimately show ?thesis using pri_upd_trans [OF _ setpri_pri_upd [of p ?s]] by simp
qed

lemma pri_upd_inv:
  assumes "pri_upd p s s'" "sched_inv r s"
  shows "sched_inv r s'"
proof -
  from assms(1) obtain n x where s': "s' = s\<lparr>runrun := n, procs := (procs s)(p := x)\<rparr>"
    and core: "pri_core x = pri_core (procs s p)" and ok: "proc_ok (procs s p) \<longrightarrow> proc_ok x"
    by (rule pri_updE)
  show ?thesis
    using pri_core_sel [OF core] ok assms(2)
    by (intro sched_inv_cong [OF assms(2)]) (auto simp: s' sched_inv_def)
qed

section \<open>Waking processes\<close>

text \<open>What waking makes of a process: it waits on nothing, and it is runnable if it was asleep.\<close>

definition wake_core :: "proc \<Rightarrow> proc" where
  "wake_core x = x\<lparr>p_pri := 0, p_cpu := 0, p_slptime := 0, p_stat := SRUN, p_wchan := 0\<rparr>"

definition woken :: "proc \<Rightarrow> proc \<Rightarrow> bool" where
  "woken x y \<longleftrightarrow> p_wchan y = 0 \<and> p_slptime y = 0 \<and> p_stat y = (if p_stat x = SSLEEP then SRUN else p_stat x) \<and>
     wake_core y = wake_core x"

definition same_rest :: "ks \<Rightarrow> ks \<Rightarrow> bool" where
  "same_rest s s' \<longleftrightarrow> allproc s' = allproc s \<and> freeproc s' = freeproc s \<and> zombproc s' = zombproc s \<and>
     pidhash s' = pidhash s \<and> curpri s' = curpri s \<and> runin s' = runin s \<and> noproc s' = noproc s \<and>
     callouts s' = callouts s \<and> addrs s' = addrs s \<and> u s' = u s"

definition wk :: "nat set \<Rightarrow> ks \<Rightarrow> ks \<Rightarrow> bool" where
  "wk C s s' \<longleftrightarrow> same_rest s s' \<and> (runout s' \<longrightarrow> runout s) \<and>
     (\<forall>p. procs s' p = procs s p \<or> p_wchan (procs s p) \<in> C \<and> woken (procs s p) (procs s' p))"

lemma same_rest_refl [simp]: "same_rest s s"
  by (simp add: same_rest_def)

lemma same_rest_trans: "same_rest s s' \<Longrightarrow> same_rest s' s'' \<Longrightarrow> same_rest s s''"
  by (simp add: same_rest_def)

lemma wk_refl [simp]: "wk C s s"
  by (simp add: wk_def)

lemma wk_mono: "wk C s s' \<Longrightarrow> C \<subseteq> D \<Longrightarrow> wk D s s'"
  unfolding wk_def by blast

lemma wk_trans:
  assumes "wk C s s'" "wk C s' s''" "0 \<notin> C"
  shows "wk C s s''"
  unfolding wk_def
proof (intro conjI allI)
  show "same_rest s s''" "runout s'' \<longrightarrow> runout s"
    using assms same_rest_trans by (auto simp: wk_def)
  fix p
  show "procs s'' p = procs s p \<or> p_wchan (procs s p) \<in> C \<and> woken (procs s p) (procs s'' p)"
    using assms unfolding wk_def woken_def by (metis (full_types))
qed

lemma wkD: "wk C s s' \<Longrightarrow> procs s' p = procs s p \<or> p_wchan (procs s p) \<in> C \<and> woken (procs s p) (procs s' p)"
  by (simp add: wk_def)

lemma wk_wchan: "wk C s s' \<Longrightarrow> p_wchan (procs s' p) \<noteq> 0 \<Longrightarrow> procs s' p = procs s p"
  unfolding wk_def woken_def by metis

text \<open>What one pass makes of a process \<open>p\<close> of its queue, and what is left of the queue.\<close>

definition scanned :: "nat \<Rightarrow> (nat \<Rightarrow> proc) \<Rightarrow> (nat \<Rightarrow> proc) \<Rightarrow> nat list \<Rightarrow> nat option \<Rightarrow> nat \<Rightarrow> bool" where
  "scanned chan ps ps' xs' w p \<longleftrightarrow>
     (if p \<in> set xs' then w \<noteq> Some p \<and> ps' p = ps p \<and> (w = None \<longrightarrow> p_wchan (ps p) \<noteq> chan)
      else p_wchan (ps p) = chan \<and>
        (if w = Some p then p_stat (ps p) = SSLEEP \<and> ps' p = (ps p)\<lparr>p_wchan := 0\<rparr>
         else p_stat (ps p) = SSTOP \<and> ps' p = (ps p)\<lparr>p_wchan := 0, p_slptime := 0\<rparr>))"

lemma scanned_cong: "ps q = ps2 q \<Longrightarrow> scanned chan ps ps' xs' w q = scanned chan ps2 ps' xs' w q"
  by (simp add: scanned_def)

lemma wakeup_scan_spec:
  assumes "distinct xs" "\<forall>p\<in>set xs. p_stat (ps p) = SSLEEP \<or> p_stat (ps p) = SSTOP"
  shows "\<exists>ps' xs' w. wakeup_scan chan ps xs = Ret (ps', xs', w) \<and> distinct xs' \<and> set xs' \<subseteq> set xs \<and>
    (\<forall>p. p \<notin> set xs \<longrightarrow> ps' p = ps p \<and> w \<noteq> Some p) \<and> (\<forall>p\<in>set xs. scanned chan ps ps' xs' w p)"
  using assms
proof (induction xs arbitrary: ps)
  case (Cons p xs)
  have p: "p \<notin> set xs" "distinct xs" using Cons.prems by auto
  consider (sleep) "p_wchan (ps p) = chan" "p_stat (ps p) = SSLEEP"
    | (stop) "p_wchan (ps p) = chan" "p_stat (ps p) = SSTOP" | (other) "p_wchan (ps p) \<noteq> chan"
    using Cons.prems(2) by auto
  then show ?case
  proof cases
    case sleep
    have "wakeup_scan chan ps (p # xs) = Ret (ps(p := (ps p)\<lparr>p_wchan := 0\<rparr>), xs, Some p)"
      using sleep by simp
    moreover have "\<forall>q\<in>set (p # xs). scanned chan ps (ps(p := (ps p)\<lparr>p_wchan := 0\<rparr>)) xs (Some p) q"
      using sleep p by (auto simp: scanned_def)
    ultimately show ?thesis using p by (intro exI conjI) auto
  next
    case stop
    define ps2 where "ps2 = ps(p := (ps p)\<lparr>p_wchan := 0, p_slptime := 0\<rparr>)"
    have "\<forall>q\<in>set xs. p_stat (ps2 q) = SSLEEP \<or> p_stat (ps2 q) = SSTOP"
      using Cons.prems by (simp add: ps2_def)
    from Cons.IH [OF p(2) this] obtain ps' xs' w where ih: "wakeup_scan chan ps2 xs = Ret (ps', xs', w)"
      "distinct xs'" "set xs' \<subseteq> set xs" "\<forall>q. q \<notin> set xs \<longrightarrow> ps' q = ps2 q \<and> w \<noteq> Some q"
      "\<forall>q\<in>set xs. scanned chan ps2 ps' xs' w q" by blast
    have "wakeup_scan chan ps (p # xs) = wakeup_scan chan ps2 xs"
      using stop by (simp add: ps2_def Let_def)
    moreover have "scanned chan ps ps' xs' w q" if "q \<in> set (p # xs)" for q
    proof (cases "q = p")
      case True
      then show ?thesis using ih(3,4) p stop by (auto simp: scanned_def ps2_def)
    next
      case False
      then show ?thesis using ih(5) that scanned_cong [of ps q ps2] by (simp add: ps2_def)
    qed
    moreover have "\<forall>q. q \<notin> set (p # xs) \<longrightarrow> ps' q = ps q \<and> w \<noteq> Some q"
      using ih(4) by (simp add: ps2_def)
    ultimately show ?thesis using ih(1-3) by (intro exI conjI) auto
  next
    case other
    have "\<forall>q\<in>set xs. p_stat (ps q) = SSLEEP \<or> p_stat (ps q) = SSTOP" using Cons.prems by simp
    from Cons.IH [OF p(2) this] obtain ps' xs' w where ih: "wakeup_scan chan ps xs = Ret (ps', xs', w)"
      "distinct xs'" "set xs' \<subseteq> set xs" "\<forall>q. q \<notin> set xs \<longrightarrow> ps' q = ps q \<and> w \<noteq> Some q"
      "\<forall>q\<in>set xs. scanned chan ps ps' xs' w q" by blast
    have "wakeup_scan chan ps (p # xs) = Ret (ps', p # xs', w)"
      using other ih(1) Cons.prems(2) by auto
    moreover have "scanned chan ps ps' (p # xs') w q" if "q \<in> set (p # xs)" for q
      using ih(4,5) that other p by (auto simp: scanned_def)
    ultimately show ?thesis using ih(2-4) p
      by (intro exI conjI) (assumption, auto simp del: wakeup_scan.simps)
  qed
qed simp

text \<open>
  One pass under the invariant. Either nothing more waits on the channel, or one sleeping process
  was taken off the queue and made runnable.
\<close>

definition wakeup_pass :: "nat \<Rightarrow> (nat \<Rightarrow> proc) \<Rightarrow> nat list \<Rightarrow> ks \<Rightarrow> ks" where
  "wakeup_pass chan ps q s = s\<lparr>procs := ps, slpque := (slpque s)(HASH chan := q)\<rparr>"

lemma wakeup_scan_inv:
  assumes "sched_inv r s" "chan \<noteq> 0"
  shows "\<exists>ps' xs' w. wakeup_scan chan (procs s) (slpque s (HASH chan)) = Ret (ps', xs', w) \<and>
    distinct xs' \<and> set xs' \<subseteq> set (slpque s (HASH chan)) \<and>
    (\<forall>p. p \<notin> set (slpque s (HASH chan)) \<longrightarrow> ps' p = procs s p \<and> w \<noteq> Some p) \<and>
    (\<forall>p\<in>set (slpque s (HASH chan)). scanned chan (procs s) ps' xs' w p)"
proof (rule wakeup_scan_spec)
  show "distinct (slpque s (HASH chan))"
    using assms by (simp add: sched_inv_def queues_ok_def)
  show "\<forall>p\<in>set (slpque s (HASH chan)). p_stat (procs s p) = SSLEEP \<or> p_stat (procs s p) = SSTOP"
    using assms by (simp add: sched_inv_def queues_ok_def states_ok_def)
qed

text \<open>The processes of the other queues, and those left on this one, are as they were.\<close>

lemma scanned_field:
  assumes "\<forall>p. p \<notin> set xs \<longrightarrow> ps' p = ps p \<and> w \<noteq> Some p" "\<forall>p\<in>set xs. scanned chan ps ps' xs' w p"
  shows "ps' p = ps p \<or> p_wchan (ps p) = chan \<and> p_wchan (ps' p) = 0 \<and> p_stat (ps' p) = p_stat (ps p) \<and>
    p_flag (ps' p) = p_flag (ps p) \<and> wake_core (ps' p) = wake_core (ps p) \<and> (proc_ok (ps p) \<longrightarrow> proc_ok (ps' p)) \<and>
    p \<notin> set xs' \<and> (if w = Some p then p_stat (ps p) = SSLEEP else p_stat (ps p) = SSTOP \<and> p_slptime (ps' p) = 0)"
proof (cases "p \<in> set xs")
  case True
  with assms(2) have "scanned chan ps ps' xs' w p" by blast
  then show ?thesis by (auto simp: scanned_def wake_core_def proc_ok_def split: if_splits)
qed (use assms(1) in blast)

lemma wake_core_pri: "pri_core x = pri_core y \<Longrightarrow> wake_core x = wake_core y"
  by (cases x; cases y) (simp add: pri_core_def wake_core_def)

lemma wakeup_run_eq:
  "\<exists>n x. wakeup_run p s = s\<lparr>runrun := n, procs := (procs s)(p := x),
       qs := (if SLOAD \<in> p_flag (procs s p) then p # qs s else qs s)\<rparr> \<and>
     p_stat x = SRUN \<and> p_slptime x = 0 \<and> p_wchan x = p_wchan (procs s p) \<and> p_flag x = p_flag (procs s p) \<and>
     wake_core x = wake_core (procs s p) \<and> (proc_ok (procs s p) \<longrightarrow> proc_ok x)"
proof -
  have "pri_upd p s (if 1 < p_slptime (procs s p) then updatepri p s else s)"
    using updatepri_pri_upd [of s p] pri_updI [where s = s and s' = s and n = "runrun s" and p = p and x = "procs s p"]
    by auto
  then obtain n x where s1: "(if 1 < p_slptime (procs s p) then updatepri p s else s) =
      s\<lparr>runrun := n, procs := (procs s)(p := x)\<rparr>"
    and core: "pri_core x = pri_core (procs s p)" and ok: "proc_ok (procs s p) \<longrightarrow> proc_ok x"
    by (rule pri_updE)
  let ?x = "x\<lparr>p_slptime := 0, p_stat := SRUN\<rparr>"
  have "wakeup_run p s = s\<lparr>runrun := n + 1, procs := (procs s)(p := ?x),
       qs := (if SLOAD \<in> p_flag (procs s p) then p # qs s else qs s)\<rparr>"
    unfolding wakeup_run_def s1 Let_def
    by (simp add: upd_proc_def setrq_def incr_runrun_def pri_core_sel(3) [OF core])
  moreover have "wake_core ?x = wake_core (procs s p)"
    using wake_core_pri [OF core] by (simp add: wake_core_def)
  moreover have "proc_ok (procs s p) \<longrightarrow> proc_ok ?x" using ok by (simp add: proc_ok_def)
  ultimately show ?thesis
    using pri_core_sel [OF core] by (intro exI [of _ "n + 1"] exI [of _ ?x] conjI) simp_all
qed

lemma wakeup_pass_queues:
  assumes "sched_inv r s" "chan \<noteq> 0" "distinct xs'" "set xs' \<subseteq> set (slpque s (HASH chan))"
    "\<forall>p. p \<notin> set (slpque s (HASH chan)) \<longrightarrow> ps' p = procs s p \<and> w \<noteq> Some p"
    "\<forall>p\<in>set (slpque s (HASH chan)). scanned chan (procs s) ps' xs' w p"
  shows "queues_ok (wakeup_pass chan ps' xs' s)"
proof -
  note field = scanned_field [OF assms(5,6)]
  have old: "p \<in> set (slpque s h) \<longleftrightarrow> p < NPROC \<and> p_wchan (procs s p) \<noteq> 0 \<and> HASH (p_wchan (procs s p)) = h"
    if "h < SQSIZE" for p h using assms(1) that by (simp add: sched_inv_def queues_ok_def)
  have "p \<in> set (((slpque s)(HASH chan := xs')) h) \<longleftrightarrow>
      p < NPROC \<and> p_wchan (ps' p) \<noteq> 0 \<and> HASH (p_wchan (ps' p)) = h" if h: "h < SQSIZE" for p h
  proof (cases "h = HASH chan")
    case True
    show ?thesis
    proof (cases "p \<in> set (slpque s h)")
      case in_q: True
      then have sc: "scanned chan (procs s) ps' xs' w p" using assms(6) True by blast
      have "p \<in> set xs' \<longrightarrow> ps' p = procs s p" using sc by (simp add: scanned_def)
      moreover have "p \<notin> set xs' \<longrightarrow> p_wchan (ps' p) = 0"
        using sc by (auto simp: scanned_def split: if_splits)
      ultimately show ?thesis using old [OF h, of p] in_q True by auto
    next
      case False
      then have "ps' p = procs s p" using assms(5) True by blast
      then show ?thesis using False assms(4) old [OF h, of p] True by auto
    qed
  next
    case False
    then show ?thesis using field [of p] old [OF h, of p] by auto
  qed
  then show ?thesis
    using assms(1,3) by (simp add: queues_ok_def wakeup_pass_def sched_inv_def)
qed

lemma wakeup_pass_none:
  assumes "sched_inv r s" "chan \<noteq> 0" "distinct xs'" "set xs' \<subseteq> set (slpque s (HASH chan))"
    "\<forall>p. p \<notin> set (slpque s (HASH chan)) \<longrightarrow> ps' p = procs s p \<and> (None :: nat option) \<noteq> Some p"
    "\<forall>p\<in>set (slpque s (HASH chan)). scanned chan (procs s) ps' xs' None p"
  defines "s' \<equiv> wakeup_pass chan ps' xs' s"
  shows "sched_inv r s'" "wk {chan} s s'" "\<forall>p<NPROC. p_wchan (procs s' p) \<noteq> chan"
proof -
  note field = scanned_field [OF assms(5,6)]
  have q: "queues_ok s'" unfolding s'_def by (rule wakeup_pass_queues [OF assms(1-6)])
  have s': "procs s' = ps'" "qs s' = qs s" "addrs s' = addrs s" by (simp_all add: s'_def wakeup_pass_def)
  note inv = sched_invD [OF assms(1)]
  show "sched_inv r s'"
  proof (rule sched_invI [OF q], unfold s')
    fix p
    show "p \<in> set (qs s) \<longleftrightarrow> p < NPROC \<and> p_stat (ps' p) = SRUN \<and> SLOAD \<in> p_flag (ps' p) \<and> r \<noteq> Some p"
      using inv(5) [of p] field [of p] by auto
    show "r = Some p \<Longrightarrow> p < NPROC \<and> p_stat (ps' p) = SRUN"
      using inv(6) [of p] field [of p] by auto
    show "a_runout (addrs s) \<noteq> 0" by (rule inv(9))
    assume "p < NPROC"
    then show "p_wchan (ps' p) \<noteq> 0 \<Longrightarrow> p_stat (ps' p) = SSLEEP \<or> p_stat (ps' p) = SSTOP"
      "p_stat (ps' p) = SSLEEP \<Longrightarrow> p_wchan (ps' p) \<noteq> 0" "proc_ok (ps' p)"
      using inv(3,4,7) [of p] field [of p] by auto
  qed
  have "procs s' p = procs s p \<or> p_wchan (procs s p) \<in> {chan} \<and> woken (procs s p) (procs s' p)" for p
    using field [of p] by (auto simp: woken_def s')
  then show "wk {chan} s s'"
    unfolding wk_def by (simp add: same_rest_def s'_def wakeup_pass_def)
  show "\<forall>p<NPROC. p_wchan (procs s' p) \<noteq> chan"
  proof (intro allI impI)
    fix p assume "p < NPROC"
    show "p_wchan (procs s' p) \<noteq> chan"
    proof (cases "p \<in> set (slpque s (HASH chan))")
      case True
      then show ?thesis using assms(2,6) by (auto simp: scanned_def s'_def wakeup_pass_def split: if_splits)
    next
      case False
      then show ?thesis using assms(1,2,5) \<open>p < NPROC\<close>
        by (auto simp: sched_inv_def queues_ok_def s'_def wakeup_pass_def)
    qed
  qed
qed

lemma wakeup_pass_some:
  assumes "sched_inv r s" "chan \<noteq> 0" "distinct xs'" "set xs' \<subseteq> set (slpque s (HASH chan))"
    "\<forall>q. q \<notin> set (slpque s (HASH chan)) \<longrightarrow> ps' q = procs s q \<and> Some p \<noteq> Some q"
    "\<forall>q\<in>set (slpque s (HASH chan)). scanned chan (procs s) ps' xs' (Some p) q"
  defines "s' \<equiv> wakeup_run p (wakeup_pass chan ps' xs' s)"
  shows "sched_inv r s'" "wk {chan} s s'" "runout s' = runout s"
    "length (slpque s' (HASH chan)) < length (slpque s (HASH chan))"
proof -
  let ?s1 = "wakeup_pass chan ps' xs' s"
  note field = scanned_field [OF assms(5,6)] and inv = sched_invD [OF assms(1)]
  have pq: "p \<in> set (slpque s (HASH chan))" using assms(5) by blast
  then have "scanned chan (procs s) ps' xs' (Some p) p" using assms(6) by blast
  then have p: "p \<notin> set xs'" "p_stat (procs s p) = SSLEEP" "p_wchan (procs s p) = chan"
    "p_wchan (ps' p) = 0" "p_flag (ps' p) = p_flag (procs s p)"
    by (auto simp: scanned_def split: if_splits)
  have pn: "p < NPROC" using inv(2) [of "HASH chan" p] pq by simp
  have s1: "procs ?s1 = ps'" "qs ?s1 = qs s" by (simp_all add: wakeup_pass_def)
  obtain n x where s': "s' = ?s1\<lparr>runrun := n, procs := ps'(p := x),
       qs := (if SLOAD \<in> p_flag (procs s p) then p # qs s else qs s)\<rparr>" and
     x': "p_stat x = SRUN" "p_slptime x = 0" "p_wchan x = p_wchan (ps' p)" "p_flag x = p_flag (ps' p)"
     "wake_core x = wake_core (ps' p)" "proc_ok (ps' p) \<longrightarrow> proc_ok x"
    using wakeup_run_eq [of p ?s1] unfolding s'_def s1 p(5) by blast
  have x: "p_stat x = SRUN" "p_slptime x = 0" "p_wchan x = 0" "p_flag x = p_flag (procs s p)"
     "wake_core x = wake_core (procs s p)" "proc_ok (procs s p) \<longrightarrow> proc_ok x"
    using x' p(4,5) field [of p] by auto
  have pr: "procs s' q = (if q = p then x else ps' q)" for q by (simp add: s')
  have sl: "slpque s' = (slpque s)(HASH chan := xs')" and ad: "addrs s' = addrs s" and
    qq: "qs s' = (if SLOAD \<in> p_flag (procs s p) then p # qs s else qs s)"
    by (simp_all add: s' wakeup_pass_def)
  have "p \<notin> set (qs s)" using inv(5) [of p] p(2) by simp
  then have "queues_ok s'"
    using wakeup_pass_queues [OF assms(1-6)] x(3) p(4) inv(8)
    unfolding queues_ok_def pr qq sl by (auto simp: wakeup_pass_def)
  then show "sched_inv r s'"
  proof (rule sched_invI, unfold pr qq ad)
    fix q
    show "q \<in> set (if SLOAD \<in> p_flag (procs s p) then p # qs s else qs s) \<longleftrightarrow>
        q < NPROC \<and> p_stat (if q = p then x else ps' q) = SRUN \<and>
        SLOAD \<in> p_flag (if q = p then x else ps' q) \<and> r \<noteq> Some q"
      using inv(5) [of q] inv(6) [of q] field [of q] x p pn by auto
    show "r = Some q \<Longrightarrow> q < NPROC \<and> p_stat (if q = p then x else ps' q) = SRUN"
      using inv(6) [of q] field [of q] p by auto
    show "a_runout (addrs s) \<noteq> 0" by (rule inv(9))
    assume "q < NPROC"
    then show "p_wchan (if q = p then x else ps' q) \<noteq> 0 \<Longrightarrow>
        p_stat (if q = p then x else ps' q) = SSLEEP \<or> p_stat (if q = p then x else ps' q) = SSTOP"
      "p_stat (if q = p then x else ps' q) = SSLEEP \<Longrightarrow> p_wchan (if q = p then x else ps' q) \<noteq> 0"
      "proc_ok (if q = p then x else ps' q)"
      using inv(3,4,7) [of q] field [of q] x p pn by auto
  qed
  have "procs s' q = procs s q \<or> p_wchan (procs s q) \<in> {chan} \<and> woken (procs s q) (procs s' q)" for q
    using field [of q] x p by (auto simp: woken_def pr)
  then show "wk {chan} s s'"
    unfolding wk_def by (simp add: same_rest_def s' wakeup_pass_def)
  show "runout s' = runout s" by (simp add: s' wakeup_pass_def)
  have "set xs' \<subset> set (slpque s (HASH chan))" using assms(4) p(1) pq by blast
  then have "card (set xs') < card (set (slpque s (HASH chan)))" by (simp add: psubset_card_mono)
  then show "length (slpque s' (HASH chan)) < length (slpque s (HASH chan))"
    using assms(3) inv(1) [of "HASH chan"] by (simp add: sl distinct_card)
qed

lemma wk_slpque_le:
  assumes "wk C s s'" "sched_inv r s" "sched_inv r' s'" "h < SQSIZE"
  shows "length (slpque s' h) \<le> length (slpque s h)"
proof -
  have "p \<in> set (slpque s h)" if "p \<in> set (slpque s' h)" for p
    using that sched_invD(2) [OF assms(3,4), of p] sched_invD(2) [OF assms(2,4), of p] wk_wchan [OF assms(1), of p]
    by auto
  then have "card (set (slpque s' h)) \<le> card (set (slpque s h))" by (intro card_mono) auto
  then show ?thesis
    using sched_invD(1) [OF assms(3,4)] sched_invD(1) [OF assms(2,4)] by (simp add: distinct_card)
qed

lemma wk_no_wait:
  assumes "wk C s s'" "\<forall>p<NPROC. p_wchan (procs s p) \<noteq> chan" "chan \<noteq> 0"
  shows "\<forall>p<NPROC. p_wchan (procs s' p) \<noteq> chan"
  using assms wk_wchan [OF assms(1)] by metis

lemma wk_runout: "wk C s (s\<lparr>runout := False\<rparr>)"
  by (simp add: wk_def same_rest_def)

lemma sched_inv_runout: "sched_inv r (s\<lparr>runout := b\<rparr>) = sched_inv r s"
  by (simp add: sched_inv_def queues_ok_def states_ok_def)

lemma wakeup_n_spec:
  assumes "sched_inv r s" "chan \<noteq> 0"
    "length (slpque s (HASH chan)) + (if runout s then 27 else 1) \<le> n"
  shows "\<exists>s'. wakeup_n n chan s = Ret s' \<and> sched_inv r s' \<and>
    wk (if runout s then {chan, a_runout (addrs s)} else {chan}) s s' \<and>
    (\<forall>p<NPROC. p_wchan (procs s' p) \<noteq> chan)"
  using assms
proof (induction n arbitrary: chan s)
  case (Suc n)
  let ?C = "if runout s then {chan, a_runout (addrs s)} else {chan}"
  have C: "0 \<notin> ?C" "{chan} \<subseteq> ?C" using Suc.prems(2) sched_invD(9) [OF Suc.prems(1)] by auto
  obtain ps' xs' w where scan: "wakeup_scan chan (procs s) (slpque s (HASH chan)) = Ret (ps', xs', w)"
    "distinct xs'" "set xs' \<subseteq> set (slpque s (HASH chan))"
    "\<forall>p. p \<notin> set (slpque s (HASH chan)) \<longrightarrow> ps' p = procs s p \<and> w \<noteq> Some p"
    "\<forall>p\<in>set (slpque s (HASH chan)). scanned chan (procs s) ps' xs' w p"
    using wakeup_scan_inv [OF Suc.prems(1,2)] by blast
  show ?case
  proof (cases w)
    case None
    have "wakeup_n (Suc n) chan s = Ret (wakeup_pass chan ps' xs' s)"
      using scan(1) None by (simp add: wakeup_pass_def Let_def)
    then show ?thesis
      using wakeup_pass_none [OF Suc.prems(1,2) scan(2,3), of ps'] scan(4,5) None wk_mono C(2) by auto
  next
    case (Some p)
    let ?s1 = "wakeup_run p (wakeup_pass chan ps' xs' s)"
    note s1 = wakeup_pass_some [OF Suc.prems(1,2) scan(2,3) scan(4,5) [unfolded Some]]
    have ad: "addrs ?s1 = addrs s" using s1(2) by (simp add: wk_def same_rest_def)
    have step: "wakeup_n (Suc n) chan s =
      (if SLOAD \<notin> p_flag (procs ?s1 p) \<and> runout ?s1
       then bind_outcome (wakeup_n n (a_runout (addrs ?s1)) (?s1\<lparr>runout := False\<rparr>)) (wakeup_n n chan)
       else wakeup_n n chan ?s1)"
      using scan(1) Some by (simp add: wakeup_pass_def Let_def)
    show ?thesis
    proof (cases "SLOAD \<notin> p_flag (procs ?s1 p) \<and> runout ?s1")
      case False
      have "length (slpque ?s1 (HASH chan)) + (if runout ?s1 then 27 else 1) \<le> n"
        using Suc.prems(3) s1(3,4) by auto
      from Suc.IH [OF s1(1) Suc.prems(2) this] obtain s' where s': "wakeup_n n chan ?s1 = Ret s'"
        "sched_inv r s'" "wk ?C ?s1 s'" "\<forall>p<NPROC. p_wchan (procs s' p) \<noteq> chan"
        unfolding ad s1(3) by blast
      have "wakeup_n (Suc n) chan s = Ret s'" unfolding step if_not_P [OF False] by (rule s'(1))
      then show ?thesis using s'(2,4) wk_trans [OF wk_mono [OF s1(2) C(2)] s'(3) C(1)] by blast
    next
      case True
      then have ro: "runout s" using s1(3) by simp
      let ?s2 = "?s1\<lparr>runout := False\<rparr>" and ?a = "a_runout (addrs s)"
      have inv2: "sched_inv r ?s2" using s1(1) by (simp add: sched_inv_runout)
      have "length (slpque ?s2 (HASH ?a)) + (if runout ?s2 then 27 else 1) \<le> n"
        using Suc.prems(3) ro s1(4) slpque_le [OF inv2, of "HASH ?a"] by simp
      from Suc.IH [OF inv2 sched_invD(9) [OF Suc.prems(1)] this] obtain s3 where
        s3: "wakeup_n n ?a ?s2 = Ret s3" "sched_inv r s3" "wk {?a} ?s2 s3" by auto
      have ro3: "\<not> runout s3" using s3(3) by (simp add: wk_def)
      have "length (slpque s3 (HASH chan)) + (if runout s3 then 27 else 1) \<le> n"
        using wk_slpque_le [OF s3(3) inv2 s3(2), of "HASH chan"] Suc.prems(3) ro s1(4) ro3 by simp
      from Suc.IH [OF s3(2) Suc.prems(2) this] ro3 obtain s' where s': "wakeup_n n chan s3 = Ret s'"
        "sched_inv r s'" "wk {chan} s3 s'" "\<forall>p<NPROC. p_wchan (procs s' p) \<noteq> chan" by auto
      have "wakeup_n (Suc n) chan s = Ret s'" unfolding step if_P [OF True] ad s3(1) using s'(1) by simp
      moreover have "wk ?C s s'"
        using wk_trans [OF wk_mono [OF s1(2) C(2)] wk_trans [OF wk_runout wk_trans [OF wk_mono [OF s3(3)]
            wk_mono [OF s'(3) C(2)] C(1)] C(1)] C(1)] ro by simp
      ultimately show ?thesis using s'(2,4) by blast
    qed
  qed
qed (auto split: if_splits)

text \<open>\<open>wakeup\<close> returns, wakes everyone on its channel, and touches no one else but the swapper.\<close>

lemma wakeup_spec:
  assumes "sched_inv r s" "chan \<noteq> 0"
  shows "\<exists>s'. wakeup chan s = Ret s' \<and> sched_inv r s' \<and>
    wk (if runout s then {chan, a_runout (addrs s)} else {chan}) s s' \<and>
    (\<forall>p<NPROC. p_wchan (procs s' p) \<noteq> chan)"
  unfolding wakeup_def
  using slpque_le [OF assms(1), of "HASH chan"] by (intro wakeup_n_spec [OF assms]) auto

lemma wake_swapper_spec:
  assumes "sched_inv r s"
  shows "\<exists>s'. wake_swapper s = Ret s' \<and> sched_inv r s' \<and> wk {a_runout (addrs s)} s s'"
proof (cases "runout s")
  case True
  have inv: "sched_inv r (s\<lparr>runout := False\<rparr>)" using assms by (simp add: sched_inv_runout)
  obtain s' where "wakeup (a_runout (addrs s)) (s\<lparr>runout := False\<rparr>) = Ret s'" "sched_inv r s'"
    "wk {a_runout (addrs s)} (s\<lparr>runout := False\<rparr>) s'"
    using wakeup_spec [OF inv sched_invD(9) [OF assms]] by auto
  moreover have "0 \<notin> {a_runout (addrs s)}" using sched_invD(9) [OF assms] by simp
  ultimately show ?thesis using True wk_trans [OF wk_runout] by (auto simp: wake_swapper_def)
qed (use assms in \<open>simp add: wake_swapper_def\<close>)

section \<open>Running a process\<close>

lemma unsleep_queues:
  assumes "queues_ok s" "p < NPROC"
  shows "\<exists>s'. unsleep p s = Ret s' \<and> queues_ok s' \<and> procs s' = (procs s)(p := (procs s p)\<lparr>p_wchan := 0\<rparr>) \<and>
    qs s' = qs s \<and> same_rest s s' \<and> runout s' = runout s"
proof (cases "p_wchan (procs s p) = 0")
  case True
  then have "procs s p = (procs s p)\<lparr>p_wchan := 0\<rparr>" by (cases "procs s p") simp
  then have "procs s = (procs s)(p := (procs s p)\<lparr>p_wchan := 0\<rparr>)" by (rule fun_upd_idem [symmetric])
  moreover have "unsleep p s = Ret s" using True by (simp add: unsleep_def)
  ultimately show ?thesis using assms by (intro exI [of _ s] conjI) (assumption | simp)+
next
  case False
  let ?h = "HASH (p_wchan (procs s p))"
  let ?s = "upd_proc p (p_wchan_update (\<lambda>_. 0)) (s\<lparr>slpque := (slpque s)(?h := remove1 p (slpque s ?h))\<rparr>)"
  have q: "distinct (slpque s h)" "q \<in> set (slpque s h) \<longleftrightarrow>
      q < NPROC \<and> p_wchan (procs s q) \<noteq> 0 \<and> HASH (p_wchan (procs s q)) = h" if "h < SQSIZE" for q h
    using assms(1) that by (auto simp: queues_ok_def)
  have "unsleep p s = Ret ?s" using False q(2) [of ?h p] assms(2) by (simp add: unsleep_def Let_def)
  moreover have "queues_ok ?s"
    using assms(1) unfolding queues_ok_def by (auto simp: q set_remove1_eq)
  ultimately show ?thesis by (auto simp: same_rest_def upd_proc_def)
qed

lemma unsleep_stopped:
  assumes "sched_inv r s" "p < NPROC" "p_stat (procs s p) \<noteq> SSLEEP"
  shows "\<exists>s'. unsleep p s = Ret s' \<and> sched_inv r s' \<and> procs s' = (procs s)(p := (procs s p)\<lparr>p_wchan := 0\<rparr>) \<and>
    same_rest s s' \<and> runout s' = runout s"
proof -
  note inv = sched_invD [OF assms(1)]
  obtain s' where s': "unsleep p s = Ret s'" "queues_ok s'" "procs s' = (procs s)(p := (procs s p)\<lparr>p_wchan := 0\<rparr>)"
    "qs s' = qs s" "same_rest s s'" "runout s' = runout s"
    using unsleep_queues [of s p] assms(1,2) by (auto simp: sched_inv_def)
  have "sched_inv r s'"
  proof (rule sched_invI [OF s'(2)], unfold s'(3,4))
    fix q
    show "q \<in> set (qs s) \<longleftrightarrow> q < NPROC \<and> p_stat (((procs s)(p := (procs s p)\<lparr>p_wchan := 0\<rparr>)) q) = SRUN \<and>
        SLOAD \<in> p_flag (((procs s)(p := (procs s p)\<lparr>p_wchan := 0\<rparr>)) q) \<and> r \<noteq> Some q"
      using inv(5) [of q] by simp
    show "r = Some q \<Longrightarrow> q < NPROC \<and> p_stat (((procs s)(p := (procs s p)\<lparr>p_wchan := 0\<rparr>)) q) = SRUN"
      using inv(6) [of q] by auto
    show "a_runout (addrs s') \<noteq> 0" using inv(9) s'(5) by (simp add: same_rest_def)
  qed (use inv(3,4,7) assms(3) in \<open>auto simp: proc_ok_def split: if_splits\<close>)
  then show ?thesis using s' by blast
qed

text \<open>\<open>ran p s s'\<close>: process \<open>p\<close> became runnable, and no other process was touched.\<close>

definition ran :: "nat \<Rightarrow> ks \<Rightarrow> ks \<Rightarrow> bool" where
  "ran p s s' \<longleftrightarrow> same_rest s s' \<and> runout s' = runout s \<and> (\<forall>q. q \<noteq> p \<longrightarrow> procs s' q = procs s q) \<and>
     p_stat (procs s' p) = SRUN \<and> p_wchan (procs s' p) = 0 \<and> wake_core (procs s' p) = wake_core (procs s p)"

lemma wake_core_flag: "wake_core x = wake_core y \<Longrightarrow> p_flag x = p_flag y"
  by (cases x; cases y) (simp add: wake_core_def)

lemma made_runnable_inv:
  assumes "sched_inv r s" "p < NPROC" "p_stat (procs s p) \<noteq> SRUN" "queues_ok s1"
    "procs s1 = (procs s)(p := x)" "qs s1 = (if SLOAD \<in> p_flag x then p # qs s else qs s)"
    "addrs s1 = addrs s" "p_stat x = SRUN" "p_wchan x = 0" "proc_ok x"
  shows "sched_inv r s1"
proof -
  note inv = sched_invD [OF assms(1)]
  have p: "p \<notin> set (qs s)" "r \<noteq> Some p" using inv(5,6) [of p] assms(3) by auto
  show ?thesis
  proof (rule sched_invI [OF assms(4)], unfold assms(5-7))
    fix q
    show "q \<in> set (if SLOAD \<in> p_flag x then p # qs s else qs s) \<longleftrightarrow> q < NPROC \<and>
        p_stat (((procs s)(p := x)) q) = SRUN \<and> SLOAD \<in> p_flag (((procs s)(p := x)) q) \<and> r \<noteq> Some q"
      using inv(5) [of q] p assms(2,8) by auto
    show "r = Some q \<Longrightarrow> q < NPROC \<and> p_stat (((procs s)(p := x)) q) = SRUN" using inv(6) [of q] p by auto
    show "a_runout (addrs s) \<noteq> 0" by (rule inv(9))
  qed (use inv(3,4,7) assms(8-10) in \<open>auto split: if_splits\<close>)
qed

lemma setrun_spec:
  assumes "sched_inv r s" "p < NPROC" "p_stat (procs s p) \<in> {SSLEEP, SSTOP, SIDL}"
  shows "\<exists>s1 s'. setrun p s = Ret s' \<and> ran p s s1 \<and> sched_inv r s1 \<and> sched_inv r s' \<and>
    wk {a_runout (addrs s)} s1 s'"
proof -
  note inv = sched_invD [OF assms(1)]
  have idl: "p_stat (procs s p) = SIDL \<Longrightarrow> p_wchan (procs s p) = 0" using inv(3) [OF assms(2)] by auto
  obtain s0 where s0: "unsleep p s = Ret s0" "queues_ok s0" "procs s0 = (procs s)(p := (procs s p)\<lparr>p_wchan := 0\<rparr>)"
    "qs s0 = qs s" "same_rest s s0" "runout s0 = runout s"
    using unsleep_queues [of s p] assms(1,2) by (auto simp: sched_inv_def)
  have first: "(case p_stat (procs s p) of SSTOP \<Rightarrow> unsleep p s | SSLEEP \<Rightarrow> unsleep p s
      | SIDL \<Rightarrow> Ret s | _ \<Rightarrow> Panic ''setrun'') = Ret s0"
    using assms(3) idl s0(1) by (auto simp: unsleep_def)
  have "pri_upd p s0 (if 1 < p_slptime (procs s0 p) then updatepri p s0 else s0)"
    using updatepri_pri_upd [of s0 p] pri_updI [where s = s0 and s' = s0 and n = "runrun s0" and p = p and x = "procs s0 p"]
    by auto
  then obtain n x where s1: "(if 1 < p_slptime (procs s0 p) then updatepri p s0 else s0) =
      s0\<lparr>runrun := n, procs := (procs s0)(p := x)\<rparr>"
    and core: "pri_core x = pri_core (procs s0 p)" and ok: "proc_ok (procs s0 p) \<longrightarrow> proc_ok x"
    by (rule pri_updE)
  let ?x = "x\<lparr>p_stat := SRUN\<rparr>"
  have x: "p_wchan x = 0" "p_flag x = p_flag (procs s p)" "proc_ok ?x" "wake_core ?x = wake_core (procs s p)"
    using pri_core_sel [OF core] ok inv(7) [OF assms(2)] wake_core_pri [OF core] s0(3)
    by (auto simp: proc_ok_def wake_core_def)
  define s2 where "s2 = s0\<lparr>runrun := (if p_pri x < curpri s then n + 1 else n), procs := (procs s0)(p := ?x),
     qs := (if SLOAD \<in> p_flag (procs s p) then p # qs s else qs s)\<rparr>"
  have cu: "curpri s0 = curpri s" using s0(5) by (simp add: same_rest_def)
  have run: "setrun p s = (if SLOAD \<notin> p_flag (procs s p) then wake_swapper s2 else Ret s2)"
    unfolding setrun_def first bind_outcome.simps s1 Let_def s2_def
    using s0(4) by (cases s0) (simp add: upd_proc_def setrq_def incr_runrun_def x cu [symmetric])
  have p2: "procs s2 = (procs s)(p := ?x)" "addrs s2 = addrs s"
    "qs s2 = (if SLOAD \<in> p_flag ?x then p # qs s else qs s)" "slpque s2 = slpque s0"
    using s0(3,5) x(2) by (simp_all add: s2_def same_rest_def)
  have r: "ran p s s2"
    using s0(5,6) x(1,4) unfolding ran_def p2 by (simp add: same_rest_def s2_def)
  have "p \<notin> set (qs s)" using inv(5) [of p] assms(3) by auto
  then have q2: "queues_ok s2"
    using s0(2) x(1) inv(8) unfolding queues_ok_def p2 s0(3) by auto
  have inv2: "sched_inv r s2"
    by (rule made_runnable_inv [OF assms(1,2) _ q2 p2(1,3,2)]) (use assms(3) x in auto)
  have ad: "addrs s2 = addrs s" using r by (simp add: ran_def same_rest_def)
  show ?thesis
  proof (cases "SLOAD \<in> p_flag (procs s p)")
    case True
    then show ?thesis using run r inv2 by auto
  next
    case False
    then show ?thesis using run r inv2 wake_swapper_spec [OF inv2] unfolding ad by auto
  qed
qed

text \<open>What \<open>setrun\<close> does to every process, the one it runs included.\<close>

lemma setrun_procs:
  assumes "ran p s s1" "wk {a_runout (addrs s)} s1 s'" "a_runout (addrs s) \<noteq> 0"
  shows "p_stat (procs s' p) = SRUN" "p_wchan (procs s' p) = 0" "p_flag (procs s' p) = p_flag (procs s p)"
    "wake_core (procs s' p) = wake_core (procs s p)" "same_rest s s'"
    "q \<noteq> p \<Longrightarrow> p_wchan (procs s q) \<noteq> a_runout (addrs s) \<Longrightarrow> procs s' q = procs s q"
proof -
  have s1: "p_stat (procs s1 p) = SRUN" "p_wchan (procs s1 p) = 0"
    "wake_core (procs s1 p) = wake_core (procs s p)" using assms(1) by (simp_all add: ran_def)
  have "procs s' p = procs s1 p" using wkD [OF assms(2), of p] s1(2) assms(3) by simp
  then show "p_stat (procs s' p) = SRUN" "p_wchan (procs s' p) = 0" "p_flag (procs s' p) = p_flag (procs s p)"
    "wake_core (procs s' p) = wake_core (procs s p)"
    using s1 wake_core_flag [OF s1(3)] by simp_all
  show "same_rest s s'"
    using assms(1,2) by (simp add: ran_def wk_def same_rest_trans [of s s1])
  show "procs s' q = procs s q" if "q \<noteq> p" "p_wchan (procs s q) \<noteq> a_runout (addrs s)"
    using wkD [OF assms(2), of q] assms(1) that by (simp add: ran_def)
qed

section \<open>Choosing a process\<close>

lemma swtch_scan_spec:
  "swtch_scan ps xs pp n = (pp', n') \<Longrightarrow>
   (pp' = pp \<and> n' = n \<or> (\<exists>p\<in>set xs. pp' = Some p \<and> SLOAD \<in> p_flag (ps p) \<and> n' = p_pri (ps p) \<and> n' < n)) \<and>
   n' \<le> n \<and> (\<forall>p\<in>set xs. SLOAD \<in> p_flag (ps p) \<longrightarrow> n' \<le> p_pri (ps p))"
proof (induction ps xs pp n rule: swtch_scan.induct)
  case (2 ps p rest pp n)
  show ?case
  proof (cases "SLOAD \<in> p_flag (ps p) \<and> p_pri (ps p) < n")
    case True
    then show ?thesis using 2(1) [OF True] 2(3) by fastforce
  next
    case False
    then show ?thesis using 2(2) [OF False] 2(3) by fastforce
  qed
qed simp

end
