(* ===== verification/Signal.thy ===== *)
theory Signal
  imports Sched_Inv
begin

text \<open>
  Sending signals: \<^verbatim>\<open>src/sys/kernel/kern_sig.c\<close> with the property table of
  \<^verbatim>\<open>src/sys/include/signalvar.h\<close>. \<open>psignal\<close> posts a signal to a process and decides from its state
  whether the process runs, stops or goes on sleeping; \<open>kill\<close> and \<open>killpg\<close> choose the processes.
  A signal is its number; a mask is a set of numbers.
\<close>

section \<open>Signal properties\<close>

datatype sprop = SA_KILL | SA_CORE | SA_STOP | SA_TTYSTOP | SA_IGNORE | SA_CONT

abbreviation (input) NSIG :: nat where "NSIG \<equiv> 32"
abbreviation (input) SIGHUP :: nat where "SIGHUP \<equiv> 1"
abbreviation (input) SIGILL :: nat where "SIGILL \<equiv> 4"
abbreviation (input) SIGKILL :: nat where "SIGKILL \<equiv> 9"
abbreviation (input) SIGALRM :: nat where "SIGALRM \<equiv> 14"
abbreviation (input) SIGSTOP :: nat where "SIGSTOP \<equiv> 17"
abbreviation (input) SIGTSTP :: nat where "SIGTSTP \<equiv> 18"
abbreviation (input) SIGCONT :: nat where "SIGCONT \<equiv> 19"
abbreviation (input) SIGCHLD :: nat where "SIGCHLD \<equiv> 20"
abbreviation (input) SIGTTIN :: nat where "SIGTTIN \<equiv> 21"
abbreviation (input) SIGTTOU :: nat where "SIGTTOU \<equiv> 22"
abbreviation (input) SIGXCPU :: nat where "SIGXCPU \<equiv> 24"
abbreviation (input) SIGVTALRM :: nat where "SIGVTALRM \<equiv> 26"
abbreviation (input) SIGPROF :: nat where "SIGPROF \<equiv> 27"

definition sigprop_table :: "sprop set list" where
  "sigprop_table =
    [{}, {SA_KILL}, {SA_KILL}, {SA_KILL, SA_CORE}, {SA_KILL, SA_CORE}, {SA_KILL, SA_CORE},
     {SA_KILL, SA_CORE}, {SA_KILL, SA_CORE}, {SA_KILL, SA_CORE}, {SA_KILL}, {SA_KILL, SA_CORE},
     {SA_KILL, SA_CORE}, {SA_KILL, SA_CORE}, {SA_KILL}, {SA_KILL}, {SA_KILL}, {SA_IGNORE}, {SA_STOP},
     {SA_STOP, SA_TTYSTOP}, {SA_IGNORE, SA_CONT}, {SA_IGNORE}, {SA_STOP, SA_TTYSTOP},
     {SA_STOP, SA_TTYSTOP}, {SA_IGNORE}, {SA_KILL}, {SA_KILL}, {SA_KILL}, {SA_KILL}, {SA_IGNORE},
     {SA_IGNORE}, {SA_KILL}, {SA_KILL}, {}]"

definition sigprop :: "nat \<Rightarrow> sprop set" where
  "sigprop sig = (if sig < length sigprop_table then sigprop_table ! sig else {})"

definition contsigmask :: "nat set" where
  "contsigmask = {SIGCONT}"

definition stopsigmask :: "nat set" where
  "stopsigmask = {SIGSTOP, SIGTSTP, SIGTTIN, SIGTTOU}"

definition sigcantmask :: "nat set" where
  "sigcantmask = {SIGKILL, SIGSTOP}"

section \<open>Posting a signal\<close>

text \<open>The sleep channel of a parent, the address of its entry in the table.\<close>

definition pptr_chan :: "ks \<Rightarrow> nat \<Rightarrow> nat" where
  "pptr_chan s p = (case p_pptr (procs s p) of None \<Rightarrow> 0 | Some q \<Rightarrow> a_proc (addrs s) q)"

definition stop :: "nat \<Rightarrow> ks \<Rightarrow> ks outcome" where
  "stop p s =
     (let s = upd_proc p (\<lambda>x. x\<lparr>p_stat := SSTOP, p_flag := p_flag x - {P_WAITED}\<rparr>) s
      in wakeup (pptr_chan s p) s)"

datatype sigact = A_DFL | A_HOLD | A_CATCH

definition sig_off :: "nat set \<Rightarrow> nat \<Rightarrow> ks \<Rightarrow> ks" where
  "sig_off m p s = upd_proc p (p_sig_update (\<lambda>x. x - m)) s"

text \<open>The label \<^verbatim>\<open>run\<close>: the priority is raised to at least \<^verbatim>\<open>PUSER\<close>.\<close>

definition psignal_run :: "nat \<Rightarrow> ks \<Rightarrow> ks outcome" where
  "psignal_run p s =
     setrun p (if PUSER < p_pri (procs s p) then upd_proc p (p_pri_update (\<lambda>_. PUSER)) s else s)"

text \<open>
  The switch on the state of the process, once the signal is pending. \<open>psig\<close> is the recursive call
  for the parent.
\<close>

definition psignal_sleep :: "(nat \<Rightarrow> nat \<Rightarrow> ks \<Rightarrow> ks outcome) \<Rightarrow> nat \<Rightarrow> nat \<Rightarrow> sigact \<Rightarrow> ks \<Rightarrow> ks outcome" where
  "psignal_sleep psig p sig action s =
     (if P_SINTR \<notin> p_flag (procs s p) then Ret s
      else if P_TRACED \<in> p_flag (procs s p) then psignal_run p s
      else if SA_CONT \<in> sigprop sig \<and> action = A_DFL then Ret (sig_off {sig} p s)
      else if SA_STOP \<in> sigprop sig then
        (if action \<noteq> A_DFL then psignal_run p s
         else if SVFORK \<in> p_flag (procs s p) then Ret s
         else
           (let s = upd_proc p (p_ptracesig_update (\<lambda>_. sig)) (sig_off {sig} p s)
            in case p_pptr (procs s p) of
                 None \<Rightarrow> Fault
               | Some pp \<Rightarrow>
                   bind_outcome (if P_NOCLDSTOP \<notin> p_flag (procs s pp) then psig pp SIGCHLD s else Ret s)
                     (stop p)))
      else psignal_run p s)"

definition psignal_stopped :: "nat \<Rightarrow> nat \<Rightarrow> sigact \<Rightarrow> ks \<Rightarrow> ks outcome" where
  "psignal_stopped p sig action s =
     (if P_TRACED \<in> p_flag (procs s p) then Ret s
      else if sig = SIGKILL then psignal_run p s
      else if SA_CONT \<in> sigprop sig then
        (let s = (if action = A_DFL then sig_off {sig} p s else s)
         in if action = A_CATCH \<or> p_wchan (procs s p) = 0 then psignal_run p s
            else Ret (upd_proc p (p_stat_update (\<lambda>_. SSLEEP)) s))
      else if SA_STOP \<in> sigprop sig then Ret (sig_off {sig} p s)
      else if p_wchan (procs s p) \<noteq> 0 \<and> P_SINTR \<in> p_flag (procs s p) then unsleep p s
      else Ret s)"

definition psignal_action :: "nat \<Rightarrow> proc \<Rightarrow> sigact" where
  "psignal_action sig x =
     (if P_TRACED \<in> p_flag x then A_DFL
      else if sig \<in> p_sigmask x then A_HOLD
      else if sig \<in> p_sigcatch x then A_CATCH
      else A_DFL)"

text \<open>The part of \<open>psignal\<close> before the switch: what is pending afterwards, and whether it returns early.\<close>

definition psignal_post :: "nat \<Rightarrow> proc \<Rightarrow> bool \<times> proc" where
  "psignal_post sig x =
     (let prop = sigprop sig; action = psignal_action sig x
      in if P_TRACED \<notin> p_flag x \<and> sig \<in> p_sigignore x then (True, x)
         else
           (let x = (if NZERO < p_nice x \<and> action = A_DFL \<and> SA_KILL \<in> prop \<and> P_TRACED \<notin> p_flag x
                     then x\<lparr>p_nice := NZERO\<rparr> else x);
                x = (if SA_CONT \<in> prop then x\<lparr>p_sig := p_sig x - stopsigmask\<rparr> else x)
            in if SA_STOP \<in> prop \<and> SA_TTYSTOP \<in> prop \<and> p_pptr x = Some 1 \<and> action = A_DFL then (True, x)
               else
                 (let x = (if SA_STOP \<in> prop then x\<lparr>p_sig := p_sig x - contsigmask\<rparr> else x);
                      x = x\<lparr>p_sig := insert sig (p_sig x)\<rparr>
                  in (action = A_HOLD \<and> (SA_CONT \<notin> prop \<or> p_stat x \<noteq> SSTOP), x))))"

definition psignal_body :: "(nat \<Rightarrow> nat \<Rightarrow> ks \<Rightarrow> ks outcome) \<Rightarrow> nat \<Rightarrow> nat \<Rightarrow> ks \<Rightarrow> ks outcome" where
  "psignal_body psig p sig s =
     (let r = psignal_post sig (procs s p); s' = upd_proc p (\<lambda>_. snd r) s;
          action = psignal_action sig (procs s p)
      in if fst r then Ret s'
         else case p_stat (procs s' p) of
                SSLEEP \<Rightarrow> psignal_sleep psig p sig action s'
              | SSTOP \<Rightarrow> psignal_stopped p sig action s'
              | _ \<Rightarrow> Ret s')"

text \<open>
  The recursive call sends \<^verbatim>\<open>SIGCHLD\<close>, which stops nobody and so never recurses: two levels are
  enough, and a third would be \<open>Diverge\<close>.
\<close>

fun psignal_n :: "nat \<Rightarrow> nat \<Rightarrow> nat \<Rightarrow> ks \<Rightarrow> ks outcome" where
  "psignal_n 0 p sig s = Diverge"
| "psignal_n (Suc n) p sig s = psignal_body (psignal_n n) p sig s"

definition psignal :: "nat \<Rightarrow> nat \<Rightarrow> ks \<Rightarrow> ks outcome" where
  "psignal p sig s = psignal_n 2 p sig s"

section \<open>Groups of processes\<close>

fun gsignal_loop :: "int \<Rightarrow> nat \<Rightarrow> nat list \<Rightarrow> ks \<Rightarrow> ks outcome" where
  "gsignal_loop pgrp sig [] s = Ret s"
| "gsignal_loop pgrp sig (p # ps) s =
     bind_outcome (if p_pgrp (procs s p) = pgrp then psignal p sig s else Ret s) (gsignal_loop pgrp sig ps)"

definition gsignal :: "int \<Rightarrow> nat \<Rightarrow> ks \<Rightarrow> ks outcome" where
  "gsignal pgrp sig s = (if pgrp = 0 then Ret s else gsignal_loop pgrp sig (allproc s) s)"

text \<open>
  Permission to signal \<open>q\<close>. \<open>ruid\<close> is the real user id of \<open>q\<close>, which \<^verbatim>\<open>fill_from_u\<close> reads from its
  user area in core or on the swap device.
\<close>

definition cansignal :: "(nat \<Rightarrow> int) \<Rightarrow> nat \<Rightarrow> nat \<Rightarrow> ks \<Rightarrow> bool outcome option" where
  "cansignal ruid q signum s =
     (if p_uid (curp s) = 0 \<or> u_ruid (u s) = ruid q \<or> p_uid (curp s) = ruid q \<or>
         u_ruid (u s) = p_uid (procs s q) \<or> p_uid (curp s) = p_uid (procs s q)
      then Some (Ret True)
      else if signum = SIGCONT then inferior q s
      else Some (Ret False))"

fun killpg1_loop :: "(nat \<Rightarrow> int) \<Rightarrow> nat \<Rightarrow> int \<Rightarrow> bool \<Rightarrow> nat list \<Rightarrow> nat \<Rightarrow> errno \<Rightarrow> ks \<Rightarrow>
    (nat \<times> errno \<times> ks) outcome option" where
  "killpg1_loop ruid signo pgrp al [] f error s = Some (Ret (f, error, s))"
| "killpg1_loop ruid signo pgrp al (p # ps) f error s =
     (if (p_pgrp (procs s p) \<noteq> pgrp \<and> \<not> al) \<or> p_ppid (procs s p) = 0 \<or> SSYS \<in> p_flag (procs s p) \<or>
         (al \<and> p = u_procp (u s))
      then killpg1_loop ruid signo pgrp al ps f error s
      else case cansignal ruid p signo s of
             Some (Ret False) \<Rightarrow> killpg1_loop ruid signo pgrp al ps f (if al then error else EPERM) s
           | Some (Ret True) \<Rightarrow>
               (case (if signo = 0 then Ret s else psignal p signo s) of
                  Ret s' \<Rightarrow> killpg1_loop ruid signo pgrp al ps (f + 1) error s'
                | Panic m \<Rightarrow> Some (Panic m)
                | Fault \<Rightarrow> Some Fault
                | Diverge \<Rightarrow> Some Diverge)
           | Some (Panic m) \<Rightarrow> Some (Panic m)
           | Some Fault \<Rightarrow> Some Fault
           | Some Diverge \<Rightarrow> Some Diverge
           | None \<Rightarrow> None)"

definition killpg1 :: "(nat \<Rightarrow> int) \<Rightarrow> nat \<Rightarrow> int \<Rightarrow> bool \<Rightarrow> ks \<Rightarrow> (errno \<times> ks) outcome option" where
  "killpg1 ruid signo pgrp al s =
     (let pgrp' = (if \<not> al \<and> pgrp = 0 then p_pgrp (curp s) else pgrp)
      in if \<not> al \<and> pgrp' = 0 then Some (Ret (ESRCH, s))
         else map_option (\<lambda>r. bind_outcome r (\<lambda>(f, error, s).
                Ret (if error \<noteq> E_OK then error else if f = 0 then ESRCH else E_OK, s)))
              (killpg1_loop ruid signo pgrp' al (allproc s) 0 E_OK s))"

definition ret_error :: "(errno \<times> ks) outcome option \<Rightarrow> ks outcome option" where
  "ret_error = map_option (\<lambda>r. bind_outcome r (\<lambda>(e, s). Ret (set_error e s)))"

definition kill :: "(nat \<Rightarrow> int) \<Rightarrow> int \<Rightarrow> int \<Rightarrow> ks \<Rightarrow> ks outcome option" where
  "kill ruid pid signo s =
     ret_error
       (if signo < 0 \<or> int NSIG \<le> signo then Some (Ret (EINVAL, s))
        else if 0 < pid then
          (case pfind pid s of
             None \<Rightarrow> Some (Ret (ESRCH, s))
           | Some p \<Rightarrow>
               map_option (\<lambda>r. bind_outcome r (\<lambda>ok.
                   if \<not> ok then Ret (EPERM, s)
                   else if signo \<noteq> 0 then bind_outcome (psignal p (nat signo) s) (\<lambda>s'. Ret (E_OK, s'))
                   else Ret (E_OK, s)))
                 (cansignal ruid p (nat signo) s))
        else if pid = -1 then killpg1 ruid (nat signo) 0 True s
        else if pid = 0 then killpg1 ruid (nat signo) 0 False s
        else killpg1 ruid (nat signo) (- pid) False s)"

definition killpg :: "(nat \<Rightarrow> int) \<Rightarrow> int \<Rightarrow> int \<Rightarrow> ks \<Rightarrow> ks outcome option" where
  "killpg ruid pgrp signo s =
     ret_error
       (if signo < 0 \<or> int NSIG \<le> signo then Some (Ret (EINVAL, s))
        else killpg1 ruid (nat signo) pgrp False s)"

end
