(* ===== verification/Signal_Inv.thy ===== *)
theory Signal_Inv
  imports Signal
begin

text \<open>
  What \<open>psignal\<close> does. It returns and keeps the invariant of the queues; it changes nothing about a
  process but its pending signals, its niceness and whether it runs; and the properties
  of single signals that the rest of the system relies on.
\<close>

section \<open>Frames\<close>

lemma upd_proc_inv:
  assumes "sched_inv r s" "p_stat (f (procs s p)) = p_stat (procs s p)" "p_wchan (f (procs s p)) = p_wchan (procs s p)"
    "SLOAD \<in> p_flag (f (procs s p)) \<longleftrightarrow> SLOAD \<in> p_flag (procs s p)"
    "proc_ok (procs s p) \<Longrightarrow> proc_ok (f (procs s p))"
  shows "sched_inv r (upd_proc p f s)"
  by (rule sched_inv_cong [OF assms(1)]) (use assms sched_invD(7) [OF assms(1)] in auto)

lemma same_rest_upd_proc [simp]: "same_rest s (upd_proc p f s)"
  by (simp add: same_rest_def)

text \<open>The fields of a process that sending signals never changes.\<close>

definition sig_core :: "proc \<Rightarrow> proc" where
  "sig_core x = x\<lparr>p_pri := 0, p_cpu := 0, p_slptime := 0, p_stat := SRUN, p_wchan := 0, p_sig := {}, p_nice := 0,
     p_ptracesig := 0, p_flag := p_flag x - {P_WAITED}\<rparr>"

definition sig_frame :: "ks \<Rightarrow> ks \<Rightarrow> bool" where
  "sig_frame s s' \<longleftrightarrow> same_rest s s' \<and> (\<forall>q. sig_core (procs s' q) = sig_core (procs s q)) \<and>
     (\<forall>q. p_wchan (procs s' q) = p_wchan (procs s q) \<or> p_wchan (procs s' q) = 0)"

lemma sig_frame_refl [simp]: "sig_frame s s"
  by (simp add: sig_frame_def)

lemma sig_frame_trans: "sig_frame s s' \<Longrightarrow> sig_frame s' s'' \<Longrightarrow> sig_frame s s''"
  unfolding sig_frame_def using same_rest_trans [of s s' s''] by metis

lemma sig_core_wake: "wake_core x = wake_core y \<Longrightarrow> sig_core x = sig_core y"
  by (cases x; cases y) (simp add: wake_core_def sig_core_def)

lemma wake_core_sig: "wake_core x = wake_core y \<Longrightarrow> p_sig x = p_sig y"
  by (cases x; cases y) (simp add: wake_core_def)

lemma sig_core_sel:
  assumes "sig_core x = sig_core y"
  shows "p_pptr x = p_pptr y" "p_sigmask x = p_sigmask y" "p_sigignore x = p_sigignore y"
    "p_sigcatch x = p_sigcatch y" "p_pid x = p_pid y" "p_ppid x = p_ppid y" "p_uid x = p_uid y"
    "p_pgrp x = p_pgrp y" "p_flag x - {P_WAITED} = p_flag y - {P_WAITED}"
  using assms by (cases x; cases y; simp add: sig_core_def)+

lemma wk_sig_frame: "wk C s s' \<Longrightarrow> sig_frame s s'"
  unfolding wk_def sig_frame_def woken_def using sig_core_wake by metis

lemma ran_sig_frame: "ran p s s' \<Longrightarrow> sig_frame s s'"
  unfolding ran_def sig_frame_def using sig_core_wake by metis

lemma upd_proc_sig_frame:
  "sig_core (f (procs s p)) = sig_core (procs s p) \<Longrightarrow> p_wchan (f (procs s p)) = p_wchan (procs s p) \<Longrightarrow>
   sig_frame s (upd_proc p f s)"
  by (simp add: sig_frame_def)

section \<open>Posting\<close>

lemma sigprop_simps [simp]:
  "sigprop 9 = {SA_KILL}" "sigprop 17 = {SA_STOP}" "sigprop 19 = {SA_IGNORE, SA_CONT}" "sigprop 20 = {SA_IGNORE}"
  by (simp_all add: sigprop_def sigprop_table_def)

lemma sigprop_stop: "SA_STOP \<in> sigprop sig \<longleftrightarrow> sig \<in> stopsigmask"
proof (cases "sig < 33")
  case True
  then have "sig \<in> set [0..<33]" by simp
  moreover have "list_all (\<lambda>sig. SA_STOP \<in> sigprop sig \<longleftrightarrow> sig \<in> stopsigmask) [0..<33]" by code_simp
  ultimately show ?thesis unfolding list_all_iff by blast
next
  case False
  then show ?thesis by (auto simp: sigprop_def sigprop_table_def stopsigmask_def)
qed

lemma sigprop_cont: "SA_CONT \<in> sigprop sig \<longleftrightarrow> sig = SIGCONT"
proof (cases "sig < 33")
  case True
  then have "sig \<in> set [0..<33]" by simp
  moreover have "list_all (\<lambda>sig. SA_CONT \<in> sigprop sig \<longleftrightarrow> sig = SIGCONT) [0..<33]" by code_simp
  ultimately show ?thesis unfolding list_all_iff by blast
next
  case False
  then show ?thesis by (auto simp: sigprop_def sigprop_table_def)
qed

text \<open>\<open>posted\<close>: the pending set that a signal leaves when it is not dropped at once.\<close>

definition posted :: "nat \<Rightarrow> nat set \<Rightarrow> nat set" where
  "posted sig m =
     insert sig (m - (if sig = SIGCONT then stopsigmask else {}) - (if sig \<in> stopsigmask then {SIGCONT} else {}))"

lemma upd_proc_eqI: "f (procs s p) = g (procs s p) \<Longrightarrow> upd_proc p f s = upd_proc p g s"
  by (simp add: upd_proc_def)

lemma upd_proc_same: "f (procs s p) = procs s p \<Longrightarrow> upd_proc p f s = s"
  by (simp add: upd_proc_def fun_upd_idem)

lemma if_upd_proc: "(if b then upd_proc p f s else s) = upd_proc p (\<lambda>x. if b then f x else x) s"
  by (simp add: upd_proc_same)

lemma psignal_post_eq:
  "\<exists>early sg ni. psignal_post sig x = (early, x\<lparr>p_sig := sg, p_nice := ni\<rparr>) \<and>
     (ni = p_nice x \<or> ni = 0) \<and>
     (if P_TRACED \<notin> p_flag x \<and> sig \<in> p_sigignore x
      then early \<and> sg = p_sig x \<and> ni = p_nice x
      else if SA_STOP \<in> sigprop sig \<and> SA_TTYSTOP \<in> sigprop sig \<and> p_pptr x = Some 1 \<and> psignal_action sig x = A_DFL
      then early \<and> sg = p_sig x
      else sg = posted sig (p_sig x) \<and>
        (early \<longleftrightarrow> psignal_action sig x = A_HOLD \<and> (sig \<noteq> SIGCONT \<or> p_stat x \<noteq> SSTOP)))"
proof -
  let ?ni = "if NZERO < p_nice x \<and> psignal_action sig x = A_DFL \<and> SA_KILL \<in> sigprop sig \<and> P_TRACED \<notin> p_flag x
    then 0 else p_nice x"
  let ?e = "psignal_action sig x = A_HOLD \<and> (sig \<noteq> SIGCONT \<or> p_stat x \<noteq> SSTOP)"
  consider (ign) "P_TRACED \<notin> p_flag x \<and> sig \<in> p_sigignore x"
    | (orphan) "\<not> (P_TRACED \<notin> p_flag x \<and> sig \<in> p_sigignore x)"
      "SA_STOP \<in> sigprop sig \<and> SA_TTYSTOP \<in> sigprop sig \<and> p_pptr x = Some 1 \<and> psignal_action sig x = A_DFL"
    | (post) "\<not> (P_TRACED \<notin> p_flag x \<and> sig \<in> p_sigignore x)"
      "\<not> (SA_STOP \<in> sigprop sig \<and> SA_TTYSTOP \<in> sigprop sig \<and> p_pptr x = Some 1 \<and> psignal_action sig x = A_DFL)"
    by blast
  then show ?thesis
  proof cases
    case ign
    then have "psignal_post sig x = (True, x\<lparr>p_sig := p_sig x, p_nice := p_nice x\<rparr>)"
      by (simp add: psignal_post_def Let_def)
    then show ?thesis using ign by (intro exI conjI) (assumption, simp_all)
  next
    case orphan
    have ncont: "SA_CONT \<notin> sigprop sig" using orphan(2) by (auto simp: sigprop_stop sigprop_cont stopsigmask_def)
    have "psignal_post sig x = (True, x\<lparr>p_sig := p_sig x, p_nice := ?ni\<rparr>)"
      using orphan ncont unfolding psignal_post_def Let_def if_not_P [OF orphan(1)] by simp
    then show ?thesis using orphan by (intro exI conjI) (assumption, simp_all)
  next
    case post
    have "psignal_post sig x = (?e, x\<lparr>p_sig := posted sig (p_sig x), p_nice := ?ni\<rparr>)"
      using post(2) unfolding psignal_post_def Let_def if_not_P [OF post(1)]
      by (auto simp: posted_def sigprop_cont sigprop_stop contsigmask_def)
    then show ?thesis using post by (intro exI conjI) (assumption, auto)
  qed
qed

lemma psignal_postE:
  obtains early sg ni where "psignal_post sig x = (early, x\<lparr>p_sig := sg, p_nice := ni\<rparr>)"
    "ni = p_nice x \<or> ni = 0" "\<not> early \<longrightarrow> sg = posted sig (p_sig x)"
    "sg = p_sig x \<or> sg = posted sig (p_sig x)"
proof -
  from psignal_post_eq [of sig x] obtain early sg ni where post:
    "psignal_post sig x = (early, x\<lparr>p_sig := sg, p_nice := ni\<rparr>)" "ni = p_nice x \<or> ni = 0"
    and c: "if P_TRACED \<notin> p_flag x \<and> sig \<in> p_sigignore x
      then early \<and> sg = p_sig x \<and> ni = p_nice x
      else if SA_STOP \<in> sigprop sig \<and> SA_TTYSTOP \<in> sigprop sig \<and> p_pptr x = Some 1 \<and> psignal_action sig x = A_DFL
      then early \<and> sg = p_sig x
      else sg = posted sig (p_sig x) \<and>
        (early \<longleftrightarrow> psignal_action sig x = A_HOLD \<and> (sig \<noteq> SIGCONT \<or> p_stat x \<noteq> SSTOP))"
    by (elim exE conjE)
  from c have "\<not> early \<longrightarrow> sg = posted sig (p_sig x)" "sg = p_sig x \<or> sg = posted sig (p_sig x)"
    by (metis (full_types))+
  then show thesis by (rule that [OF post])
qed

section \<open>Running the process\<close>

text \<open>The processes that \<open>s'\<close> may have changed are \<open>P\<close> and those that waited on a channel in \<open>C\<close>.\<close>

definition only :: "nat set \<Rightarrow> nat set \<Rightarrow> ks \<Rightarrow> ks \<Rightarrow> bool" where
  "only P C s s' \<longleftrightarrow> (\<forall>q. q \<notin> P \<longrightarrow> procs s' q = procs s q \<or>
     p_wchan (procs s q) \<in> C \<and> woken (procs s q) (procs s' q))"

lemma only_refl [simp]: "only P C s s"
  by (simp add: only_def)

lemma only_trans: "only P C s s' \<Longrightarrow> only P C s' s'' \<Longrightarrow> 0 \<notin> C \<Longrightarrow> only P C s s''"
  unfolding only_def woken_def by (metis (full_types))

lemma only_mono: "only P C s s' \<Longrightarrow> P \<subseteq> P' \<Longrightarrow> C \<subseteq> C' \<Longrightarrow> only P' C' s s'"
  unfolding only_def by blast

lemma wk_only: "wk C s s' \<Longrightarrow> only P C s s'"
  by (simp add: wk_def only_def)

lemma only_sig: "only P C s s' \<Longrightarrow> q \<notin> P \<Longrightarrow> p_sig (procs s' q) = p_sig (procs s q)"
  unfolding only_def woken_def using wake_core_sig [of "procs s' q" "procs s q"] by metis

lemma upd_proc_only: "p \<in> P \<Longrightarrow> only P C s (upd_proc p f s)"
  by (auto simp: only_def)

lemma psignal_run_spec:
  assumes "sched_inv r s" "p < NPROC" "p_stat (procs s p) \<in> {SSLEEP, SSTOP}"
  shows "\<exists>s'. psignal_run p s = Ret s' \<and> sched_inv r s' \<and> sig_frame s s' \<and> only {p} {a_runout (addrs s)} s s' \<and>
    p_stat (procs s' p) = SRUN \<and> p_sig (procs s' p) = p_sig (procs s p)"
proof -
  let ?s = "if PUSER < p_pri (procs s p) then upd_proc p (p_pri_update (\<lambda>_. PUSER)) s else s"
  have eq: "?s = upd_proc p (\<lambda>x. if PUSER < p_pri (procs s p) then x\<lparr>p_pri := PUSER\<rparr> else x) s"
    by (rule if_upd_proc)
  have inv: "sched_inv r ?s"
    unfolding eq by (rule upd_proc_inv [OF assms(1)]) (simp_all add: proc_ok_def)
  have fr: "sig_frame s ?s"
    unfolding eq by (rule upd_proc_sig_frame) (simp_all add: sig_core_def)
  have ad: "addrs ?s = addrs s" and sg: "p_sig (procs ?s p) = p_sig (procs s p)"
    and st: "p_stat (procs ?s p) = p_stat (procs s p)" by simp_all
  have on: "only {p} {a_runout (addrs s)} s ?s" unfolding eq by (rule upd_proc_only) simp
  obtain s1 s' where s': "setrun p ?s = Ret s'" "ran p ?s s1" "sched_inv r s1" "sched_inv r s'"
    "wk {a_runout (addrs s)} s1 s'"
    using setrun_spec [OF inv assms(2)] assms(3) st unfolding ad by auto
  have a0: "a_runout (addrs s) \<noteq> 0" by (rule sched_invD(9) [OF assms(1)])
  note pr = setrun_procs [OF s'(2), unfolded ad, OF s'(5) a0]
  have "p_sig (procs s' p) = p_sig (procs s p)"
    using pr(4) sg by (cases "procs s' p"; cases "procs ?s p") (simp add: wake_core_def)
  moreover have "only {p} {a_runout (addrs s)} ?s s1" using s'(2) by (simp add: only_def ran_def)
  then have "only {p} {a_runout (addrs s)} s s'"
    using only_trans [OF on] only_trans [OF _ wk_only [OF s'(5)], of "{p}" ?s] a0 by simp
  moreover have "sig_frame s s'"
    using sig_frame_trans [OF fr sig_frame_trans [OF ran_sig_frame [OF s'(2)] wk_sig_frame [OF s'(5)]]] .
  ultimately show ?thesis using s'(1,4) pr(1) by (auto simp: psignal_run_def)
qed

lemma sig_off_spec:
  assumes "sched_inv r s"
  shows "sched_inv r (sig_off m p s)" "sig_frame s (sig_off m p s)" "only {p} C s (sig_off m p s)"
    "p_stat (procs (sig_off m p s) q) = p_stat (procs s q)" "addrs (sig_off m p s) = addrs s"
    "p_wchan (procs (sig_off m p s) q) = p_wchan (procs s q)" "p_flag (procs (sig_off m p s) q) = p_flag (procs s q)"
    "p_sig (procs (sig_off m p s) p) = p_sig (procs s p) - m" "p_pptr (procs (sig_off m p s) q) = p_pptr (procs s q)"
  unfolding sig_off_def
  by (auto intro!: upd_proc_inv [OF assms] upd_proc_sig_frame upd_proc_only simp: proc_ok_def sig_core_def)

text \<open>A stopped process: the outcome for each kind of signal.\<close>

lemma psignal_stopped_spec:
  assumes "sched_inv r s" "p < NPROC" "p_stat (procs s p) = SSTOP"
  shows "\<exists>s'. psignal_stopped p sig action s = Ret s' \<and> sched_inv r s' \<and> sig_frame s s' \<and>
    only {p} {a_runout (addrs s)} s s' \<and> p_sig (procs s' p) \<subseteq> p_sig (procs s p) \<and>
    p_sig (procs s p) - {sig} \<subseteq> p_sig (procs s' p) \<and>
    (P_TRACED \<notin> p_flag (procs s p) \<longrightarrow>
      (sig = SIGKILL \<longrightarrow> p_stat (procs s' p) = SRUN \<and> p_sig (procs s' p) = p_sig (procs s p)) \<and>
      (sig = SIGCONT \<longrightarrow> p_stat (procs s' p) = SRUN \<or> p_stat (procs s' p) = SSLEEP) \<and>
      (sig \<noteq> SIGKILL \<and> sig \<noteq> SIGCONT \<longrightarrow> p_stat (procs s' p) = SSTOP))"
proof -
  note run = psignal_run_spec [OF assms(1,2)] and inv = sched_invD [OF assms(1)]
  consider (traced) "P_TRACED \<in> p_flag (procs s p)" | (kill) "P_TRACED \<notin> p_flag (procs s p)" "sig = SIGKILL"
    | (cont) "P_TRACED \<notin> p_flag (procs s p)" "sig = SIGCONT"
    | (stop) "P_TRACED \<notin> p_flag (procs s p)" "sig \<in> stopsigmask" "sig \<noteq> SIGKILL" "sig \<noteq> SIGCONT"
    | (other) "P_TRACED \<notin> p_flag (procs s p)" "sig \<notin> stopsigmask" "sig \<noteq> SIGKILL" "sig \<noteq> SIGCONT"
    by blast
  then show ?thesis
  proof cases
    case traced
    then show ?thesis using assms by (simp add: psignal_stopped_def)
  next
    case kill
    then show ?thesis using run assms(3) by (auto simp: psignal_stopped_def)
  next
    case cont
    let ?s = "if action = A_DFL then sig_off {sig} p s else s"
    have s: "sched_inv r ?s" "sig_frame s ?s" "only {p} {a_runout (addrs s)} s ?s" "p_stat (procs ?s p) = SSTOP"
      "addrs ?s = addrs s" "p_wchan (procs ?s p) = p_wchan (procs s p)"
      "p_sig (procs ?s p) = (if action = A_DFL then p_sig (procs s p) - {sig} else p_sig (procs s p))"
      using sig_off_spec [OF assms(1), where m = "{sig}" and p = p] assms by simp_all
    show ?thesis
    proof (cases "action = A_CATCH \<or> p_wchan (procs s p) = 0")
      case True
      then have "psignal_stopped p sig action s = psignal_run p ?s"
        using cont s(6) by (auto simp: psignal_stopped_def Let_def)
      moreover obtain s' where s': "psignal_run p ?s = Ret s'" "sched_inv r s'" "sig_frame ?s s'"
        "only {p} {a_runout (addrs s)} ?s s'" "p_stat (procs s' p) = SRUN" "p_sig (procs s' p) = p_sig (procs ?s p)"
        using psignal_run_spec [OF s(1) assms(2)] s(4) unfolding s(5) by auto
      ultimately show ?thesis
        using cont s(7) sig_frame_trans [OF s(2) s'(3)] only_trans [OF s(3) s'(4)] inv(9) by auto
    next
      case False
      let ?t = "upd_proc p (p_stat_update (\<lambda>_. SSLEEP)) ?s"
      have ret: "psignal_stopped p sig action s = Ret ?t"
        using cont s(6) False by (auto simp: psignal_stopped_def Let_def)
      have "queues_ok ?t" using s(1) by (simp add: sched_inv_def queues_ok_def upd_proc_def)
      then have "sched_inv r ?t"
        using sched_invD [OF s(1)] s(4,6) False
        by (intro sched_invI) (auto simp: proc_ok_def split: if_splits)
      moreover have "sig_frame s ?t"
        by (rule sig_frame_trans [OF s(2) upd_proc_sig_frame]) (simp_all add: sig_core_def)
      moreover have "only {p} {a_runout (addrs s)} s ?t"
        using only_trans [OF s(3) upd_proc_only] inv(9) by simp
      ultimately show ?thesis using ret cont s(7) by (auto split: if_splits)
    qed
  next
    case stop
    then have "psignal_stopped p sig action s = Ret (sig_off {sig} p s)"
      by (simp add: psignal_stopped_def sigprop_cont sigprop_stop)
    then show ?thesis using stop sig_off_spec [OF assms(1), where m = "{sig}" and p = p] assms(3) by auto
  next
    case other
    show ?thesis
    proof (cases "p_wchan (procs s p) \<noteq> 0 \<and> P_SINTR \<in> p_flag (procs s p)")
      case True
      obtain s' where s': "unsleep p s = Ret s'" "sched_inv r s'"
        "procs s' = (procs s)(p := (procs s p)\<lparr>p_wchan := 0\<rparr>)" "same_rest s s'"
        using unsleep_stopped [OF assms(1,2)] assms(3) by auto
      have "psignal_stopped p sig action s = Ret s'"
        using other True s'(1) by (simp add: psignal_stopped_def sigprop_cont sigprop_stop)
      then show ?thesis using other s'(2-4) assms(3) by (auto simp: sig_frame_def only_def sig_core_def)
    next
      case False
      then have "psignal_stopped p sig action s = Ret s"
        using other by (auto simp: psignal_stopped_def sigprop_cont sigprop_stop)
      then show ?thesis using other assms by auto
    qed
  qed
qed

section \<open>Stopping a sleeping process\<close>

lemma stop_spec:
  assumes "sched_inv r s" "p_stat (procs s p) = SSLEEP \<or> p_stat (procs s p) = SSTOP" "pptr_chan s p \<noteq> 0"
  shows "\<exists>s'. stop p s = Ret s' \<and> sched_inv r s' \<and> sig_frame s s' \<and>
    only {p} {pptr_chan s p, a_runout (addrs s)} s s' \<and> p_stat (procs s' p) = SSTOP \<and>
    p_sig (procs s' p) = p_sig (procs s p) \<and>
    (\<forall>q<NPROC. p_wchan (procs s' q) \<noteq> pptr_chan s p)"
proof -
  let ?s = "upd_proc p (\<lambda>x. x\<lparr>p_stat := SSTOP, p_flag := p_flag x - {P_WAITED}\<rparr>) s"
  have ch: "pptr_chan ?s p = pptr_chan s p" "addrs ?s = addrs s" by (simp_all add: pptr_chan_def split: option.split)
  have fr: "sig_frame s ?s" by (rule upd_proc_sig_frame) (simp_all add: sig_core_def)
  have a0: "a_runout (addrs s) \<noteq> 0" by (rule sched_invD(9) [OF assms(1)])
  have "queues_ok ?s" using assms(1) by (simp add: sched_inv_def queues_ok_def upd_proc_def)
  then have inv: "sched_inv r ?s"
    using sched_invD [OF assms(1)] assms(2)
    by (intro sched_invI) (auto simp: proc_ok_def split: if_splits)
  obtain s' where s': "wakeup (pptr_chan s p) ?s = Ret s'" "sched_inv r s'"
    "wk (if runout ?s then {pptr_chan s p, a_runout (addrs ?s)} else {pptr_chan s p}) ?s s'"
    "\<forall>q<NPROC. p_wchan (procs s' q) \<noteq> pptr_chan s p"
    using wakeup_spec [OF inv assms(3)] by blast
  have wk: "wk {pptr_chan s p, a_runout (addrs s)} ?s s'"
    by (rule wk_mono [OF s'(3)]) (simp add: ch)
  have st: "p_stat (procs s' p) = SSTOP \<and> p_sig (procs s' p) = p_sig (procs s p)"
    using wkD [OF wk, of p] wake_core_sig [of "procs s' p" "procs ?s p"] by (auto simp: woken_def)
  have "only {p} {pptr_chan s p, a_runout (addrs s)} s s'"
    by (rule only_trans [OF upd_proc_only wk_only [OF wk]]) (use a0 assms(3) in auto)
  moreover have "sig_frame s s'" by (rule sig_frame_trans [OF fr wk_sig_frame [OF wk]])
  moreover have "stop p s = Ret s'" using s'(1) by (simp add: stop_def Let_def ch)
  ultimately show ?thesis using s'(2,4) st by blast
qed

lemma psignal_sleep_other:
  assumes "sched_inv r s" "p < NPROC" "p_stat (procs s p) = SSLEEP"
    "sig \<notin> stopsigmask \<or> action \<noteq> A_DFL \<or> P_SINTR \<notin> p_flag (procs s p) \<or> P_TRACED \<in> p_flag (procs s p) \<or>
      SVFORK \<in> p_flag (procs s p)"
  shows "\<exists>s'. psignal_sleep psig p sig action s = Ret s' \<and> sched_inv r s' \<and> sig_frame s s' \<and>
    only {p} {a_runout (addrs s)} s s' \<and> p_sig (procs s' p) \<subseteq> p_sig (procs s p) \<and>
    p_sig (procs s p) - {sig} \<subseteq> p_sig (procs s' p) \<and>
    (P_SINTR \<in> p_flag (procs s p) \<and> sig \<noteq> SIGCONT \<and> sig \<notin> stopsigmask \<longrightarrow>
      p_stat (procs s' p) = SRUN \<and> p_sig (procs s' p) = p_sig (procs s p)) \<and>
    (P_SINTR \<notin> p_flag (procs s p) \<longrightarrow> s' = s)"
proof -
  obtain s' where s': "psignal_run p s = Ret s'" "sched_inv r s'" "sig_frame s s'"
    "only {p} {a_runout (addrs s)} s s'" "p_stat (procs s' p) = SRUN" "p_sig (procs s' p) = p_sig (procs s p)"
    using psignal_run_spec [OF assms(1,2)] assms(3) by auto
  have "P_SINTR \<in> p_flag (procs s p) \<and> psignal_sleep psig p sig action s = Ret s' \<or>
      P_SINTR \<in> p_flag (procs s p) \<and> sig = SIGCONT \<and> psignal_sleep psig p sig action s = Ret (sig_off {sig} p s) \<or>
      (P_SINTR \<notin> p_flag (procs s p) \<or> sig \<in> stopsigmask) \<and> psignal_sleep psig p sig action s = Ret s"
    using assms(4) s'(1) unfolding psignal_sleep_def sigprop_cont sigprop_stop by auto
  then consider (run) "P_SINTR \<in> p_flag (procs s p)" "psignal_sleep psig p sig action s = Ret s'"
    | (cont) "P_SINTR \<in> p_flag (procs s p)" "sig = SIGCONT" "psignal_sleep psig p sig action s = Ret (sig_off {sig} p s)"
    | (same) "P_SINTR \<notin> p_flag (procs s p) \<or> sig \<in> stopsigmask" "psignal_sleep psig p sig action s = Ret s"
    by blast
  then show ?thesis
  proof cases
    case run
    then show ?thesis using s' by auto
  next
    case cont
    then show ?thesis using sig_off_spec [OF assms(1), where m = "{sig}" and p = p] by auto
  next
    case same
    then show ?thesis using assms by auto
  qed
qed

text \<open>What a signal needs of its target before it may stop it in its sleep.\<close>

definition parent_ok :: "ks \<Rightarrow> nat \<Rightarrow> nat \<Rightarrow> bool" where
  "parent_ok s p pp \<longleftrightarrow> p_pptr (procs s p) = Some pp \<and> pp < NPROC \<and> pp \<noteq> p \<and> a_proc (addrs s) pp \<noteq> 0 \<and>
     (P_SINTR \<in> p_flag (procs s p) \<longrightarrow> p_wchan (procs s p) \<noteq> a_runout (addrs s))"

section \<open>\<open>psignal\<close>\<close>

lemma posted_state:
  fixes s :: ks and sg :: "nat set"
  assumes "sched_inv r s" "ni = p_nice (procs s p) \<or> ni = 0"
  defines "s' \<equiv> upd_proc p (\<lambda>_. (procs s p)\<lparr>p_sig := sg, p_nice := ni\<rparr>) s"
  shows "sched_inv r s'" "sig_frame s s'" "only {p} C s s'" "addrs s' = addrs s"
    "p_stat (procs s' q) = p_stat (procs s q)" "p_flag (procs s' q) = p_flag (procs s q)"
    "p_wchan (procs s' q) = p_wchan (procs s q)" "p_sig (procs s' p) = sg" "p_pptr (procs s' q) = p_pptr (procs s q)"
  unfolding s'_def using assms(2)
  by (auto intro!: upd_proc_inv [OF assms(1)] upd_proc_sig_frame upd_proc_only simp: proc_ok_def sig_core_def)

text \<open>The pending signals after \<open>psignal\<close>, in terms of those before.\<close>

definition pend_ok :: "nat \<Rightarrow> nat set \<Rightarrow> nat set \<Rightarrow> bool" where
  "pend_ok sig m m' \<longleftrightarrow> m' = m \<or> m' \<subseteq> posted sig m \<and> posted sig m - {sig} \<subseteq> m'"

lemma psignal_body_nostop:
  assumes "sched_inv r s" "p < NPROC"
    "sig \<notin> stopsigmask \<or> p_stat (procs s p) \<noteq> SSLEEP \<or> psignal_action sig (procs s p) \<noteq> A_DFL \<or>
     P_SINTR \<notin> p_flag (procs s p) \<or> P_TRACED \<in> p_flag (procs s p) \<or> SVFORK \<in> p_flag (procs s p)"
  shows "\<exists>s'. psignal_body psig p sig s = Ret s' \<and> sched_inv r s' \<and> sig_frame s s' \<and>
    only {p} {a_runout (addrs s)} s s' \<and> pend_ok sig (p_sig (procs s p)) (p_sig (procs s' p))"
proof -
  obtain early sg ni where post: "psignal_post sig (procs s p) = (early, (procs s p)\<lparr>p_sig := sg, p_nice := ni\<rparr>)"
    "ni = p_nice (procs s p) \<or> ni = 0" "\<not> early \<longrightarrow> sg = posted sig (p_sig (procs s p))"
    "sg = p_sig (procs s p) \<or> sg = posted sig (p_sig (procs s p))"
    by (rule psignal_postE)
  let ?s = "upd_proc p (\<lambda>_. (procs s p)\<lparr>p_sig := sg, p_nice := ni\<rparr>) s"
  let ?a = "psignal_action sig (procs s p)"
  note ps = posted_state [OF assms(1) post(2), where sg = sg]
  have body: "psignal_body psig p sig s = (if early then Ret ?s
      else case p_stat (procs s p) of SSLEEP \<Rightarrow> psignal_sleep psig p sig ?a ?s
        | SSTOP \<Rightarrow> psignal_stopped p sig ?a ?s | _ \<Rightarrow> Ret ?s)"
    unfolding psignal_body_def Let_def post(1) fst_conv snd_conv by simp
  have rest: ?thesis if "psignal_body psig p sig s = Ret ?s"
    using that ps(1-3,8) post(4) by (auto simp: pend_ok_def posted_def)
  have combine: ?thesis if "psignal_body psig p sig s = Ret s'" "sched_inv r s'" "sig_frame ?s s'"
    "only {p} {a_runout (addrs s)} ?s s'" "p_sig (procs s' p) \<subseteq> sg" "sg - {sig} \<subseteq> p_sig (procs s' p)" "\<not> early" for s'
    using that post(3) sig_frame_trans [OF ps(2) that(3)] only_trans [OF ps(3) that(4)] sched_invD(9) [OF assms(1)]
    by (auto simp: pend_ok_def)
  consider "early" | "\<not> early" "p_stat (procs s p) = SSLEEP" | "\<not> early" "p_stat (procs s p) = SSTOP"
    | "\<not> early" "p_stat (procs s p) \<noteq> SSLEEP" "p_stat (procs s p) \<noteq> SSTOP" by blast
  then show ?thesis
  proof cases
    case 1
    then show ?thesis using rest body by simp
  next
    case 2
    have "sig \<notin> stopsigmask \<or> ?a \<noteq> A_DFL \<or> P_SINTR \<notin> p_flag (procs ?s p) \<or> P_TRACED \<in> p_flag (procs ?s p) \<or>
      SVFORK \<in> p_flag (procs ?s p)" using assms(3) 2(2) ps(6) by simp
    from psignal_sleep_other [OF ps(1) assms(2) _ this, of psig] 2(2) obtain s' where
      "psignal_sleep psig p sig ?a ?s = Ret s'" "sched_inv r s'" "sig_frame ?s s'"
      "only {p} {a_runout (addrs s)} ?s s'" "p_sig (procs s' p) \<subseteq> sg" "sg - {sig} \<subseteq> p_sig (procs s' p)"
      unfolding ps(4,5,8) by blast
    then show ?thesis using combine [of s'] body 2 by simp
  next
    case 3
    from psignal_stopped_spec [OF ps(1) assms(2), of sig ?a] 3(2) obtain s' where
      "psignal_stopped p sig ?a ?s = Ret s'" "sched_inv r s'" "sig_frame ?s s'"
      "only {p} {a_runout (addrs s)} ?s s'" "p_sig (procs s' p) \<subseteq> sg" "sg - {sig} \<subseteq> p_sig (procs s' p)"
      unfolding ps(4,5,8) by blast
    then show ?thesis using combine [of s'] body 3 by simp
  next
    case 4
    then have "psignal_body psig p sig s = Ret ?s" unfolding body by (cases "p_stat (procs s p)") auto
    then show ?thesis by (rule rest)
  qed
qed

lemma sigchld_spec:
  assumes "sched_inv r s" "pp < NPROC"
  shows "\<exists>s'. psignal_n 1 pp SIGCHLD s = Ret s' \<and> sched_inv r s' \<and> sig_frame s s' \<and>
    only {pp} {a_runout (addrs s)} s s' \<and> p_sig (procs s' pp) \<subseteq> insert SIGCHLD (p_sig (procs s pp))"
proof -
  have "(20 :: nat) \<notin> stopsigmask" by (simp add: stopsigmask_def)
  then have "\<exists>s'. psignal_body (psignal_n 0) pp 20 s = Ret s' \<and> sched_inv r s' \<and> sig_frame s s' \<and>
    only {pp} {a_runout (addrs s)} s s' \<and> pend_ok 20 (p_sig (procs s pp)) (p_sig (procs s' pp))"
    by (intro psignal_body_nostop [OF assms]) simp
  then show ?thesis by (auto simp: pend_ok_def posted_def stopsigmask_def)
qed

text \<open>The stop of a process in its interruptible sleep, from the point where the signal is pending.\<close>

lemma psignal_sleep_stop:
  assumes "sched_inv r s" "p < NPROC" "p_stat (procs s p) = SSLEEP" "sig \<in> stopsigmask"
    "P_SINTR \<in> p_flag (procs s p)" "P_TRACED \<notin> p_flag (procs s p)" "SVFORK \<notin> p_flag (procs s p)"
    and par: "p_pptr (procs s p) = Some pp" "pp < NPROC" "pp \<noteq> p" "a_proc (addrs s) pp \<noteq> 0"
      "p_wchan (procs s p) \<noteq> a_runout (addrs s)"
  shows "\<exists>s'. psignal_sleep (psignal_n 1) p sig A_DFL s = Ret s' \<and> sched_inv r s' \<and> sig_frame s s' \<and>
    only {p, pp} {a_runout (addrs s), a_proc (addrs s) pp} s s' \<and>
    p_stat (procs s' p) = SSTOP \<and> p_sig (procs s' p) = p_sig (procs s p) - {sig} \<and>
    p_sig (procs s' pp) \<subseteq> insert SIGCHLD (p_sig (procs s pp))"
proof -
  let ?C = "{a_runout (addrs s), a_proc (addrs s) pp}"
  let ?s = "upd_proc p (p_ptracesig_update (\<lambda>_. sig)) (sig_off {sig} p s)"
  have C0: "0 \<notin> ?C" using sched_invD(9) [OF assms(1)] par(4) by auto
  have eq: "?s = upd_proc p (\<lambda>x. x\<lparr>p_sig := p_sig x - {sig}, p_ptracesig := sig\<rparr>) s"
    by (cases "procs s p") (simp add: sig_off_def upd_proc_def)
  have s: "sched_inv r ?s" "sig_frame s ?s" "only {p, pp} ?C s ?s" "addrs ?s = addrs s"
    "procs ?s p = (procs s p)\<lparr>p_sig := p_sig (procs s p) - {sig}, p_ptracesig := sig\<rparr>"
    unfolding eq
    by (auto intro!: upd_proc_inv [OF assms(1)] upd_proc_sig_frame upd_proc_only simp: proc_ok_def sig_core_def)
  obtain s2 where s2: "(if P_NOCLDSTOP \<notin> p_flag (procs ?s pp) then psignal_n 1 pp SIGCHLD ?s else Ret ?s) = Ret s2"
    "sched_inv r s2" "sig_frame ?s s2" "only {pp} {a_runout (addrs s)} ?s s2"
    "p_sig (procs s2 pp) \<subseteq> insert SIGCHLD (p_sig (procs ?s pp))"
    using sigchld_spec [OF s(1) par(2)] s(1) unfolding s(4) by (cases "P_NOCLDSTOP \<in> p_flag (procs ?s pp)") auto
  have "procs s2 p = procs ?s p" using s2(4) par(3,5) s(5) by (auto simp: only_def)
  then have p2: "procs s2 p = (procs s p)\<lparr>p_sig := p_sig (procs s p) - {sig}, p_ptracesig := sig\<rparr>"
    unfolding s(5) .
  have a2: "addrs s2 = addrs s" using s2(3) s(4) by (simp add: sig_frame_def same_rest_def)
  have ch: "pptr_chan s2 p = a_proc (addrs s) pp" by (simp add: pptr_chan_def p2 par(1) a2)
  obtain s3 where s3: "stop p s2 = Ret s3" "sched_inv r s3" "sig_frame s2 s3"
    "only {p} {a_proc (addrs s) pp, a_runout (addrs s)} s2 s3"
    "p_stat (procs s3 p) = SSTOP" "p_sig (procs s3 p) = p_sig (procs s2 p)"
    using stop_spec [OF s2(2), of p] unfolding ch a2 using p2 assms(3) par(4) by auto
  have ncont: "sig \<noteq> SIGCONT" using assms(4) by (auto simp: stopsigmask_def)
  have pp: "p_pptr (procs ?s p) = Some pp" unfolding s(5) using par(1) by simp
  have "psignal_sleep (psignal_n 1) p sig A_DFL s = (case p_pptr (procs ?s p) of None \<Rightarrow> Fault
      | Some pp \<Rightarrow> bind_outcome (if P_NOCLDSTOP \<notin> p_flag (procs ?s pp) then psignal_n 1 pp SIGCHLD ?s else Ret ?s)
          (stop p))"
    using assms(4-7) ncont by (simp only: psignal_sleep_def Let_def sigprop_stop sigprop_cont simp_thms if_True if_False)
  then have "psignal_sleep (psignal_n 1) p sig A_DFL s = stop p s2"
    unfolding pp option.case s2(1) bind_outcome.simps .
  moreover have "only {p, pp} ?C s s3"
    by (rule only_trans [OF s(3) only_trans [OF only_mono [OF s2(4)] only_mono [OF s3(4)] C0] C0]) auto
  moreover have "sig_frame s s3" using sig_frame_trans [OF s(2) sig_frame_trans [OF s2(3) s3(3)]] .
  moreover have "p_sig (procs s3 pp) \<subseteq> insert SIGCHLD (p_sig (procs s pp))"
    using only_sig [OF s3(4), of pp] s2(5) par(3) unfolding eq by auto
  ultimately show ?thesis using s3(1,2,5,6) p2 by (intro exI [of _ s3] conjI) simp_all
qed

lemma psignal_unfold: "psignal p sig s = psignal_body (psignal_n 1) p sig s"
  by (simp add: psignal_def numeral_2_eq_2)

text \<open>A stop signal that reaches its target in an interruptible sleep.\<close>

definition stops_sleeper :: "nat \<Rightarrow> proc \<Rightarrow> bool" where
  "stops_sleeper sig x \<longleftrightarrow> sig \<in> stopsigmask \<and> p_stat x = SSLEEP \<and> psignal_action sig x = A_DFL \<and>
     P_SINTR \<in> p_flag x \<and> P_TRACED \<notin> p_flag x \<and> SVFORK \<notin> p_flag x"

lemma psignal_stops:
  assumes "sched_inv r s" "p < NPROC" "parent_ok s p pp" "stops_sleeper sig (procs s p)"
  shows "\<exists>s'. psignal p sig s = Ret s' \<and> sched_inv r s' \<and> sig_frame s s' \<and>
    only {p, pp} {a_runout (addrs s), a_proc (addrs s) pp} s s' \<and> pend_ok sig (p_sig (procs s p)) (p_sig (procs s' p)) \<and>
    p_sig (procs s' pp) \<subseteq> insert SIGCHLD (p_sig (procs s pp)) \<and>
    (sig \<notin> p_sigignore (procs s p) \<and> (pp = 1 \<longrightarrow> SA_TTYSTOP \<notin> sigprop sig) \<longrightarrow>
      p_stat (procs s' p) = SSTOP \<and> p_sig (procs s' p) = posted sig (p_sig (procs s p)) - {sig})"
proof -
  let ?x = "procs s p" and ?C = "{a_runout (addrs s), a_proc (addrs s) pp}"
  obtain early sg ni where post: "psignal_post sig ?x = (early, ?x\<lparr>p_sig := sg, p_nice := ni\<rparr>)"
    "ni = p_nice ?x \<or> ni = 0"
    and c: "if P_TRACED \<notin> p_flag ?x \<and> sig \<in> p_sigignore ?x
      then early \<and> sg = p_sig ?x \<and> ni = p_nice ?x
      else if SA_STOP \<in> sigprop sig \<and> SA_TTYSTOP \<in> sigprop sig \<and> p_pptr ?x = Some 1 \<and> psignal_action sig ?x = A_DFL
      then early \<and> sg = p_sig ?x
      else sg = posted sig (p_sig ?x) \<and>
        (early \<longleftrightarrow> psignal_action sig ?x = A_HOLD \<and> (sig \<noteq> SIGCONT \<or> p_stat ?x \<noteq> SSTOP))"
    using psignal_post_eq [of sig ?x] by (elim exE conjE)
  let ?s = "upd_proc p (\<lambda>_. ?x\<lparr>p_sig := sg, p_nice := ni\<rparr>) s"
  note ps = posted_state [OF assms(1) post(2), where sg = sg]
  have st: "sig \<in> stopsigmask" "p_stat ?x = SSLEEP" "psignal_action sig ?x = A_DFL"
     "P_SINTR \<in> p_flag ?x" "P_TRACED \<notin> p_flag ?x" "SVFORK \<notin> p_flag ?x"
    using assms(4) by (simp_all add: stops_sleeper_def)
  have par: "p_pptr ?x = Some pp" "pp < NPROC" "pp \<noteq> p" "a_proc (addrs s) pp \<noteq> 0"
      "p_wchan ?x \<noteq> a_runout (addrs s)"
    using assms(3) st(4) by (simp_all add: parent_ok_def)
  have body: "psignal p sig s = (if early then Ret ?s else psignal_sleep (psignal_n 1) p sig A_DFL ?s)"
    unfolding psignal_unfold psignal_body_def Let_def post(1) fst_conv snd_conv st(3) using st(2) by simp
  have on: "only {p, pp} ?C s ?s" by (rule only_mono [OF ps(3) [where C = ?C]]) auto
  have early: "early \<longleftrightarrow> sig \<in> p_sigignore ?x \<or> pp = 1 \<and> SA_TTYSTOP \<in> sigprop sig"
    "early \<Longrightarrow> sg = p_sig ?x" "\<not> early \<Longrightarrow> sg = posted sig (p_sig ?x)"
    using c st(1,3,5) par(1) unfolding sigprop_stop by (auto split: if_splits)
  show ?thesis
  proof (cases early)
    case True
    then have "psignal p sig s = Ret ?s" using body by simp
    then show ?thesis using ps(1,2,8) on early True par(3) by (auto simp: pend_ok_def)
  next
    case False
    obtain s' where s': "psignal_sleep (psignal_n 1) p sig A_DFL ?s = Ret s'" "sched_inv r s'" "sig_frame ?s s'"
      "only {p, pp} ?C ?s s'" "p_stat (procs s' p) = SSTOP" "p_sig (procs s' p) = sg - {sig}"
      "p_sig (procs s' pp) \<subseteq> insert SIGCHLD (p_sig (procs ?s pp))"
      using psignal_sleep_stop [OF ps(1) assms(2), of sig pp] st par unfolding ps(4-9) by auto
    have "only {p, pp} ?C s s'"
      by (rule only_trans [OF on s'(4)]) (use sched_invD(9) [OF assms(1)] par(4) in auto)
    then show ?thesis
      using s' body False early(3) sig_frame_trans [OF ps(2) s'(3)] par(3) by (auto simp: pend_ok_def)
  qed
qed

lemma psignal_spec:
  assumes "sched_inv r s" "p < NPROC" "parent_ok s p pp"
  shows "\<exists>s'. psignal p sig s = Ret s' \<and> sched_inv r s' \<and> sig_frame s s' \<and>
    only {p, pp} {a_runout (addrs s), a_proc (addrs s) pp} s s' \<and> pend_ok sig (p_sig (procs s p)) (p_sig (procs s' p)) \<and>
    (\<forall>q. q \<noteq> p \<longrightarrow> p_sig (procs s' q) \<subseteq> insert SIGCHLD (p_sig (procs s q)))"
proof (cases "stops_sleeper sig (procs s p)")
  case True
  then obtain s' where s': "psignal p sig s = Ret s'" "sched_inv r s'" "sig_frame s s'"
    "only {p, pp} {a_runout (addrs s), a_proc (addrs s) pp} s s'" "pend_ok sig (p_sig (procs s p)) (p_sig (procs s' p))"
    "p_sig (procs s' pp) \<subseteq> insert SIGCHLD (p_sig (procs s pp))"
    using psignal_stops [OF assms True] by blast
  have "p_sig (procs s' q) \<subseteq> insert SIGCHLD (p_sig (procs s q))" if "q \<noteq> p" for q
    using only_sig [OF s'(4), of q] s'(6) that by (cases "q = pp") auto
  then show ?thesis using s' by blast
next
  case False
  obtain s' where s': "psignal_body (psignal_n 1) p sig s = Ret s'" "sched_inv r s'" "sig_frame s s'"
    "only {p} {a_runout (addrs s)} s s'" "pend_ok sig (p_sig (procs s p)) (p_sig (procs s' p))"
    using psignal_body_nostop [OF assms(1,2), of sig "psignal_n 1"] False
    by (auto simp: stops_sleeper_def)
  have "p_sig (procs s' q) \<subseteq> insert SIGCHLD (p_sig (procs s q))" if "q \<noteq> p" for q
    using only_sig [OF s'(4), of q] that by auto
  moreover have "only {p, pp} {a_runout (addrs s), a_proc (addrs s) pp} s s'" by (rule only_mono [OF s'(4)]) auto
  ultimately show ?thesis unfolding psignal_unfold using s' by blast
qed

end
