(* ===== verification/Sched_Spec.thy ===== *)
theory Sched_Spec
  imports Sched_Inv
begin

text \<open>
  The properties of the scheduler: what \<open>wakeup\<close>, \<open>setrun\<close>, \<open>endtsleep\<close> and \<open>swtch\<close> promise under the
  invariant \<open>sched_inv\<close> of the queues, and what two of the priority computations really do.
\<close>

section \<open>A small system\<close>

text \<open>
  Process 1 runs; 2 sleeps in core and 3 sleeps swapped out on the same channel, 4 is stopped on it,
  5 sleeps on another channel of the same queue, and the swapper 0 waits for work.
\<close>

definition demo_addrs :: addrs where
  "demo_addrs = \<lparr>a_lbolt = 1000, a_runin = 2000, a_runout = 3000, a_proc = (\<lambda>i. 4000 + 100 * i)\<rparr>"

definition demo_procs :: "nat \<Rightarrow> proc" where
  "demo_procs p =
     (if p = 0 then proc_zero\<lparr>p_stat := SSLEEP, p_flag := {SLOAD, SSYS}, p_wchan := 3000\<rparr>
      else if p = 1 then proc_zero\<lparr>p_stat := SRUN, p_flag := {SLOAD}, p_pid := 1, p_pri := 50\<rparr>
      else if p = 2 then proc_zero\<lparr>p_stat := SSLEEP, p_flag := {SLOAD}, p_pid := 2, p_wchan := 8192, p_slptime := 10, p_cpu := 100\<rparr>
      else if p = 3 then proc_zero\<lparr>p_stat := SSLEEP, p_flag := {}, p_pid := 3, p_wchan := 8192\<rparr>
      else if p = 4 then proc_zero\<lparr>p_stat := SSTOP, p_flag := {SLOAD}, p_pid := 4, p_wchan := 8192\<rparr>
      else if p = 5 then proc_zero\<lparr>p_stat := SSLEEP, p_flag := {SLOAD}, p_pid := 5, p_wchan := 8200\<rparr>
      else proc_zero)"

definition demo :: ks where
  "demo = (ks_zero demo_addrs)\<lparr>procs := demo_procs, runout := True, curpri := 50,
     slpque := (\<lambda>h. if h = 0 then [5, 4, 3, 2] else if h = HASH 3000 then [0] else [])\<rparr>"

lemma demo_inv: "sched_inv (Some 1) demo"
proof (rule sched_invI)
  show "queues_ok demo"
    by (auto simp: queues_ok_def demo_def ks_zero_def demo_procs_def proc_zero_def HASH_def)
qed (auto simp: demo_def ks_zero_def demo_procs_def proc_zero_def proc_ok_def demo_addrs_def split: if_splits)

section \<open>Waking\<close>

text \<open>
  C14. \<open>wakeup\<close> on a channel returns, and afterwards no process waits on the channel: every process
  that slept on it is runnable, on the run queue if it is in core, and has its sleep time reset;
  every process that was stopped on it stays stopped and waits on nothing. Apart from
  the swapper's channel, which is woken when a process that is swapped out becomes runnable,
  nobody else is touched, and the invariant of the queues holds again.
\<close>

theorem wakeup_correct:
  assumes "sched_inv r s" "chan \<noteq> 0"
  shows "\<exists>s'. wakeup chan s = Ret s' \<and> sched_inv r s' \<and>
    (\<forall>p<NPROC. p_wchan (procs s' p) \<noteq> chan) \<and>
    (\<forall>p<NPROC. p_wchan (procs s p) = chan \<longrightarrow> p_wchan (procs s' p) = 0 \<and> p_slptime (procs s' p) = 0 \<and>
       p_stat (procs s' p) = (if p_stat (procs s p) = SSLEEP then SRUN else SSTOP) \<and>
       (p \<in> set (qs s') \<longleftrightarrow> p_stat (procs s p) = SSLEEP \<and> SLOAD \<in> p_flag (procs s p))) \<and>
    (\<forall>p. p_wchan (procs s p) \<noteq> chan \<and> (runout s \<longrightarrow> p_wchan (procs s p) \<noteq> a_runout (addrs s)) \<longrightarrow>
       procs s' p = procs s p) \<and>
    same_rest s s'"
proof -
  let ?C = "if runout s then {chan, a_runout (addrs s)} else {chan}"
  obtain s' where s': "wakeup chan s = Ret s'" "sched_inv r s'" "wk ?C s s'"
    "\<forall>p<NPROC. p_wchan (procs s' p) \<noteq> chan"
    using wakeup_spec [OF assms] by blast
  have woke: "p_wchan (procs s' p) = 0 \<and> p_slptime (procs s' p) = 0 \<and>
       p_stat (procs s' p) = (if p_stat (procs s p) = SSLEEP then SRUN else SSTOP) \<and>
       (p \<in> set (qs s') \<longleftrightarrow> p_stat (procs s p) = SSLEEP \<and> SLOAD \<in> p_flag (procs s p))"
    if p: "p < NPROC" "p_wchan (procs s p) = chan" for p
  proof -
    have st: "p_stat (procs s p) = SSLEEP \<or> p_stat (procs s p) = SSTOP"
      using sched_invD(3) [OF assms(1) p(1)] p(2) assms(2) by blast
    have "procs s' p \<noteq> procs s p" using s'(4) p by auto
    then have w: "woken (procs s p) (procs s' p)" using wkD [OF s'(3), of p] by blast
    have fl: "p_flag (procs s' p) = p_flag (procs s p)" using w by (intro wake_core_flag) (simp add: woken_def)
    have "r \<noteq> Some p" using sched_invD(6) [OF assms(1), of p] st by auto
    then show ?thesis using w st fl sched_invD(5) [OF s'(2), of p] p(1) by (auto simp: woken_def)
  qed
  have other: "procs s' p = procs s p"
    if "p_wchan (procs s p) \<noteq> chan" "runout s \<longrightarrow> p_wchan (procs s p) \<noteq> a_runout (addrs s)" for p
    using wkD [OF s'(3), of p] that by (auto split: if_splits)
  have "same_rest s s'" using s'(3) by (simp add: wk_def)
  then show ?thesis using s'(1,2,4) woke other by blast
qed

theorem wakeup_correct_witness:
  "\<exists>s'. wakeup 8192 demo = Ret s' \<and> p_stat (procs s' 2) = SRUN \<and> 2 \<in> set (qs s') \<and>
     p_stat (procs s' 3) = SRUN \<and> 3 \<notin> set (qs s') \<and> p_stat (procs s' 4) = SSTOP \<and> procs s' 5 = procs demo 5"
proof -
  obtain s' where s': "wakeup 8192 demo = Ret s'"
    "\<forall>p<NPROC. p_wchan (procs demo p) = 8192 \<longrightarrow> p_wchan (procs s' p) = 0 \<and> p_slptime (procs s' p) = 0 \<and>
       p_stat (procs s' p) = (if p_stat (procs demo p) = SSLEEP then SRUN else SSTOP) \<and>
       (p \<in> set (qs s') \<longleftrightarrow> p_stat (procs demo p) = SSLEEP \<and> SLOAD \<in> p_flag (procs demo p))"
    "\<forall>p. p_wchan (procs demo p) \<noteq> 8192 \<and> (runout demo \<longrightarrow> p_wchan (procs demo p) \<noteq> a_runout (addrs demo)) \<longrightarrow>
       procs s' p = procs demo p"
    using wakeup_correct [OF demo_inv, of 8192] by auto
  have d: "procs demo 2 = demo_procs 2" "procs demo 3 = demo_procs 3" "procs demo 4 = demo_procs 4"
    "procs demo 5 = demo_procs 5" "addrs demo = demo_addrs"
    by (simp_all add: demo_def ks_zero_def)
  show ?thesis
    using s'(1) s'(2) [rule_format, of 2] s'(2) [rule_format, of 3] s'(2) [rule_format, of 4] s'(3) [rule_format, of 5]
    unfolding d by (simp add: demo_procs_def proc_zero_def demo_addrs_def)
qed

section \<open>Running and choosing\<close>

text \<open>
  C29. \<open>setrun\<close> makes a sleeping, stopped or new process runnable: it waits on nothing any more, it is on
  the run queue exactly when it is in core, nobody but the swapper is touched and the invariant
  holds; for a process in any other state it panics.
\<close>

theorem setrun_correct:
  assumes "sched_inv r s" "p < NPROC"
  shows "if p_stat (procs s p) \<in> {SSLEEP, SSTOP, SIDL}
    then \<exists>s'. setrun p s = Ret s' \<and> sched_inv r s' \<and> p_stat (procs s' p) = SRUN \<and> p_wchan (procs s' p) = 0 \<and>
      (p \<in> set (qs s') \<longleftrightarrow> SLOAD \<in> p_flag (procs s p)) \<and>
      (\<forall>q. q \<noteq> p \<and> p_wchan (procs s q) \<noteq> a_runout (addrs s) \<longrightarrow> procs s' q = procs s q) \<and> same_rest s s'
    else setrun p s = Panic ''setrun''"
proof (cases "p_stat (procs s p) \<in> {SSLEEP, SSTOP, SIDL}")
  case True
  obtain s1 s' where s': "setrun p s = Ret s'" "ran p s s1" "sched_inv r s'" "wk {a_runout (addrs s)} s1 s'"
    using setrun_spec [OF assms True] by blast
  note pr = setrun_procs [OF s'(2,4) sched_invD(9) [OF assms(1)]]
  have "r \<noteq> Some p" using sched_invD(6) [OF assms(1), of p] True by auto
  then have "p \<in> set (qs s') \<longleftrightarrow> SLOAD \<in> p_flag (procs s p)"
    using sched_invD(5) [OF s'(3), of p] pr(1,3) assms(2) by simp
  then show ?thesis using s'(1,3) pr(1,2,5) pr(6) unfolding if_P [OF True] by blast
next
  case False
  then show ?thesis by (cases "p_stat (procs s p)") (simp_all add: setrun_def)
qed

theorem setrun_correct_witness:
  "(\<exists>s'. setrun 4 demo = Ret s' \<and> p_stat (procs s' 4) = SRUN \<and> 4 \<in> set (qs s')) \<and> setrun 1 demo = Panic ''setrun''"
proof -
  have st: "p_stat (procs demo 4) = SSTOP" "p_stat (procs demo 1) = SRUN" "SLOAD \<in> p_flag (procs demo 4)"
    by (simp_all add: demo_def ks_zero_def demo_procs_def proc_zero_def)
  show ?thesis using setrun_correct [OF demo_inv, of 4] setrun_correct [OF demo_inv, of 1] st by auto
qed

text \<open>
  C28. When the idle process looks for work, \<open>swtch\<close> resumes a process that is in core and runnable and
  whose priority no other such process beats, takes it off the run queue and clears \<^verbatim>\<open>runrun\<close>; it
  idles only when there is none.
\<close>

theorem swtch_correct:
  assumes "sched_inv None s"
  shows "case swtch_select s of
      (Some (p, sw), s') \<Rightarrow> p \<in> set (qs s) \<and> p_stat (procs s p) = SRUN \<and> SLOAD \<in> p_flag (procs s p) \<and>
        (\<forall>q<NPROC. p_stat (procs s q) = SRUN \<and> SLOAD \<in> p_flag (procs s q) \<longrightarrow> p_pri (procs s p) \<le> p_pri (procs s q)) \<and>
        curpri s' = p_pri (procs s p) \<and> runrun s' = 0 \<and> (sw \<longleftrightarrow> SSWAP \<in> p_flag (procs s p)) \<and>
        SSWAP \<notin> p_flag (procs s' p) \<and> sched_inv (Some p) s'
    | (None, s') \<Rightarrow> (\<forall>q<NPROC. p_stat (procs s q) = SRUN \<longrightarrow> SLOAD \<notin> p_flag (procs s q)) \<and>
        noproc s' \<and> sched_inv None s'"
proof -
  note inv = sched_invD [OF assms]
  obtain pp n where scan: "swtch_scan (procs s) (qs s) None 128 = (pp, n)" by fastforce
  note sc = swtch_scan_spec [OF scan]
  show ?thesis
  proof (cases pp)
    case None
    have n: "n = 128" using sc None by auto
    have "SLOAD \<notin> p_flag (procs s q)" if "q < NPROC" "p_stat (procs s q) = SRUN" for q
    proof
      assume "SLOAD \<in> p_flag (procs s q)"
      then have "q \<in> set (qs s)" "n \<le> p_pri (procs s q)" using inv(5) [of q] that sc by auto
      then show False using n inv(7) [OF that(1)] by (simp add: proc_ok_def)
    qed
    moreover have "sched_inv None (s\<lparr>runrun := 0, noproc := True\<rparr>)"
      by (rule sched_inv_cong [OF assms]) (use inv(7) in simp_all)
    ultimately show ?thesis using scan None by (simp add: swtch_select_def Let_def)
  next
    case (Some p)
    have p: "p \<in> set (qs s)" "n = p_pri (procs s p)" "p < NPROC" "p_stat (procs s p) = SRUN" "SLOAD \<in> p_flag (procs s p)"
      using sc Some inv(5) [of p] by auto
    have pw: "p_wchan (procs s p) = 0" using inv(3) [OF p(3)] p(4) by auto
    have best: "p_pri (procs s p) \<le> p_pri (procs s q)"
      if "q < NPROC" "p_stat (procs s q) = SRUN" "SLOAD \<in> p_flag (procs s q)" for q
      using sc p(2) inv(5) [of q] that by auto
    let ?s = "upd_proc p (p_flag_update (\<lambda>f. f - {SSWAP})) (s\<lparr>noproc := False, runrun := 0, qs := remove1 p (qs s), curpri := n\<rparr>)"
    have "swtch_select s = (Some (p, SSWAP \<in> p_flag (procs s p)), ?s)"
      using scan Some by (simp add: swtch_select_def Let_def)
    moreover have "sched_inv (Some p) ?s"
    proof (rule sched_invI)
      show "queues_ok ?s"
        using assms by (simp add: sched_inv_def queues_ok_def upd_proc_def)
      fix q
      show "q \<in> set (qs ?s) \<longleftrightarrow> q < NPROC \<and> p_stat (procs ?s q) = SRUN \<and> SLOAD \<in> p_flag (procs ?s q) \<and> Some p \<noteq> Some q"
        using inv(5) [of q] inv(8) by (auto simp: set_remove1_eq)
      show "a_runout (addrs ?s) \<noteq> 0" using inv(9) by simp
    qed (use inv(3,4,7) p pw in \<open>auto simp: proc_ok_def split: if_splits\<close>)
    ultimately show ?thesis using p best by simp
  qed
qed

definition demo2 :: ks where
  "demo2 = demo\<lparr>procs := (procs demo)(1 := (procs demo 1)\<lparr>p_pri := 60\<rparr>, 4 := (procs demo 4)\<lparr>p_stat := SRUN, p_wchan := 0\<rparr>),
     slpque := (\<lambda>h. if h = 0 then [5, 3, 2] else if h = HASH 3000 then [0] else []), qs := [1, 4]\<rparr>"

lemma demo2_inv: "sched_inv None demo2"
proof (rule sched_invI)
  show "queues_ok demo2"
    by (auto simp: queues_ok_def demo2_def demo_def ks_zero_def demo_procs_def proc_zero_def HASH_def)
qed (auto simp: demo2_def demo_def ks_zero_def demo_procs_def proc_zero_def proc_ok_def demo_addrs_def split: if_splits)

theorem swtch_correct_witness:
  "\<exists>s'. swtch_select demo2 = (Some (4, False), s') \<and> qs s' = [1] \<and> sched_inv (Some 4) s'"
proof -
  obtain s' where "swtch_select demo2 = (Some (4, False), s')" "qs s' = [1]"
    by (simp add: swtch_select_def Let_def demo2_def demo_def ks_zero_def demo_procs_def proc_zero_def)
  then show ?thesis using swtch_correct [OF demo2_inv] by simp
qed

section \<open>Priorities\<close>

text \<open>
  C36. \<open>updatepri\<close> is meant to decay the processor usage of a process by \<^verbatim>\<open>SCHMAG\<close>, eight tenths,
  for every second it slept. Because the macro is unparenthesised the factor is computed as
  8/10 = 0: a process that slept two seconds keeps all of its usage, and one that slept longer has
  all of it forgotten, and its user priority follows from that.
\<close>

theorem updatepri_forgets:
  assumes "1 < p_slptime (procs s p)" "proc_ok (procs s p)"
  defines "s' \<equiv> updatepri p s"
  shows "p_cpu (procs s' p) = (if p_slptime (procs s p) = 2 then p_cpu (procs s p) else 0) \<and>
    p_pri (procs s' p) = (if p_slptime (procs s p) = 2 then usrpri (procs s p) else PUSER + p_nice (procs s p))"
proof -
  have t: "s8 (p_slptime (procs s p) - 1) = p_slptime (procs s p) - 1"
    "s8 (p_slptime (procs s p) - 1 - 1) = p_slptime (procs s p) - 2"
    using assms(1,2) by (auto simp: proc_ok_def s8_id)
  define r where "r = updatepri_loop (int (p_cpu (procs s p))) (p_slptime (procs s p) - 1)"
  define a where "a = (if fst r < 0 then 0 else if 255 < fst r then 255 else fst r)"
  have r: "fst r = (if p_slptime (procs s p) = 2 then int (p_cpu (procs s p)) else 0)"
    unfolding r_def updatepri_loop_eq t by auto
  then have a: "nat a = (if p_slptime (procs s p) = 2 then p_cpu (procs s p) else 0)"
    using assms(2) by (auto simp: a_def proc_ok_def)
  have s': "s' = setpri p (upd_proc p (\<lambda>x. x\<lparr>p_slptime := snd r, p_cpu := nat a\<rparr>) s)"
    by (simp add: s'_def updatepri_def Let_def t(1) r_def a_def)
  have "p_cpu (procs s' p) = nat a"
    by (simp add: s' setpri_def Let_def incr_runrun_def)
  moreover have "p_pri (procs s' p) = s8 (usrpri ((procs s p)\<lparr>p_cpu := nat a\<rparr>))"
    by (simp add: s' setpri_def Let_def incr_runrun_def usrpri_def)
  moreover have "usrpri ((procs s p)\<lparr>p_cpu := nat a\<rparr>) =
      (if p_slptime (procs s p) = 2 then usrpri (procs s p) else PUSER + p_nice (procs s p))"
    using assms(2) by (simp add: a usrpri_def Let_def proc_ok_def)
  moreover have "usrpri (procs s p) \<le> 127" "30 \<le> usrpri (procs s p)" using usrpri_bounds [OF assms(2)] by auto
  ultimately show ?thesis using a assms(2) by (auto simp: s8_id proc_ok_def)
qed

theorem updatepri_forgets_witness:
  "p_cpu (procs demo 2) = 100 \<and> p_slptime (procs demo 2) = 10 \<and> p_cpu (procs (updatepri 2 demo) 2) = 0"
proof -
  have "p_cpu (procs demo 2) = 100" "p_slptime (procs demo 2) = 10" "proc_ok (procs demo 2)"
    by (simp_all add: demo_def ks_zero_def demo_procs_def proc_zero_def proc_ok_def)
  then show ?thesis using updatepri_forgets [of demo 2] by simp
qed

end
