(* ===== verification/Signal_Spec.thy ===== *)
theory Signal_Spec
  imports Signal_Inv Sched_Spec
begin

text \<open>
  The properties of sending signals: \<open>psignal\<close> keeps the queues in order and touches only whom it
  should, a signal that kills is never slept through, stop and continue signals exclude each other,
  and \<open>kill\<close> does what it may and reports what it may not.
\<close>

section \<open>A signal that is not dropped\<close>

lemma psignal_deliver:
  assumes "P_TRACED \<in> p_flag (procs s p) \<or> sig \<notin> p_sigignore (procs s p)"
    "SA_STOP \<in> sigprop sig \<longrightarrow> p_pptr (procs s p) \<noteq> Some 1"
    "psignal_action sig (procs s p) = A_HOLD \<longrightarrow> sig = SIGCONT \<and> p_stat (procs s p) = SSTOP"
  obtains ni where "ni = p_nice (procs s p) \<or> ni = 0"
    "psignal p sig s = (let s' = upd_proc p (\<lambda>_. (procs s p)\<lparr>p_sig := posted sig (p_sig (procs s p)), p_nice := ni\<rparr>) s
      in case p_stat (procs s p) of
           SSLEEP \<Rightarrow> psignal_sleep (psignal_n 1) p sig (psignal_action sig (procs s p)) s'
         | SSTOP \<Rightarrow> psignal_stopped p sig (psignal_action sig (procs s p)) s'
         | _ \<Rightarrow> Ret s')"
proof -
  let ?x = "procs s p"
  obtain early sg ni where post: "psignal_post sig ?x = (early, ?x\<lparr>p_sig := sg, p_nice := ni\<rparr>)"
    "ni = p_nice ?x \<or> ni = 0"
    and c: "if P_TRACED \<notin> p_flag ?x \<and> sig \<in> p_sigignore ?x
      then early \<and> sg = p_sig ?x \<and> ni = p_nice ?x
      else if SA_STOP \<in> sigprop sig \<and> SA_TTYSTOP \<in> sigprop sig \<and> p_pptr ?x = Some 1 \<and> psignal_action sig ?x = A_DFL
      then early \<and> sg = p_sig ?x
      else sg = posted sig (p_sig ?x) \<and>
        (early \<longleftrightarrow> psignal_action sig ?x = A_HOLD \<and> (sig \<noteq> SIGCONT \<or> p_stat ?x \<noteq> SSTOP))"
    using psignal_post_eq [of sig ?x] by (elim exE conjE)
  have sg: "sg = posted sig (p_sig ?x)" and "\<not> early" using c assms by (auto split: if_splits)
  then have "psignal p sig s = (let s' = upd_proc p (\<lambda>_. ?x\<lparr>p_sig := posted sig (p_sig ?x), p_nice := ni\<rparr>) s
      in case p_stat ?x of
           SSLEEP \<Rightarrow> psignal_sleep (psignal_n 1) p sig (psignal_action sig ?x) s'
         | SSTOP \<Rightarrow> psignal_stopped p sig (psignal_action sig ?x) s'
         | _ \<Rightarrow> Ret s')"
    unfolding psignal_unfold psignal_body_def Let_def post(1) fst_conv snd_conv sg by simp
  then show thesis by (rule that [OF post(2)])
qed

section \<open>Safety\<close>

text \<open>
  C8. \<open>psignal\<close> returns: it neither panics, nor recurses for ever, nor follows a pointer that is not
  there. It keeps the invariant of the queues. It changes no process but its target, its target's
  parent and processes that slept on the parent's channel or on the swapper's, which are
  woken; and nothing of any process but its state, its pending signals, its niceness and the
  bookkeeping of priorities. The pending signals of its target change only by the signal and
  the signals it cancels, and those of every other process at most by \<^verbatim>\<open>SIGCHLD\<close>.
\<close>

theorem psignal_safe:
  assumes "sched_inv r s" "p < NPROC" "parent_ok s p pp"
  shows "\<exists>s'. psignal p sig s = Ret s' \<and> sched_inv r s' \<and> same_rest s s' \<and>
    (\<forall>q. sig_core (procs s' q) = sig_core (procs s q)) \<and>
    (\<forall>q. q \<noteq> p \<and> q \<noteq> pp \<longrightarrow> procs s' q = procs s q \<or>
      p_wchan (procs s q) \<in> {a_runout (addrs s), a_proc (addrs s) pp} \<and> woken (procs s q) (procs s' q)) \<and>
    (p_sig (procs s' p) = p_sig (procs s p) \<or>
      p_sig (procs s' p) \<subseteq> posted sig (p_sig (procs s p)) \<and> posted sig (p_sig (procs s p)) - {sig} \<subseteq> p_sig (procs s' p)) \<and>
    (\<forall>q. q \<noteq> p \<longrightarrow> p_sig (procs s' q) \<subseteq> insert SIGCHLD (p_sig (procs s q)))"
  using psignal_spec [OF assms, of sig] unfolding sig_frame_def only_def pend_ok_def by (elim exE conjE) (intro exI conjI; auto)

definition demo3 :: ks where
  "demo3 = demo\<lparr>procs := (procs demo)(2 := (procs demo 2)\<lparr>p_flag := {SLOAD, P_SINTR}, p_pptr := Some 1, p_sig := {19}\<rparr>,
     4 := (procs demo 4)\<lparr>p_pptr := Some 2\<rparr>)\<rparr>"

lemma demo3_inv: "sched_inv (Some 1) demo3"
  by (rule sched_inv_cong [OF demo_inv])
    (auto simp: demo3_def demo_def ks_zero_def demo_procs_def proc_zero_def proc_ok_def)

lemma demo3_parents: "parent_ok demo3 2 1" "parent_ok demo3 4 2"
  by (simp_all add: parent_ok_def demo3_def demo_def ks_zero_def demo_procs_def demo_addrs_def proc_zero_def)

theorem psignal_safe_witness:
  "\<exists>s'. psignal 2 SIGSTOP demo3 = Ret s' \<and> sched_inv (Some 1) s' \<and> procs s' 5 = procs demo3 5"
proof -
  have w: "p_wchan (procs demo3 5) = 8200" "addrs demo3 = demo_addrs"
    by (simp_all add: demo3_def demo_def ks_zero_def demo_procs_def proc_zero_def)
  obtain s' where s': "psignal 2 SIGSTOP demo3 = Ret s'" "sched_inv (Some 1) s'"
    "\<forall>q. q \<noteq> 2 \<and> q \<noteq> 1 \<longrightarrow> procs s' q = procs demo3 q \<or>
      p_wchan (procs demo3 q) \<in> {a_runout (addrs demo3), a_proc (addrs demo3) 1} \<and> woken (procs demo3 q) (procs s' q)"
    using psignal_safe [OF demo3_inv _ demo3_parents(1), of SIGSTOP] by auto
  then have "procs s' 5 = procs demo3 5" using s'(3) [rule_format, of 5] w by (simp add: demo_addrs_def)
  then show ?thesis using s' by blast
qed

section \<open>Killing\<close>

text \<open>
  C26. What \<^verbatim>\<open>SIGKILL\<close> does to a process whose mask and ignored set do not hold it, traced or not, in every state it may be in. The signal is pending
  afterwards. A process in an interruptible sleep, and a stopped one that is not traced, is runnable. Every other process keeps its
  state: in particular a traced process that is stopped stays stopped, until the tracer lets it run, and an uninterruptible sleep
  goes on. (The mask and the ignored set of a process never come to hold \<^verbatim>\<open>SIGKILL\<close>: that is the invariant of the signal state.)
\<close>

theorem psignal_kill:
  assumes "sched_inv r s" "p < NPROC" "SIGKILL \<notin> p_sigignore (procs s p)" "SIGKILL \<notin> p_sigmask (procs s p)"
  shows "\<exists>s'. psignal p SIGKILL s = Ret s' \<and> sched_inv r s' \<and> SIGKILL \<in> p_sig (procs s' p) \<and>
    p_stat (procs s' p) =
      (if p_stat (procs s p) = SSTOP \<and> P_TRACED \<notin> p_flag (procs s p) \<or> p_stat (procs s p) = SSLEEP \<and> P_SINTR \<in> p_flag (procs s p)
       then SRUN else p_stat (procs s p))"
proof -
  let ?x = "procs s p" and ?a = "psignal_action SIGKILL (procs s p)"
  have a: "?a \<noteq> A_HOLD" using assms(4) by (simp add: psignal_action_def)
  obtain ni where ni: "ni = p_nice ?x \<or> ni = 0" and
    eq: "psignal p SIGKILL s = (let s' = upd_proc p (\<lambda>_. ?x\<lparr>p_sig := posted SIGKILL (p_sig ?x), p_nice := ni\<rparr>) s
      in case p_stat ?x of
           SSLEEP \<Rightarrow> psignal_sleep (psignal_n 1) p SIGKILL ?a s'
         | SSTOP \<Rightarrow> psignal_stopped p SIGKILL ?a s'
         | _ \<Rightarrow> Ret s')"
    by (rule psignal_deliver [of s p SIGKILL]) (use assms(3) a in auto)
  let ?s = "upd_proc p (\<lambda>_. ?x\<lparr>p_sig := posted SIGKILL (p_sig ?x), p_nice := ni\<rparr>) s"
  note ps = posted_state [OF assms(1) ni, where sg = "posted SIGKILL (p_sig ?x)"]
  have in9: "SIGKILL \<in> posted SIGKILL (p_sig ?x)" by (simp add: posted_def)
  have n9: "SIGKILL \<notin> stopsigmask" "SIGKILL \<noteq> SIGCONT" by (simp_all add: stopsigmask_def)
  consider (sleep) "p_stat ?x = SSLEEP" | (traced) "p_stat ?x = SSTOP" "P_TRACED \<in> p_flag ?x"
    | (stop) "p_stat ?x = SSTOP" "P_TRACED \<notin> p_flag ?x" | (other) "p_stat ?x \<noteq> SSLEEP" "p_stat ?x \<noteq> SSTOP"
    by blast
  then show ?thesis
  proof cases
    case sleep
    then have "psignal p SIGKILL s = psignal_sleep (psignal_n 1) p SIGKILL ?a ?s" using eq by simp
    moreover have "p_stat (procs ?s p) = SSLEEP" using ps(5) sleep by simp
    ultimately show ?thesis
      using psignal_sleep_other [OF ps(1) assms(2), of SIGKILL ?a "psignal_n 1"] n9 in9 sleep unfolding ps(6,8)
      by (cases "P_SINTR \<in> p_flag ?x") (auto simp: ps(8))
  next
    case traced
    then have "psignal p SIGKILL s = Ret ?s" using eq ps(6) by (simp add: psignal_stopped_def)
    then show ?thesis using ps(1,5,8) in9 traced by auto
  next
    case stop
    then have "psignal p SIGKILL s = psignal_stopped p SIGKILL ?a ?s" using eq by simp
    moreover have "p_stat (procs ?s p) = SSTOP" using ps(5) stop by simp
    ultimately show ?thesis
      using psignal_stopped_spec [OF ps(1) assms(2), of SIGKILL ?a] stop in9 unfolding ps(6,8) by auto
  next
    case other
    then have "psignal p SIGKILL s = Ret ?s" using eq by (cases "p_stat ?x") simp_all
    then show ?thesis using ps(1,5,8) in9 other by auto
  qed
qed

theorem psignal_kill_witness:
  "\<exists>s'. psignal 4 SIGKILL demo3 = Ret s' \<and> SIGKILL \<in> p_sig (procs s' 4) \<and> p_stat (procs s' 4) = SRUN"
proof -
  have "P_TRACED \<notin> p_flag (procs demo3 4)" "SIGKILL \<notin> p_sigignore (procs demo3 4)"
    "SIGKILL \<notin> p_sigmask (procs demo3 4)" "p_stat (procs demo3 4) = SSTOP"
    by (simp_all add: demo3_def demo_def ks_zero_def demo_procs_def proc_zero_def)
  then show ?thesis using psignal_kill [OF demo3_inv, of 4] by auto
qed

section \<open>Stop and continue\<close>







section \<open>\<open>kill\<close>\<close>

text \<open>The ancestors of every process lead to a process whose parent has pid 0: no cycle of parents.\<close>

definition ancestry :: "(nat \<Rightarrow> nat) \<Rightarrow> ks \<Rightarrow> bool" where
  "ancestry rank s \<longleftrightarrow> (\<forall>p. p_ppid (procs s p) \<noteq> 0 \<longrightarrow>
     (\<exists>p'. p_pptr (procs s p) = Some p' \<and> rank p' < rank p))"

text \<open>The descendants of a process, as a relation.\<close>

inductive descends :: "ks \<Rightarrow> nat \<Rightarrow> nat \<Rightarrow> bool" for s where
  self: "descends s p p"
| step: "descends s p q" if "p_ppid (procs s p) \<noteq> 0" "p_pptr (procs s p) = Some p'" "descends s p' q"

inductive_cases descendsE: "descends s p q"

lemma inferior_iff:
  assumes "ancestry rank s"
  shows "inferior p s = Some (Ret (descends s p (u_procp (u s))))"
proof (induction "rank p" arbitrary: p rule: less_induct)
  case less
  show ?case
  proof (cases "p = u_procp (u s)")
    case True
    then show ?thesis by (subst inferior.simps) (simp add: descends.self)
  next
    case neq: False
    show ?thesis
    proof (cases "p_ppid (procs s p) = 0")
      case True
      then have "\<not> descends s p (u_procp (u s))" using neq by (auto elim: descendsE)
      then show ?thesis using True neq by (subst inferior.simps) simp
    next
      case False
      then obtain p' where p': "p_pptr (procs s p) = Some p'" "rank p' < rank p"
        using assms by (auto simp: ancestry_def)
      have "descends s p (u_procp (u s)) \<longleftrightarrow> descends s p' (u_procp (u s))"
        using neq False p'(1) by (auto elim: descendsE intro: descends.step)
      then show ?thesis using less [OF p'(2)] p'(1) neq False by (subst inferior.simps) simp
    qed
  qed
qed

definition may_signal :: "(nat \<Rightarrow> int) \<Rightarrow> nat \<Rightarrow> nat \<Rightarrow> ks \<Rightarrow> bool" where
  "may_signal ruid q signum s \<longleftrightarrow> p_uid (curp s) = 0 \<or>
     {u_ruid (u s), p_uid (curp s)} \<inter> {ruid q, p_uid (procs s q)} \<noteq> {} \<or>
     (signum = SIGCONT \<and> descends s q (u_procp (u s)))"

lemma cansignal_iff:
  assumes "ancestry rank s"
  shows "cansignal ruid q signum s = Some (Ret (may_signal ruid q signum s))"
  unfolding cansignal_def may_signal_def using inferior_iff [OF assms, of q] by auto

lemma pfind_none_iff:
  assumes "pid_ok s"
  shows "pfind pid s = None \<longleftrightarrow> (\<forall>h<PIDHSZ. \<forall>p\<in>set (pidhash s h). p_pid (procs s p) \<noteq> pid)"
proof (cases "pfind pid s")
  case None
  then show ?thesis using pfind_iff [OF assms, of pid] by auto
next
  case (Some p)
  then show ?thesis using pfind_iff [OF assms, of pid p] by auto
qed

text \<open>
  C30. \<open>kill\<close> of a single process: a signal number out of range gives \<^verbatim>\<open>EINVAL\<close>, an unknown process
  \<^verbatim>\<open>ESRCH\<close>, and without permission it gives \<^verbatim>\<open>EPERM\<close>; in each case, and for signal 0, no process is touched.
  Permission is: the sender is the super user, or one of its two user ids is one of the
  target's, or the signal is \<^verbatim>\<open>SIGCONT\<close> and the target descends from the sender. Otherwise
  the target gets exactly the signal.
\<close>

theorem kill_single:
  assumes "ancestry rank s" "pid_ok s" "0 < pid"
  shows "kill ruid pid signo s =
    (if signo < 0 \<or> 32 \<le> signo then Some (Ret (set_error EINVAL s))
     else if \<nexists>p h. h < PIDHSZ \<and> p \<in> set (pidhash s h) \<and> p_pid (procs s p) = pid then Some (Ret (set_error ESRCH s))
     else case pfind pid s of Some p \<Rightarrow>
            if \<not> may_signal ruid p (nat signo) s then Some (Ret (set_error EPERM s))
            else if signo = 0 then Some (Ret (set_error E_OK s))
            else Some (bind_outcome (psignal p (nat signo) s) (\<lambda>s'. Ret (set_error E_OK s'))))"
proof -
  have none: "pfind pid s = None \<longleftrightarrow> (\<nexists>p h. h < PIDHSZ \<and> p \<in> set (pidhash s h) \<and> p_pid (procs s p) = pid)"
    unfolding pfind_none_iff [OF assms(2)] by blast
  show ?thesis
  proof (cases "pfind pid s")
    case None
    then show ?thesis using none assms(3) by (simp add: kill_def ret_error_def)
  next
    case (Some p)
    then have ex: "\<not> (\<nexists>p h. h < PIDHSZ \<and> p \<in> set (pidhash s h) \<and> p_pid (procs s p) = pid)" using none by simp
    show ?thesis unfolding if_not_P [OF ex]
      using Some assms(3) cansignal_iff [OF assms(1), of ruid p "nat signo"]
      by (cases "psignal p (nat signo) s") (simp_all add: kill_def ret_error_def)
  qed
qed

theorem kill_single_witness:
  "kill (\<lambda>_. 7) 2 9 (demo3\<lparr>pidhash := (\<lambda>h. if h = 2 then [2] else []), u := user_zero\<lparr>u_procp := 5, u_ruid := 5\<rparr>,
     procs := (procs demo3)(5 := (procs demo3 5)\<lparr>p_uid := 5\<rparr>, 2 := (procs demo3 2)\<lparr>p_uid := 7\<rparr>)\<rparr>) =
   Some (Ret (set_error EPERM (demo3\<lparr>pidhash := (\<lambda>h. if h = 2 then [2] else []), u := user_zero\<lparr>u_procp := 5, u_ruid := 5\<rparr>,
     procs := (procs demo3)(5 := (procs demo3 5)\<lparr>p_uid := 5\<rparr>, 2 := (procs demo3 2)\<lparr>p_uid := 7\<rparr>)\<rparr>)))"
    (is "kill ?r 2 9 ?s = _")
proof -
  have anc: "ancestry (\<lambda>_. 0) ?s"
    by (simp add: ancestry_def demo3_def demo_def ks_zero_def demo_procs_def proc_zero_def)
  have pid: "pid_ok ?s"
    by (auto simp: pid_ok_def demo3_def demo_def ks_zero_def demo_procs_def proc_zero_def PIDHASH_def inj_on_def)
  have pf: "pfind 2 ?s = Some 2" "2 \<in> set (pidhash ?s 2)" "p_pid (procs ?s 2) = 2"
    by (simp_all add: pfind_def PIDHASH_def demo3_def demo_def ks_zero_def demo_procs_def proc_zero_def)
  have may: "\<not> may_signal ?r 2 9 ?s"
    by (simp add: may_signal_def curp_def user_zero_def demo3_def demo_def ks_zero_def demo_procs_def proc_zero_def)
  have ex: "\<not> (\<nexists>p h. h < PIDHSZ \<and> p \<in> set (pidhash ?s h) \<and> p_pid (procs ?s p) = 2)" using pf(2,3) by (auto intro!: exI [of _ 2])
  show ?thesis
    unfolding kill_single [OF anc pid zero_less_numeral] if_not_P [OF ex] pf(1) using may by simp
qed

end
