(* ===== verification/Sigsys.thy ===== *)
theory Sigsys
  imports Signal_Inv
begin

text \<open>
  Signal dispositions, masks and stacks of a process: the system calls of
  \<^verbatim>\<open>src/sys/kernel/kern_sig2.c\<close> and \<open>sigstack\<close> and \<open>execsigs\<close> of \<^verbatim>\<open>src/sys/kernel/kern_sig.c\<close>.

  A structure in user memory is read by an argument \<open>cin\<close> of the system call, the result of
  \<^verbatim>\<open>copyin\<close> at an address, \<open>None\<close> for \<^verbatim>\<open>EFAULT\<close>; \<open>cout\<close> says whether \<^verbatim>\<open>copyout\<close> to an address succeeds,
  and a call returns what it copied out.
\<close>

section \<open>Dispositions\<close>

record sigvec =
  sa_handler :: sig_t
  sa_mask :: "nat set"
  sa_flags :: "saflag set"

definition upd_curp :: "(proc \<Rightarrow> proc) \<Rightarrow> ks \<Rightarrow> ks" where
  "upd_curp f s = upd_proc (u_procp (u s)) f s"

definition set_bit :: "bool \<Rightarrow> 'a \<Rightarrow> 'a set \<Rightarrow> 'a set" where
  "set_bit b x m = (if b then insert x m else m - {x})"

text \<open>The assignments to the user area and, below, to the process.\<close>

definition setsigvec_user :: "nat \<Rightarrow> sigvec \<Rightarrow> user \<Rightarrow> user" where
  "setsigvec_user signum sa uu =
     uu\<lparr>u_signal := (u_signal uu)(signum := sa_handler sa),
        u_sigmask := (u_sigmask uu)(signum := sa_mask sa - sigcantmask),
        u_sigintr := set_bit (SA_RESTART \<notin> sa_flags sa) signum (u_sigintr uu),
        u_sigonstack := set_bit (SA_ONSTACK \<in> sa_flags sa) signum (u_sigonstack uu)\<rparr>"

definition setsigvec_proc :: "nat \<Rightarrow> sigvec \<Rightarrow> proc \<Rightarrow> proc" where
  "setsigvec_proc signum sa x =
     (let x = (if signum = SIGCHLD
               then x\<lparr>p_flag := set_bit (SA_NOCLDSTOP \<in> sa_flags sa) P_NOCLDSTOP (p_flag x)\<rparr> else x)
      in if sa_handler sa = SIG_IGN \<or> (SA_IGNORE \<in> sigprop signum \<and> sa_handler sa = SIG_DFL)
         then x\<lparr>p_sig := p_sig x - {signum},
                p_sigignore := (if signum \<noteq> SIGCONT then insert signum (p_sigignore x) else p_sigignore x),
                p_sigcatch := p_sigcatch x - {signum}\<rparr>
         else x\<lparr>p_sigignore := p_sigignore x - {signum},
                p_sigcatch := set_bit (sa_handler sa \<noteq> SIG_DFL) signum (p_sigcatch x)\<rparr>)"

definition setsigvec :: "nat \<Rightarrow> sigvec \<Rightarrow> ks \<Rightarrow> ks" where
  "setsigvec signum sa s = upd_curp (setsigvec_proc signum sa) (upd_user (setsigvec_user signum sa) s)"

text \<open>The old action that \<open>sigaction\<close> reports.\<close>

definition sigaction_old :: "nat \<Rightarrow> ks \<Rightarrow> sigvec" where
  "sigaction_old signum s =
     \<lparr>sa_handler = u_signal (u s) signum, sa_mask = u_sigmask (u s) signum,
      sa_flags = (if signum \<in> u_sigonstack (u s) then {SA_ONSTACK} else {}) \<union>
                 (if signum \<notin> u_sigintr (u s) then {SA_RESTART} else {}) \<union>
                 (if P_NOCLDSTOP \<in> p_flag (curp s) then {SA_NOCLDSTOP} else {})\<rparr>"

definition sigaction :: "(nat \<Rightarrow> sigvec option) \<Rightarrow> (nat \<Rightarrow> bool) \<Rightarrow> int \<Rightarrow> nat \<Rightarrow> nat \<Rightarrow> nat \<Rightarrow> ks \<Rightarrow>
    sigvec option \<times> ks" where
  "sigaction cin cout signum nsa osa sigtramp s =
     (let s = upd_user (u_sigtramp_update (\<lambda>_. sigtramp)) s; sig = nat signum
      in if signum \<le> 0 \<or> int NSIG \<le> signum then (None, set_error EINVAL s)
         else if nsa \<noteq> 0 \<and> (sig = SIGKILL \<or> sig = SIGSTOP) then (None, set_error EINVAL s)
         else if osa \<noteq> 0 \<and> \<not> cout osa then (None, set_error EFAULT s)
         else
           (let old = (if osa \<noteq> 0 then Some (sigaction_old sig s) else None)
            in if nsa = 0 then (old, set_error E_OK s)
               else case cin nsa of
                      None \<Rightarrow> (old, set_error EFAULT s)
                    | Some sa \<Rightarrow> (old, set_error E_OK (setsigvec sig sa s))))"

definition fatalsig :: "nat \<Rightarrow> ks \<Rightarrow> ks outcome" where
  "fatalsig signum s =
     (let s = upd_user (\<lambda>uu. uu\<lparr>u_signal := (u_signal uu)(signum := SIG_DFL)\<rparr>) s;
          s = upd_curp (\<lambda>x. x\<lparr>p_sigignore := p_sigignore x - {signum}, p_sigcatch := p_sigcatch x - {signum},
                               p_sigmask := p_sigmask x - {signum}\<rparr>) s
      in psignal (u_procp (u s)) signum s)"

definition siginit :: "nat \<Rightarrow> ks \<Rightarrow> ks" where
  "siginit p s =
     fold (\<lambda>i s. if SA_IGNORE \<in> sigprop i \<and> i \<noteq> SIGCONT then upd_proc p (p_sigignore_update (insert i)) s else s)
       [0..<NSIG] s"

text \<open>
  The loop of \<open>execsigs\<close> takes the lowest caught signal each time, so it runs through the caught
  signals in order.
\<close>

definition execsigs_one :: "nat \<Rightarrow> nat \<Rightarrow> ks \<Rightarrow> ks" where
  "execsigs_one p nc s =
     (let s = upd_proc p (p_sigcatch_update (\<lambda>m. m - {nc})) s;
          s = (if SA_IGNORE \<in> sigprop nc
               then upd_proc p (\<lambda>x. x\<lparr>p_sigignore := (if nc \<noteq> SIGCONT then insert nc (p_sigignore x) else p_sigignore x),
                                      p_sig := p_sig x - {nc}\<rparr>) s
               else s)
      in upd_user (\<lambda>uu. uu\<lparr>u_signal := (u_signal uu)(nc := SIG_DFL)\<rparr>) s)"

definition execsigs :: "nat \<Rightarrow> ks \<Rightarrow> ks" where
  "execsigs p s =
     upd_user (\<lambda>uu. uu\<lparr>u_sigstk := \<lparr>ss_base = 0, ss_size = 0, ss_flags = {SA_DISABLE}\<rparr>, u_psflags := {}\<rparr>)
       (fold (execsigs_one p) (sorted_list_of_set (p_sigcatch (procs s p))) s)"

section \<open>Masks\<close>

datatype how = SIG_BLOCK | SIG_UNBLOCK | SIG_SETMASK | How_other int

definition sigprocmask :: "(nat \<Rightarrow> nat set option) \<Rightarrow> (nat \<Rightarrow> bool) \<Rightarrow> how \<Rightarrow> nat \<Rightarrow> nat \<Rightarrow> ks \<Rightarrow> nat set option \<times> ks" where
  "sigprocmask cin cout how nset oset s =
     (let oldmask = p_sigmask (curp s);
          r = (if nset = 0 then (E_OK, s)
               else case cin nset of
                      None \<Rightarrow> (EFAULT, s)
                    | Some newmask \<Rightarrow>
                        (case how of
                           SIG_BLOCK \<Rightarrow> (E_OK, upd_curp (p_sigmask_update (\<lambda>m. m \<union> (newmask - sigcantmask))) s)
                         | SIG_UNBLOCK \<Rightarrow> (E_OK, upd_curp (p_sigmask_update (\<lambda>m. m - newmask)) s)
                         | SIG_SETMASK \<Rightarrow> (E_OK, upd_curp (p_sigmask_update (\<lambda>_. newmask - sigcantmask)) s)
                         | How_other _ \<Rightarrow> (EINVAL, s)))
      in if fst r = E_OK \<and> oset \<noteq> 0
         then (if cout oset then (Some oldmask, set_error E_OK (snd r)) else (None, set_error EFAULT (snd r)))
         else (None, set_error (fst r) (snd r)))"

definition sigpending :: "(nat \<Rightarrow> bool) \<Rightarrow> nat \<Rightarrow> ks \<Rightarrow> nat set option \<times> ks" where
  "sigpending cout nset s =
     (if nset = 0 then (None, set_error EINVAL s)
      else if cout nset then (Some (p_sig (curp s)), set_error E_OK s)
      else (None, set_error EFAULT s))"

text \<open>The part of \<open>sigsuspend\<close> before it sleeps: the mask is replaced and the old one is kept.\<close>

definition sigsuspend_mask :: "(nat \<Rightarrow> nat set option) \<Rightarrow> nat \<Rightarrow> ks \<Rightarrow> ks" where
  "sigsuspend_mask cin nset s =
     (let nmask = (if nset = 0 then {} else case cin nset of None \<Rightarrow> {} | Some m \<Rightarrow> m);
          s = upd_user (\<lambda>uu. uu\<lparr>u_oldmask := p_sigmask (curp s), u_psflags := insert SAS_OLDMASK (u_psflags uu)\<rparr>) s
      in upd_curp (p_sigmask_update (\<lambda>_. nmask - sigcantmask)) s)"

section \<open>Signal stacks\<close>

definition MINSIGSTKSZ :: int where
  "MINSIGSTKSZ = 128"

definition sigaltstack :: "(nat \<Rightarrow> sigaltstk option) \<Rightarrow> (nat \<Rightarrow> bool) \<Rightarrow> nat \<Rightarrow> nat \<Rightarrow> ks \<Rightarrow> sigaltstk option \<times> ks" where
  "sigaltstack cin cout nss oss s =
     (let s = (if SAS_ALTSTACK \<notin> u_psflags (u s)
               then upd_user (\<lambda>uu. uu\<lparr>u_sigstk := (u_sigstk uu)\<lparr>ss_flags := insert SA_DISABLE (ss_flags (u_sigstk uu))\<rparr>\<rparr>) s
               else s)
      in if oss \<noteq> 0 \<and> \<not> cout oss then (None, set_error EFAULT s)
         else
           (let old = (if oss \<noteq> 0 then Some (u_sigstk (u s)) else None)
            in if nss = 0 then (old, set_error E_OK s)
               else case cin nss of
                      None \<Rightarrow> (old, set_error EFAULT s)
                    | Some ss \<Rightarrow>
                        if SA_DISABLE \<in> ss_flags ss then
                          (if SA_ONSTACK \<in> ss_flags (u_sigstk (u s)) then (old, set_error EINVAL s)
                           else (old, set_error E_OK (upd_user (\<lambda>uu. uu\<lparr>u_psflags := u_psflags uu - {SAS_ALTSTACK},
                                   u_sigstk := (u_sigstk uu)\<lparr>ss_flags := ss_flags ss\<rparr>\<rparr>) s)))
                        else if ss_size ss < MINSIGSTKSZ then (old, set_error ENOMEM s)
                        else (old, set_error E_OK (upd_user (\<lambda>uu. uu\<lparr>u_psflags := insert SAS_ALTSTACK (u_psflags uu),
                                   u_sigstk := ss\<rparr>) s))))"

text \<open>The older \<open>sigstack\<close>: a structure is its stack pointer and whether its on-stack bit is set.\<close>

definition sigstack :: "(nat \<Rightarrow> (nat \<times> bool) option) \<Rightarrow> (nat \<Rightarrow> bool) \<Rightarrow> nat \<Rightarrow> nat \<Rightarrow> ks \<Rightarrow> (nat \<times> bool) option \<times> ks" where
  "sigstack cin cout nss oss s =
     (let old = (ss_base (u_sigstk (u s)), SA_ONSTACK \<in> ss_flags (u_sigstk (u s)))
      in if oss \<noteq> 0 \<and> \<not> cout oss then (None, set_error EFAULT s)
         else
           (let res = (if oss \<noteq> 0 then Some old else None)
            in if nss = 0 then (res, set_error E_OK s)
               else case cin nss of
                      None \<Rightarrow> (res, set_error EFAULT s)
                    | Some (sp, onstack) \<Rightarrow>
                        (res, set_error E_OK (upd_user (\<lambda>uu. uu\<lparr>u_psflags := insert SAS_ALTSTACK (u_psflags uu),
                           u_sigstk := \<lparr>ss_base = sp, ss_size = 0,
                             ss_flags = ss_flags (u_sigstk uu) \<union> (if onstack then {SA_ONSTACK} else {})\<rparr>\<rparr>) s))))"

end
