(* ===== verification/Sigframe.thy ===== *)
theory Sigframe
  imports Sigsys
begin

text \<open>
  Taking a signal: \<open>postsig\<close> of \<^verbatim>\<open>src/sys/kernel/kern_sig.c\<close>, and the frame that \<open>sendsig\<close> builds on the
  user's stack and \<open>sigreturn\<close> takes down again (\<^verbatim>\<open>src/sys/pic32/signal.c\<close>). The saved registers of the
  user are a function from register names, and user memory a function from addresses to the words there; the signal
  context is written to it and read from it field by field.
\<close>

section \<open>Registers and frames\<close>

datatype reg =
    R1 | R2 | R3 | R4 | R5 | R6 | R7 | R8 | R9 | R10 | R11 | R12 | R13 | R14 | R15 | R16 | R17 | R18
  | R19 | R20 | R21 | R22 | R23 | R24 | R25 | GP | SP | FP | RA | LO | HI | PC

text \<open>The fields of \<^verbatim>\<open>struct sigcontext\<close>, and their offsets in bytes: every field is a word.\<close>

datatype sigcontext =
    Sc_onstack | Sc_mask | Sc_r1 | Sc_r2 | Sc_r3 | Sc_r4 | Sc_r5 | Sc_r6 | Sc_r7 | Sc_r8 | Sc_r9
  | Sc_r10 | Sc_r11 | Sc_r12 | Sc_r13 | Sc_r14 | Sc_r15 | Sc_r16 | Sc_r17 | Sc_r18 | Sc_r19 | Sc_r20
  | Sc_r21 | Sc_r22 | Sc_r23 | Sc_r24 | Sc_r25 | Sc_gp | Sc_sp | Sc_fp | Sc_ra | Sc_lo | Sc_hi | Sc_pc

primrec sc_offset :: "sigcontext \<Rightarrow> nat" where
  "sc_offset Sc_onstack = 0"
| "sc_offset Sc_mask = 4"
| "sc_offset Sc_r1 = 8"
| "sc_offset Sc_r2 = 12"
| "sc_offset Sc_r3 = 16"
| "sc_offset Sc_r4 = 20"
| "sc_offset Sc_r5 = 24"
| "sc_offset Sc_r6 = 28"
| "sc_offset Sc_r7 = 32"
| "sc_offset Sc_r8 = 36"
| "sc_offset Sc_r9 = 40"
| "sc_offset Sc_r10 = 44"
| "sc_offset Sc_r11 = 48"
| "sc_offset Sc_r12 = 52"
| "sc_offset Sc_r13 = 56"
| "sc_offset Sc_r14 = 60"
| "sc_offset Sc_r15 = 64"
| "sc_offset Sc_r16 = 68"
| "sc_offset Sc_r17 = 72"
| "sc_offset Sc_r18 = 76"
| "sc_offset Sc_r19 = 80"
| "sc_offset Sc_r20 = 84"
| "sc_offset Sc_r21 = 88"
| "sc_offset Sc_r22 = 92"
| "sc_offset Sc_r23 = 96"
| "sc_offset Sc_r24 = 100"
| "sc_offset Sc_r25 = 104"
| "sc_offset Sc_gp = 108"
| "sc_offset Sc_sp = 112"
| "sc_offset Sc_fp = 116"
| "sc_offset Sc_ra = 120"
| "sc_offset Sc_lo = 124"
| "sc_offset Sc_hi = 128"
| "sc_offset Sc_pc = 132"

definition sc_addr :: "nat \<Rightarrow> sigcontext \<Rightarrow> nat" where
  "sc_addr scp f = u32 (scp + sc_offset f)"

text \<open>
  A signal mask is a word in which bit \<^verbatim>\<open>sig - 1\<close> stands for the signal, and the on-stack flag is the lowest bit
  of its word.
\<close>

definition mask_word :: "nat set \<Rightarrow> nat" where
  "mask_word s = horner_sum of_bool 2 (map (\<lambda>i. Suc i \<in> s) [0..<32])"

definition word_mask :: "nat \<Rightarrow> nat set" where
  "word_mask w = set (filter (\<lambda>sig. bit w (sig - 1)) [1..<33])"

text \<open>The stores with which \<open>sendsig\<close> fills the context, and the loads with which \<open>sigreturn\<close> takes the registers back.\<close>

definition save_context :: "nat \<Rightarrow> bool \<Rightarrow> nat set \<Rightarrow> (reg \<Rightarrow> nat) \<Rightarrow> (nat \<Rightarrow> nat) \<Rightarrow> nat \<Rightarrow> nat" where
  "save_context scp oonstack msk r w =
     w(sc_addr scp Sc_onstack := of_bool oonstack,
       sc_addr scp Sc_mask := mask_word msk,
       sc_addr scp Sc_r1 := r R1,
       sc_addr scp Sc_r2 := r R2,
       sc_addr scp Sc_r3 := r R3,
       sc_addr scp Sc_r4 := r R4,
       sc_addr scp Sc_r5 := r R5,
       sc_addr scp Sc_r6 := r R6,
       sc_addr scp Sc_r7 := r R7,
       sc_addr scp Sc_r8 := r R8,
       sc_addr scp Sc_r9 := r R9,
       sc_addr scp Sc_r10 := r R10,
       sc_addr scp Sc_r11 := r R11,
       sc_addr scp Sc_r12 := r R12,
       sc_addr scp Sc_r13 := r R13,
       sc_addr scp Sc_r14 := r R14,
       sc_addr scp Sc_r15 := r R15,
       sc_addr scp Sc_r16 := r R16,
       sc_addr scp Sc_r17 := r R17,
       sc_addr scp Sc_r18 := r R18,
       sc_addr scp Sc_r19 := r R19,
       sc_addr scp Sc_r20 := r R20,
       sc_addr scp Sc_r21 := r R21,
       sc_addr scp Sc_r22 := r R22,
       sc_addr scp Sc_r23 := r R23,
       sc_addr scp Sc_r24 := r R24,
       sc_addr scp Sc_r25 := r R25,
       sc_addr scp Sc_gp := r GP,
       sc_addr scp Sc_sp := r SP,
       sc_addr scp Sc_fp := r FP,
       sc_addr scp Sc_ra := r RA,
       sc_addr scp Sc_lo := r LO,
       sc_addr scp Sc_hi := r HI,
       sc_addr scp Sc_pc := r PC)"

definition restore_regs :: "nat \<Rightarrow> (nat \<Rightarrow> nat) \<Rightarrow> (reg \<Rightarrow> nat) \<Rightarrow> reg \<Rightarrow> nat" where
  "restore_regs scp w r =
     r(R1 := w (sc_addr scp Sc_r1),
       R2 := w (sc_addr scp Sc_r2),
       R3 := w (sc_addr scp Sc_r3),
       R4 := w (sc_addr scp Sc_r4),
       R5 := w (sc_addr scp Sc_r5),
       R6 := w (sc_addr scp Sc_r6),
       R7 := w (sc_addr scp Sc_r7),
       R8 := w (sc_addr scp Sc_r8),
       R9 := w (sc_addr scp Sc_r9),
       R10 := w (sc_addr scp Sc_r10),
       R11 := w (sc_addr scp Sc_r11),
       R12 := w (sc_addr scp Sc_r12),
       R13 := w (sc_addr scp Sc_r13),
       R14 := w (sc_addr scp Sc_r14),
       R15 := w (sc_addr scp Sc_r15),
       R16 := w (sc_addr scp Sc_r16),
       R17 := w (sc_addr scp Sc_r17),
       R18 := w (sc_addr scp Sc_r18),
       R19 := w (sc_addr scp Sc_r19),
       R20 := w (sc_addr scp Sc_r20),
       R21 := w (sc_addr scp Sc_r21),
       R22 := w (sc_addr scp Sc_r22),
       R23 := w (sc_addr scp Sc_r23),
       R24 := w (sc_addr scp Sc_r24),
       R25 := w (sc_addr scp Sc_r25),
       GP := w (sc_addr scp Sc_gp),
       SP := w (sc_addr scp Sc_sp),
       FP := w (sc_addr scp Sc_fp),
       RA := w (sc_addr scp Sc_ra),
       LO := w (sc_addr scp Sc_lo),
       HI := w (sc_addr scp Sc_hi),
       PC := w (sc_addr scp Sc_pc))"

text \<open>
  What \<open>sendsig\<close> and \<open>sigreturn\<close> work on besides the process: the registers, user memory,
  \<^verbatim>\<open>u_code\<close> and the extent of the data and stack segments.
\<close>

record sigmach =
  sk :: ks
  regs :: "reg \<Rightarrow> nat"
  uwords :: "nat \<Rightarrow> nat"
  u_code :: nat
  p_daddr :: nat
  u_dsize :: nat
  p_ssize :: nat
  p_saddr :: nat
  u_ssize :: nat

text \<open>\<^verbatim>\<open>sizeof(struct sigframe)\<close>: 16 bytes of argument space and a context of 34 words.\<close>

definition sizeof_sigcontext :: nat where
  "sizeof_sigcontext = 136"

definition sizeof_sigframe :: nat where
  "sizeof_sigframe = 16 + sizeof_sigcontext"

text \<open>The bounds of user memory are the configuration's.\<close>

record umem =
  USER_FLASH_START :: nat
  USER_FLASH_END :: nat
  USER_DATA_START :: nat
  USER_DATA_END :: nat

definition baduaddr :: "umem \<Rightarrow> nat \<Rightarrow> bool" where
  "baduaddr m addr =
     (if USER_FLASH_START m \<le> addr \<and> addr < USER_FLASH_END m then False
      else if USER_DATA_START m \<le> addr \<and> addr < USER_DATA_END m then False
      else True)"

definition upd_sk :: "(ks \<Rightarrow> ks) \<Rightarrow> sigmach \<Rightarrow> sigmach" where
  "upd_sk f t = t\<lparr>sk := f (sk t)\<rparr>"

definition onstack :: "sigmach \<Rightarrow> bool" where
  "onstack t \<longleftrightarrow> SA_ONSTACK \<in> ss_flags (u_sigstk (u (sk t)))"

definition set_onstack :: "bool \<Rightarrow> ks \<Rightarrow> ks" where
  "set_onstack b = upd_user (\<lambda>uu. uu\<lparr>u_sigstk := (u_sigstk uu)\<lparr>ss_flags := set_bit b SA_ONSTACK (ss_flags (u_sigstk uu))\<rparr>\<rparr>)"

text \<open>
  Pointers are 32 bits: \<open>sub32\<close> is the subtraction of \<^verbatim>\<open>sfp--\<close>. The kernel reaches the context by plain loads and stores of
  words, which fault at an address that is not a multiple of four; nothing checks that the user's stack pointer is one.
\<close>

definition sub32 :: "nat \<Rightarrow> nat \<Rightarrow> nat" where
  "sub32 a b = u32 (a + (4294967296 - b))"

definition sendsig :: "umem \<Rightarrow> nat \<Rightarrow> nat \<Rightarrow> nat set \<Rightarrow> sigmach \<Rightarrow> sigmach outcome" where
  "sendsig m p sig msk t =
     (let oonstack = onstack t;
          uu = u (sk t);
          alt = (SAS_ALTSTACK \<in> u_psflags uu \<and> \<not> onstack t \<and> sig \<in> u_sigonstack uu);
          top = (if alt then u32 (ss_base (u_sigstk uu) + nat (ss_size (u_sigstk uu))) else regs t SP);
          t = (if alt then upd_sk (set_onstack True) t else t);
          sfp = sub32 top sizeof_sigframe
      in if \<not> onstack t \<and> sfp < u32 (p_daddr t + u_dsize t)
         then bind_outcome (fatalsig SIGILL (sk t)) (\<lambda>s. Ret (t\<lparr>sk := s\<rparr>))
         else
           (let t = (if \<not> onstack t \<and> p_ssize t < sub32 (USER_DATA_END m) sfp
                     then t\<lparr>p_ssize := sub32 (USER_DATA_END m) sfp, p_saddr := sfp, u_ssize := sub32 (USER_DATA_END m) sfp\<rparr> else t)
            in if sfp mod 4 \<noteq> 0 then Fault
               else Ret (t\<lparr>uwords := save_context (u32 (sfp + 16)) oonstack msk (regs t) (uwords t),
                           regs := (regs t)(R4 := sig, R5 := u_code t, R6 := u32 (sfp + 16),
                                            RA := u_sigtramp (u (sk t)), SP := sfp, PC := p)\<rparr>)))"

definition sigreturn :: "umem \<Rightarrow> sigmach \<Rightarrow> sigmach outcome" where
  "sigreturn m t =
     (let scp = u32 (regs t SP + 16)
      in if baduaddr m scp \<or> baduaddr m (u32 (scp + sizeof_sigcontext))
         then Ret (upd_sk (set_error EFAULT) t)
         else if scp mod 4 \<noteq> 0 then Fault
         else
           (let t = upd_sk (set_error EJUSTRETURN) t;
                t = upd_sk (set_onstack (odd (uwords t (sc_addr scp Sc_onstack)))) t;
                t = upd_sk (upd_curp (p_sigmask_update (\<lambda>_. word_mask (uwords t (sc_addr scp Sc_mask)) - sigcantmask))) t
            in Ret (t\<lparr>regs := restore_regs scp (uwords t) (regs t)\<rparr>)))"

section \<open>Taking a signal\<close>

text \<open>
  The mask that \<open>postsig\<close> saves for the return, and the process while the handler runs. \<open>core\<close> says
  whether a core file was written; the process then exits with the status \<open>Exits\<close>.
\<close>

datatype posted_sig = Handles sigmach | Exits nat sigmach

definition postsig_mask :: "nat \<Rightarrow> ks \<Rightarrow> nat set \<times> ks" where
  "postsig_mask sig s =
     (let s = set_error E_OK s;
          old = SAS_OLDMASK \<in> u_psflags (u s);
          returnmask = (if old then u_oldmask (u s) else p_sigmask (curp s));
          s = (if old then upd_user (\<lambda>uu. uu\<lparr>u_psflags := u_psflags uu - {SAS_OLDMASK}\<rparr>) s else s);
          s = upd_curp (p_sigmask_update (\<lambda>k. k \<union> (u_sigmask (u s) sig \<union> {sig}))) s
      in (returnmask, upd_user (\<lambda>uu. uu\<lparr>ru_nsignals := ru_nsignals uu + 1\<rparr>) s))"

definition postsig :: "umem \<Rightarrow> (sigmach \<Rightarrow> bool) \<Rightarrow> nat \<Rightarrow> sigmach \<Rightarrow> posted_sig outcome" where
  "postsig m core sig t =
     (let t = upd_sk (upd_curp (p_sig_update (\<lambda>k. k - {sig}))) t
      in case u_signal (u (sk t)) sig of
           SIG_DFL \<Rightarrow>
             Ret (Exits (if SA_CORE \<in> sigprop sig \<and> core t then 128 + sig else sig) t)
         | SIG_IGN \<Rightarrow>
             (let r = postsig_mask sig (sk t)
              in bind_outcome (sendsig m 1 sig (fst r) (t\<lparr>sk := snd r\<rparr>)) (\<lambda>t. Ret (Handles t)))
         | Handler p \<Rightarrow>
             (let r = postsig_mask sig (sk t)
              in bind_outcome (sendsig m p sig (fst r) (t\<lparr>sk := snd r\<rparr>)) (\<lambda>t. Ret (Handles t))))"

section \<open>The round trip\<close>

lemma sk_upd_sk [simp]: "sk (upd_sk f t) = f (sk t)"
  by (simp add: upd_sk_def)

lemma upd_sk_sel [simp]:
  "regs (upd_sk f t) = regs t" "uwords (upd_sk f t) = uwords t" "u_code (upd_sk f t) = u_code t"
  "p_daddr (upd_sk f t) = p_daddr t" "u_dsize (upd_sk f t) = u_dsize t" "p_ssize (upd_sk f t) = p_ssize t"
  by (simp_all add: upd_sk_def)

lemma set_onstack_user [simp]:
  "procs (set_onstack b s) = procs s" "u_error (u (set_onstack b s)) = u_error (u s)"
  "u_procp (u (set_onstack b s)) = u_procp (u s)"
  "u_psflags (u (set_onstack b s)) = u_psflags (u s)" "u_sigtramp (u (set_onstack b s)) = u_sigtramp (u s)"
  "SA_ONSTACK \<in> ss_flags (u_sigstk (u (set_onstack b s))) \<longleftrightarrow> b"
  "ss_base (u_sigstk (u (set_onstack b s))) = ss_base (u_sigstk (u s))"
  by (simp_all add: set_onstack_def set_bit_def)

lemma set_onstack_self:
  "SA_ONSTACK \<in> ss_flags (u_sigstk (u s)) \<longleftrightarrow> b \<Longrightarrow> set_onstack b s = s"
  by (cases s; cases "u s"; cases "u_sigstk (u s)") (auto simp: set_onstack_def set_bit_def upd_user_def insert_absorb)

lemma set_onstack_twice [simp]: "set_onstack b (set_onstack c s) = set_onstack b s"
  by (cases s) (auto simp: set_onstack_def set_bit_def upd_user_def)

lemma set_onstack_error: "set_onstack b (set_error e s) = set_error e (set_onstack b s)"
  by (cases s) (simp add: set_onstack_def set_error_def upd_user_def)

text \<open>
  \<open>sig_top\<close> is the top of the stack on which \<open>sendsig\<close> builds the frame. With \<open>frame_ok\<close> the frame is built and
  \<open>sigreturn\<close> accepts it: it is aligned and lies above the data segment, and its context, with the byte after it, in user memory.
\<close>

definition sig_top :: "nat \<Rightarrow> sigmach \<Rightarrow> nat" where
  "sig_top sig t =
     (if SAS_ALTSTACK \<in> u_psflags (u (sk t)) \<and> \<not> onstack t \<and> sig \<in> u_sigonstack (u (sk t))
      then u32 (ss_base (u_sigstk (u (sk t))) + nat (ss_size (u_sigstk (u (sk t))))) else regs t SP)"

definition frame_fits :: "nat \<Rightarrow> sigmach \<Rightarrow> bool" where
  "frame_fits sig t \<longleftrightarrow>
     onstack t \<or> SAS_ALTSTACK \<in> u_psflags (u (sk t)) \<and> sig \<in> u_sigonstack (u (sk t)) \<or>
     u32 (p_daddr t + u_dsize t) \<le> sub32 (sig_top sig t) sizeof_sigframe"

definition frame_ok :: "umem \<Rightarrow> nat \<Rightarrow> sigmach \<Rightarrow> bool" where
  "frame_ok m sig t \<longleftrightarrow>
     (let scp = u32 (sub32 (sig_top sig t) sizeof_sigframe + 16)
      in frame_fits sig t \<and> sig_top sig t mod 4 = 0 \<and> \<not> baduaddr m scp \<and> \<not> baduaddr m (u32 (scp + sizeof_sigcontext)))"

text \<open>The words of a context are at different addresses, and loading the registers that were saved gives them back.\<close>

lemma sc_offset_inj: "sc_offset f = sc_offset g \<longleftrightarrow> f = g"
proof -
  have "[Sc_onstack, Sc_mask, Sc_r1, Sc_r2, Sc_r3, Sc_r4, Sc_r5, Sc_r6, Sc_r7,
      Sc_r8, Sc_r9, Sc_r10, Sc_r11, Sc_r12, Sc_r13, Sc_r14, Sc_r15, Sc_r16,
      Sc_r17, Sc_r18, Sc_r19, Sc_r20, Sc_r21, Sc_r22, Sc_r23, Sc_r24, Sc_r25,
      Sc_gp, Sc_sp, Sc_fp, Sc_ra, Sc_lo, Sc_hi, Sc_pc] ! (sc_offset x div 4) = x" for x
    by (cases x) simp_all
  then show ?thesis by metis
qed

lemma sc_offset_less: "sc_offset f < 136"
  by (cases f) simp_all

lemma sc_addr_inj [simp]: "sc_addr scp f = sc_addr scp g \<longleftrightarrow> f = g"
proof
  assume "sc_addr scp f = sc_addr scp g"
  then have "(scp + sc_offset f) mod 4294967296 = (scp + sc_offset g) mod 4294967296" by (simp add: sc_addr_def u32_def)
  then obtain i j where "sc_offset f + 4294967296 * i = sc_offset g + 4294967296 * j"
    by (auto simp: nat_mod_eq_iff)
  then have "sc_offset f mod 4294967296 = sc_offset g mod 4294967296" by (metis mod_mult_self2)
  then show "f = g" using sc_offset_less [of f] sc_offset_less [of g] by (simp add: sc_offset_inj)
qed simp

lemma bit_mask: "bit (horner_sum of_bool 2 (map (\<lambda>i. Suc i \<in> s) [0..<n]) :: nat) k \<longleftrightarrow> k < n \<and> Suc k \<in> s"
  unfolding bit_horner_sum_bit_iff by (cases "k < n") simp_all

lemma mask_bits:
  "set (filter (\<lambda>sig. bit (horner_sum of_bool 2 (map (\<lambda>i. Suc i \<in> s) [0..<n]) :: nat) (sig - 1)) [1..<Suc n]) = s \<inter> {1..n}"
proof (rule set_eqI)
  fix x show "x \<in> set (filter (\<lambda>sig. bit (horner_sum of_bool 2 (map (\<lambda>i. Suc i \<in> s) [0..<n]) :: nat) (sig - 1)) [1..<Suc n]) \<longleftrightarrow>
      x \<in> s \<inter> {1..n}"
    unfolding bit_mask by (cases x) (force simp del: upt_Suc)+
qed

lemma word_mask_word [simp]: "word_mask (mask_word s) = s \<inter> {1..32}"
proof -
  have "(33::nat) = Suc 32" by simp
  then show ?thesis unfolding word_mask_def mask_word_def by (simp only: mask_bits)
qed

lemma save_context_sel:
  "save_context scp b msk r w (sc_addr scp Sc_onstack) = of_bool b"
  "save_context scp b msk r w (sc_addr scp Sc_mask) = mask_word msk"
  by (simp_all only: save_context_def fun_upd_apply sc_addr_inj sigcontext.distinct refl if_True if_False)

lemma restore_saved:
  assumes "\<And>f. w' (sc_addr scp f) = save_context scp b msk r w (sc_addr scp f)"
  shows "restore_regs scp w' r' = r"
proof
  fix x show "restore_regs scp w' r' x = r x"
    by (cases x) (simp_all only: restore_regs_def fun_upd_apply reg.distinct assms save_context_def sc_addr_inj sigcontext.distinct refl
      if_True if_False)
qed

text \<open>The state after \<open>sendsig\<close>, when the frame fits.\<close>

lemma sendsig_frame:
  assumes fits: "frame_fits sig t"
  defines "sfp \<equiv> sub32 (sig_top sig t) sizeof_sigframe"
  shows "(sfp mod 4 \<noteq> 0 \<and> sendsig m p sig msk t = Fault) \<or> (\<exists>t1. sfp mod 4 = 0 \<and> sendsig m p sig msk t = Ret t1 \<and>
    sk t1 = (if SAS_ALTSTACK \<in> u_psflags (u (sk t)) \<and> \<not> onstack t \<and> sig \<in> u_sigonstack (u (sk t))
             then set_onstack True (sk t) else sk t) \<and>
    regs t1 = (regs t)(R4 := sig, R5 := u_code t, R6 := u32 (sfp + 16),
      RA := u_sigtramp (u (sk t)), SP := sfp, PC := p) \<and>
    uwords t1 = save_context (u32 (sfp + 16)) (onstack t) msk (regs t) (uwords t))"
proof -
  let ?alt = "SAS_ALTSTACK \<in> u_psflags (u (sk t)) \<and> \<not> onstack t \<and> sig \<in> u_sigonstack (u (sk t))"
  define t0 where "t0 = (if ?alt then upd_sk (set_onstack True) t else t)"
  have t0: "onstack t0 \<longleftrightarrow> onstack t \<or> ?alt" "p_daddr t0 = p_daddr t" "u_dsize t0 = u_dsize t" "regs t0 = regs t"
    "u_code t0 = u_code t" "uwords t0 = uwords t" "u_sigtramp (u (sk t0)) = u_sigtramp (u (sk t))"
    "sk t0 = (if ?alt then set_onstack True (sk t) else sk t)"
    by (auto simp: t0_def onstack_def)
  have go: "\<not> (\<not> onstack t0 \<and> sfp < u32 (p_daddr t0 + u_dsize t0))"
    using fits by (auto simp: t0 frame_fits_def sfp_def)
  define t0' where "t0' = (if \<not> onstack t0 \<and> p_ssize t0 < sub32 (USER_DATA_END m) sfp
     then t0\<lparr>p_ssize := sub32 (USER_DATA_END m) sfp, p_saddr := sfp, u_ssize := sub32 (USER_DATA_END m) sfp\<rparr> else t0)"
  have t0': "sk t0' = sk t0" "regs t0' = regs t" "u_code t0' = u_code t" "uwords t0' = uwords t"
    by (simp_all add: t0'_def t0)
  have "sendsig m p sig msk t = (if sfp mod 4 \<noteq> 0 then Fault else
      Ret (t0'\<lparr>uwords := save_context (u32 (sfp + 16)) (onstack t) msk (regs t0') (uwords t0'),
      regs := (regs t0')(R4 := sig, R5 := u_code t0', R6 := u32 (sfp + 16), RA := u_sigtramp (u (sk t0')), SP := sfp, PC := p)\<rparr>))"
    unfolding sendsig_def Let_def sig_top_def [symmetric] t0_def [symmetric] sfp_def [symmetric] if_not_P [OF go] t0'_def [symmetric] ..
  then show ?thesis by (simp add: t0' t0)
qed

lemma frame_aligned: "sub32 a sizeof_sigframe mod 4 = a mod 4" "u32 (a + 16) mod 4 = a mod 4"
  by (simp_all add: sub32_def u32_def sizeof_sigframe_def sizeof_sigcontext_def mod_mod_cancel) presburger+

lemma sigreturn_saved:
  assumes "scp = u32 (regs t SP + 16)" "scp mod 4 = 0" "\<not> baduaddr m scp" "\<not> baduaddr m (u32 (scp + sizeof_sigcontext))"
    and saved: "\<And>f. uwords t (sc_addr scp f) = save_context scp b msk r w (sc_addr scp f)"
  shows "sigreturn m t = Ret (t\<lparr>sk := upd_curp (p_sigmask_update (\<lambda>_. msk \<inter> {1..32} - sigcantmask))
    (set_onstack b (set_error EJUSTRETURN (sk t))), regs := r\<rparr>)"
  using assms(2-4) restore_saved [OF saved, of "regs t"] unfolding sigreturn_def Let_def assms(1) [symmetric]
  by (simp add: saved save_context_sel upd_sk_def)

text \<open>
  C16. \<open>sigreturn\<close> undoes \<open>sendsig\<close>. When the frame for a signal fits on the stack and is aligned, \<open>sendsig\<close> starts the
  handler with the signal number, the code and the address of the context as arguments and the trampoline as
  return address. Whatever the handler then does to the registers and to user memory, as long as it leaves the words of the context alone
  and comes back to the stack pointer it started with, \<open>sigreturn\<close> gives back each of the 32 registers, the
  on-stack flag and the alternate stack of before and the mask passed to \<open>sendsig\<close>, as far as it fits in 32 bits and without \<^verbatim>\<open>SIGKILL\<close> and \<^verbatim>\<open>SIGSTOP\<close>.
\<close>

theorem sendsig_sigreturn:
  assumes "frame_ok m sig t"
  shows "\<exists>t1. sendsig m p sig msk t = Ret t1 \<and>
    regs t1 R4 = sig \<and> regs t1 R5 = u_code t \<and> regs t1 R6 = u32 (regs t1 SP + 16) \<and> regs t1 RA = u_sigtramp (u (sk t)) \<and>
    regs t1 PC = p \<and> regs t1 SP = sub32 (sig_top sig t) sizeof_sigframe \<and>
    (\<forall>r w. r SP = regs t1 SP \<and> (\<forall>f. w (sc_addr (regs t1 R6) f) = uwords t1 (sc_addr (regs t1 R6) f)) \<longrightarrow>
      (\<exists>t2. sigreturn m (t1\<lparr>regs := r, uwords := w\<rparr>) = Ret t2 \<and> u_error (u (sk t2)) = EJUSTRETURN \<and>
        (\<forall>x. regs t2 x = regs t x) \<and> uwords t2 = w \<and> onstack t2 = onstack t \<and> u_sigstk (u (sk t2)) = u_sigstk (u (sk t)) \<and>
        p_sigmask (curp (sk t2)) = msk \<inter> {1..32} - sigcantmask))"
proof -
  let ?sfp = "sub32 (sig_top sig t) sizeof_sigframe" and ?scp = "u32 (sub32 (sig_top sig t) sizeof_sigframe + 16)"
  let ?alt = "SAS_ALTSTACK \<in> u_psflags (u (sk t)) \<and> \<not> onstack t \<and> sig \<in> u_sigonstack (u (sk t))"
  have fits: "frame_fits sig t" "?sfp mod 4 = 0" "?scp mod 4 = 0" and good: "\<not> baduaddr m ?scp" "\<not> baduaddr m (u32 (?scp + sizeof_sigcontext))"
    using assms by (simp_all add: frame_ok_def Let_def frame_aligned)
  from sendsig_frame [OF fits(1), of m p msk] fits(2) obtain t1 where t1: "sendsig m p sig msk t = Ret t1"
    "sk t1 = (if ?alt then set_onstack True (sk t) else sk t)"
    "regs t1 = (regs t)(R4 := sig, R5 := u_code t, R6 := ?scp, RA := u_sigtramp (u (sk t)), SP := ?sfp, PC := p)"
    "uwords t1 = save_context ?scp (onstack t) msk (regs t) (uwords t)"
    by auto
  have restored: "set_onstack (onstack t) (sk t1) = sk t" by (auto simp: t1(2) onstack_def set_onstack_self)
  have "\<exists>t2. sigreturn m (t1\<lparr>regs := r, uwords := w\<rparr>) = Ret t2 \<and> u_error (u (sk t2)) = EJUSTRETURN \<and>
      (\<forall>x. regs t2 x = regs t x) \<and> uwords t2 = w \<and> onstack t2 = onstack t \<and> u_sigstk (u (sk t2)) = u_sigstk (u (sk t)) \<and>
      p_sigmask (curp (sk t2)) = msk \<inter> {1..32} - sigcantmask"
    if "r SP = regs t1 SP \<and> (\<forall>f. w (sc_addr (regs t1 R6) f) = uwords t1 (sc_addr (regs t1 R6) f))" for r w
  proof -
    from that have "r SP = ?sfp" "\<And>f. w (sc_addr ?scp f) = uwords t1 (sc_addr ?scp f)" by (simp_all add: t1(3))
    then have "sigreturn m (t1\<lparr>regs := r, uwords := w\<rparr>) = Ret (t1\<lparr>sk := upd_curp (p_sigmask_update (\<lambda>_. msk \<inter> {1..32} - sigcantmask))
        (set_onstack (onstack t) (set_error EJUSTRETURN (sk t1))), regs := regs t, uwords := w\<rparr>)"
      using sigreturn_saved [of ?scp "t1\<lparr>regs := r, uwords := w\<rparr>" m "onstack t" msk "regs t" "uwords t"] good fits(3)
      by (simp add: t1(4))
    then show ?thesis by (simp add: set_onstack_error restored) (simp add: onstack_def curp_def upd_curp_def set_error_def)
  qed
  then show ?thesis using t1(1) by (intro exI [of _ t1]) (simp add: t1(3))
qed

text \<open>A process with the memory layout of \<^verbatim>\<open>src/sys/pic32/machparam.h\<close>, its stack in use and an alternate one.\<close>

definition demo_umem :: umem where
  "demo_umem = \<lparr>USER_FLASH_START = 2634043392, USER_FLASH_END = 2634547200,
     USER_DATA_START = 2130739200, USER_DATA_END = 2130837504\<rparr>"

definition demo_mach :: sigmach where
  "demo_mach = \<lparr>sk = ks_zero \<lparr>a_lbolt = 1000, a_runin = 2000, a_runout = 3000, a_proc = (\<lambda>i. 4000 + 100 * i)\<rparr>, regs = (\<lambda>r. if r = SP then 2130837000 else 7), uwords = (\<lambda>_. 0),
     u_code = 3, p_daddr = 2130739200, u_dsize = 4096, p_ssize = 2048, p_saddr = 2130835456, u_ssize = 2048\<rparr>"

text \<open>The handler of the witness changes every register but the stack pointer, and leaves memory alone.\<close>

theorem sendsig_sigreturn_witness:
  "let t = demo_mach in frame_ok demo_umem 2 t \<and>
     (\<exists>t1 t2. sendsig demo_umem 2130739300 2 {SIGKILL, 2} t = Ret t1 \<and>
        sigreturn demo_umem (t1\<lparr>regs := (\<lambda>x. if x = SP then regs t1 SP else 99)\<rparr>) = Ret t2 \<and>
        regs t2 HI = 7 \<and> regs t2 SP = 2130837000 \<and> p_sigmask (curp (sk t2)) = {2})"
proof -
  have fok: "frame_ok demo_umem 2 demo_mach"
    by (simp add: frame_ok_def frame_fits_def demo_umem_def demo_mach_def baduaddr_def sig_top_def onstack_def sub32_def
      u32_def sizeof_sigframe_def sizeof_sigcontext_def ks_zero_def user_zero_def Let_def)
  obtain t1 where t1: "sendsig demo_umem 2130739300 2 {SIGKILL, 2} demo_mach = Ret t1" and
    ret: "\<And>r w. r SP = regs t1 SP \<and> (\<forall>f. w (sc_addr (regs t1 R6) f) = uwords t1 (sc_addr (regs t1 R6) f)) \<Longrightarrow>
      \<exists>t2. sigreturn demo_umem (t1\<lparr>regs := r, uwords := w\<rparr>) = Ret t2 \<and> (\<forall>x. regs t2 x = regs demo_mach x) \<and>
        p_sigmask (curp (sk t2)) = {SIGKILL, 2} \<inter> {1..32} - sigcantmask"
    using sendsig_sigreturn [OF fok, of 2130739300 "{SIGKILL, 2}"] by blast
  have "t1\<lparr>regs := r, uwords := uwords t1\<rparr> = t1\<lparr>regs := r\<rparr>" for r by simp
  with ret [of "\<lambda>x. if x = SP then regs t1 SP else 99" "uwords t1"] fok t1 show ?thesis
    by (auto simp: Let_def sigcantmask_def demo_mach_def)
qed

end
