(* ===== verification/Sigsys_Spec.thy ===== *)
theory Sigsys_Spec
  imports Sigframe Signal_Spec
begin

text \<open>
  The signal state of a process is consistent whatever it does: an invariant on the dispositions
  and masks, kept by every system call of \<open>Sigsys\<close>, by \<open>exec\<close>, by the taking of a signal and by
  \<open>sigreturn\<close> from any frame, also one that the user program made up.
\<close>

section \<open>The invariant\<close>

text \<open>
  \<open>sig_ok\<close>: no saved or current mask blocks \<^verbatim>\<open>SIGKILL\<close> or \<^verbatim>\<open>SIGSTOP\<close>, both have the default
  action, and the sets \<^verbatim>\<open>p_sigcatch\<close> and \<^verbatim>\<open>p_sigignore\<close> that \<open>psignal\<close> reads agree with
  the handlers in the user area.
\<close>

definition caught :: "user \<Rightarrow> nat \<Rightarrow> bool" where
  "caught uu i \<longleftrightarrow> u_signal uu i \<noteq> SIG_DFL \<and> u_signal uu i \<noteq> SIG_IGN"

definition ignored :: "user \<Rightarrow> nat \<Rightarrow> bool" where
  "ignored uu i \<longleftrightarrow> i \<noteq> SIGCONT \<and> (u_signal uu i = SIG_IGN \<or> u_signal uu i = SIG_DFL \<and> SA_IGNORE \<in> sigprop i)"

definition sig_ok :: "user \<Rightarrow> proc \<Rightarrow> bool" where
  "sig_ok uu x \<longleftrightarrow>
     (\<forall>k\<in>sigcantmask. k \<notin> p_sigmask x \<and> k \<notin> u_oldmask uu \<and> (\<forall>i. k \<notin> u_sigmask uu i) \<and> u_signal uu k = SIG_DFL) \<and>
     p_sigcatch x = {i. 0 < i \<and> i < NSIG \<and> caught uu i} \<and>
     p_sigignore x \<inter> {0<..<NSIG} = {i. 0 < i \<and> i < NSIG \<and> ignored uu i}"

definition sig_inv :: "ks \<Rightarrow> bool" where
  "sig_inv s \<longleftrightarrow> sig_ok (u s) (curp s)"

text \<open>The parts of the state on which it depends.\<close>

definition sig_part :: "user \<Rightarrow> proc \<Rightarrow> (nat \<Rightarrow> sig_t) \<times> (nat \<Rightarrow> nat set) \<times> nat set \<times> nat set \<times> nat set \<times> nat set" where
  "sig_part uu x = (u_signal uu, u_sigmask uu, u_oldmask uu, p_sigmask x, p_sigcatch x, p_sigignore x)"

lemma sig_ok_cong: "sig_part uu x = sig_part uu' x' \<Longrightarrow> sig_ok uu x = sig_ok uu' x'"
  by (simp add: sig_part_def sig_ok_def caught_def ignored_def)

lemma curp_upd_curp [simp]: "curp (upd_curp f s) = f (curp s)" "u (upd_curp f s) = u s"
  by (simp_all add: curp_def upd_curp_def)

lemma curp_set_error [simp]: "curp (set_error e s) = curp s" "sig_part (u (set_error e s)) x = sig_part (u s) x"
  by (simp_all add: curp_def set_error_def upd_user_def sig_part_def)

lemma sig_inv_set_error [simp]: "sig_inv (set_error e s) = sig_inv s"
  unfolding sig_inv_def curp_set_error by (rule sig_ok_cong) simp

lemma sig_inv_upd_user:
  assumes "\<And>x. sig_part (f (u s)) x = sig_part (u s) x" "u_procp (f (u s)) = u_procp (u s)"
  shows "sig_inv (upd_user f s) = sig_inv s"
proof -
  have "curp (upd_user f s) = curp s" using assms(2) by (simp add: curp_def upd_user_def)
  then show ?thesis using sig_ok_cong [OF assms(1)] by (simp add: sig_inv_def upd_user_def)
qed

lemma sigcantmask_eq: "sigcantmask = {SIGKILL, SIGSTOP}"
  by (simp add: sigcantmask_def)

lemma cant_facts: "k \<in> sigcantmask \<Longrightarrow> 0 < k \<and> k < NSIG \<and> k \<noteq> SIGCONT \<and> k \<noteq> SIGCHLD"
  by (auto simp: sigcantmask_def)

lemma cant_default: "k \<in> sigcantmask \<Longrightarrow> SA_IGNORE \<notin> sigprop k"
  by (auto simp: sigcantmask_def sigprop_def sigprop_table_def)

lemma sig_ok_mem:
  assumes "sig_ok uu x" "0 < i" "i < NSIG"
  shows "i \<in> p_sigcatch x \<longleftrightarrow> caught uu i" "i \<in> p_sigignore x \<longleftrightarrow> ignored uu i"
proof -
  have "p_sigcatch x = {i. 0 < i \<and> i < NSIG \<and> caught uu i}"
    and g: "p_sigignore x \<inter> {0<..<NSIG} = {i. 0 < i \<and> i < NSIG \<and> ignored uu i}"
    using assms(1) by (simp_all add: sig_ok_def)
  then show "i \<in> p_sigcatch x \<longleftrightarrow> caught uu i" using assms(2,3) by simp
  have "i \<in> p_sigignore x \<inter> {0<..<NSIG} \<longleftrightarrow> ignored uu i" unfolding g using assms(2,3) by simp
  then show "i \<in> p_sigignore x \<longleftrightarrow> ignored uu i" using assms(2,3) by simp
qed

section \<open>Operations keep it\<close>

lemma sig_ok_mask:
  "sig_ok uu x \<Longrightarrow> M \<inter> sigcantmask = {} \<Longrightarrow> sig_ok uu (x\<lparr>p_sigmask := M\<rparr>)"
  by (auto simp: sig_ok_def)

lemma setsigvec_catch:
  "p_sigcatch (setsigvec_proc sig sa x) =
     (if sa_handler sa \<noteq> SIG_DFL \<and> sa_handler sa \<noteq> SIG_IGN then insert sig (p_sigcatch x) else p_sigcatch x - {sig})"
  by (auto simp: setsigvec_proc_def Let_def set_bit_def)

lemma setsigvec_ignore:
  "p_sigignore (setsigvec_proc sig sa x) =
     (if sa_handler sa = SIG_IGN \<or> SA_IGNORE \<in> sigprop sig \<and> sa_handler sa = SIG_DFL
      then if sig \<noteq> SIGCONT then insert sig (p_sigignore x) else p_sigignore x else p_sigignore x - {sig})"
  by (simp add: setsigvec_proc_def Let_def)

lemma setsigvec_pending:
  "p_sig (setsigvec_proc sig sa x) =
     p_sig x - (if sa_handler sa = SIG_IGN \<or> SA_IGNORE \<in> sigprop sig \<and> sa_handler sa = SIG_DFL then {sig} else {})"
  by (simp add: setsigvec_proc_def Let_def)

lemma setsigvec_shape: "\<exists>f q g c. setsigvec_proc sig sa x = x\<lparr>p_flag := f, p_sig := q, p_sigignore := g, p_sigcatch := c\<rparr>"
proof -
  obtain f where f: "(if sig = SIGCHLD then x\<lparr>p_flag := set_bit (SA_NOCLDSTOP \<in> sa_flags sa) P_NOCLDSTOP (p_flag x)\<rparr> else x) = x\<lparr>p_flag := f\<rparr>"
    by (cases "sig = SIGCHLD"; cases x) auto
  obtain q where q: "p_sig_update (\<lambda>_. p_sig x) x = x" by simp
  show ?thesis unfolding setsigvec_proc_def Let_def f using q
    by (cases x; cases "sa_handler sa = SIG_IGN \<or> SA_IGNORE \<in> sigprop sig \<and> sa_handler sa = SIG_DFL") auto
qed

lemma setsigvec_ok:
  assumes ok: "sig_ok uu x" and sig: "0 < sig" "sig < NSIG" "sig \<notin> sigcantmask"
  shows "sig_ok (setsigvec_user sig sa uu) (setsigvec_proc sig sa x)"
proof -
  let ?uu = "setsigvec_user sig sa uu" and ?x = "setsigvec_proc sig sa x"
  have 1: "\<forall>k\<in>sigcantmask. k \<notin> p_sigmask ?x \<and> k \<notin> u_oldmask ?uu \<and> (\<forall>i. k \<notin> u_sigmask ?uu i) \<and> u_signal ?uu k = SIG_DFL"
    using ok sig(3) by (auto simp: sig_ok_def setsigvec_user_def setsigvec_proc_def Let_def)
  have c: "p_sigcatch x = {i. 0 < i \<and> i < NSIG \<and> caught uu i}"
    using ok by (simp add: sig_ok_def)
  have cu: "caught ?uu i = (if i = sig then sa_handler sa \<noteq> SIG_DFL \<and> sa_handler sa \<noteq> SIG_IGN else caught uu i)" for i
    by (simp add: caught_def setsigvec_user_def)
  have iu: "ignored ?uu i = (if i = sig then sig \<noteq> SIGCONT \<and> (sa_handler sa = SIG_IGN \<or> sa_handler sa = SIG_DFL \<and> SA_IGNORE \<in> sigprop sig)
      else ignored uu i)" for i
    by (simp add: ignored_def setsigvec_user_def)
  note cx = setsigvec_catch [of sig sa x] and ix = setsigvec_ignore [of sig sa x]
  have 2: "p_sigcatch ?x = {i. 0 < i \<and> i < NSIG \<and> caught ?uu i}"
    unfolding cx c using sig(1,2) by (auto simp: cu)
  have nc: "SIGCONT \<notin> p_sigignore x"
    using sig_ok_mem(2) [OF ok, of SIGCONT] by (simp add: ignored_def)
  have mem: "i \<in> p_sigignore ?x \<longleftrightarrow> ignored ?uu i" if "0 < i" "i < NSIG" for i
  proof (cases "i = sig")
    case True
    then show ?thesis using nc unfolding ix by (auto simp: iu)
  next
    case False
    then show ?thesis using sig_ok_mem(2) [OF ok that] unfolding ix by (auto simp: iu)
  qed
  have "p_sigignore ?x \<inter> {0<..<NSIG} = {i. 0 < i \<and> i < NSIG \<and> ignored ?uu i}" using mem by auto
  with 1 2 show ?thesis by (simp add: sig_ok_def)
qed

lemma setsigvec_inv:
  assumes "sig_inv s" "0 < sig" "sig < NSIG" "sig \<notin> sigcantmask"
  shows "sig_inv (setsigvec sig sa s)"
proof -
  have "curp (upd_user (setsigvec_user sig sa) s) = curp s" by (simp add: curp_def upd_user_def setsigvec_user_def)
  moreover have "u (upd_user (setsigvec_user sig sa) s) = setsigvec_user sig sa (u s)" by (simp add: upd_user_def)
  ultimately show ?thesis using setsigvec_ok [OF _ assms(2-4), of "u s" "curp s" sa] assms(1)
    by (simp add: sig_inv_def setsigvec_def)
qed

lemma sig_inv_upd_mask:
  "sig_inv s \<Longrightarrow> M (p_sigmask (curp s)) \<inter> sigcantmask = {} \<Longrightarrow> sig_inv (upd_curp (p_sigmask_update M) s)"
  using sig_ok_mask [of "u s" "curp s" "M (p_sigmask (curp s))"] by (cases "curp s") (simp add: sig_inv_def)

lemma sigaction_inv:
  assumes "sig_inv s"
  shows "sig_inv (snd (sigaction cin cout signum nsa osa tramp s))"
proof -
  let ?s = "upd_user (u_sigtramp_update (\<lambda>_. tramp)) s"
  have s: "sig_inv ?s" using assms by (subst sig_inv_upd_user) (auto simp: sig_part_def)
  have "sig_inv (setsigvec (nat signum) sa ?s)"
    if "\<not> (signum \<le> 0 \<or> int NSIG \<le> signum)" "\<not> (nsa \<noteq> 0 \<and> (nat signum = SIGKILL \<or> nat signum = SIGSTOP))" "nsa \<noteq> 0" for sa
    using that by (intro setsigvec_inv [OF s]) (auto simp: sigcantmask_eq)
  then show ?thesis using s unfolding sigaction_def Let_def by (auto split: option.split)
qed

lemma sigprocmask_inv:
  assumes "sig_inv s"
  shows "sig_inv (snd (sigprocmask cin cout how nset oset s))"
proof -
  have m: "p_sigmask (curp s) \<inter> sigcantmask = {}" using assms by (auto simp: sig_inv_def sig_ok_def)
  show ?thesis
    using assms m unfolding sigprocmask_def Let_def
    by (auto intro!: sig_inv_upd_mask split: option.split how.split)
qed

lemma sigsuspend_mask_inv:
  assumes "sig_inv s"
  shows "sig_inv (sigsuspend_mask cin nset s)"
proof -
  let ?s = "upd_user (\<lambda>uu. uu\<lparr>u_oldmask := p_sigmask (curp s), u_psflags := insert SAS_OLDMASK (u_psflags uu)\<rparr>) s"
  have "curp ?s = curp s" by (simp add: curp_def upd_user_def)
  then have "sig_inv ?s" using assms by (auto simp: sig_inv_def sig_ok_def caught_def ignored_def upd_user_def)
  then show ?thesis unfolding sigsuspend_mask_def Let_def by (rule sig_inv_upd_mask) auto
qed

lemma sigaltstack_inv: "sig_inv s \<Longrightarrow> sig_inv (snd (sigaltstack cin cout nss oss s))"
  unfolding sigaltstack_def Let_def by (auto simp: sig_inv_upd_user sig_part_def split: option.split)

lemma sigstack_inv: "sig_inv s \<Longrightarrow> sig_inv (snd (sigstack cin cout nss oss s))"
  unfolding sigstack_def Let_def by (auto simp: sig_inv_upd_user sig_part_def split: option.split)

lemma set_onstack_inv [simp]: "sig_inv (set_onstack b s) = sig_inv s"
  unfolding set_onstack_def by (rule sig_inv_upd_user) (simp_all add: sig_part_def)

lemma sigreturn_inv:
  assumes "sig_inv (sk t)" "sigreturn m t = Ret t'"
  shows "sig_inv (sk t')"
proof -
  have "sig_inv (set_onstack b (set_error EJUSTRETURN (sk t)))" for b using assms(1) by simp
  then show ?thesis using assms by (auto simp: sigreturn_def Let_def split: if_splits intro!: sig_inv_upd_mask)
qed

text \<open>The loop of \<open>execsigs\<close> over the caught signals.\<close>

lemma execsigs_loop:
  fixes xs :: "nat list"
  assumes "p = u_procp (u s)"
  defines "s' \<equiv> fold (execsigs_one p) xs s"
  shows "u_signal (u s') = (\<lambda>i. if i \<in> set xs then SIG_DFL else u_signal (u s) i) \<and>
    u_sigmask (u s') = u_sigmask (u s) \<and> u_oldmask (u s') = u_oldmask (u s) \<and> u_procp (u s') = u_procp (u s) \<and>
    p_sigmask (curp s') = p_sigmask (curp s) \<and> p_sigcatch (curp s') = p_sigcatch (curp s) - set xs \<and>
    p_sigignore (curp s') = p_sigignore (curp s) \<union> {i \<in> set xs. i \<noteq> SIGCONT \<and> SA_IGNORE \<in> sigprop i} \<and>
    p_sig (curp s') = p_sig (curp s) - {i \<in> set xs. SA_IGNORE \<in> sigprop i}"
  using assms(1) unfolding s'_def
proof (induction xs arbitrary: s)
  case Nil
  then show ?case by simp
next
  case (Cons x xs)
  let ?s = "execsigs_one p x s"
  have p: "p = u_procp (u ?s)" using Cons.prems by (simp add: execsigs_one_def Let_def upd_user_def upd_proc_def)
  have 1: "u_signal (u ?s) = (u_signal (u s))(x := SIG_DFL)" "u_sigmask (u ?s) = u_sigmask (u s)"
    "u_oldmask (u ?s) = u_oldmask (u s)" "u_procp (u ?s) = u_procp (u s)" "p_sigmask (curp ?s) = p_sigmask (curp s)"
    "p_sigcatch (curp ?s) = p_sigcatch (curp s) - {x}"
    "p_sigignore (curp ?s) = p_sigignore (curp s) \<union> (if x \<noteq> SIGCONT \<and> SA_IGNORE \<in> sigprop x then {x} else {})"
    "p_sig (curp ?s) = p_sig (curp s) - (if SA_IGNORE \<in> sigprop x then {x} else {})"
    using Cons.prems by (auto simp: execsigs_one_def Let_def upd_user_def upd_proc_def curp_def)
  show ?case using Cons.IH [OF p] unfolding fold_simps(2) o_apply 1 by (simp add: fun_eq_iff) auto
qed

definition exec_signal :: "ks \<Rightarrow> ks \<Rightarrow> bool" where
  "exec_signal s s' \<longleftrightarrow>
     u_signal (u s') = (\<lambda>i. if i \<in> p_sigcatch (curp s) then SIG_DFL else u_signal (u s) i) \<and>
     u_sigmask (u s') = u_sigmask (u s) \<and> u_oldmask (u s') = u_oldmask (u s) \<and>
     p_sigmask (curp s') = p_sigmask (curp s) \<and> p_sigcatch (curp s') = {} \<and>
     p_sigignore (curp s') = p_sigignore (curp s) \<union> {i \<in> p_sigcatch (curp s). i \<noteq> SIGCONT \<and> SA_IGNORE \<in> sigprop i} \<and>
     p_sig (curp s') = p_sig (curp s) - {i \<in> p_sigcatch (curp s). SA_IGNORE \<in> sigprop i} \<and>
     u_psflags (u s') = {} \<and> ss_flags (u_sigstk (u s')) = {SA_DISABLE}"

lemma execsigs_spec:
  assumes "finite (p_sigcatch (curp s))"
  shows "exec_signal s (execsigs (u_procp (u s)) s)"
proof -
  define s1 where "s1 = fold (execsigs_one (u_procp (u s))) (sorted_list_of_set (p_sigcatch (curp s))) s"
  define s2 where "s2 = execsigs (u_procp (u s)) s"
  have s2: "s2 = upd_user (\<lambda>uu. uu\<lparr>u_sigstk := \<lparr>ss_base = 0, ss_size = 0, ss_flags = {SA_DISABLE}\<rparr>, u_psflags := {}\<rparr>) s1"
    by (simp add: execsigs_def curp_def s1_def s2_def)
  have "curp s2 = curp s1" "u_signal (u s2) = u_signal (u s1)" "u_sigmask (u s2) = u_sigmask (u s1)"
    "u_oldmask (u s2) = u_oldmask (u s1)" "u_psflags (u s2) = {}" "ss_flags (u_sigstk (u s2)) = {SA_DISABLE}"
    unfolding s2 by (simp_all add: curp_def upd_user_def)
  then show ?thesis using execsigs_loop [of _ s "sorted_list_of_set (p_sigcatch (curp s))", OF refl] assms
    unfolding s1_def [symmetric] s2_def [symmetric] by (simp add: exec_signal_def)
qed

lemma sig_inv_catch: "sig_inv s \<Longrightarrow> p_sigcatch (curp s) = {i. 0 < i \<and> i < NSIG \<and> caught (u s) i}"
  by (simp add: sig_inv_def sig_ok_def)

lemma sig_inv_finite: "sig_inv s \<Longrightarrow> finite (p_sigcatch (curp s))"
  by (rule finite_subset [of _ "{..<NSIG}"]) (auto simp: sig_inv_catch)

lemma exec_signal_inv:
  assumes inv: "sig_inv s" and ex: "exec_signal s s'"
  shows "sig_inv s'"
proof -
  have cu: "\<not> caught (u s') i" if "0 < i" "i < NSIG" for i
    using ex sig_inv_catch [OF inv] that by (auto simp: exec_signal_def caught_def)
  have iu: "ignored (u s') i \<longleftrightarrow> ignored (u s) i \<or> i \<in> p_sigcatch (curp s) \<and> i \<noteq> SIGCONT \<and> SA_IGNORE \<in> sigprop i"
    if "0 < i" "i < NSIG" for i
    using ex sig_inv_catch [OF inv] that by (auto simp: exec_signal_def caught_def ignored_def)
  have g: "p_sigignore (curp s) \<inter> {0<..<NSIG} = {i. 0 < i \<and> i < NSIG \<and> ignored (u s) i}"
    using inv by (simp add: sig_inv_def sig_ok_def)
  have "p_sigignore (curp s') \<inter> {0<..<NSIG} =
      (p_sigignore (curp s) \<inter> {0<..<NSIG}) \<union> {i \<in> p_sigcatch (curp s). i \<noteq> SIGCONT \<and> SA_IGNORE \<in> sigprop i} \<inter> {0<..<NSIG}"
    using ex by (simp add: exec_signal_def Int_Un_distrib2)
  also have "\<dots> = {i. 0 < i \<and> i < NSIG \<and> ignored (u s') i}" unfolding g using iu by auto
  finally have "p_sigignore (curp s') \<inter> {0<..<NSIG} = {i. 0 < i \<and> i < NSIG \<and> ignored (u s') i}" .
  moreover have "p_sigcatch (curp s') = {i. 0 < i \<and> i < NSIG \<and> caught (u s') i}"
    using ex cu by (auto simp: exec_signal_def)
  ultimately show ?thesis using inv ex by (auto simp: sig_inv_def sig_ok_def exec_signal_def)
qed

text \<open>Taking a signal that is not at its default action.\<close>

lemma postsig_mask_inv:
  assumes inv: "sig_inv s" and sig: "u_signal (u s) sig \<noteq> SIG_DFL"
  shows "sig_inv (snd (postsig_mask sig s)) \<and> fst (postsig_mask sig s) \<inter> sigcantmask = {}"
proof -
  have k: "sig \<notin> sigcantmask" "u_sigmask (u s) sig \<inter> sigcantmask = {}" "p_sigmask (curp s) \<inter> sigcantmask = {}"
    "u_oldmask (u s) \<inter> sigcantmask = {}"
    using inv sig by (auto simp: sig_inv_def sig_ok_def)
  let ?s = "set_error E_OK s"
  define s1 where "s1 = (if SAS_OLDMASK \<in> u_psflags (u ?s)
     then upd_user (\<lambda>uu. uu\<lparr>u_psflags := u_psflags uu - {SAS_OLDMASK}\<rparr>) ?s else ?s)"
  have s1: "sig_inv s1" "u_sigmask (u s1) = u_sigmask (u s)" "p_sigmask (curp s1) = p_sigmask (curp s)"
    using inv by (simp_all add: s1_def sig_inv_upd_user sig_part_def) (simp_all add: upd_user_def set_error_def curp_def)
  have "sig_inv (upd_curp (p_sigmask_update (\<lambda>m. m \<union> (u_sigmask (u s1) sig \<union> {sig}))) s1)"
    using k s1(2,3) by (intro sig_inv_upd_mask [OF s1(1)]) auto
  then have "sig_inv (snd (postsig_mask sig s))"
    unfolding postsig_mask_def Let_def s1_def [symmetric] snd_conv by (simp add: sig_inv_upd_user sig_part_def)
  moreover have "fst (postsig_mask sig s) \<inter> sigcantmask = {}"
    using k(3,4) unfolding postsig_mask_def Let_def fst_conv by (simp add: set_error_def upd_user_def curp_def)
  ultimately show ?thesis by simp
qed

text \<open>A running process whose stack is trashed gets the default action of \<^verbatim>\<open>SIGILL\<close> and the signal.\<close>

lemma fatalsig_inv:
  assumes inv: "sig_inv s" and run: "p_stat (curp s) = SRUN"
  shows "\<exists>s'. fatalsig SIGILL s = Ret s' \<and> sig_inv s' \<and> SIGILL \<in> p_sig (curp s')"
proof -
  define f where "f = (\<lambda>x::proc. x\<lparr>p_sigignore := p_sigignore x - {SIGILL}, p_sigcatch := p_sigcatch x - {SIGILL}, p_sigmask := p_sigmask x - {SIGILL}\<rparr>)"
  let ?g = "\<lambda>uu. uu\<lparr>u_signal := (u_signal uu)(SIGILL := SIG_DFL)\<rparr>"
  define s1 where "s1 = upd_curp f (upd_user ?g s)"
  have s1: "curp s1 = f (curp s)" "u s1 = ?g (u s)" by (simp_all add: s1_def) (simp_all add: upd_user_def curp_def)
  have ill: "SA_IGNORE \<notin> sigprop SIGILL" "SA_STOP \<notin> sigprop SIGILL" "SIGILL \<notin> sigcantmask"
    by (auto simp: sigprop_def sigprop_table_def sigcantmask_def)
  have ok: "sig_ok (?g (u s)) (f (curp s))"
    using inv ill unfolding sig_inv_def sig_ok_def f_def caught_def ignored_def by auto
  let ?p = "u_procp (u s1)" and ?x = "procs s1 (u_procp (u s1))"
  have x: "?x = f (curp s)" using s1(1) by (simp add: curp_def)
  have dfl: "psignal_action SIGILL ?x \<noteq> A_HOLD" by (simp add: x f_def psignal_action_def)
  obtain ni where "psignal ?p SIGILL s1 = Ret (upd_proc ?p (\<lambda>_. ?x\<lparr>p_sig := posted SIGILL (p_sig ?x), p_nice := ni\<rparr>) s1)"
    by (rule psignal_deliver [of s1 ?p SIGILL]) (use ill dfl run x in \<open>auto simp: f_def Let_def\<close>)
  moreover have "fatalsig SIGILL s = psignal ?p SIGILL s1" by (simp add: fatalsig_def s1_def f_def Let_def)
  moreover have "sig_ok (u s1) (?x\<lparr>p_sig := q, p_nice := ni\<rparr>)" for q ni
    using ok sig_ok_cong [of "u s1" "?x\<lparr>p_sig := q, p_nice := ni\<rparr>" "u s1" ?x] unfolding x s1(2) [symmetric] by (simp add: sig_part_def)
  ultimately show ?thesis by (simp add: sig_inv_def curp_def upd_proc_def posted_def)
qed

lemma sendsig_inv:
  assumes inv: "sig_inv (sk t)" and at: "frame_fits sig t \<or> p_stat (curp (sk t)) = SRUN" and ret: "sendsig m p sig msk t = Ret t'"
  shows "sig_inv (sk t')"
proof (cases "frame_fits sig t")
  case True
  then show ?thesis using sendsig_frame [OF True, of m p msk] inv ret by auto
next
  case False
  then have "sendsig m p sig msk t = bind_outcome (fatalsig SIGILL (sk t)) (\<lambda>s. Ret (t\<lparr>sk := s\<rparr>))"
    by (auto simp: sendsig_def Let_def frame_fits_def sig_top_def)
  then show ?thesis using fatalsig_inv [OF inv] at False ret by (auto simp: outcome_simps)
qed

text \<open>
  A signal is taken by a process that runs, or into a frame that fits: when it does not fit, \<open>sendsig\<close> posts \<^verbatim>\<open>SIGILL\<close> to
  the process itself.
\<close>

lemma postsig_inv:
  assumes inv: "sig_inv (sk t)" and act: "u_signal (u (sk t)) sig \<noteq> SIG_DFL"
    and at: "frame_fits sig (t\<lparr>sk := snd (postsig_mask sig (upd_curp (p_sig_update (\<lambda>k. k - {sig})) (sk t)))\<rparr>) \<or> p_stat (curp (sk t)) = SRUN"
    and ret: "postsig m core sig t = Ret (Handles t')"
  shows "sig_inv (sk t')"
proof -
  let ?s = "upd_curp (p_sig_update (\<lambda>k. k - {sig})) (sk t)"
  let ?r = "postsig_mask sig ?s"
  have s: "sig_inv ?s" using inv sig_ok_cong [of "u (sk t)" "p_sig_update (\<lambda>k. k - {sig}) (curp (sk t))" "u (sk t)" "curp (sk t)"]
    by (simp add: sig_inv_def sig_part_def)
  have r: "sig_inv (snd ?r)" using postsig_mask_inv [OF s] act by simp
  have "p_stat (curp (snd ?r)) = p_stat (curp ?s)"
    by (simp add: postsig_mask_def Let_def) (simp add: curp_def upd_user_def upd_curp_def set_error_def upd_proc_def)
  then have run: "frame_fits sig (t\<lparr>sk := snd ?r\<rparr>) \<or> p_stat (curp (sk (t\<lparr>sk := snd ?r\<rparr>))) = SRUN" using at by simp
  obtain h where "sendsig m h sig (fst ?r) (t\<lparr>sk := snd ?r\<rparr>) = Ret t'"
    using ret act unfolding postsig_def Let_def by (auto simp: upd_sk_def outcome_simps split: sig_t.splits)
  then show ?thesis by (rule sendsig_inv [OF _ run, rotated]) (simp add: r)
qed

section \<open>A process at work\<close>

text \<open>
  One step of the signal state of a running process: a system call with any arguments and any contents of
  user memory, an \<open>exec\<close>, the taking of a signal, with room for its frame or without, and the user program between calls, which may write
  any registers and any word of its memory.
\<close>

inductive sig_step :: "umem \<Rightarrow> sigmach \<Rightarrow> sigmach \<Rightarrow> bool" for m where
  call_sigaction: "sig_step m t (t\<lparr>sk := snd (sigaction cin cout signum nsa osa tramp (sk t))\<rparr>)"
| call_sigprocmask: "sig_step m t (t\<lparr>sk := snd (sigprocmask cinm cout how nset oset (sk t))\<rparr>)"
| call_sigpending: "sig_step m t (t\<lparr>sk := snd (sigpending cout nset (sk t))\<rparr>)"
| call_sigsuspend: "sig_step m t (t\<lparr>sk := sigsuspend_mask cinm nset (sk t)\<rparr>)"
| call_sigaltstack: "sig_step m t (t\<lparr>sk := snd (sigaltstack cins cout nss oss (sk t))\<rparr>)"
| call_sigstack: "sig_step m t (t\<lparr>sk := snd (sigstack cint cout nss oss (sk t))\<rparr>)"
| call_sigreturn: "sigreturn m t = Ret t' \<Longrightarrow> sig_step m t t'"
| exec: "sig_step m t (t\<lparr>sk := execsigs (u_procp (u (sk t))) (sk t)\<rparr>)"
| take: "u_signal (u (sk t)) sig \<noteq> SIG_DFL \<Longrightarrow>
    frame_fits sig (t\<lparr>sk := snd (postsig_mask sig (upd_curp (p_sig_update (\<lambda>k. k - {sig})) (sk t)))\<rparr>) \<or> p_stat (curp (sk t)) = SRUN \<Longrightarrow>
    postsig m core sig t = Ret (Handles t') \<Longrightarrow> sig_step m t t'"
| user_code: "sig_step m t (t\<lparr>regs := r, uwords := w\<rparr>)"

lemma sig_step_inv: "sig_step m t t' \<Longrightarrow> sig_inv (sk t) \<Longrightarrow> sig_inv (sk t')"
proof (induction rule: sig_step.induct)
  case (call_sigaction t cin cout signum nsa osa tramp)
  then show ?case using sigaction_inv by simp
next
  case (call_sigprocmask t cinm cout how nset oset)
  then show ?case using sigprocmask_inv by simp
next
  case (call_sigpending t cout nset)
  then show ?case by (simp add: sigpending_def)
next
  case (call_sigsuspend t cinm nset)
  then show ?case using sigsuspend_mask_inv by simp
next
  case (call_sigaltstack t cins cout nss oss)
  then show ?case using sigaltstack_inv by simp
next
  case (call_sigstack t cint cout nss oss)
  then show ?case using sigstack_inv by simp
next
  case (call_sigreturn t t')
  then show ?case using sigreturn_inv by simp
next
  case (exec t)
  then show ?case using exec_signal_inv [OF _ execsigs_spec [OF sig_inv_finite]] by simp
next
  case (take t sig core t')
  then show ?case using postsig_inv [OF take.prems take.hyps(1,2)] by simp
next
  case (user_code t r w)
  then show ?case by simp
qed

text \<open>Process 0 after \<open>siginit\<close>, from which every process inherits its signal state.\<close>

lemma siginit_u: "u (siginit p s) = u s"
proof -
  have "u (fold (\<lambda>i s. if c i then upd_proc p (g i) s else s) xs s) = u s" for c g xs
    by (induction xs arbitrary: s) (simp_all add: upd_proc_def)
  then show ?thesis by (simp add: siginit_def)
qed

lemma siginit_inv:
  assumes zero: "p_sigmask (curp s) = {}" "p_sigcatch (curp s) = {}" "p_sigignore (curp s) = {}"
    and uz: "u_signal (u s) = (\<lambda>_. SIG_DFL)" "u_sigmask (u s) = (\<lambda>_. {})" "u_oldmask (u s) = {}"
  shows "sig_inv (siginit (u_procp (u s)) s)"
proof -
  define f where "f = (\<lambda>(p::nat) i s. if SA_IGNORE \<in> sigprop i \<and> i \<noteq> SIGCONT then upd_proc p (p_sigignore_update (insert i)) s else s)"
  have loop: "u (fold (f p) xs s) = u s \<and> p_sigmask (procs (fold (f p) xs s) p) = p_sigmask (procs s p) \<and>
      p_sigcatch (procs (fold (f p) xs s) p) = p_sigcatch (procs s p) \<and>
      p_sigignore (procs (fold (f p) xs s) p) = p_sigignore (procs s p) \<union> {i \<in> set xs. SA_IGNORE \<in> sigprop i \<and> i \<noteq> SIGCONT}" for p xs
    by (induction xs rule: rev_induct) (auto simp: upd_proc_def f_def)
  have "siginit (u_procp (u s)) s = fold (f (u_procp (u s))) [0..<NSIG] s" by (simp add: siginit_def f_def)
  with loop [of "u_procp (u s)" "[0..<NSIG]"] zero uz show ?thesis
    by (auto simp: sig_inv_def sig_ok_def curp_def caught_def ignored_def)
qed

text \<open>
  C15. \<^verbatim>\<open>SIGKILL\<close> and \<^verbatim>\<open>SIGSTOP\<close> can never be blocked, caught or ignored. From the signal state that \<open>siginit\<close>
  sets up, whatever sequence of \<open>sigaction\<close>, \<open>sigprocmask\<close>, \<open>sigpending\<close>, \<open>sigsuspend\<close>, \<open>sigaltstack\<close>,
  \<open>sigstack\<close>, \<open>sigreturn\<close> and \<open>exec\<close> with whatever arguments, of signals taken and of user code that forges signal frames is
  run, the mask and the sets of caught and ignored signals do not contain them, and the sets of caught
  and ignored signals are those of the handlers in the user area.
\<close>

theorem sig_state_safe:
  assumes "(sig_step m)\<^sup>*\<^sup>* t t'" "sk t = siginit (u_procp (u s)) s"
    "p_sigmask (curp s) = {}" "p_sigcatch (curp s) = {}" "p_sigignore (curp s) = {}"
    "u_signal (u s) = (\<lambda>_. SIG_DFL)" "u_sigmask (u s) = (\<lambda>_. {})" "u_oldmask (u s) = {}"
  shows "let x = curp (sk t'); uu = u (sk t') in
    p_sigmask x \<inter> sigcantmask = {} \<and> p_sigcatch x \<inter> sigcantmask = {} \<and> p_sigignore x \<inter> sigcantmask = {} \<and>
    p_sigcatch x = {i. 0 < i \<and> i < NSIG \<and> caught uu i} \<and>
    p_sigignore x \<inter> {0<..<NSIG} = {i. 0 < i \<and> i < NSIG \<and> ignored uu i}"
proof -
  have "sig_inv (sk t')"
    using assms(1) by (induction rule: rtranclp_induct) (use siginit_inv [OF assms(3-8)] assms(2) sig_step_inv in auto)
  then have ok: "sig_ok (u (sk t')) (curp (sk t'))" by (simp add: sig_inv_def)
  have "k \<notin> p_sigignore (curp (sk t')) \<and> k \<notin> p_sigcatch (curp (sk t')) \<and> k \<notin> p_sigmask (curp (sk t'))" if "k \<in> sigcantmask" for k
    using sig_ok_mem [OF ok, of k] cant_facts [OF that] cant_default [OF that] ok that
    by (simp add: sig_ok_def ignored_def caught_def)
  moreover have "p_sigcatch (curp (sk t')) = {i. 0 < i \<and> i < NSIG \<and> caught (u (sk t')) i}"
    "p_sigignore (curp (sk t')) \<inter> {0<..<NSIG} = {i. 0 < i \<and> i < NSIG \<and> ignored (u (sk t')) i}"
    using ok by (simp_all add: sig_ok_def)
  ultimately show ?thesis unfolding Let_def disjoint_iff by (intro conjI) blast+
qed

theorem sig_state_safe_witness:
  "let t = demo_mach\<lparr>sk := siginit (u_procp (u (sk demo_mach))) (sk demo_mach)\<rparr>;
       t' = t\<lparr>sk := snd (sigprocmask (\<lambda>_. Some {2, 9, 17}) (\<lambda>_. True) SIG_SETMASK 1 0 (sk t))\<rparr>
   in p_sigmask (curp (sk t')) \<inter> sigcantmask = {} \<and> p_sigmask (curp (sk t')) = {2}"
proof -
  define t where "t = demo_mach\<lparr>sk := siginit (u_procp (u (sk demo_mach))) (sk demo_mach)\<rparr>"
  let ?t' = "t\<lparr>sk := snd (sigprocmask (\<lambda>_. Some {2, 9, 17}) (\<lambda>_. True) SIG_SETMASK 1 0 (sk t))\<rparr>"
  have step: "(sig_step demo_umem)\<^sup>*\<^sup>* t ?t'" by (rule r_into_rtranclp) (rule sig_step.call_sigprocmask)
  have "p_sigmask (curp (sk ?t')) \<inter> sigcantmask = {}"
    using sig_state_safe [OF step, of "sk demo_mach"]
    by (simp add: t_def demo_mach_def ks_zero_def curp_def proc_zero_def user_zero_def Let_def)
  moreover have "p_sigmask (curp (sk ?t')) = {2}" by (simp add: sigprocmask_def Let_def sigcantmask_def insert_Diff_if)
  ultimately show ?thesis by (simp add: t_def Let_def)
qed

section \<open>Saving and restoring a disposition\<close>

lemma setsigvec_proc_restore:
  assumes "sig \<in> p_sigcatch x \<longleftrightarrow> caught uu sig" "sig \<in> p_sigignore x \<longleftrightarrow> ignored uu sig"
    "sa_handler old = u_signal uu sig" "SA_NOCLDSTOP \<in> sa_flags old \<longleftrightarrow> P_NOCLDSTOP \<in> p_flag x"
  shows "\<exists>d. d \<subseteq> {sig} \<and> setsigvec_proc sig old (setsigvec_proc sig sa x) = x\<lparr>p_sig := p_sig x - d\<rparr>"
proof -
  let ?ign = "\<lambda>sa. sa_handler sa = SIG_IGN \<or> SA_IGNORE \<in> sigprop sig \<and> sa_handler sa = SIG_DFL"
  have flag: "p_flag (setsigvec_proc sig old (setsigvec_proc sig sa x)) = p_flag x"
    using assms(4) by (auto simp: setsigvec_proc_def Let_def set_bit_def)
  have catch: "p_sigcatch (setsigvec_proc sig old (setsigvec_proc sig sa x)) = p_sigcatch x"
    using assms(1,3) unfolding setsigvec_catch caught_def by (cases "sig \<in> p_sigcatch x") (auto simp: insert_absorb)
  have ign: "p_sigignore (setsigvec_proc sig old (setsigvec_proc sig sa x)) = p_sigignore x"
    using assms(2,3) unfolding setsigvec_ignore ignored_def by (cases "sig \<in> p_sigignore x") (auto simp: insert_absorb)
  have pend: "p_sig (setsigvec_proc sig old (setsigvec_proc sig sa x)) = p_sig x - (if ?ign sa \<or> ?ign old then {sig} else {})"
    unfolding setsigvec_pending by auto
  obtain f q g c where eq: "setsigvec_proc sig old (setsigvec_proc sig sa x) = x\<lparr>p_flag := f, p_sig := q, p_sigignore := g, p_sigcatch := c\<rparr>"
    using setsigvec_shape [of sig old "setsigvec_proc sig sa x"] setsigvec_shape [of sig sa x] by fastforce
  have "f = p_flag x" "g = p_sigignore x" "c = p_sigcatch x" "q = p_sig x - (if ?ign sa \<or> ?ign old then {sig} else {})"
    using flag catch ign pend unfolding eq by simp_all
  then have "setsigvec_proc sig old (setsigvec_proc sig sa x) = x\<lparr>p_sig := p_sig x - (if ?ign sa \<or> ?ign old then {sig} else {})\<rparr>"
    unfolding eq by simp
  then show ?thesis by (intro exI [of _ "if ?ign sa \<or> ?ign old then {sig} else {}"]) simp
qed

text \<open>
  C31. The usual way to change a disposition for a while is sound. If a process sets a new action for a signal
  with \<open>sigaction\<close> and later sets the old one that the first call reported, its handler, mask, restart
  and stack flags and its sets of caught and ignored signals are what they were; a child-stop flag too,
  when the signal is \<^verbatim>\<open>SIGCHLD\<close> (for another signal it was not touched). Only an occurrence of the signal that was pending may be lost.
\<close>

theorem sigaction_restore:
  assumes "sig_inv s" "0 < signum" "signum < int NSIG" "nat signum \<notin> sigcantmask" "nsa \<noteq> 0" "osa \<noteq> 0" "cout osa"
    "cin nsa = Some sa"
  shows "\<exists>old s1 s2. sigaction cin cout signum nsa osa tramp s = (Some old, s1) \<and> u_signal (u s1) (nat signum) = sa_handler sa \<and>
    sigaction (\<lambda>_. Some old) cout signum nsa 0 tramp s1 = (None, s2) \<and> u_error (u s2) = E_OK \<and>
    u s2 = (u s)\<lparr>u_sigtramp := tramp, u_error := E_OK\<rparr> \<and>
    (\<exists>x. x \<subseteq> {nat signum} \<and> curp s2 = (curp s)\<lparr>p_sig := p_sig (curp s) - x\<rparr>)"
proof -
  let ?sig = "nat signum" and ?s = "upd_user (u_sigtramp_update (\<lambda>_. tramp)) s"
  let ?old = "sigaction_old (nat signum) ?s"
  define s1 where "s1 = set_error E_OK (setsigvec ?sig sa ?s)"
  define s2 where "s2 = set_error E_OK (setsigvec ?sig ?old (upd_user (u_sigtramp_update (\<lambda>_. tramp)) s1))"
  have nk: "\<not> (?sig = SIGKILL \<or> ?sig = SIGSTOP)" and rng: "\<not> (signum \<le> 0 \<or> int NSIG \<le> signum)"
    using assms(2-4) by (auto simp: sigcantmask_def)
  have 1: "sigaction cin cout signum nsa osa tramp s = (Some ?old, s1)"
    using nk rng assms(5-8) by (simp add: sigaction_def Let_def s1_def)
  have 2: "sigaction (\<lambda>_. Some ?old) cout signum nsa 0 tramp s1 = (None, s2)"
    using nk rng assms(5) by (simp add: sigaction_def Let_def s2_def)
  have m: "u_sigmask (u s) ?sig - sigcantmask = u_sigmask (u s) ?sig" "0 < ?sig" "?sig < NSIG"
    using assms(1-3) by (auto simp: sig_inv_def sig_ok_def)
  have mem: "?sig \<in> p_sigcatch (curp s) \<longleftrightarrow> caught (u s) ?sig" "?sig \<in> p_sigignore (curp s) \<longleftrightarrow> ignored (u s) ?sig"
    using sig_ok_mem [OF _ m(2,3)] assms(1) by (simp_all add: sig_inv_def)
  have u2: "u s2 = (u s)\<lparr>u_sigtramp := tramp, u_error := E_OK\<rparr>"
    using m(1) by (cases "u s") (auto simp: s2_def s1_def setsigvec_def sigaction_old_def setsigvec_user_def set_error_def upd_user_def
      upd_curp_def set_bit_def insert_absorb)
  have "curp s2 = setsigvec_proc ?sig ?old (setsigvec_proc ?sig sa (curp s))"
    by (simp add: s2_def s1_def setsigvec_def) (simp add: curp_def upd_user_def upd_curp_def set_error_def setsigvec_user_def upd_proc_def)
  moreover have "\<exists>d. d \<subseteq> {?sig} \<and> setsigvec_proc ?sig ?old (setsigvec_proc ?sig sa (curp s)) = (curp s)\<lparr>p_sig := p_sig (curp s) - d\<rparr>"
    by (rule setsigvec_proc_restore [OF mem]) (auto simp: sigaction_old_def upd_user_def curp_def)
  moreover have "u_signal (u s1) ?sig = sa_handler sa"
    by (simp add: s1_def setsigvec_def upd_curp_def upd_user_def set_error_def setsigvec_user_def)
  moreover have "u_error (u s2) = E_OK" by (simp add: s2_def set_error_def)
  ultimately show ?thesis
    using 1 2 u2 by (intro exI [of _ ?old] exI [of _ s1] exI [of _ s2]) simp
qed

theorem sigaction_restore_witness:
  "let s = siginit 0 (sk demo_mach);
       sa = \<lparr>sa_handler = Handler 2130739300, sa_mask = {3, 9}, sa_flags = {SA_RESTART}\<rparr>;
       r = sigaction (\<lambda>_. Some sa) (\<lambda>_. True) 2 1 1 5 s
   in u_signal (u (snd r)) 2 = Handler 2130739300 \<and>
      u_signal (u (snd (sigaction (\<lambda>_. fst r) (\<lambda>_. True) 2 1 0 5 (snd r)))) 2 = SIG_DFL"
proof -
  let ?sa = "\<lparr>sa_handler = Handler 2130739300, sa_mask = {3, 9}, sa_flags = {SA_RESTART}\<rparr>"
  define s where "s = siginit 0 (sk demo_mach)"
  have "sig_inv (siginit (u_procp (u (sk demo_mach))) (sk demo_mach))"
    by (rule siginit_inv) (simp_all add: demo_mach_def ks_zero_def curp_def proc_zero_def user_zero_def)
  then have inv: "sig_inv s" by (simp add: s_def demo_mach_def ks_zero_def user_zero_def)
  have dfl: "u_signal (u s) 2 = SIG_DFL"
    by (simp add: s_def siginit_u demo_mach_def ks_zero_def user_zero_def)
  from sigaction_restore [OF inv, of 2 1 1 "\<lambda>_. True" "\<lambda>_. Some ?sa" ?sa 5]
  obtain old s1 s2 where "sigaction (\<lambda>_. Some ?sa) (\<lambda>_. True) 2 1 1 5 s = (Some old, s1)" "u_signal (u s1) 2 = Handler 2130739300"
    "sigaction (\<lambda>_. Some old) (\<lambda>_. True) 2 1 0 5 s1 = (None, s2)" "u s2 = (u s)\<lparr>u_sigtramp := 5, u_error := E_OK\<rparr>"
    by (auto simp: sigcantmask_def)
  then show ?thesis unfolding s_def [symmetric] Let_def by (simp add: dfl)
qed

end
