(* ===== verification/Vmmeter.thy ===== *)
theory Vmmeter
  imports Sched
begin

text \<open>
  The once-a-second statistics of \<^verbatim>\<open>src/sys/kernel/vm_sched.c\<close>: \<open>vmmeter\<close>, \<open>vmtotal\<close> and the load averages,
  with the structures of \<^verbatim>\<open>src/sys/include/vmmeter.h\<close>. The kernel is configured with \<^verbatim>\<open>UCB_METER\<close>. The
  ten counters of \<^verbatim>\<open>struct vmrate\<close> and \<^verbatim>\<open>struct vmsum\<close>, which the code runs through by pointer, are
  lists in the order of the fields.
\<close>

section \<open>Data\<close>

record vmtotal =
  t_rq :: int
  t_dw :: int
  t_sl :: int
  t_sw :: int
  t_vm :: int
  t_avm :: int
  t_rm :: nat
  t_arm :: nat
  t_vmtxt :: int
  t_avmtxt :: int
  t_rmtxt :: nat
  t_armtxt :: nat
  t_free :: nat

definition vmtotal_zero :: vmtotal where
  "vmtotal_zero = \<lparr>t_rq = 0, t_dw = 0, t_sl = 0, t_sw = 0, t_vm = 0, t_avm = 0, t_rm = 0, t_arm = 0, t_vmtxt = 0,
     t_avmtxt = 0, t_rmtxt = 0, t_armtxt = 0, t_free = 0\<rparr>"

text \<open>
  \<open>p_dsize\<close> and \<open>p_ssize\<close> of every process, which other parts of the model do not use, are kept here.
  \<^verbatim>\<open>V_SWPIN\<close> and \<^verbatim>\<open>V_SWPOUT\<close> are the places of the last two counters.
\<close>

record vmstat =
  freemem :: nat
  avefree :: nat
  avefree30 :: nat
  avenrun :: "int list"
  total :: vmtotal
  cnt :: "nat list"
  rate :: "nat list"
  vsum :: "int list"
  p_dsize :: "nat \<Rightarrow> nat"
  p_stksize :: "nat \<Rightarrow> nat"

abbreviation (input) V_SWPIN :: nat where "V_SWPIN \<equiv> 8"
abbreviation (input) V_SWPOUT :: nat where "V_SWPOUT \<equiv> 9"
abbreviation (input) USIZE :: nat where "USIZE \<equiv> 3072"
abbreviation (input) MAXSLP :: int where "MAXSLP \<equiv> 20"

definition u16 :: "nat \<Rightarrow> nat" where
  "u16 n = n mod 65536"

section \<open>Averages\<close>

definition ave :: "nat \<Rightarrow> nat \<Rightarrow> nat \<Rightarrow> nat" where
  "ave smooth c t = u16 (((t - 1) * smooth + c) div t)"

text \<open>
  The load averages are fixed-point numbers with 8 bits after the point in a \<^verbatim>\<open>short\<close>; the shift of a negative
  value rounds down.
\<close>

definition cexp :: "int list" where
  "cexp = [235, 251, 254]"

definition loadav_one :: "int \<Rightarrow> int \<Rightarrow> int \<Rightarrow> int" where
  "loadav_one n c a = s16 (s32 (c * (a - n * 256) + n * 65536) div 256)"

definition loadav :: "int list \<Rightarrow> int \<Rightarrow> int list" where
  "loadav avg n = map2 (loadav_one n) cexp avg"

section \<open>Totals\<close>

text \<open>What one process adds to the totals, and whether it counts as running.\<close>

definition vmtotal_active :: "nat \<Rightarrow> bool \<Rightarrow> vmtotal \<Rightarrow> vmtotal" where
  "vmtotal_active sz loaded t =
     t\<lparr>t_avm := t_avm t + int sz, t_arm := (if loaded then u32 (t_arm t + sz) else t_arm t)\<rparr>"

definition vmtotal_proc :: "proc \<Rightarrow> nat \<Rightarrow> vmtotal \<times> int \<Rightarrow> vmtotal \<times> int" where
  "vmtotal_proc p sz acc =
     (let t = fst acc; nrun = snd acc; loaded = (SLOAD \<in> p_flag p)
      in if SSYS \<in> p_flag p then acc
         else if p_stat p = S_FREE then acc
         else
           (let t = (if p_stat p \<noteq> SZOMB
                     then t\<lparr>t_vm := t_vm t + int sz, t_rm := (if loaded then u32 (t_rm t + sz) else t_rm t)\<rparr>
                     else t)
            in if p_stat p = SSLEEP \<or> p_stat p = SSTOP then
                 (let nrun = (if P_SINTR \<notin> p_flag p \<and> p_stat p = SSLEEP then nrun + 1 else nrun);
                      t = (if loaded then
                             (if P_SINTR \<notin> p_flag p then t\<lparr>t_dw := s16 (t_dw t + 1)\<rparr>
                              else if p_slptime p < MAXSLP then t\<lparr>t_sl := s16 (t_sl t + 1)\<rparr> else t)
                           else if p_slptime p < MAXSLP then t\<lparr>t_sw := s16 (t_sw t + 1)\<rparr> else t)
                  in (if p_slptime p < MAXSLP then vmtotal_active sz loaded t else t, nrun))
               else if p_stat p = SRUN \<or> p_stat p = SIDL then
                 (let t = (if loaded then t\<lparr>t_rq := s16 (t_rq t + 1)\<rparr> else t\<lparr>t_sw := s16 (t_sw t + 1)\<rparr>)
                  in (vmtotal_active sz loaded t, nrun + 1))
               else (t, nrun)))"

definition vmtotal_op :: "ks \<Rightarrow> vmstat \<Rightarrow> vmstat" where
  "vmtotal_op s v =
     (let r = fold (\<lambda>p. vmtotal_proc (procs s p) (p_dsize v p + p_stksize v p + USIZE)) (allproc s) (vmtotal_zero, 0);
          t = fst r;
          t = t\<lparr>t_vm := t_vm t + t_vmtxt t, t_avm := t_avm t + t_avmtxt t, t_rm := t_rm t + t_rmtxt t,
                t_arm := t_arm t + t_armtxt t, t_free := avefree v\<rparr>
      in v\<lparr>total := t, avenrun := loadav (avenrun v) (snd r)\<rparr>)"

section \<open>Once a second\<close>

text \<open>The loop over the counters: averages are taken, sums added up and the counters cleared.\<close>

definition vmmeter_count :: "vmstat \<Rightarrow> vmstat" where
  "vmmeter_count v =
     v\<lparr>rate := map2 (\<lambda>r c. ave r c 5) (rate v) (cnt v),
       vsum := map2 (\<lambda>x c. s32 (x + int c)) (vsum v) (cnt v),
       cnt := map (\<lambda>_. 0) (cnt v)\<rparr>"

definition vmmeter_swap :: "nat \<Rightarrow> vmstat \<Rightarrow> vmstat" where
  "vmmeter_swap i v =
     v\<lparr>rate := (rate v)[i := cnt v ! i], vsum := (vsum v)[i := s32 (vsum v ! i + int (cnt v ! i))],
       cnt := (cnt v)[i := 0]\<rparr>"

definition vmmeter :: "int \<Rightarrow> ks \<Rightarrow> vmstat \<Rightarrow> vmstat" where
  "vmmeter tv_sec s v =
     (let v = v\<lparr>avefree := ave (avefree v) (freemem v) 5, avefree30 := ave (avefree30 v) (freemem v) 30\<rparr>;
          v = vmmeter_count v
      in if tv_sec mod 5 = 0 then vmmeter_swap V_SWPOUT (vmmeter_swap V_SWPIN (vmtotal_op s v)) else v)"

section \<open>Facts\<close>

text \<open>
  The code after the loop means to show the swaps of the last five seconds, but the loop, which runs to \<^verbatim>\<open>v_last\<close>, has cleared their counters.
\<close>

lemma vmmeter_swpin_lost:
  assumes "length (cnt v) = 10" "length (rate v) = 10" "tv_sec mod 5 = 0"
  shows "rate (vmmeter tv_sec s v) ! V_SWPIN = 0"
  using assms by (simp add: vmmeter_def vmmeter_swap_def vmmeter_count_def vmtotal_op_def Let_def)

end
