(* ===== verification/Vmmeter_Spec.thy ===== *)
theory Vmmeter_Spec
  imports Complex_Main Sched_Spec Vmmeter
begin

text \<open>
  What the statistics of \<open>Vmmeter\<close> are: the load averages as exponential means, the reported run queue against the run
  queue of the scheduler, and the jobs in disk wait.
\<close>

section \<open>Load averages\<close>

lemma loadav_one_mean:
  assumes c: "0 \<le> c" "c \<le> 256" and a: "0 \<le> a" "a \<le> B" and n: "0 \<le> n" "256 * n \<le> B" and B: "B \<le> 32767"
  shows "loadav_one n c a = (c * a + (256 - c) * (256 * n)) div 256 \<and> 0 \<le> loadav_one n c a \<and> loadav_one n c a \<le> B"
proof -
  have eq: "c * (a - n * 256) + n * 65536 = c * a + (256 - c) * (256 * n)" by (simp add: algebra_simps)
  have lo: "0 \<le> c * a + (256 - c) * (256 * n)" using assms by simp
  have "c * a + (256 - c) * (256 * n) \<le> c * B + (256 - c) * B"
    using assms by (intro add_mono mult_left_mono) auto
  then have hi: "c * a + (256 - c) * (256 * n) \<le> 256 * B" by (simp add: algebra_simps)
  have "s32 (c * a + (256 - c) * (256 * n)) = c * a + (256 - c) * (256 * n)" using lo hi B by (intro swrap_id) auto
  moreover have q: "0 \<le> (c * a + (256 - c) * (256 * n)) div 256" "(c * a + (256 - c) * (256 * n)) div 256 \<le> B"
    using lo hi by (simp, linarith)
  ultimately show ?thesis unfolding loadav_one_def eq using B by (simp add: swrap_id)
qed

text \<open>The constants of the code are those of exponential averages, sampled every 5 seconds, over 1, 5 and 15 minutes.\<close>

lemma cexp_exp:
  "\<lfloor>256 * exp (- (1/12::real))\<rfloor> = 235" "\<lfloor>256 * exp (- (1/60::real))\<rfloor> = 251" "\<lfloor>256 * exp (- (1/180::real))\<rfloor> = 254"
proof -
  have up: "exp (- x) \<le> 1 / (1 + x + x\<^sup>2 / 2)" if "0 \<le> x" for x :: real
    using exp_lower_Taylor_quadratic [OF that] that by (simp add: exp_minus field_simps add_pos_nonneg)
  have lo: "1 - x \<le> exp (- x)" for x :: real using exp_ge_add_one_self [of "- x"] by simp
  have "(23/24::real)\<^sup>2 \<le> (exp (- (1/24)))\<^sup>2" using lo [of "1/24"] by (intro power_mono) auto
  also have "\<dots> = exp (- (1/12))" by (simp add: power2_eq_square flip: exp_add)
  finally show "\<lfloor>256 * exp (- (1/12::real))\<rfloor> = 235" using up [of "1/12"] by (simp add: floor_eq_iff power2_eq_square)
  show "\<lfloor>256 * exp (- (1/60::real))\<rfloor> = 251" "\<lfloor>256 * exp (- (1/180::real))\<rfloor> = 254"
    using up [of "1/60"] lo [of "1/60"] up [of "1/180"] lo [of "1/180"] by (simp_all add: floor_eq_iff power2_eq_square)
qed

section \<open>Numbers of processes\<close>

text \<open>What a step of the loop of \<open>vmtotal\<close> counts.\<close>

definition is_rq :: "proc \<Rightarrow> bool" where
  "is_rq x \<longleftrightarrow> SSYS \<notin> p_flag x \<and> SLOAD \<in> p_flag x \<and> (p_stat x = SRUN \<or> p_stat x = SIDL)"

definition is_dw :: "proc \<Rightarrow> bool" where
  "is_dw x \<longleftrightarrow> SSYS \<notin> p_flag x \<and> SLOAD \<in> p_flag x \<and> P_SINTR \<notin> p_flag x \<and> (p_stat x = SSLEEP \<or> p_stat x = SSTOP)"

definition is_load :: "proc \<Rightarrow> bool" where
  "is_load x \<longleftrightarrow> SSYS \<notin> p_flag x \<and> (p_stat x = SRUN \<or> p_stat x = SIDL \<or> p_stat x = SSLEEP \<and> P_SINTR \<notin> p_flag x)"

lemma vmtotal_proc_counts:
  assumes "0 \<le> t_rq t" "t_rq t < 32767" "0 \<le> t_dw t" "t_dw t < 32767"
  shows "t_rq (fst (vmtotal_proc x sz (t, n))) = t_rq t + of_bool (is_rq x)"
    "t_dw (fst (vmtotal_proc x sz (t, n))) = t_dw t + of_bool (is_dw x)"
    "snd (vmtotal_proc x sz (t, n)) = n + of_bool (is_load x)"
  using assms
  by (cases "p_stat x"; simp add: vmtotal_proc_def vmtotal_active_def Let_def is_rq_def is_dw_def is_load_def swrap_id)+

lemma vmtotal_fold_counts:
  fixes f :: "nat \<Rightarrow> proc" and g :: "nat \<Rightarrow> nat" and n :: int
  assumes "0 \<le> t_rq t" "t_rq t + int (length ps) < 32767" "0 \<le> t_dw t" "t_dw t + int (length ps) < 32767"
  defines "r \<equiv> fold (\<lambda>p. vmtotal_proc (f p) (g p)) ps (t, n)"
  shows "t_rq (fst r) = t_rq t + int (length (filter (\<lambda>p. is_rq (f p)) ps)) \<and>
    t_dw (fst r) = t_dw t + int (length (filter (\<lambda>p. is_dw (f p)) ps)) \<and>
    snd r = n + int (length (filter (\<lambda>p. is_load (f p)) ps))"
  using assms(1-4) unfolding r_def
proof (induction ps arbitrary: t n)
  case Nil
  then show ?case by simp
next
  case (Cons p ps)
  let ?r = "vmtotal_proc (f p) (g p) (t, n)"
  have step: "t_rq (fst ?r) = t_rq t + of_bool (is_rq (f p))" "t_dw (fst ?r) = t_dw t + of_bool (is_dw (f p))"
    "snd ?r = n + of_bool (is_load (f p))"
    using vmtotal_proc_counts [of t "f p" "g p" n] Cons.prems by auto
  have "fold (\<lambda>p. vmtotal_proc (f p) (g p)) (p # ps) (t, n) = fold (\<lambda>p. vmtotal_proc (f p) (g p)) ps (fst ?r, snd ?r)" by simp
  moreover have "0 \<le> t_rq (fst ?r)" "t_rq (fst ?r) + int (length ps) < 32767" "0 \<le> t_dw (fst ?r)" "t_dw (fst ?r) + int (length ps) < 32767"
    using Cons.prems step by (auto simp: of_bool_def)
  note IH = Cons.IH [OF this, of "snd ?r"]
  ultimately show ?case using IH step by (simp add: of_bool_def)
qed

text \<open>
  The number of user processes, those that are not part of the system, of a given sort; \<open>allproc_ok\<close>: the list that the code
  walks holds every process in use once.
\<close>

definition jobs :: "ks \<Rightarrow> (proc \<Rightarrow> bool) \<Rightarrow> int" where
  "jobs s P = int (length (filter (\<lambda>q. SSYS \<notin> p_flag (procs s q) \<and> P (procs s q)) [0..<NPROC]))"

definition allproc_ok :: "ks \<Rightarrow> bool" where
  "allproc_ok s \<longleftrightarrow> distinct (allproc s) \<and>
     set (allproc s) = set (filter (\<lambda>q. p_stat (procs s q) \<noteq> S_FREE \<and> p_stat (procs s q) \<noteq> SZOMB) [0..<NPROC])"

lemma length_filter_card: "distinct xs \<Longrightarrow> length (filter P xs) = card {x \<in> set xs. P x}"
  by (metis distinct_card distinct_filter set_filter)

lemma jobs_allproc:
  assumes "allproc_ok s" "\<And>x. P x \<Longrightarrow> SSYS \<notin> p_flag x \<and> p_stat x \<noteq> S_FREE \<and> p_stat x \<noteq> SZOMB \<and> Q x"
    "\<And>x. SSYS \<notin> p_flag x \<Longrightarrow> Q x \<Longrightarrow> P x"
  shows "int (length (filter (\<lambda>p. P (procs s p)) (allproc s))) = jobs s Q"
proof -
  have "{q \<in> set (allproc s). P (procs s q)} = {q \<in> set [0..<NPROC]. SSYS \<notin> p_flag (procs s q) \<and> Q (procs s q)}"
    using assms by (auto simp: allproc_ok_def)
  then show ?thesis using assms(1) unfolding jobs_def by (simp add: length_filter_card allproc_ok_def)
qed

lemma jobs_split:
  assumes "\<And>x. \<not> (P x \<and> Q x)"
  shows "jobs s (\<lambda>x. P x \<or> Q x) = jobs s P + jobs s Q"
proof -
  have "length (filter (\<lambda>q. a q \<and> (b q \<or> c q)) xs) = length (filter (\<lambda>q. a q \<and> b q) xs) + length (filter (\<lambda>q. a q \<and> c q) xs)"
    if "\<And>q. \<not> (b q \<and> c q)" for a b c and xs :: "nat list"
    using that by (induction xs) auto
  then show ?thesis unfolding jobs_def using assms by simp
qed

lemma jobs_le: "0 \<le> jobs s P" "jobs s P \<le> int NPROC"
proof -
  have "length (filter (\<lambda>q. SSYS \<notin> p_flag (procs s q) \<and> P (procs s q)) [0..<NPROC]) \<le> length [0..<NPROC]" by (rule length_filter_le)
  then show "0 \<le> jobs s P" "jobs s P \<le> int NPROC" unfolding jobs_def by simp_all
qed

text \<open>The runnable processes in core are the running one and those on the run queue.\<close>

lemma jobs_running:
  assumes "sched_inv r s"
  shows "jobs s (\<lambda>x. SLOAD \<in> p_flag x \<and> p_stat x = SRUN) = int (length (filter (\<lambda>q. SSYS \<notin> p_flag (procs s q)) (qs s))) +
    (case r of None \<Rightarrow> 0 | Some q \<Rightarrow> of_bool (SSYS \<notin> p_flag (procs s q) \<and> SLOAD \<in> p_flag (procs s q)))"
proof -
  let ?ok = "\<lambda>q. SSYS \<notin> p_flag (procs s q) \<and> SLOAD \<in> p_flag (procs s q) \<and> p_stat (procs s q) = SRUN"
  let ?Q = "{q \<in> set (qs s). SSYS \<notin> p_flag (procs s q)}"
  have dq: "distinct (qs s)" and inq: "\<And>q. q \<in> set (qs s) \<longleftrightarrow> q < NPROC \<and> p_stat (procs s q) = SRUN \<and> SLOAD \<in> p_flag (procs s q) \<and> r \<noteq> Some q"
    and run: "\<And>q. r = Some q \<Longrightarrow> q < NPROC \<and> p_stat (procs s q) = SRUN"
    using assms by (auto simp: sched_inv_def queues_ok_def states_ok_def)
  have j: "jobs s (\<lambda>x. SLOAD \<in> p_flag x \<and> p_stat x = SRUN) = int (card {q \<in> set [0..<NPROC]. ?ok q})"
    unfolding jobs_def by (simp only: length_filter_card distinct_upt)
  show ?thesis
  proof (cases "\<exists>q. r = Some q \<and> SSYS \<notin> p_flag (procs s q) \<and> SLOAD \<in> p_flag (procs s q)")
    case True
    then obtain q where q: "r = Some q" "SSYS \<notin> p_flag (procs s q)" "SLOAD \<in> p_flag (procs s q)" by blast
    have "{q \<in> set [0..<NPROC]. ?ok q} = insert q ?Q" using q run [OF q(1)] inq by auto
    moreover have "q \<notin> ?Q" using inq q(1) by simp
    ultimately show ?thesis unfolding j by (simp add: length_filter_card [OF dq] q)
  next
    case False
    then have "{q \<in> set [0..<NPROC]. ?ok q} = ?Q" using inq by auto
    then show ?thesis unfolding j using False by (auto simp: length_filter_card [OF dq] split: option.split)
  qed
qed

lemma vmtotal_op_counts:
  assumes "allproc_ok s"
  shows "t_rq (total (vmtotal_op s v)) = jobs s (\<lambda>x. SLOAD \<in> p_flag x \<and> p_stat x = SRUN) + jobs s (\<lambda>x. SLOAD \<in> p_flag x \<and> p_stat x = SIDL)"
    "t_dw (total (vmtotal_op s v)) = jobs s (\<lambda>x. SLOAD \<in> p_flag x \<and> p_stat x = SSLEEP \<and> P_SINTR \<notin> p_flag x) +
      jobs s (\<lambda>x. SLOAD \<in> p_flag x \<and> p_stat x = SSTOP \<and> P_SINTR \<notin> p_flag x)"
    "avenrun (vmtotal_op s v) = loadav (avenrun v) (jobs s (\<lambda>x. p_stat x = SRUN \<or> p_stat x = SIDL \<or> p_stat x = SSLEEP \<and> P_SINTR \<notin> p_flag x))"
proof -
  define r where "r = fold (\<lambda>p. vmtotal_proc (procs s p) (p_dsize v p + p_stksize v p + USIZE)) (allproc s) (vmtotal_zero, 0)"
  have "distinct (allproc s)" using assms by (simp add: allproc_ok_def)
  then have "length (allproc s) = card (set (allproc s))" by (rule distinct_card [symmetric])
  also have "\<dots> \<le> card {..<NPROC}" using assms by (intro card_mono) (auto simp: allproc_ok_def)
  finally have len: "length (allproc s) \<le> NPROC" unfolding card_lessThan .
  have r: "t_rq (fst r) = int (length (filter (\<lambda>p. is_rq (procs s p)) (allproc s)))"
    "t_dw (fst r) = int (length (filter (\<lambda>p. is_dw (procs s p)) (allproc s)))"
    "snd r = int (length (filter (\<lambda>p. is_load (procs s p)) (allproc s)))"
    using vmtotal_fold_counts [of vmtotal_zero "allproc s" "\<lambda>p. procs s p" "\<lambda>p. p_dsize v p + p_stksize v p + USIZE" 0] len
    unfolding r_def [symmetric] by (simp_all add: vmtotal_zero_def)
  have "t_rq (fst r) = jobs s (\<lambda>x. SLOAD \<in> p_flag x \<and> p_stat x = SRUN \<or> SLOAD \<in> p_flag x \<and> p_stat x = SIDL)"
    unfolding r(1) by (rule jobs_allproc [OF assms]) (auto simp: is_rq_def)
  moreover have "t_dw (fst r) = jobs s (\<lambda>x. SLOAD \<in> p_flag x \<and> p_stat x = SSLEEP \<and> P_SINTR \<notin> p_flag x \<or>
      SLOAD \<in> p_flag x \<and> p_stat x = SSTOP \<and> P_SINTR \<notin> p_flag x)"
    unfolding r(2) by (rule jobs_allproc [OF assms]) (auto simp: is_dw_def)
  moreover have "snd r = jobs s (\<lambda>x. p_stat x = SRUN \<or> p_stat x = SIDL \<or> p_stat x = SSLEEP \<and> P_SINTR \<notin> p_flag x)"
    unfolding r(3) by (rule jobs_allproc [OF assms]) (auto simp: is_load_def)
  ultimately show "t_rq (total (vmtotal_op s v)) = jobs s (\<lambda>x. SLOAD \<in> p_flag x \<and> p_stat x = SRUN) + jobs s (\<lambda>x. SLOAD \<in> p_flag x \<and> p_stat x = SIDL)"
    "t_dw (total (vmtotal_op s v)) = jobs s (\<lambda>x. SLOAD \<in> p_flag x \<and> p_stat x = SSLEEP \<and> P_SINTR \<notin> p_flag x) +
      jobs s (\<lambda>x. SLOAD \<in> p_flag x \<and> p_stat x = SSTOP \<and> P_SINTR \<notin> p_flag x)"
    "avenrun (vmtotal_op s v) = loadav (avenrun v) (jobs s (\<lambda>x. p_stat x = SRUN \<or> p_stat x = SIDL \<or> p_stat x = SSLEEP \<and> P_SINTR \<notin> p_flag x))"
    by (simp_all add: vmtotal_op_def Let_def r_def [symmetric] jobs_split)
qed

lemma vmmeter_parts:
  "avenrun (vmmeter tv_sec s v) = (if tv_sec mod 5 = 0 then avenrun (vmtotal_op s v) else avenrun v)"
  "tv_sec mod 5 = 0 \<Longrightarrow> t_rq (total (vmmeter tv_sec s v)) = t_rq (total (vmtotal_op s v))"
  "tv_sec mod 5 = 0 \<Longrightarrow> t_dw (total (vmmeter tv_sec s v)) = t_dw (total (vmtotal_op s v))"
  "tv_sec mod 5 \<noteq> 0 \<Longrightarrow> total (vmmeter tv_sec s v) = total v"
  by (simp_all add: vmmeter_def vmmeter_swap_def vmmeter_count_def vmtotal_op_def Let_def)

text \<open>
  C40. What the meter reports. In every fifth second each load average, a fixed-point number with 8 bits after the point, moves to
  the exponential mean of its old value and the load, over 1, 5 and 15 minutes, rounded down, where the factor is \<^verbatim>\<open>exp(-5 s / period)\<close> in 8 bits
  and the load is the number of user processes that run, are runnable, are being created or sleep uninterruptibly; and it stays between 0 and the number of
  processes that the table can hold, so that it never overflows its 16 bits. The reported length of the run queue is the number of user processes on the real
  run queue, and the running one, and those that are being created in core. The number of jobs in disk wait is
  that of the user processes in core in an uninterruptible sleep, and besides, which the name does not say, of those that are stopped
  and were not in an interruptible sleep. In other seconds nothing of this changes.
\<close>

theorem vmmeter_correct:
  assumes "sched_inv r s" "allproc_ok s" "length (avenrun v) = 3" "\<forall>i<3. 0 \<le> avenrun v ! i \<and> avenrun v ! i \<le> 256 * int NPROC"
  shows "if tv_sec mod 5 = 0
    then (\<forall>i<3. let c = \<lfloor>256 * exp (- 5 / (60 * [1, 5, 15] ! i) :: real)\<rfloor>;
            n = jobs s (\<lambda>x. p_stat x = SRUN \<or> p_stat x = SIDL \<or> p_stat x = SSLEEP \<and> P_SINTR \<notin> p_flag x)
          in avenrun (vmmeter tv_sec s v) ! i = (c * avenrun v ! i + (256 - c) * (256 * n)) div 256 \<and>
             0 \<le> avenrun (vmmeter tv_sec s v) ! i \<and> avenrun (vmmeter tv_sec s v) ! i \<le> 256 * int NPROC) \<and>
      t_rq (total (vmmeter tv_sec s v)) = int (length (filter (\<lambda>q. SSYS \<notin> p_flag (procs s q)) (qs s))) +
        (case r of None \<Rightarrow> 0 | Some q \<Rightarrow> of_bool (SSYS \<notin> p_flag (procs s q) \<and> SLOAD \<in> p_flag (procs s q))) +
        jobs s (\<lambda>x. SLOAD \<in> p_flag x \<and> p_stat x = SIDL) \<and>
      t_dw (total (vmmeter tv_sec s v)) = jobs s (\<lambda>x. SLOAD \<in> p_flag x \<and> p_stat x = SSLEEP \<and> P_SINTR \<notin> p_flag x) +
        jobs s (\<lambda>x. SLOAD \<in> p_flag x \<and> p_stat x = SSTOP \<and> P_SINTR \<notin> p_flag x)
    else avenrun (vmmeter tv_sec s v) = avenrun v \<and> total (vmmeter tv_sec s v) = total v"
proof (cases "tv_sec mod 5 = 0")
  case True
  let ?n = "jobs s (\<lambda>x. p_stat x = SRUN \<or> p_stat x = SIDL \<or> p_stat x = SSLEEP \<and> P_SINTR \<notin> p_flag x)"
  have n: "0 \<le> ?n" "256 * ?n \<le> 256 * int NPROC" using jobs_le by auto
  have av: "avenrun (vmmeter tv_sec s v) ! i = loadav_one ?n (cexp ! i) (avenrun v ! i)" if "i < 3" for i
    using that assms(3) by (simp add: vmmeter_parts True vmtotal_op_counts(3) [OF assms(2)] loadav_def cexp_def)
  have c: "cexp ! i = \<lfloor>256 * exp (- 5 / (60 * [1, 5, 15] ! i) :: real)\<rfloor>" "0 \<le> cexp ! i" "cexp ! i \<le> 256" if "i < 3" for i
    using that cexp_exp by (auto simp: cexp_def less_Suc_eq numeral_3_eq_3)
  have la: "avenrun (vmmeter tv_sec s v) ! i = (\<lfloor>256 * exp (- 5 / (60 * [1, 5, 15] ! i) :: real)\<rfloor> * avenrun v ! i +
        (256 - \<lfloor>256 * exp (- 5 / (60 * [1, 5, 15] ! i) :: real)\<rfloor>) * (256 * ?n)) div 256 \<and>
      0 \<le> avenrun (vmmeter tv_sec s v) ! i \<and> avenrun (vmmeter tv_sec s v) ! i \<le> 256 * int NPROC" if "i < 3" for i
    unfolding av [OF that] c(1) [OF that, symmetric] by (rule loadav_one_mean) (use c(2,3) [OF that] assms(4) that n in simp_all)
  show ?thesis
    unfolding if_P [OF True] Let_def vmmeter_parts(2,3) [OF True] vmtotal_op_counts(1,2) [OF assms(2)] jobs_running [OF assms(1)]
    by (intro conjI refl) (use la in blast)
qed (simp add: vmmeter_parts)

theorem vmmeter_correct_witness:
  "let s = demo\<lparr>allproc := [5, 4, 3, 2, 1, 0]\<rparr>;
       v = \<lparr>freemem = 100, avefree = 0, avefree30 = 0, avenrun = [0, 256, 6400], total = vmtotal_zero, cnt = replicate 10 1,
            rate = replicate 10 0, vsum = replicate 10 0, p_dsize = (\<lambda>_. 4096), p_stksize = (\<lambda>_. 2048)\<rparr>
   in t_rq (total (vmmeter 10 s v)) = 1 \<and> avenrun (vmmeter 11 s v) = [0, 256, 6400]"
proof -
  define s where "s = demo\<lparr>allproc := [5, 4, 3, 2, 1, 0]\<rparr>"
  let ?v = "\<lparr>freemem = 100, avefree = 0, avefree30 = 0, avenrun = [0, 256, 6400], total = vmtotal_zero, cnt = replicate 10 1,
    rate = replicate 10 0, vsum = replicate 10 0, p_dsize = (\<lambda>_. 4096), p_stksize = (\<lambda>_. 2048)\<rparr>"
  have ok: "sched_inv (Some 1) s" unfolding s_def by (rule sched_inv_cong [OF demo_inv]) (use demo_inv in \<open>auto simp: sched_inv_def\<close>)
  have all: "allproc_ok s" by (auto simp: allproc_ok_def s_def demo_def ks_zero_def demo_procs_def proc_zero_def)
  have "\<forall>i<3. 0 \<le> avenrun ?v ! i \<and> avenrun ?v ! i \<le> 256 * int NPROC" by (auto simp: less_Suc_eq numeral_3_eq_3)
  note m = vmmeter_correct [OF ok all _ this]
  have "t_rq (total (vmmeter 10 s ?v)) = 1"
    using m [of 10] by (simp add: s_def demo_def ks_zero_def demo_procs_def proc_zero_def jobs_def)
  moreover have "avenrun (vmmeter 11 s ?v) = [0, 256, 6400]" using m [of 11] by simp
  ultimately show ?thesis by (simp add: s_def)
qed

end
