(* ===== verification/Clock.thy ===== *)
theory Clock
  imports Signal_Inv Vmmeter
begin

text \<open>
  The clock interrupt: \<open>hardclock\<close>, \<open>softclock\<close>, \<open>gatherstats\<close>, \<open>profil\<close> and \<open>hzto\<close> of
  \<^verbatim>\<open>src/sys/kernel/kern_clock.c\<close>, \<open>schedcpu\<close> of \<^verbatim>\<open>src/sys/kernel/kern_synch.c\<close> and
  \<open>addupc\<close> of \<^verbatim>\<open>src/sys/pic32/machdep.c\<close>. The functions that run from the timeout queue are called by name
  (\<open>softclock_call\<close>), which makes the scheduler, the signals and the queue one system: theory \<open>Clock_Spec\<close> interprets
  the interfaces of theory \<open>Callout\<close> on it.
\<close>

section \<open>State\<close>

text \<open>
  The state of the machine between clock interrupts. \<open>prof_mem\<close> holds the words of the user's profiling
  buffer by their addresses.
\<close>

record clk =
  kk :: ks
  lbolt :: int
  adjdelta :: int
  tv_sec :: int
  tv_usec :: int
  cp_time :: "int list"
  vm :: vmstat
  prof_mem :: "nat \<Rightarrow> int"

definition upd_kk :: "(ks \<Rightarrow> ks) \<Rightarrow> clk \<Rightarrow> clk" where
  "upd_kk f c = c\<lparr>kk := f (kk c)\<rparr>"

definition lift_kk :: "(ks \<Rightarrow> ks outcome) \<Rightarrow> clk \<Rightarrow> clk outcome" where
  "lift_kk f c = bind_outcome (f (kk c)) (\<lambda>s. Ret (c\<lparr>kk := s\<rparr>))"

section \<open>Once a second\<close>

text \<open>The body of the loop of \<open>schedcpu\<close>: the alarm clock and then the decay of the priority.\<close>

definition schedcpu_alarm :: "nat \<Rightarrow> ks \<Rightarrow> ks outcome" where
  "schedcpu_alarm p s =
     (if it_value (p_realtimer (procs s p)) = 0 then Ret s
      else
        (let s = upd_proc p (p_realtimer_update (it_value_update (\<lambda>n. n - 1))) s
         in if it_value (p_realtimer (procs s p)) \<noteq> 0 then Ret s
            else bind_outcome (psignal p SIGALRM s)
              (\<lambda>s. Ret (upd_proc p (p_realtimer_update (\<lambda>t. t\<lparr>it_value := it_interval t\<rparr>)) s))))"

definition schedcpu_decay :: "nat \<Rightarrow> ks \<Rightarrow> ks" where
  "schedcpu_decay p s =
     (let s = (if (p_stat (procs s p) = SSLEEP \<or> p_stat (procs s p) = SSTOP) \<and> p_slptime (procs s p) \<noteq> 127
               then upd_proc p (p_slptime_update (\<lambda>n. n + 1)) s else s)
      in if 1 < p_slptime (procs s p) then s
         else
           (let a = cdiv (int (p_cpu (procs s p)) * 8) 10 + p_nice (procs s p);
                a = (if a < 0 then 0 else a);
                a = (if 255 < a then 255 else a);
                s = upd_proc p (p_cpu_update (\<lambda>_. nat a)) s
            in if PUSER \<le> p_pri (procs s p) then setpri p s else s))"

definition schedcpu_proc :: "nat \<Rightarrow> ks \<Rightarrow> ks outcome" where
  "schedcpu_proc p s =
     (let s = (if p_time (procs s p) \<noteq> 127 then upd_proc p (p_time_update (\<lambda>n. n + 1)) s else s)
      in bind_outcome (schedcpu_alarm p s) (\<lambda>s. Ret (schedcpu_decay p s)))"

fun schedcpu_loop :: "nat list \<Rightarrow> ks \<Rightarrow> ks outcome" where
  "schedcpu_loop [] s = Ret s"
| "schedcpu_loop (p # ps) s = bind_outcome (schedcpu_proc p s) (schedcpu_loop ps)"

definition schedcpu :: "clk \<Rightarrow> clk outcome" where
  "schedcpu c =
     bind_outcome (wakeup (a_lbolt (addrs (kk c))) (kk c)) (\<lambda>s.
     bind_outcome (schedcpu_loop (allproc s) s) (\<lambda>s.
     let c = c\<lparr>vm := vmmeter (tv_sec c) s (vm c)\<rparr> in
     bind_outcome (if runin s then wakeup (a_runin (addrs s)) (s\<lparr>runin := False\<rparr>) else Ret s) (\<lambda>s.
     let s = incr_runrun s in
     bind_outcome (timeout F_schedcpu 0 HZ (callouts s)) (\<lambda>q. Ret (c\<lparr>kk := s\<lparr>callouts := q\<rparr>\<rparr>)))))"

section \<open>The software clock\<close>

definition softclock_call :: "cfunc \<Rightarrow> nat \<Rightarrow> clk \<Rightarrow> clk outcome" where
  "softclock_call f arg c =
     (case f of
        F_schedcpu \<Rightarrow> schedcpu c
      | F_endtsleep \<Rightarrow> lift_kk (endtsleep arg) c
      | F_wakeup \<Rightarrow> lift_kk (wakeup arg) c)"

text \<open>\<open>addupc\<close> counts in the word with the scaled index; the buffer is an array of words.\<close>

definition addupc :: "nat \<Rightarrow> uprof \<Rightarrow> int \<Rightarrow> (nat \<Rightarrow> int) \<Rightarrow> nat \<Rightarrow> int" where
  "addupc pc pbuf ticks mem =
     (if pc < pr_off pbuf then mem
      else
        (let indx = u32 ((pc - pr_off pbuf) * pr_scale pbuf) div 65536
         in if pr_size pbuf \<le> indx then mem
            else mem(u32 (pr_base pbuf + 4 * indx) := mem (u32 (pr_base pbuf + 4 * indx)) + ticks)))"

text \<open>The state after the timeouts: profiling, and less priority for a process that has run for ten minutes.\<close>

definition softclock_user :: "nat \<Rightarrow> clk \<Rightarrow> clk" where
  "softclock_user pc c =
     (let p = u_procp (u (kk c));
          c = (if pr_scale (u_prof (u (kk c))) \<noteq> 0
               then c\<lparr>prof_mem := addupc pc (u_prof (u (kk c))) 1 (prof_mem c)\<rparr> else c)
      in if p_uid (procs (kk c) p) \<noteq> 0 \<and> p_nice (procs (kk c) p) = NZERO \<and> 10 * 60 * HZ < ru_utime (u (kk c))
         then upd_kk (\<lambda>s. setpri p (upd_proc p (p_nice_update (\<lambda>_. NZERO + 4)) s)) c
         else c)"

definition callq_of :: "clk \<Rightarrow> callq" where
  "callq_of c = callouts (kk c)"

definition put_callq :: "callq \<Rightarrow> clk \<Rightarrow> clk" where
  "put_callq q c = upd_kk (callouts_update (\<lambda>_. q)) c"

text \<open>An interrupt: where it found the processor, in which mode and whether at the base priority.\<close>

record intr =
  i_pc :: nat
  i_usermode :: bool
  i_basepri :: bool

definition softclock :: "intr \<Rightarrow> clk \<Rightarrow> ((cfunc \<times> nat) list \<times> clk outcome) option" where
  "softclock i c =
     (case softclock_loop callq_of put_callq softclock_call c [] of
        None \<Rightarrow> None
      | Some (log, r) \<Rightarrow>
          Some (log, bind_outcome r (\<lambda>c. Ret (if i_usermode i then softclock_user (i_pc i) c else c))))"

section \<open>The hardware clock\<close>

datatype cpstate = CP_USER | CP_NICE | CP_SYS | CP_IDLE

fun cp_index :: "cpstate \<Rightarrow> nat" where
  "cp_index CP_USER = 0"
| "cp_index CP_NICE = 1"
| "cp_index CP_SYS = 2"
| "cp_index CP_IDLE = 3"

definition gatherstats :: "intr \<Rightarrow> clk \<Rightarrow> clk" where
  "gatherstats i c =
     (let st = (if i_usermode i then (if NZERO < p_nice (curp (kk c)) then CP_NICE else CP_USER)
                else if noproc (kk c) \<and> i_basepri i then CP_IDLE else CP_SYS)
      in c\<lparr>cp_time := (cp_time c)[cp_index st := cp_time c ! cp_index st + 1]\<rparr>)"

text \<open>One tick of an interval timer of the user area, found by \<open>get\<close> and set by \<open>put\<close>.\<close>

definition timer_tick :: "(user \<Rightarrow> itimer) \<Rightarrow> ((itimer \<Rightarrow> itimer) \<Rightarrow> user \<Rightarrow> user) \<Rightarrow> nat \<Rightarrow> ks \<Rightarrow> ks outcome" where
  "timer_tick get put sig s =
     (if it_value (get (u s)) = 0 then Ret s
      else
        (let s = upd_user (put (it_value_update (\<lambda>n. n - 1))) s
         in if it_value (get (u s)) \<noteq> 0 then Ret s
            else bind_outcome (psignal (u_procp (u s)) sig s)
              (\<lambda>s. Ret (upd_user (put (\<lambda>t. t\<lparr>it_value := it_interval t\<rparr>)) s))))"

text \<open>The charge of the tick to the mode of the processor, and then to the running process.\<close>

definition hardclock_mode :: "intr \<Rightarrow> ks \<Rightarrow> ks outcome" where
  "hardclock_mode i s =
     (if i_usermode i
      then timer_tick u_vtimer u_vtimer_update SIGVTALRM (upd_user (ru_utime_update (\<lambda>n. n + 1)) s)
      else Ret (if noproc s then s else upd_user (ru_stime_update (\<lambda>n. n + 1)) s))"

definition hardclock_limit :: "nat \<Rightarrow> ks \<Rightarrow> ks outcome" where
  "hardclock_limit p s =
     (if cpu_cur (u s) < ru_utime (u s) + ru_stime (u s) + 1
      then bind_outcome (psignal p SIGXCPU s) (\<lambda>s.
        Ret (if cpu_cur (u s) < cpu_max (u s) then upd_user (cpu_cur_update (\<lambda>n. n + 5 * HZ)) s else s))
      else Ret s)"

definition hardclock_charge :: "ks \<Rightarrow> ks outcome" where
  "hardclock_charge s =
     (if noproc s then Ret s
      else
        (let p = u_procp (u s);
             s = upd_proc p (p_cpu_update (\<lambda>n. if (n + 1) mod 256 = 0 then n else (n + 1) mod 256)) s
         in bind_outcome (hardclock_limit p s) (timer_tick u_ptimer u_ptimer_update SIGPROF)))"

definition hardclock_time :: "clk \<Rightarrow> clk" where
  "hardclock_time c =
     (let c = (if adjdelta c = 0 then c
               else if 0 < adjdelta c then c\<lparr>lbolt := lbolt c + 1, adjdelta := adjdelta c - 1\<rparr>
               else c\<lparr>lbolt := lbolt c - 1, adjdelta := adjdelta c + 1\<rparr>);
          c = c\<lparr>lbolt := lbolt c + 1\<rparr>
      in if HZ \<le> lbolt c then c\<lparr>lbolt := lbolt c - HZ, tv_sec := tv_sec c + 1\<rparr> else c)"

definition hardclock :: "intr \<Rightarrow> clk \<Rightarrow> ((cfunc \<times> nat) list \<times> clk outcome) option" where
  "hardclock i c =
     (let r = hardclock_tick (calltodo (callq_of c));
          needsoft = (fst r \<or> i_usermode i \<and> pr_scale (u_prof (u (kk c))) \<noteq> 0);
          c = put_callq ((callq_of c)\<lparr>calltodo := snd r\<rparr>) c
      in case bind_outcome (lift_kk (hardclock_mode i) c) (lift_kk hardclock_charge) of
           Ret c \<Rightarrow>
             (let c = hardclock_time (gatherstats i c)
              in if needsoft \<and> i_basepri i then softclock i c else Some ([], Ret c))
         | bad \<Rightarrow> Some ([], bad))"

section \<open>Profiling and time\<close>

definition profil :: "nat \<Rightarrow> nat \<Rightarrow> nat \<Rightarrow> nat \<Rightarrow> ks \<Rightarrow> ks" where
  "profil bufbase bufsize pcoffset pcscale s =
     upd_user (\<lambda>uu. uu\<lparr>u_prof := \<lparr>pr_base = bufbase, pr_size = bufsize, pr_off = pcoffset, pr_scale = pcscale\<rparr>\<rparr>) s"

definition hzto :: "int \<Rightarrow> int \<Rightarrow> clk \<Rightarrow> int" where
  "hzto sec usec c =
     (let d = s32 (sec - tv_sec c)
      in if d \<le> 2147483647 div 1000 - 1000
         then cdiv (s32 (s32 (d * 1000) + cdiv (s32 (usec - tv_usec c)) 1000)) (1000 div HZ)
         else if d \<le> 2147483647 div HZ then s32 (d * HZ)
         else 2147483647)"

end
