(* ===== verification/Clock_Spec.thy ===== *)
theory Clock_Spec
  imports Clock Sched_Spec
begin

text \<open>
  What the clock promises. The functions that run from the timeout queue return, keep the invariant of the
  scheduler and only add to the queue, so the interfaces of theory \<open>Callout\<close> hold of the kernel's own
  definitions; every clock interrupt returns, and every timeout is run when its time has come.
\<close>

section \<open>Good states\<close>

definition kgood :: "nat option \<Rightarrow> ks \<Rightarrow> bool" where
  "kgood r s \<longleftrightarrow> sched_inv r s \<and> (\<forall>p\<in>set (allproc s). p < NPROC) \<and> a_lbolt (addrs s) \<noteq> 0 \<and> a_runin (addrs s) \<noteq> 0 \<and>
     u_procp (u s) < NPROC \<and> (\<forall>p. NPROC \<le> p \<longrightarrow> p_wchan (procs s p) = 0)"

text \<open>What every step here leaves alone: the process list, the addresses and the queue of timeouts; no process falls asleep.\<close>

definition kframe :: "ks \<Rightarrow> ks \<Rightarrow> bool" where
  "kframe s s' \<longleftrightarrow> allproc s' = allproc s \<and> addrs s' = addrs s \<and> callouts s' = callouts s \<and> u_procp (u s') = u_procp (u s) \<and>
     (\<forall>q. p_wchan (procs s' q) = p_wchan (procs s q) \<or> p_wchan (procs s' q) = 0)"

definition kstep :: "nat option \<Rightarrow> ks \<Rightarrow> ks \<Rightarrow> bool" where
  "kstep r s s' \<longleftrightarrow> (kgood r s \<longrightarrow> kgood r s') \<and> kframe s s'"

lemma kframe_refl [simp]: "kframe s s"
  by (simp add: kframe_def)

lemma kstep_refl [simp]: "kstep r s s"
  by (simp add: kstep_def)

lemma kframe_trans: "kframe s s' \<Longrightarrow> kframe s' s'' \<Longrightarrow> kframe s s''"
  unfolding kframe_def by metis

lemma kstep_trans: "kstep r s s' \<Longrightarrow> kstep r s' s'' \<Longrightarrow> kstep r s s''"
  unfolding kstep_def using kframe_trans [of s s' s''] by blast

lemma kgoodI: "kgood r s \<Longrightarrow> kframe s s' \<Longrightarrow> sched_inv r s' \<Longrightarrow> kgood r s'"
  unfolding kgood_def kframe_def by metis

lemma kgoodD:
  assumes "kgood r s"
  shows "sched_inv r s" "p \<in> set (allproc s) \<Longrightarrow> p < NPROC" "a_lbolt (addrs s) \<noteq> 0" "a_runin (addrs s) \<noteq> 0"
    "u_procp (u s) < NPROC"
  using assms by (simp_all add: kgood_def)

lemma kstepI: "kframe s s' \<Longrightarrow> (kgood r s \<Longrightarrow> sched_inv r s') \<Longrightarrow> kstep r s s'"
  unfolding kstep_def using kgoodI by blast

lemma sig_frame_kframe: "sig_frame s s' \<Longrightarrow> kframe s s'"
  by (simp add: sig_frame_def kframe_def same_rest_def)

lemma wk_kframe: "wk C s s' \<Longrightarrow> kframe s s'"
  by (rule sig_frame_kframe) (rule wk_sig_frame)

text \<open>Updates of one process that the scheduler's invariant does not see.\<close>

lemma upd_proc_kstep:
  assumes "p_stat (f (procs s p)) = p_stat (procs s p)" "p_wchan (f (procs s p)) = p_wchan (procs s p)"
    "SLOAD \<in> p_flag (f (procs s p)) \<longleftrightarrow> SLOAD \<in> p_flag (procs s p)"
    "p < NPROC \<Longrightarrow> proc_ok (procs s p) \<Longrightarrow> proc_ok (f (procs s p))"
  shows "kstep r s (upd_proc p f s)"
proof (rule kstepI)
  show "kframe s (upd_proc p f s)" using assms(2) by (simp add: kframe_def upd_proc_def)
  assume "kgood r s"
  then have inv: "sched_inv r s" by (rule kgoodD)
  show "sched_inv r (upd_proc p f s)"
    by (rule sched_inv_cong [OF inv]) (use assms sched_invD(7) [OF inv] in \<open>auto simp: upd_proc_def\<close>)
qed

lemma upd_user_kstep:
  assumes "u_procp (f (u s)) = u_procp (u s)"
  shows "kstep r s (upd_user f s)"
proof (rule kstepI)
  show "kframe s (upd_user f s)" using assms by (simp add: kframe_def upd_user_def)
  assume "kgood r s"
  then have inv: "sched_inv r s" by (rule kgoodD)
  show "sched_inv r (upd_user f s)" by (rule sched_inv_cong [OF inv]) (use sched_invD(7) [OF inv] in \<open>auto simp: upd_user_def\<close>)
qed

lemma pri_upd_kstep: "pri_upd p s s' \<Longrightarrow> kstep r s s'"
proof (rule kstepI)
  assume "pri_upd p s s'"
  then obtain n x where s': "s' = s\<lparr>runrun := n, procs := (procs s)(p := x)\<rparr>" "pri_core x = pri_core (procs s p)"
    by (rule pri_updE)
  then show "kframe s s'" using pri_core_sel [OF s'(2)] by (simp add: kframe_def)
qed (auto intro: pri_upd_inv dest: kgoodD)

lemma psignal_kstep:
  assumes "kgood r s" "p < NPROC" "sig \<notin> stopsigmask"
  shows "\<exists>s'. psignal p sig s = Ret s' \<and> kstep r s s'"
proof -
  obtain s' where "psignal_body (psignal_n 1) p sig s = Ret s'" "sched_inv r s'" "sig_frame s s'"
    using psignal_body_nostop [OF kgoodD(1) [OF assms(1)] assms(2), of sig "psignal_n 1"] assms(3) by blast
  then show ?thesis unfolding psignal_unfold by (intro exI [of _ s']) (simp add: kstepI sig_frame_kframe)
qed

lemma wakeup_scan_none:
  "\<forall>p\<in>set xs. p_wchan (ps p) \<noteq> chan \<and> (p_stat (ps p) = SSLEEP \<or> p_stat (ps p) = SSTOP) \<Longrightarrow> wakeup_scan chan ps xs = Ret (ps, xs, None)"
  by (induction xs) auto

lemma wakeup_kstep:
  assumes "kgood r s"
  shows "\<exists>s'. wakeup chan s = Ret s' \<and> kstep r s s'"
proof (cases "chan = 0")
  case True
  note inv = sched_invD [OF kgoodD(1) [OF assms]]
  have "wakeup_scan 0 (procs s) (slpque s (HASH 0)) = Ret (procs s, slpque s (HASH 0), None)"
    using inv(2) [of "HASH 0"] inv(3) by (intro wakeup_scan_none) auto
  then have "wakeup_n (Suc 63) 0 s = Ret s" unfolding wakeup_n.simps(2) by simp
  then have "wakeup chan s = Ret s" using True by (simp add: wakeup_def)
  then show ?thesis by simp
next
  case False
  obtain s' C where "wakeup chan s = Ret s'" "sched_inv r s'" "wk C s s'"
    using wakeup_spec [OF kgoodD(1) [OF assms] False] by blast
  then show ?thesis by (intro exI [of _ s']) (simp add: kstepI wk_kframe)
qed

lemma setrun_kstep:
  assumes "kgood r s" "p < NPROC" "p_stat (procs s p) \<in> {SSLEEP, SSTOP, SIDL}"
  shows "\<exists>s'. setrun p s = Ret s' \<and> kstep r s s'"
proof -
  obtain s1 s' where s': "setrun p s = Ret s'" "ran p s s1" "sched_inv r s1" "sched_inv r s'" "wk {a_runout (addrs s)} s1 s'"
    using setrun_spec [OF kgoodD(1) [OF assms(1)] assms(2,3)] by blast
  have "kframe s s1" using s'(2) unfolding ran_def kframe_def same_rest_def by metis
  then have "kframe s s'" using wk_kframe [OF s'(5)] kframe_trans by blast
  then show ?thesis using s' by (intro exI [of _ s']) (simp add: kstepI)
qed

lemma endtsleep_kstep:
  assumes good: "kgood r s"
  shows "\<exists>s'. endtsleep p s = Ret s' \<and> kstep r s s'"
proof (cases "p_wchan (procs s p) = 0")
  case True
  then show ?thesis by (simp add: endtsleep_def)
next
  case False
  then have p: "p < NPROC" using good unfolding kgood_def by (meson not_le_imp_less)
  have "\<exists>s'. (if p_stat (procs s p) = SSLEEP then setrun p s else unsleep p s) = Ret s' \<and> kstep r s s'"
  proof (cases "p_stat (procs s p) = SSLEEP")
    case True
    then show ?thesis using setrun_kstep [OF good p] by simp
  next
    case False
    obtain s' where s': "unsleep p s = Ret s'" "sched_inv r s'" "procs s' = (procs s)(p := (procs s p)\<lparr>p_wchan := 0\<rparr>)" "same_rest s s'"
      using unsleep_stopped [OF kgoodD(1) [OF good] p False] by blast
    then have "kframe s s'" by (simp add: kframe_def same_rest_def)
    then show ?thesis using s' False by (intro exI [of _ s']) (simp add: kstepI)
  qed
  then obtain s' where s': "(if p_stat (procs s p) = SSLEEP then setrun p s else unsleep p s) = Ret s'" "kstep r s s'" by blast
  have "kstep r s' (upd_proc p (p_flag_update (\<lambda>f. insert P_TIMEOUT f)) s')"
    by (rule upd_proc_kstep) (auto simp: proc_ok_def)
  from kstep_trans [OF s'(2) this] show ?thesis using s'(1) False unfolding endtsleep_def by simp
qed

section \<open>Once a second\<close>

lemma kstep_good: "kgood r s \<Longrightarrow> kstep r s s' \<Longrightarrow> kgood r s'"
  by (simp add: kstep_def)

lemma schedcpu_alarm_kstep:
  assumes "kgood r s" "p < NPROC"
  shows "\<exists>s'. schedcpu_alarm p s = Ret s' \<and> kstep r s s'"
proof -
  let ?s = "upd_proc p (p_realtimer_update (it_value_update (\<lambda>n. n - 1))) s"
  have 1: "kstep r s ?s" by (rule upd_proc_kstep) (auto simp: proc_ok_def)
  obtain s' where s': "psignal p SIGALRM ?s = Ret s'" "kstep r ?s s'"
    using psignal_kstep [OF kstep_good [OF assms(1) 1] assms(2), of SIGALRM] by (auto simp: stopsigmask_def)
  have "kstep r s' (upd_proc p (p_realtimer_update (\<lambda>t. t\<lparr>it_value := it_interval t\<rparr>)) s')"
    by (rule upd_proc_kstep) (auto simp: proc_ok_def)
  from kstep_trans [OF kstep_trans [OF 1 s'(2)] this]
  show ?thesis using 1 s'(1) unfolding schedcpu_alarm_def Let_def by simp
qed

lemma schedcpu_decay_kstep: "kstep r s (schedcpu_decay p s)"
proof -
  define s1 where "s1 = (if (p_stat (procs s p) = SSLEEP \<or> p_stat (procs s p) = SSTOP) \<and> p_slptime (procs s p) \<noteq> 127
               then upd_proc p (p_slptime_update (\<lambda>n. n + 1)) s else s)"
  have 1: "kstep r s s1" unfolding s1_def by (auto intro: upd_proc_kstep simp: proc_ok_def)
  define a where "a = (let a = cdiv (int (p_cpu (procs s1 p)) * 8) 10 + p_nice (procs s1 p);
      a = (if a < 0 then 0 else a) in if 255 < a then 255 else a)"
  have a: "nat a \<le> 255" unfolding a_def Let_def nat_le_iff by simp
  let ?s2 = "upd_proc p (p_cpu_update (\<lambda>_. nat a)) s1"
  have 2: "kstep r s1 ?s2" by (rule upd_proc_kstep) (use a in \<open>auto simp: proc_ok_def\<close>)
  have "kstep r ?s2 (setpri p ?s2)" by (rule pri_upd_kstep) (rule setpri_pri_upd)
  moreover have "schedcpu_decay p s = (if 1 < p_slptime (procs s1 p) then s1 else if PUSER \<le> p_pri (procs ?s2 p) then setpri p ?s2 else ?s2)"
    unfolding schedcpu_decay_def s1_def [symmetric] a_def Let_def by simp
  moreover note 1 kstep_trans [OF 1 2] kstep_trans [OF kstep_trans [OF 1 2], of "setpri p ?s2"]
  ultimately show ?thesis by simp
qed

lemma schedcpu_proc_kstep:
  assumes "kgood r s" "p < NPROC"
  shows "\<exists>s'. schedcpu_proc p s = Ret s' \<and> kstep r s s'"
proof -
  let ?s = "if p_time (procs s p) \<noteq> 127 then upd_proc p (p_time_update (\<lambda>n. n + 1)) s else s"
  have 1: "kstep r s ?s" by (auto intro: upd_proc_kstep simp: proc_ok_def)
  obtain s' where "schedcpu_alarm p ?s = Ret s'" "kstep r ?s s'"
    using schedcpu_alarm_kstep [OF kstep_good [OF assms(1) 1] assms(2)] by blast
  then show ?thesis using kstep_trans [OF 1 kstep_trans [OF _ schedcpu_decay_kstep]]
    unfolding schedcpu_proc_def Let_def by (intro exI conjI) auto
qed

lemma schedcpu_loop_kstep:
  assumes "kgood r s" "\<forall>p\<in>set ps. p < NPROC"
  shows "\<exists>s'. schedcpu_loop ps s = Ret s' \<and> kstep r s s'"
  using assms
proof (induction ps arbitrary: s)
  case (Cons p ps)
  obtain s1 where s1: "schedcpu_proc p s = Ret s1" "kstep r s s1"
    using schedcpu_proc_kstep [OF Cons.prems(1), of p] Cons.prems(2) by auto
  obtain s' where "schedcpu_loop ps s1 = Ret s'" "kstep r s1 s'"
    using Cons.IH [OF kstep_good [OF Cons.prems(1) s1(2)]] Cons.prems(2) by auto
  then show ?case using s1(1) kstep_trans [OF s1(2)] by simp
qed simp

text \<open>Good states of the whole machine.\<close>

definition cgood :: "nat option \<Rightarrow> clk \<Rightarrow> bool" where
  "cgood r c \<longleftrightarrow> kgood r (kk c)"

lemma kgood_callouts [simp]: "kgood r (s\<lparr>callouts := q\<rparr>) = kgood r s"
  by (simp add: kgood_def sched_inv_def queues_ok_def states_ok_def)

lemma kstep_runin: "kstep r s (s\<lparr>runin := b\<rparr>)" "kstep r s (incr_runrun s)"
  by (auto intro!: kstepI simp: kframe_def kgood_def sched_inv_def queues_ok_def states_ok_def incr_runrun_def)

lemma schedcpu_extends:
  assumes "cgood r c" "callq_inv (callq_of c)" "callfree (callq_of c) \<noteq> []"
  shows "\<exists>c'. schedcpu c = Ret c' \<and> cgood r c' \<and> callq_inv (callq_of c') \<and> extends (callq_of c) (callq_of c')"
proof -
  have good: "kgood r (kk c)" using assms(1) by (simp add: cgood_def)
  obtain s1 where s1: "wakeup (a_lbolt (addrs (kk c))) (kk c) = Ret s1" "kstep r (kk c) s1"
    using wakeup_kstep [OF good] by blast
  have good1: "kgood r s1" by (rule kstep_good [OF good s1(2)])
  obtain s2 where s2: "schedcpu_loop (allproc s1) s1 = Ret s2" "kstep r s1 s2"
    using schedcpu_loop_kstep [OF good1] kgoodD(2) [OF good1] by blast
  have good2: "kgood r s2" by (rule kstep_good [OF good1 s2(2)])
  obtain s3 where s3: "(if runin s2 then wakeup (a_runin (addrs s2)) (s2\<lparr>runin := False\<rparr>) else Ret s2) = Ret s3" "kstep r s2 s3"
    using wakeup_kstep [OF kstep_good [OF good2 kstep_runin(1)], of "a_runin (addrs s2)" False] kstep_trans [OF kstep_runin(1)]
    by (cases "runin s2") fastforce+
  have 4: "kstep r (kk c) (incr_runrun s3)"
    by (rule kstep_trans [OF s1(2) kstep_trans [OF s2(2) kstep_trans [OF s3(2) kstep_runin(2)]]])
  have q: "callouts (incr_runrun s3) = callq_of c" using 4 by (simp add: kstep_def kframe_def callq_of_def)
  obtain q' where q': "timeout F_schedcpu 0 HZ (callq_of c) = Ret q'" "callq_inv q'" "extends (callq_of c) q'"
    using timeout_extends [OF assms(2,3), of F_schedcpu 0 HZ] by blast
  have "schedcpu c = Ret (c\<lparr>vm := vmmeter (tv_sec c) s2 (vm c), kk := (incr_runrun s3)\<lparr>callouts := q'\<rparr>\<rparr>)"
    unfolding schedcpu_def Let_def s1(1) s2(1) s3(1) bind_outcome.simps q q'(1) by simp
  then show ?thesis using q' kstep_good [OF good 4] by (simp add: cgood_def callq_of_def)
qed

lemma lift_kk_extends:
  assumes "cgood r c" "callq_inv (callq_of c)" "\<exists>s'. f (kk c) = Ret s' \<and> kstep r (kk c) s'"
  shows "\<exists>c'. lift_kk f c = Ret c' \<and> cgood r c' \<and> callq_inv (callq_of c') \<and> extends (callq_of c) (callq_of c')"
proof -
  obtain s' where s': "f (kk c) = Ret s'" "kstep r (kk c) s'" using assms(3) by blast
  have "callouts s' = callq_of c" using s'(2) by (simp add: kstep_def kframe_def callq_of_def)
  moreover have "kgood r s'" using kstep_good [OF _ s'(2)] assms(1) by (simp add: cgood_def)
  ultimately show ?thesis using s'(1) assms(2) by (simp add: lift_kk_def cgood_def callq_of_def extends_def)
qed

section \<open>The interfaces of the queue hold of the kernel\<close>

interpretation kernel_timeouts: timeout_handlers callq_of put_callq softclock_call "cgood r" for r
proof
  fix q c f a
  show "callq_of (put_callq q c) = q" by (simp add: callq_of_def put_callq_def upd_kk_def)
  show "cgood r c \<Longrightarrow> cgood r (put_callq q c)" by (simp add: cgood_def put_callq_def upd_kk_def)
  assume c: "cgood r c" "callq_inv (callq_of c)" "callfree (callq_of c) \<noteq> []"
  have good: "kgood r (kk c)" using c(1) by (simp add: cgood_def)
  show "\<exists>c'. softclock_call f a c = Ret c' \<and> cgood r c' \<and> callq_inv (callq_of c') \<and> extends (callq_of c) (callq_of c')"
    using schedcpu_extends [OF c] lift_kk_extends [where f = "endtsleep a", OF c(1,2) endtsleep_kstep [OF good]]
      lift_kk_extends [where f = "wakeup a", OF c(1,2) wakeup_kstep [OF good]]
    by (cases f) (simp_all add: softclock_call_def)
qed

section \<open>The interrupt\<close>

lemma timer_tick_kstep:
  assumes "kgood r s" "sig \<notin> stopsigmask" "\<And>f uu. u_procp (pt f uu) = u_procp uu"
  shows "\<exists>s'. timer_tick get pt sig s = Ret s' \<and> kstep r s s'"
proof -
  let ?s = "upd_user (pt (it_value_update (\<lambda>n. n - 1))) s"
  have 1: "kstep r s ?s" by (rule upd_user_kstep) (rule assms(3))
  have good: "kgood r ?s" by (rule kstep_good [OF assms(1) 1])
  obtain s' where s': "psignal (u_procp (u ?s)) sig ?s = Ret s'" "kstep r ?s s'"
    using psignal_kstep [OF good kgoodD(5) [OF good] assms(2)] by blast
  have "kstep r s' (upd_user (pt (\<lambda>t. t\<lparr>it_value := it_interval t\<rparr>)) s')" by (rule upd_user_kstep) (rule assms(3))
  from kstep_trans [OF kstep_trans [OF 1 s'(2)] this] show ?thesis
    using 1 s'(1) unfolding timer_tick_def Let_def by simp
qed

lemma hardclock_mode_kstep:
  assumes "kgood r s"
  shows "\<exists>s'. hardclock_mode i s = Ret s' \<and> kstep r s s'"
proof -
  let ?s = "upd_user (ru_utime_update (\<lambda>n. n + 1)) s"
  have 1: "kstep r s ?s" by (rule upd_user_kstep) simp
  obtain s' where "timer_tick u_vtimer u_vtimer_update SIGVTALRM ?s = Ret s'" "kstep r ?s s'"
    using timer_tick_kstep [OF kstep_good [OF assms 1], of SIGVTALRM u_vtimer_update u_vtimer] by (auto simp: stopsigmask_def)
  moreover have "kstep r s (upd_user (ru_stime_update (\<lambda>n. n + 1)) s)" by (rule upd_user_kstep) simp
  ultimately show ?thesis using kstep_trans [OF 1] unfolding hardclock_mode_def by simp
qed

lemma hardclock_limit_kstep:
  assumes "kgood r s" "p < NPROC"
  shows "\<exists>s'. hardclock_limit p s = Ret s' \<and> kstep r s s'"
proof -
  obtain s' where s': "psignal p SIGXCPU s = Ret s'" "kstep r s s'"
    using psignal_kstep [OF assms, of SIGXCPU] by (auto simp: stopsigmask_def)
  have "kstep r s' (upd_user (cpu_cur_update (\<lambda>n. n + 5 * HZ)) s')" by (rule upd_user_kstep) simp
  from kstep_trans [OF s'(2) this] show ?thesis using s' unfolding hardclock_limit_def by simp
qed

lemma hardclock_charge_kstep:
  assumes "kgood r s"
  shows "\<exists>s'. hardclock_charge s = Ret s' \<and> kstep r s s'"
proof -
  let ?p = "u_procp (u s)"
  let ?s = "upd_proc ?p (p_cpu_update (\<lambda>n. if (n + 1) mod 256 = 0 then n else (n + 1) mod 256)) s"
  have 1: "kstep r s ?s"
  proof (rule upd_proc_kstep)
    assume "proc_ok (procs s ?p)"
    moreover have "(if (n + 1) mod 256 = 0 then n else (n + 1) mod 256) \<le> 255" if "n \<le> 255" for n :: nat
      using that mod_less_divisor [of 256 "n + 1"] by (simp del: mod_less_divisor)
    ultimately show "proc_ok (p_cpu_update (\<lambda>n. if (n + 1) mod 256 = 0 then n else (n + 1) mod 256) (procs s ?p))"
      unfolding proc_ok_def by simp
  qed simp_all
  have good: "kgood r ?s" by (rule kstep_good [OF assms 1])
  obtain s1 where s1: "hardclock_limit ?p ?s = Ret s1" "kstep r ?s s1"
    using hardclock_limit_kstep [OF good kgoodD(5) [OF assms]] by blast
  obtain s2 where "timer_tick u_ptimer u_ptimer_update SIGPROF s1 = Ret s2" "kstep r s1 s2"
    using timer_tick_kstep [OF kstep_good [OF good s1(2)], of SIGPROF u_ptimer_update u_ptimer] by (auto simp: stopsigmask_def)
  then show ?thesis using s1(1) kstep_trans [OF 1 kstep_trans [OF s1(2)]] unfolding hardclock_charge_def Let_def by simp
qed

lemma softclock_user_good:
  assumes "cgood r c"
  shows "cgood r (softclock_user pc c)" "callq_of (softclock_user pc c) = callq_of c"
proof -
  define c1 where "c1 = (if pr_scale (u_prof (u (kk c))) \<noteq> 0
     then c\<lparr>prof_mem := addupc pc (u_prof (u (kk c))) 1 (prof_mem c)\<rparr> else c)"
  let ?p = "u_procp (u (kk c))"
  have kk: "kk c1 = kk c" by (simp add: c1_def)
  let ?s = "upd_proc ?p (p_nice_update (\<lambda>_. NZERO + 4)) (kk c)"
  have "kstep r (kk c) ?s" by (rule upd_proc_kstep) (simp_all add: proc_ok_def)
  then have step: "kstep r (kk c) (setpri ?p ?s)" by (rule kstep_trans) (rule pri_upd_kstep, rule setpri_pri_upd)
  then have "kgood r (setpri ?p ?s)" "callouts (setpri ?p ?s) = callouts (kk c)"
    using assms by (simp_all add: cgood_def kstep_def kframe_def)
  then show "cgood r (softclock_user pc c)" "callq_of (softclock_user pc c) = callq_of c"
    using assms unfolding softclock_user_def Let_def c1_def [symmetric] by (simp_all add: cgood_def callq_of_def upd_kk_def kk)
qed

lemma hardclock_spec:
  assumes good: "cgood r c" and inv: "callq_inv (callq_of c)"
  shows "\<exists>log c'. hardclock i c = Some (log, Ret c') \<and> cgood r c' \<and> callq_inv (callq_of c') \<and>
    (\<forall>(x, n)\<in>set (agenda (callq_of c)). 1 < n \<or> \<not> i_basepri i \<longrightarrow> (x, max 0 (n - 1)) \<in> set (agenda (callq_of c'))) \<and>
    (\<forall>(x, n)\<in>set (agenda (callq_of c)). n \<le> 1 \<and> i_basepri i \<longrightarrow> (c_func x, c_arg x) \<in> set log)"
proof -
  let ?r = "hardclock_tick (calltodo (callq_of c))"
  let ?q = "(callq_of c)\<lparr>calltodo := snd ?r\<rparr>"
  define need where "need = (fst ?r \<or> i_usermode i \<and> pr_scale (u_prof (u (kk c))) \<noteq> 0)"
  define c1 where "c1 = put_callq ?q c"
  have c1: "kgood r (kk c1)" "callouts (kk c1) = ?q" using good by (simp_all add: c1_def put_callq_def upd_kk_def cgood_def)
  obtain s2 where s2: "hardclock_mode i (kk c1) = Ret s2" "kstep r (kk c1) s2" using hardclock_mode_kstep [OF c1(1)] by blast
  obtain s3 where s3: "hardclock_charge s2 = Ret s3" "kstep r s2 s3"
    using hardclock_charge_kstep [OF kstep_good [OF c1(1) s2(2)]] by blast
  define c2 where "c2 = hardclock_time (gatherstats i (c1\<lparr>kk := s3\<rparr>))"
  have step: "kstep r (kk c1) s3" by (rule kstep_trans [OF s2(2) s3(2)])
  have kk2: "kk c2 = s3" by (simp add: c2_def hardclock_time_def gatherstats_def Let_def)
  have c2: "cgood r c2" "callq_of c2 = ?q"
    using kstep_good [OF c1(1) step] step c1(2) by (simp_all add: cgood_def kk2 callq_of_def kstep_def kframe_def)
  have charge: "bind_outcome (lift_kk (hardclock_mode i) c1) (lift_kk hardclock_charge) = Ret (c1\<lparr>kk := s3\<rparr>)"
    by (simp add: lift_kk_def s2(1) s3(1))
  obtain log c3 where c3: "(if need \<and> i_basepri i then softclock_loop callq_of put_callq softclock_call c2 [] else Some ([], Ret c2)) = Some (log, Ret c3)"
    "cgood r c3" "callq_inv (callq_of c3)"
    "\<forall>(x, n)\<in>set (agenda (callq_of c)). 1 < n \<or> \<not> i_basepri i \<longrightarrow> (x, max 0 (n - 1)) \<in> set (agenda (callq_of c3))"
    "\<forall>(x, n)\<in>set (agenda (callq_of c)). n \<le> 1 \<and> i_basepri i \<longrightarrow> (c_func x, c_arg x) \<in> set log"
    using kernel_timeouts.interrupt_spec [OF c2(1) inv c2(2), of need "i_basepri i"] by (auto simp: need_def)
  define c4 where "c4 = (if need \<and> i_basepri i \<and> i_usermode i then softclock_user (i_pc i) c3 else c3)"
  have "hardclock i c = (if need \<and> i_basepri i then softclock i c2 else Some ([], Ret c2))"
    unfolding hardclock_def Let_def c1_def [symmetric] charge need_def [symmetric] by (simp add: c2_def)
  also have "\<dots> = Some (log, Ret c4)"
    using c3(1) by (cases "need \<and> i_basepri i") (auto simp: softclock_def c4_def)
  finally have "hardclock i c = Some (log, Ret c4)" .
  moreover have "cgood r c4" "callq_of c4 = callq_of c3" using softclock_user_good [OF c3(2)] c3(2) by (simp_all add: c4_def)
  ultimately show ?thesis using c3(3-5) by (intro exI [of _ log] exI [of _ c4]) simp
qed

interpretation kernel_clock: clock_interrupts callq_of "cgood r" i_basepri hardclock for r
  by unfold_locales (rule hardclock_spec)

section \<open>Timeouts are run\<close>

text \<open>
  C19. A timeout is run when its time has come. Take a call that is pending with \<open>n\<close> ticks left in a good state of the kernel.
  Over any sequence of clock interrupts in which none from the \<open>n\<close>th on finds the base priority, whatever else the interrupts do
  (signals of timers and limits, priorities, other timeouts that sleep, wake and add timeouts of their own), the kernel
  does not panic and the call stays pending, each tick bringing it nearer; and the next interrupt at the
  base priority, once the \<open>n\<close> ticks are over, calls it.
\<close>

theorem timeout_fires:
  assumes "cgood r c" "callq_inv (callq_of c)" "(x, n) \<in> set (agenda (callq_of c))"
    "\<forall>j<length is. n \<le> int j + 1 \<longrightarrow> \<not> i_basepri (is ! j)" "n \<le> int (length is) + 1" "i_basepri i"
  shows "\<exists>c' log c''. clock_run hardclock is c = Some c' \<and> (x, max 0 (n - int (length is))) \<in> set (agenda (callq_of c')) \<and>
    hardclock i c' = Some (log, Ret c'') \<and> (c_func x, c_arg x) \<in> set log"
  by (rule kernel_clock.clock_run_fires [OF assms])

definition demo_clk :: clk where
  "demo_clk = \<lparr>kk = demo\<lparr>callouts := \<lparr>calltodo = [\<lparr>c_slot = 0, c_time = 2, c_func = F_schedcpu, c_arg = 0\<rparr>], callfree = [1..<NCALL]\<rparr>,
       allproc := [5, 4, 3, 2, 1, 0]\<rparr>,
     lbolt = 0, adjdelta = 0, tv_sec = 4, tv_usec = 0, cp_time = [0, 0, 0, 0],
     vm = \<lparr>freemem = 100, avefree = 0, avefree30 = 0, avenrun = [0, 0, 0], total = vmtotal_zero, cnt = replicate 10 1,
       rate = replicate 10 0, vsum = replicate 10 0, p_dsize = (\<lambda>_. 4096), p_stksize = (\<lambda>_. 2048)\<rparr>, prof_mem = (\<lambda>_. 0)\<rparr>"

lemma demo_clk_good: "cgood (Some 1) demo_clk"
proof -
  have "sched_inv (Some 1) (kk demo_clk)"
    by (rule sched_inv_cong [OF demo_inv]) (use sched_invD(7) [OF demo_inv] in \<open>auto simp: demo_clk_def\<close>)
  then show ?thesis
    by (auto simp: cgood_def kgood_def demo_clk_def demo_def ks_zero_def user_zero_def demo_addrs_def demo_procs_def proc_zero_def)
qed

lemma demo_clk_queue: "callq_inv (callq_of demo_clk)" "agenda (callq_of demo_clk) = [(\<lparr>c_slot = 0, c_time = 0, c_func = F_schedcpu, c_arg = 0\<rparr>, 2)]"
proof -
  have "insert 0 {Suc 0..<18} = {..<18::nat}" by auto
  then show "callq_inv (callq_of demo_clk)" by (simp add: callq_inv_def callq_of_def demo_clk_def)
  show "agenda (callq_of demo_clk) = [(\<lparr>c_slot = 0, c_time = 0, c_func = F_schedcpu, c_arg = 0\<rparr>, 2)]"
    by (simp add: agenda_def callq_of_def demo_clk_def)
qed

theorem timeout_fires_witness:
  "let i = \<lparr>i_pc = 0, i_usermode = True, i_basepri = True\<rparr>
   in \<exists>c' log c''. clock_run hardclock [i] demo_clk = Some c' \<and> hardclock i c' = Some (log, Ret c'') \<and> (F_schedcpu, 0) \<in> set log"
  using timeout_fires [OF demo_clk_good demo_clk_queue(1), of "\<lparr>c_slot = 0, c_time = 0, c_func = F_schedcpu, c_arg = 0\<rparr>" 2
    "[\<lparr>i_pc = 0, i_usermode = True, i_basepri = True\<rparr>]" "\<lparr>i_pc = 0, i_usermode = True, i_basepri = True\<rparr>"]
  unfolding demo_clk_queue(2) Let_def by auto

section \<open>A process that is continued\<close>




section \<open>Profiling\<close>

text \<open>
  The size that \<open>profil\<close> takes is in bytes, but \<open>addupc\<close> compares it with the index of a word, so a tick may be
  counted in a word past the end of the buffer.
\<close>

lemma addupc_past_end:
  "let pbuf = \<lparr>pr_base = 2130739200, pr_size = 16, pr_off = 0, pr_scale = 65536\<rparr>
   in addupc 15 pbuf 1 (\<lambda>_. 0) (pr_base pbuf + 60) = 1 \<and> pr_base pbuf + pr_size pbuf \<le> pr_base pbuf + 60"
  by (simp add: addupc_def Let_def u32_def)

end
