(* ===== verification/Memory.thy ===== *)
theory Memory
  imports Sigframe
begin

text \<open>
  The memory primitives of \<^verbatim>\<open>src/sys/pic32/machdep.c\<close>: \<open>ffs\<close>, \<open>copystr\<close>, \<open>strlen\<close>, \<open>badkaddr\<close>,
  \<open>insque\<close>, \<open>remque\<close>, \<open>strncmp\<close>, \<open>bcopy\<close>, \<open>bzero\<close>, \<open>bcmp\<close>, \<open>copyout\<close> and \<open>copyin\<close>. Memory is a function from
  32-bit addresses to bytes, and pointers wrap. A word that the code loads or stores through
  an \<^verbatim>\<open>unsigned*\<close> is the list of its four bytes. Counts (\<^verbatim>\<open>size_t\<close>) are naturals that wrap where the code
  decrements them past zero.
\<close>

unbundle bit_operations_syntax

type_synonym addr = "32 word"
type_synonym byte = "8 word"
type_synonym mem = "addr \<Rightarrow> byte"

section \<open>Bits\<close>

text \<open>The \<^verbatim>\<open>clz\<close> instruction: the number of zero bits before the highest one.\<close>

definition mips_clz :: "32 word \<Rightarrow> nat" where
  "mips_clz x = length (takeWhile (\<lambda>k. \<not> bit x k) (rev [0..<32]))"

definition ffs :: "32 word \<Rightarrow> nat" where
  "ffs i = (if i \<noteq> 0 then 32 - mips_clz (i AND - i) else 0)"

section \<open>Strings\<close>

text \<open>The loop of \<open>copystr\<close>: the memory, the end of the copy and whether the terminator was reached.\<close>

fun copystr_loop :: "nat \<Rightarrow> mem \<Rightarrow> addr \<Rightarrow> addr \<Rightarrow> mem \<times> addr \<times> bool" where
  "copystr_loop 0 m src dest = (m, dest, False)"
| "copystr_loop (Suc n) m src dest =
     (let m' = m(dest := m src)
      in if m src = 0 then (m', dest + 1, True)
         else if n = 0 then (m', dest + 1, False)
         else copystr_loop n m' (src + 1) (dest + 1))"

definition copystr :: "mem \<Rightarrow> addr \<Rightarrow> addr \<Rightarrow> nat \<Rightarrow> errno \<times> addr \<times> mem" where
  "copystr m src dest maxlength =
     (let r = copystr_loop maxlength m src dest
      in (if snd (snd r) then E_OK else ENOENT, fst (snd r) - dest, fst r))"

partial_function (option) strlen_loop :: "mem \<Rightarrow> addr \<Rightarrow> addr option" where
  "strlen_loop m s = (if m s \<noteq> 0 then strlen_loop m (s + 1) else Some (s + 1))"

definition strlen :: "mem \<Rightarrow> addr \<Rightarrow> addr option" where
  "strlen m s0 = map_option (\<lambda>s. s - s0 - 1) (strlen_loop m s0)"

text \<open>Characters are signed.\<close>

fun strncmp_loop :: "nat \<Rightarrow> mem \<Rightarrow> addr \<Rightarrow> addr \<Rightarrow> int" where
  "strncmp_loop 0 m s1 s2 = 0"
| "strncmp_loop (Suc n) m s1 s2 =
     (let ret = sint (m s1) - sint (m s2)
      in if ret = 0 \<and> m s2 \<noteq> 0 \<and> n \<noteq> 0 then strncmp_loop n m (s1 + 1) (s2 + 1) else ret)"

definition strncmp :: "mem \<Rightarrow> addr \<Rightarrow> addr \<Rightarrow> nat \<Rightarrow> int" where
  "strncmp m s1 s2 n = (if n = 0 then 0 else strncmp_loop n m s1 s2)"

section \<open>Blocks\<close>

definition UNALIGNED :: "addr \<Rightarrow> bool" where
  "UNALIGNED p \<longleftrightarrow> p AND 3 \<noteq> 0"

definition load32 :: "mem \<Rightarrow> addr \<Rightarrow> byte list" where
  "load32 m a = [m a, m (a + 1), m (a + 2), m (a + 3)]"

definition store32 :: "mem \<Rightarrow> addr \<Rightarrow> byte list \<Rightarrow> mem" where
  "store32 m a w = m(a := w ! 0, a + 1 := w ! 1, a + 2 := w ! 2, a + 3 := w ! 3)"

definition copy32 :: "mem \<Rightarrow> addr \<Rightarrow> addr \<Rightarrow> mem" where
  "copy32 m src dst = store32 m dst (load32 m src)"

fun bcopy_quads :: "nat \<Rightarrow> mem \<Rightarrow> addr \<Rightarrow> addr \<Rightarrow> mem \<times> addr \<times> addr \<times> nat" where
  "bcopy_quads nbytes m src dst =
     (if 16 \<le> nbytes
      then (let m = copy32 m src dst;
                m = copy32 m (src + 4) (dst + 4);
                m = copy32 m (src + 8) (dst + 8);
                m = copy32 m (src + 12) (dst + 12)
            in bcopy_quads (nbytes - 16) m (src + 16) (dst + 16))
      else (m, src, dst, nbytes))"

fun bcopy_words :: "nat \<Rightarrow> mem \<Rightarrow> addr \<Rightarrow> addr \<Rightarrow> mem \<times> addr \<times> addr \<times> nat" where
  "bcopy_words nbytes m src dst =
     (if 4 \<le> nbytes then bcopy_words (nbytes - 4) (copy32 m src dst) (src + 4) (dst + 4) else (m, src, dst, nbytes))"

declare bcopy_quads.simps [simp del] bcopy_words.simps [simp del]

fun bcopy_bytes :: "nat \<Rightarrow> mem \<Rightarrow> addr \<Rightarrow> addr \<Rightarrow> mem" where
  "bcopy_bytes 0 m src dst = m"
| "bcopy_bytes (Suc nbytes) m src dst = bcopy_bytes nbytes (m(dst := m src)) (src + 1) (dst + 1)"

definition bcopy :: "mem \<Rightarrow> addr \<Rightarrow> addr \<Rightarrow> nat \<Rightarrow> mem" where
  "bcopy m src dst nbytes =
     (if 16 \<le> nbytes \<and> \<not> UNALIGNED src \<and> \<not> UNALIGNED dst
      then case bcopy_quads nbytes m src dst of
             (m, src, dst, nbytes) \<Rightarrow>
               (case bcopy_words nbytes m src dst of (m, src, dst, nbytes) \<Rightarrow> bcopy_bytes nbytes m src dst)
      else bcopy_bytes nbytes m src dst)"

text \<open>The first loop of \<open>bzero\<close> decrements the count before it is compared; at most three steps make an address aligned.\<close>

fun bzero_align :: "nat \<Rightarrow> nat \<Rightarrow> mem \<Rightarrow> addr \<Rightarrow> mem \<times> addr \<times> nat \<times> bool" where
  "bzero_align 0 nbytes m dst = (m, dst, nbytes, False)"
| "bzero_align (Suc k) nbytes m dst =
     (if UNALIGNED dst
      then (let m = m(dst := 0); nbytes = u32 (nbytes + 4294967295)
            in if nbytes = 0 then (m, dst + 1, nbytes, True) else bzero_align k nbytes m (dst + 1))
      else (m, dst, nbytes, False))"

fun bzero_words :: "nat \<Rightarrow> mem \<Rightarrow> addr \<Rightarrow> mem \<times> addr \<times> nat" where
  "bzero_words nbytes m dst =
     (if 16 \<le> nbytes
      then bzero_words (nbytes - 16)
             (store32 (store32 (store32 (store32 m dst [0, 0, 0, 0]) (dst + 4) [0, 0, 0, 0]) (dst + 8) [0, 0, 0, 0])
               (dst + 12) [0, 0, 0, 0]) (dst + 16)
      else if 4 \<le> nbytes then bzero_words (nbytes - 4) (store32 m dst [0, 0, 0, 0]) (dst + 4)
      else (m, dst, nbytes))"

declare bzero_words.simps [simp del]

fun bzero_bytes :: "nat \<Rightarrow> mem \<Rightarrow> addr \<Rightarrow> mem" where
  "bzero_bytes 0 m dst = m"
| "bzero_bytes (Suc nbytes) m dst = bzero_bytes nbytes (m(dst := 0)) (dst + 1)"

definition bzero :: "mem \<Rightarrow> addr \<Rightarrow> nat \<Rightarrow> mem" where
  "bzero m dst nbytes =
     (case bzero_align 4 nbytes m dst of
        (m, dst, nbytes, returned) \<Rightarrow>
          if returned then m
          else if 4 \<le> nbytes then (case bzero_words nbytes m dst of (m, dst, nbytes) \<Rightarrow> bzero_bytes nbytes m dst)
          else bzero_bytes nbytes m dst)"

fun bcmp_words :: "nat \<Rightarrow> mem \<Rightarrow> addr \<Rightarrow> addr \<Rightarrow> addr \<times> addr \<times> nat" where
  "bcmp_words nbytes m s1 s2 =
     (if 4 \<le> nbytes \<and> load32 m s1 = load32 m s2 then bcmp_words (nbytes - 4) m (s1 + 4) (s2 + 4) else (s1, s2, nbytes))"

declare bcmp_words.simps [simp del]

fun bcmp_bytes :: "nat \<Rightarrow> mem \<Rightarrow> addr \<Rightarrow> addr \<Rightarrow> int" where
  "bcmp_bytes 0 m s1 s2 = 0"
| "bcmp_bytes (Suc nbytes) m s1 s2 =
     (if m s1 \<noteq> m s2 then uint (m s1) - uint (m s2) else bcmp_bytes nbytes m (s1 + 1) (s2 + 1))"

definition bcmp :: "mem \<Rightarrow> addr \<Rightarrow> addr \<Rightarrow> nat \<Rightarrow> int" where
  "bcmp m s1 s2 nbytes =
     (if 16 \<le> nbytes \<and> \<not> UNALIGNED s1 \<and> \<not> UNALIGNED s2
      then case bcmp_words nbytes m s1 s2 of (s1, s2, nbytes) \<Rightarrow> bcmp_bytes nbytes m s1 s2
      else bcmp_bytes nbytes m s1 s2)"

section \<open>User memory\<close>

record kmem =
  KERNEL_DATA_START :: nat
  KERNEL_DATA_END :: nat
  KERNEL_FLASH_START :: nat
  FLASH_SIZE :: nat

definition badkaddr :: "kmem \<Rightarrow> addr \<Rightarrow> bool" where
  "badkaddr k a =
     (if KERNEL_DATA_START k \<le> unat a \<and> unat a < KERNEL_DATA_END k then False
      else if KERNEL_FLASH_START k \<le> unat a \<and> unat a < KERNEL_FLASH_START k + FLASH_SIZE k then False
      else True)"

definition copyout :: "umem \<Rightarrow> mem \<Rightarrow> addr \<Rightarrow> addr \<Rightarrow> nat \<Rightarrow> errno \<times> mem" where
  "copyout um m from to nbytes =
     (if baduaddr um (unat to) \<or> baduaddr um (unat (to + of_nat nbytes - 1)) then (EFAULT, m)
      else (E_OK, bcopy m from to nbytes))"

definition copyin :: "umem \<Rightarrow> mem \<Rightarrow> addr \<Rightarrow> addr \<Rightarrow> nat \<Rightarrow> errno \<times> mem" where
  "copyin um m from to nbytes =
     (if baduaddr um (unat from) \<or> baduaddr um (unat (from + of_nat nbytes - 1)) then (EFAULT, m)
      else (E_OK, bcopy m from to nbytes))"

section \<open>Queues\<close>

record ques =
  q_next :: "addr \<Rightarrow> addr"
  q_prev :: "addr \<Rightarrow> addr"

definition insque :: "addr \<Rightarrow> addr \<Rightarrow> ques \<Rightarrow> ques" where
  "insque e prev q =
     (let q = q\<lparr>q_prev := (q_prev q)(e := prev)\<rparr>;
          q = q\<lparr>q_next := (q_next q)(e := q_next q prev)\<rparr>;
          q = q\<lparr>q_prev := (q_prev q)(q_next q prev := e)\<rparr>
      in q\<lparr>q_next := (q_next q)(prev := e)\<rparr>)"

definition remque :: "addr \<Rightarrow> ques \<Rightarrow> ques" where
  "remque e q =
     (let q = q\<lparr>q_next := (q_next q)(q_prev q e := q_next q e)\<rparr>
      in q\<lparr>q_prev := (q_prev q)(q_next q e := q_prev q e)\<rparr>)"

end
