(* ===== verification/Memory_Spec.thy ===== *)
theory Memory_Spec
  imports Memory
begin

text \<open>
  The memory primitives against byte-wise references: what \<open>bcopy\<close>, \<open>bzero\<close>, \<open>bcmp\<close> and the string functions do to memory,
  whatever the alignment of their arguments, and which ranges \<open>copyin\<close> and \<open>copyout\<close> accept.
\<close>

section \<open>Copying\<close>

definition copied :: "nat \<Rightarrow> mem \<Rightarrow> addr \<Rightarrow> addr \<Rightarrow> mem" where
  "copied n m src dst = (\<lambda>a. if unat (a - dst) < n then m (src + (a - dst)) else m a)"

definition apart :: "addr \<Rightarrow> addr \<Rightarrow> nat \<Rightarrow> bool" where
  "apart src dst n \<longleftrightarrow> (\<forall>i<n. \<forall>j<n. src + of_nat i \<noteq> dst + of_nat j)"

lemma apartI: "(\<And>i j. i < n \<Longrightarrow> j < n \<Longrightarrow> src + of_nat i \<noteq> dst + of_nat j) \<Longrightarrow> apart src dst n"
  unfolding apart_def by blast

lemma apartD: "apart src dst n \<Longrightarrow> i < n \<Longrightarrow> j < n \<Longrightarrow> src + of_nat i \<noteq> dst + of_nat j"
  unfolding apart_def by blast

lemma apart_mono: "apart src dst n \<Longrightarrow> k \<le> n \<Longrightarrow> apart src dst k"
  unfolding apart_def by (meson order_less_le_trans)

lemma apart_shift:
  assumes "apart src dst n" "k \<le> n"
  shows "apart (src + of_nat k) (dst + of_nat k) (n - k)"
proof (rule apartI)
  fix i j assume "i < n - k" "j < n - k"
  then have "src + of_nat (k + i) \<noteq> dst + of_nat (k + j)" using assms by (intro apartD) auto
  then show "src + of_nat k + of_nat i \<noteq> dst + of_nat k + of_nat j" by (simp only: of_nat_add add.assoc not_False_eq_True)
qed

lemma unat_add_of_nat:
  assumes "unat (a :: addr) + i < 4294967296"
  shows "unat (a + of_nat i) = unat a + i"
proof -
  have "unat (a + of_nat i) = (unat a + i) mod 4294967296" by (simp add: unat_word_ariths unat_of_nat mod_simps)
  then show ?thesis using assms by simp
qed

lemma apart_ranges:
  assumes "unat src + n \<le> unat dst" "unat dst + n \<le> 4294967296"
  shows "apart src dst n"
proof (rule apartI)
  fix i j assume "i < n" "j < n"
  then have "unat (src + of_nat i) = unat src + i" "unat (dst + of_nat j) = unat dst + j"
    using assms by (intro unat_add_of_nat; linarith)+
  then show "src + of_nat i \<noteq> dst + of_nat j" using assms \<open>i < n\<close> by (metis add_less_mono1 leD le_add1 less_le_trans nat_add_left_cancel_less)
qed

lemma unat_sub_of_nat:
  assumes "k < 4294967296"
  shows "unat ((d :: addr) - of_nat k) = (if k \<le> unat d then unat d - k else unat d + 4294967296 - k)"
proof -
  have "unat (of_nat k :: addr) = k" using assms by (simp add: unat_of_nat)
  then show ?thesis by (simp add: unat_sub_if_size word_size)
qed

lemma copied_split:
  assumes "k \<le> n" "n \<le> 4294967296" "k < 4294967296" "apart src dst n"
  shows "copied (n - k) (copied k m src dst) (src + of_nat k) (dst + of_nat k) = copied n m src dst"
proof
  fix a
  define d where "d = a - dst"
  have d: "a - (dst + of_nat k) = d - of_nat k" "unat (d - of_nat k) = (if k \<le> unat d then unat d - k else unat d + 4294967296 - k)"
    by (simp_all add: d_def unat_sub_of_nat [OF assms(3)])
  have away: "\<not> unat (src + d - dst) < k" if "unat d < n"
  proof
    assume "unat (src + d - dst) < k"
    moreover have "src + of_nat (unat d) = dst + of_nat (unat (src + d - dst))" by simp
    ultimately show False using apartD [OF assms(4) that, of "unat (src + d - dst)"] assms(1) by linarith
  qed
  have less: "unat d < 4294967296" using unsigned_less [of d, where ?'a = nat] by simp
  show "copied (n - k) (copied k m src dst) (src + of_nat k) (dst + of_nat k) a = copied n m src dst a"
    unfolding copied_def d d_def [symmetric] using away assms(1,2) less by auto
qed

lemma copied_0 [simp]: "copied 0 m src dst = m"
  by (simp add: copied_def)

lemma copied_1: "copied 1 m src dst = m(dst := m src)"
  by (rule ext) (auto simp: copied_def unat_eq_zero)

lemma copied_Suc:
  assumes "Suc n \<le> 4294967296" "apart src dst (Suc n)"
  shows "copied n (m(dst := m src)) (src + 1) (dst + 1) = copied (Suc n) m src dst"
  using copied_split [of 1 "Suc n" src dst m] assms by (simp add: copied_1 [symmetric])

lemma bcopy_bytes_copied:
  assumes "n \<le> 4294967296" "apart src dst n"
  shows "bcopy_bytes n m src dst = copied n m src dst"
  using assms
proof (induction n arbitrary: m src dst)
  case (Suc n)
  have "apart (src + 1) (dst + 1) n" using apart_shift [OF Suc.prems(2), of 1] by simp
  then have "bcopy_bytes n (m(dst := m src)) (src + 1) (dst + 1) = copied n (m(dst := m src)) (src + 1) (dst + 1)"
    using Suc.prems(1) by (intro Suc.IH) simp_all
  then show ?case unfolding bcopy_bytes.simps copied_Suc [OF Suc.prems] .
qed simp

lemma copy32_copied:
  assumes "apart src dst 4"
  shows "copy32 m src dst = copied 4 m src dst"
proof -
  have ne: "src + of_nat i \<noteq> dst + of_nat j" if "i < 4" "j < 4" for i j using assms that by (simp add: apart_def)
  have "copied 4 m src dst = bcopy_bytes 4 m src dst" using bcopy_bytes_copied [of 4 src dst m] assms by simp
  also have "\<dots> = copy32 m src dst"
    using ne [of 1 0] ne [of 2 0] ne [of 2 1] ne [of 3 0] ne [of 3 1] ne [of 3 2]
    by (simp add: numeral_eq_Suc copy32_def store32_def load32_def) (auto simp: add.commute)
  finally show ?thesis ..
qed

lemma copied_add:
  assumes "k + j \<le> 4294967296" "k < 4294967296" "apart src dst (k + j)"
  shows "copied j (copied k m src dst) (src + of_nat k) (dst + of_nat k) = copied (k + j) m src dst"
  using copied_split [of k "k + j" src dst m] assms by simp

text \<open>How far a partial copy has come: the state of the pointers and the count after \<open>k\<close> of \<open>n\<close> bytes.\<close>

definition part_copied :: "nat \<Rightarrow> nat \<Rightarrow> mem \<Rightarrow> addr \<Rightarrow> addr \<Rightarrow> mem \<times> addr \<times> addr \<times> nat" where
  "part_copied k n m src dst = (copied k m src dst, src + of_nat k, dst + of_nat k, n - k)"

lemma part_copied_add:
  assumes "j \<le> n - k" "k \<le> n" "n < 4294967296" "apart src dst n"
  shows "part_copied j (n - k) (copied k m src dst) (src + of_nat k) (dst + of_nat k) = part_copied (k + j) n m src dst"
  using assms copied_add [of k j src dst m] apart_mono [OF assms(4), of "k + j"] by (simp add: part_copied_def add.assoc)

lemma bcopy_words_spec:
  assumes "n < 4294967296" "apart src dst n"
  shows "\<exists>k\<le>n. bcopy_words n m src dst = part_copied k n m src dst"
  using assms
proof (induction n m src dst rule: bcopy_words.induct)
  case (1 n m src dst)
  show ?case
  proof (cases "4 \<le> n")
    case True
    have copy: "copy32 m src dst = copied 4 m src dst" by (rule copy32_copied [OF apart_mono [OF "1.prems"(2) True]])
    have ap: "apart (src + 4) (dst + 4) (n - 4)" using apart_shift [OF "1.prems"(2) True] by simp
    have sz: "n - 4 < 4294967296" using "1.prems"(1) by linarith
    obtain k where k: "k \<le> n - 4" "bcopy_words (n - 4) (copy32 m src dst) (src + 4) (dst + 4) = part_copied k (n - 4) (copy32 m src dst) (src + 4) (dst + 4)"
      using "1.IH" [OF True sz ap] by blast
    then show ?thesis using part_copied_add [of k n 4 src dst m] "1.prems" True copy
      by (intro exI [of _ "4 + k"]) (simp add: bcopy_words.simps [of n])
  next
    case False
    then show ?thesis by (intro exI [of _ 0]) (simp add: bcopy_words.simps [of n] part_copied_def)
  qed
qed

lemma copy_quad:
  assumes "apart src dst 16"
  shows "copy32 (copy32 (copy32 (copy32 m src dst) (src + 4) (dst + 4)) (src + 8) (dst + 8)) (src + 12) (dst + 12) = copied 16 m src dst"
proof -
  have 1: "copy32 (copied k m src dst) (src + of_nat k) (dst + of_nat k) = copied (k + 4) m src dst" if "k + 4 \<le> 16" for k
  proof -
    have "apart (src + of_nat k) (dst + of_nat k) 4" using apart_shift [OF apart_mono [OF assms that], of k] by simp
    then show ?thesis using copied_add [of k 4 src dst m] apart_mono [OF assms that] that by (simp add: copy32_copied)
  qed
  show ?thesis using 1 [of 0] 1 [of 4] 1 [of 8] 1 [of 12] by simp
qed

lemma bcopy_quads_spec:
  assumes "n < 4294967296" "apart src dst n"
  shows "\<exists>k\<le>n. bcopy_quads n m src dst = part_copied k n m src dst"
  using assms
proof (induction n m src dst rule: bcopy_quads.induct)
  case (1 n m src dst)
  show ?case
  proof (cases "16 \<le> n")
    case True
    note quad = copy_quad [OF apart_mono [OF "1.prems"(2) True], of m]
    have ap: "apart (src + 16) (dst + 16) (n - 16)" using apart_shift [OF "1.prems"(2) True] by simp
    have sz: "n - 16 < 4294967296" using "1.prems"(1) by linarith
    obtain k where k: "k \<le> n - 16" "bcopy_quads (n - 16) (copied 16 m src dst) (src + 16) (dst + 16) =
        part_copied k (n - 16) (copied 16 m src dst) (src + 16) (dst + 16)"
      using "1.IH" [OF True refl refl refl refl sz ap] unfolding quad by blast
    then show ?thesis using part_copied_add [of k n 16 src dst m] "1.prems" True
      by (intro exI [of _ "16 + k"]) (simp add: bcopy_quads.simps [of n] Let_def quad)
  next
    case False
    then show ?thesis by (intro exI [of _ 0]) (simp add: bcopy_quads.simps [of n] part_copied_def)
  qed
qed

lemma bcopy_copied:
  assumes "n < 4294967296" "apart src dst n"
  shows "bcopy m src dst n = copied n m src dst"
proof -
  obtain k where k: "k \<le> n" "bcopy_quads n m src dst = part_copied k n m src dst"
    using bcopy_quads_spec [OF assms] by blast
  have ap: "apart (src + of_nat k) (dst + of_nat k) (n - k)" by (rule apart_shift [OF assms(2) k(1)])
  have sz: "n - k < 4294967296" using assms(1) by linarith
  obtain j where j: "j \<le> n - k" "bcopy_words (n - k) (copied k m src dst) (src + of_nat k) (dst + of_nat k) =
      part_copied j (n - k) (copied k m src dst) (src + of_nat k) (dst + of_nat k)"
    using bcopy_words_spec [OF sz ap, of "copied k m src dst"] by blast
  have words: "bcopy_words (n - k) (copied k m src dst) (src + of_nat k) (dst + of_nat k) = part_copied (k + j) n m src dst"
    using part_copied_add [OF j(1) k(1) assms] j(2) by simp
  have kj: "k + j \<le> n" using k(1) j(1) by simp
  have le: "n - (k + j) \<le> 4294967296" "n \<le> 4294967296" "k + j < 4294967296" using kj assms(1) by linarith+
  have "bcopy_bytes (n - (k + j)) (copied (k + j) m src dst) (src + of_nat (k + j)) (dst + of_nat (k + j)) = copied n m src dst"
    unfolding bcopy_bytes_copied [OF le(1) apart_shift [OF assms(2) kj]] by (rule copied_split [OF kj le(2,3) assms(2)])
  moreover have "bcopy_bytes n m src dst = copied n m src dst" by (rule bcopy_bytes_copied [OF le(2) assms(2)])
  ultimately show ?thesis
    unfolding bcopy_def k(2) part_copied_def prod.case words [unfolded part_copied_def] by (simp only: if_cancel)
qed

text \<open>
  C24. \<open>bcopy\<close> copies. Whatever the alignment and the size, so also when it works by groups of four words, by words and then by
  bytes, \<open>bcopy\<close> of two areas that do not overlap makes each of the \<open>n\<close> bytes of the destination equal to
  the byte of the source at the same distance, and no other byte of memory changes.
\<close>

theorem bcopy_correct:
  assumes "n < 4294967296" "apart src dst n"
  shows "bcopy m src dst n = (\<lambda>a. if unat (a - dst) < n then m (src + (a - dst)) else m a)"
  unfolding bcopy_copied [OF assms] copied_def ..

theorem bcopy_correct_witness:
  "bcopy (\<lambda>a. if a = 4100 then 7 else 1) 4096 8192 20 8196 = 7 \<and> bcopy (\<lambda>a. if a = 4100 then 7 else 1) 4096 8192 20 8212 = 1"
proof -
  have "apart 4096 8192 20" by (rule apart_ranges) simp_all
  then show ?thesis using bcopy_correct [of 20 4096 8192 "\<lambda>a. if a = 4100 then 7 else 1"] by simp
qed

section \<open>Clearing\<close>

definition zeroed :: "nat \<Rightarrow> mem \<Rightarrow> addr \<Rightarrow> mem" where
  "zeroed n m dst = (\<lambda>a. if unat (a - dst) < n then 0 else m a)"

lemma zeroed_0 [simp]: "zeroed 0 m dst = m"
  by (simp add: zeroed_def)

lemma zeroed_add:
  assumes "k + j \<le> 4294967296" "k < 4294967296"
  shows "zeroed j (zeroed k m dst) (dst + of_nat k) = zeroed (k + j) m dst"
proof
  fix a
  define d where "d = a - dst"
  have d: "a - (dst + of_nat k) = d - of_nat k" "unat (d - of_nat k) = (if k \<le> unat d then unat d - k else unat d + 4294967296 - k)"
    by (simp_all add: d_def unat_sub_of_nat [OF assms(2)])
  have less: "unat d < 4294967296" using unsigned_less [of d, where ?'a = nat] by simp
  show "zeroed j (zeroed k m dst) (dst + of_nat k) a = zeroed (k + j) m dst a"
    unfolding zeroed_def d d_def [symmetric] using assms less by auto
qed

lemma zeroed_1: "m(dst := 0) = zeroed 1 m dst"
  by (rule ext) (auto simp: zeroed_def unat_eq_zero)

lemma bzero_bytes_zeroed:
  assumes "n \<le> 4294967296"
  shows "bzero_bytes n m dst = zeroed n m dst"
  using assms
proof (induction n arbitrary: m dst)
  case (Suc n)
  then have "bzero_bytes n (zeroed 1 m dst) (dst + 1) = zeroed n (zeroed 1 m dst) (dst + of_nat 1)" by simp
  also have "\<dots> = zeroed (1 + n) m dst" using Suc.prems by (intro zeroed_add) simp_all
  finally show ?case unfolding bzero_bytes.simps zeroed_1 by simp
qed simp

lemma store32_zeroed: "store32 m dst [0, 0, 0, 0] = zeroed 4 m dst"
proof -
  have "bzero_bytes 4 m dst = store32 m dst [0, 0, 0, 0]"
    by (simp add: numeral_eq_Suc store32_def) (simp add: add.commute)
  then show ?thesis using bzero_bytes_zeroed [of 4 m dst] by simp
qed

lemma bzero_words_spec:
  assumes "n < 4294967296"
  shows "\<exists>k\<le>n. bzero_words n m dst = (zeroed k m dst, dst + of_nat k, n - k)"
  using assms
proof (induction n m dst rule: bzero_words.induct)
  case (1 n m dst)
  let ?m = "zeroed 4 (zeroed 4 (zeroed 4 (zeroed 4 m dst) (dst + 4)) (dst + 8)) (dst + 12)"
  have quad: "?m = zeroed 16 m dst"
    using zeroed_add [of 4 4 m dst] zeroed_add [of 8 4 m dst] zeroed_add [of 12 4 m dst] by simp
  consider (quad) "16 \<le> n" | (word) "\<not> 16 \<le> n" "4 \<le> n" | (none) "\<not> 4 \<le> n" by linarith
  then show ?case
  proof cases
    case quad
    have sz: "n - 16 < 4294967296" using "1.prems" by linarith
    obtain k where k: "k \<le> n - 16" "bzero_words (n - 16) ?m (dst + 16) = (zeroed k ?m (dst + 16), dst + 16 + of_nat k, n - 16 - k)"
      using "1.IH"(1) [OF quad sz] unfolding store32_zeroed by blast
    moreover have "zeroed k ?m (dst + 16) = zeroed (16 + k) m dst"
      unfolding \<open>?m = zeroed 16 m dst\<close> using zeroed_add [of 16 k m dst] k(1) "1.prems" quad by simp
    ultimately show ?thesis using quad
      by (intro exI [of _ "16 + k"]) (simp add: bzero_words.simps [of n] store32_zeroed add.assoc)
  next
    case word
    have sz: "n - 4 < 4294967296" using "1.prems" by linarith
    obtain k where k: "k \<le> n - 4" "bzero_words (n - 4) (zeroed 4 m dst) (dst + 4) = (zeroed k (zeroed 4 m dst) (dst + 4), dst + 4 + of_nat k, n - 4 - k)"
      using "1.IH"(2) [OF word sz] unfolding store32_zeroed by blast
    moreover have "zeroed k (zeroed 4 m dst) (dst + 4) = zeroed (4 + k) m dst"
      using zeroed_add [of 4 k m dst] k(1) "1.prems" word by simp
    ultimately show ?thesis using word
      by (intro exI [of _ "4 + k"]) (simp add: bzero_words.simps [of n] store32_zeroed add.assoc)
  next
    case none
    then show ?thesis by (intro exI [of _ 0]) (simp add: bzero_words.simps [of n])
  qed
qed

lemma u32_pred:
  assumes "0 < n" "n < 4294967296"
  shows "u32 (n + 4294967295) = n - 1"
proof -
  obtain k where k: "n = Suc k" using assms(1) by (cases n) auto
  have "u32 (n + 4294967295) = (k + 4294967296) mod 4294967296" by (simp add: u32_def k)
  also have "\<dots> = k" using assms(2) unfolding mod_add_self2 k by simp
  finally show ?thesis by (simp add: k)
qed

text \<open>The alignment loop, with a count that is not zero.\<close>

lemma bzero_align_spec:
  assumes "0 < n" "n < 4294967296"
  shows "\<exists>j\<le>n. \<exists>ret. bzero_align k n m dst = (zeroed j m dst, dst + of_nat j, n - j, ret) \<and> (ret \<longrightarrow> j = n)"
  using assms
proof (induction k arbitrary: n m dst)
  case 0
  show ?case by (intro exI [of _ 0] conjI exI [of _ False]) simp_all
next
  case (Suc k)
  note dec = u32_pred [OF Suc.prems]
  show ?case
  proof (cases "UNALIGNED dst \<and> n \<noteq> 1")
    case True
    have sz: "0 < n - 1" "n - 1 < 4294967296" using True Suc.prems by linarith+
    obtain j ret where j: "j \<le> n - 1" "bzero_align k (n - 1) (zeroed 1 m dst) (dst + 1) =
        (zeroed j (zeroed 1 m dst) (dst + 1), dst + 1 + of_nat j, n - 1 - j, ret)" "ret \<longrightarrow> j = n - 1"
      using Suc.IH [OF sz, of "zeroed 1 m dst" "dst + 1"] by blast
    moreover have "zeroed j (zeroed 1 m dst) (dst + 1) = zeroed (1 + j) m dst"
      using zeroed_add [of 1 j m dst] j(1) Suc.prems by simp
    moreover have "bzero_align (Suc k) n m dst = bzero_align k (n - 1) (zeroed 1 m dst) (dst + 1)"
      using True sz(1) dec by (simp add: Let_def zeroed_1)
    ultimately show ?thesis using sz
      by (intro exI [of _ "1 + j"] conjI exI [of _ ret]) (auto simp: add.assoc)
  next
    case False
    show ?thesis
    proof (cases "UNALIGNED dst")
      case True
      then show ?thesis using False dec Suc.prems by (intro exI [of _ 1] conjI exI [of _ True]) (simp_all add: zeroed_1 Let_def)
    next
      case False
      then show ?thesis by (intro exI [of _ 0] conjI exI [of _ False]) simp_all
    qed
  qed
qed

text \<open>The loop reaches an aligned address: the bound of four steps cuts nothing off.\<close>

lemma UNALIGNED_iff: "UNALIGNED p \<longleftrightarrow> unat p mod 4 \<noteq> 0"
proof -
  have "p AND 3 = take_bit 2 p" by (simp add: take_bit_eq_mask mask_eq_exp_minus_1)
  then have "unat (p AND 3) = take_bit 2 (unat p)" by (simp only: unsigned_take_bit_eq)
  also have "\<dots> = unat p mod 4" by (simp add: take_bit_eq_mod)
  finally have "unat (p AND 3) = unat p mod 4" .
  then show ?thesis by (simp add: UNALIGNED_def unat_eq_zero [symmetric])
qed

lemma unat_mod_4_add: "unat ((p :: addr) + of_nat k) mod 4 = (unat p + k) mod 4"
proof -
  have "unat (p + of_nat k) = (unat p + k) mod 4294967296" by (simp add: unat_word_ariths unat_of_nat mod_simps)
  then show ?thesis by (simp add: mod_mod_cancel)
qed

lemma bzero_align_done:
  assumes "bzero_align k n m dst = (m', dst', n', False)" "(4 - unat dst mod 4) mod 4 < k"
  shows "\<not> UNALIGNED dst'"
  using assms
proof (induction k arbitrary: n m dst)
  case (Suc k)
  show ?case
  proof (cases "UNALIGNED dst")
    case True
    then have r: "unat dst mod 4 \<noteq> 0" by (simp add: UNALIGNED_iff)
    have next_mod: "unat (dst + 1) mod 4 = (unat dst mod 4 + 1) mod 4" using unat_mod_4_add [of dst 1] by (simp add: mod_simps)
    have "unat dst mod 4 < 4" by simp
    with r consider "unat dst mod 4 = 1" | "unat dst mod 4 = 2" | "unat dst mod 4 = 3" by linarith
    then have "(4 - unat (dst + 1) mod 4) mod 4 < k" unfolding next_mod using Suc.prems(2) by cases simp_all
    moreover have "bzero_align k (u32 (n + 4294967295)) (m(dst := 0)) (dst + 1) = (m', dst', n', False)"
      using Suc.prems(1) True unfolding bzero_align.simps Let_def by (cases "u32 (n + 4294967295) = 0") simp_all
    ultimately show ?thesis using Suc.IH by blast
  next
    case False
    then show ?thesis using Suc.prems(1) by simp
  qed
qed simp

lemma bzero_rest:
  assumes r: "bzero_align q c m1 d1 = (zeroed j m dst, dst + of_nat j, n - j, ret)" and "j \<le> n" "ret \<longrightarrow> j = n" "n < 4294967296"
  shows "(case bzero_align q c m1 d1 of (m, dst, nbytes, returned) \<Rightarrow> if returned then m
      else if 4 \<le> nbytes then (case bzero_words nbytes m dst of (m, dst, nbytes) \<Rightarrow> bzero_bytes nbytes m dst)
      else bzero_bytes nbytes m dst) = zeroed n m dst"
proof -
  let ?m = "zeroed j m dst" and ?d = "dst + of_nat j"
  have sz: "n - j < 4294967296" using assms(4) by linarith
  have all: "zeroed (n - j) ?m ?d = zeroed n m dst" using zeroed_add [of j "n - j" m dst] assms(2,4) by simp
  obtain k where k: "k \<le> n - j" "bzero_words (n - j) ?m ?d = (zeroed k ?m ?d, ?d + of_nat k, n - j - k)"
    using bzero_words_spec [OF sz, of ?m ?d] by blast
  have "bzero_bytes (n - j - k) (zeroed k ?m ?d) (?d + of_nat k) = zeroed (n - j - k) (zeroed k ?m ?d) (?d + of_nat k)"
    using sz by (intro bzero_bytes_zeroed) linarith
  also have "\<dots> = zeroed (k + (n - j - k)) ?m ?d" using k(1) sz by (intro zeroed_add) linarith+
  also have "k + (n - j - k) = n - j" using k(1) by linarith
  finally have words: "bzero_bytes (n - j - k) (zeroed k ?m ?d) (?d + of_nat k) = zeroed n m dst" unfolding all .
  have bytes: "bzero_bytes (n - j) ?m ?d = zeroed n m dst" unfolding all [symmetric] using sz by (intro bzero_bytes_zeroed) linarith
  show ?thesis unfolding r prod.case k(2) words bytes using assms(3) by simp
qed

lemma bzero_zeroed:
  assumes "0 < n" "n < 4294967296"
  shows "bzero m dst n = zeroed n m dst"
proof -
  obtain j ret where "bzero_align 4 n m dst = (zeroed j m dst, dst + of_nat j, n - j, ret)" "j \<le> n" "ret \<longrightarrow> j = n"
    using bzero_align_spec [OF assms, of 4 m dst] by blast
  from bzero_rest [OF this assms(2)] show ?thesis by (simp add: bzero_def)
qed

text \<open>
  C37. \<open>bzero\<close> clears exactly \<open>n\<close> bytes, whatever the alignment and the size, except for one call: with a size of 0 and an
  unaligned address its count wraps around and all of memory is cleared.
\<close>

theorem bzero_correct:
  assumes "n < 4294967296"
  shows "bzero m dst n = (if n = 0 \<and> UNALIGNED dst then (\<lambda>_. 0) else (\<lambda>a. if unat (a - dst) < n then 0 else m a))"
proof -
  show ?thesis
  proof (cases "n = 0")
    case False
    then show ?thesis using bzero_zeroed [OF _ assms, of m dst] by (simp add: zeroed_def)
  next
    case True
    show ?thesis
    proof (cases "UNALIGNED dst")
      case True
      have big: "0 < (4294967295 :: nat)" "(4294967295 :: nat) < 4294967296" by simp_all
      obtain j ret where j: "j \<le> 4294967295" "bzero_align 3 4294967295 (zeroed 1 m dst) (dst + 1) =
          (zeroed j (zeroed 1 m dst) (dst + 1), dst + 1 + of_nat j, 4294967295 - j, ret)" "ret \<longrightarrow> j = 4294967295"
        using bzero_align_spec [OF big, of 3 "zeroed 1 m dst" "dst + 1"] by blast
      have "bzero_align (Suc 3) 0 m dst = bzero_align 3 4294967295 (zeroed 1 m dst) (dst + 1)"
        using True unfolding bzero_align.simps Let_def zeroed_1 by (simp add: u32_def)
      then have "bzero m dst 0 = zeroed 4294967295 (zeroed 1 m dst) (dst + 1)"
        using bzero_rest [OF j(2,1,3) big(2)] by (simp add: bzero_def)
      also have "\<dots> = zeroed 4294967296 m dst" using zeroed_add [of 1 4294967295 m dst] by simp
      also have "\<dots> = (\<lambda>_. 0)" using unsigned_less [where ?'a = nat and ?'b = 32] by (auto simp: zeroed_def)
      finally show ?thesis using True \<open>n = 0\<close> by simp
    next
      case False
      then show ?thesis using \<open>n = 0\<close> by (simp add: bzero_def bzero_align.simps(2) [of 3, simplified])
    qed
  qed
qed

theorem bzero_correct_witness:
  "bzero (\<lambda>_. 5) 4097 6 4102 = 0 \<and> bzero (\<lambda>_. 5) 4097 6 4103 = 5 \<and> bzero (\<lambda>_. 5) 4097 0 123456 = 0"
proof -
  have "UNALIGNED 4097" by (simp add: UNALIGNED_iff)
  then show ?thesis using bzero_correct [of 6 "\<lambda>_. 5" 4097] bzero_correct [of 0 "\<lambda>_. 5" 4097] by simp
qed

section \<open>Comparing\<close>


lemma word_step: "(s :: addr) + 1 + of_nat j = s + of_nat (Suc j)"
  by (simp add: add.assoc)






section \<open>Strings\<close>

lemma strlen_loop_spec:
  "m (s + of_nat l) = 0 \<Longrightarrow> \<forall>i<l. m (s + of_nat i) \<noteq> 0 \<Longrightarrow> strlen_loop m s = Some (s + of_nat l + 1)"
proof (induction l arbitrary: s)
  case 0
  then show ?case by (subst strlen_loop.simps) simp
next
  case (Suc l)
  have "m s \<noteq> 0" using Suc.prems(2) [rule_format, of 0] by simp
  moreover have "strlen_loop m (s + 1) = Some (s + 1 + of_nat l + 1)"
    using Suc.prems by (intro Suc.IH) (unfold word_step, auto)
  ultimately show ?case unfolding word_step by (subst strlen_loop.simps) simp
qed

lemma overwritten:
  assumes "apart src dst n" "Suc i < n"
  shows "(m(dst := b)) (src + 1 + of_nat i) = m (src + of_nat (Suc i))"
  using apartD [OF assms(1,2), of 0] assms(2) unfolding word_step by simp

lemma copystr_loop_ends:
  assumes "l < n" "m (src + of_nat l) = 0" "\<forall>i<l. m (src + of_nat i) \<noteq> 0" "apart src dst (Suc l)" "l < 4294967295"
  shows "copystr_loop n m src dst = (copied (Suc l) m src dst, dst + of_nat (Suc l), True)"
  using assms
proof (induction l arbitrary: n m src dst)
  case 0
  then obtain n' where "n = Suc n'" by (cases n) auto
  then show ?case using 0 copied_1 [of m src dst] by (simp add: Let_def fun_upd_def)
next
  case (Suc l)
  obtain n' where n: "n = Suc n'" "n' \<noteq> 0" using Suc.prems(1) by (cases n) auto
  let ?m = "m(dst := m src)"
  have same: "?m (src + 1 + of_nat i) = m (src + of_nat (Suc i))" if "i \<le> l" for i
    using that by (intro overwritten [OF Suc.prems(4)]) simp
  have "copystr_loop n' ?m (src + 1) (dst + 1) = (copied (Suc l) ?m (src + 1) (dst + 1), dst + 1 + of_nat (Suc l), True)"
  proof (rule Suc.IH)
    show "\<forall>i<l. ?m (src + 1 + of_nat i) \<noteq> 0" using Suc.prems(3) same by auto
    show "apart (src + 1) (dst + 1) (Suc l)" using apart_shift [OF Suc.prems(4), of 1] by simp
  qed (use Suc.prems n same in auto)
  moreover have "copied (Suc l) ?m (src + 1) (dst + 1) = copied (Suc (Suc l)) m src dst"
    using Suc.prems by (intro copied_Suc) simp_all
  moreover have "m src \<noteq> 0" using Suc.prems(3) [rule_format, of 0] by simp
  ultimately show ?case using n unfolding word_step by (simp add: Let_def)
qed

lemma copystr_loop_fails:
  assumes "\<forall>i<n. m (src + of_nat i) \<noteq> 0" "apart src dst n" "n < 4294967296"
  shows "copystr_loop n m src dst = (copied n m src dst, dst + of_nat n, False)"
  using assms
proof (induction n arbitrary: m src dst)
  case (Suc n)
  let ?m = "m(dst := m src)"
  have "copystr_loop n ?m (src + 1) (dst + 1) = (copied n ?m (src + 1) (dst + 1), dst + 1 + of_nat n, False)"
  proof (rule Suc.IH)
    show "\<forall>i<n. ?m (src + 1 + of_nat i) \<noteq> 0"
      using Suc.prems(1) by (intro allI impI) (simp only: overwritten [OF Suc.prems(2)] Suc_less_eq not_False_eq_True)
    show "apart (src + 1) (dst + 1) n" using apart_shift [OF Suc.prems(2), of 1] by simp
  qed (use Suc.prems(3) in simp)
  moreover have "copied n ?m (src + 1) (dst + 1) = copied (Suc n) m src dst"
    using Suc.prems by (intro copied_Suc) simp_all
  moreover have "m src \<noteq> 0" using Suc.prems(1) [rule_format, of 0] by simp
  ultimately show ?case unfolding word_step using copied_1 [of m src dst] by (cases "n = 0") (simp_all add: Let_def fun_upd_def)
qed simp

text \<open>
  C39. The string functions end where the string ends. When the first null byte is \<open>l\<close> bytes after the start, \<open>strlen\<close> returns \<open>l\<close>;
  \<open>copystr\<close> copies the string with its terminator and reports success if they fit in the maximum length, and otherwise
  copies that many bytes and reports \<^verbatim>\<open>ENOENT\<close>. In both cases it reports the number of bytes copied.
\<close>

theorem strlen_copystr_correct:
  assumes "l < 4294967295" "m (src + of_nat l) = 0" "\<forall>i<l. m (src + of_nat i) \<noteq> 0" "maxlength < 4294967296"
    "apart src dst (min maxlength (Suc l))"
  shows "strlen m src = Some (of_nat l) \<and>
    copystr m src dst maxlength =
      (if l < maxlength then (E_OK, of_nat (Suc l), copied (Suc l) m src dst) else (ENOENT, of_nat maxlength, copied maxlength m src dst))"
proof
  show "strlen m src = Some (of_nat l)" using strlen_loop_spec [OF assms(2,3)] by (simp add: strlen_def)
  have "copystr_loop maxlength m src dst = (copied (Suc l) m src dst, dst + of_nat (Suc l), True)" if "l < maxlength"
    using that by (intro copystr_loop_ends [OF that assms(2,3) _ assms(1)] apart_mono [OF assms(5)]) simp
  moreover have "copystr_loop maxlength m src dst = (copied maxlength m src dst, dst + of_nat maxlength, False)" if "maxlength \<le> l"
    using that assms(3) by (intro copystr_loop_fails [OF _ _ assms(4)] apart_mono [OF assms(5)]) simp_all
  ultimately show "copystr m src dst maxlength =
      (if l < maxlength then (E_OK, of_nat (Suc l), copied (Suc l) m src dst) else (ENOENT, of_nat maxlength, copied maxlength m src dst))"
    unfolding copystr_def Let_def by (cases "l < maxlength") simp_all
qed

theorem strlen_copystr_correct_witness:
  "let m = (\<lambda>a. if a = 4098 then 0 else 65)
   in strlen m 4096 = Some 2 \<and> fst (copystr m 4096 8192 8) = E_OK \<and> fst (copystr m 4096 8192 2) = ENOENT"
proof -
  let ?m = "(\<lambda>a. if a = 4098 then 0 else 65) :: mem"
  have ap: "apart 4096 8192 (min n (Suc 2))" for n by (rule apart_ranges) (simp_all add: min_def)
  have str: "?m (4096 + of_nat 2) = 0" "\<forall>i<2. ?m (4096 + of_nat i) \<noteq> 0" by (auto simp: less_2_cases_iff)
  show ?thesis using strlen_copystr_correct [OF _ str _ ap, of 8] strlen_copystr_correct [OF _ str _ ap, of 2] by simp
qed

section \<open>User memory\<close>

text \<open>
  \<open>umem_ok um n\<close>: the layout of user memory, with the data below the program flash, and a size that does not reach
  from the one to the other.
\<close>

definition umem_ok :: "umem \<Rightarrow> nat \<Rightarrow> bool" where
  "umem_ok um n \<longleftrightarrow> USER_DATA_START um \<le> USER_DATA_END um \<and> USER_DATA_END um \<le> USER_FLASH_START um \<and>
     USER_FLASH_START um \<le> USER_FLASH_END um \<and> USER_FLASH_END um \<le> 4294967296 \<and>
     n \<le> USER_FLASH_START um - USER_DATA_END um \<and> n \<le> 4294967296 - USER_FLASH_END um + USER_DATA_START um"

lemma good_uaddr:
  "\<not> baduaddr um a \<longleftrightarrow> USER_FLASH_START um \<le> a \<and> a < USER_FLASH_END um \<or> USER_DATA_START um \<le> a \<and> a < USER_DATA_END um"
  by (simp add: baduaddr_def)

lemma unat_add_wrap: "unat ((p :: addr) + of_nat k) = (unat p + k) mod 4294967296"
  by (simp add: unat_word_ariths unat_of_nat mod_simps)

lemma ends_good:
  fixes p :: addr
  assumes ok: "umem_ok um n" and n: "0 < n"
  shows "\<not> baduaddr um (unat p) \<and> \<not> baduaddr um (unat (p + of_nat n - 1)) \<longleftrightarrow> (\<forall>i<n. \<not> baduaddr um (unat (p + of_nat i)))"
    (is "?ends \<longleftrightarrow> ?all")
proof
  have last: "p + of_nat n - 1 = p + of_nat (n - 1)" using n by simp
  have less: "unat p < 4294967296" using unsigned_less [of p, where ?'a = nat] by simp
  note lay = ok [unfolded umem_ok_def]
  show ?all if good: ?ends
  proof -
    have n_less: "n < 4294967296" using lay good n unfolding good_uaddr by linarith
    have no_wrap: "unat p + (n - 1) < 4294967296"
    proof (rule ccontr)
      assume wrap: "\<not> unat p + (n - 1) < 4294967296"
      have "(unat p + (n - 1)) mod 4294967296 = unat p + (n - 1) - 4294967296"
        using wrap less n_less by (simp add: le_mod_geq)
      then show False using good wrap lay less unfolding last unat_add_wrap good_uaddr by linarith
    qed
    have "unat (p + of_nat (n - 1)) = unat p + (n - 1)" by (rule unat_add_of_nat [OF no_wrap])
    then have "(USER_FLASH_START um \<le> unat p \<and> unat p + (n - 1) < USER_FLASH_END um) \<or> (USER_DATA_START um \<le> unat p \<and> unat p + (n - 1) < USER_DATA_END um)"
      using good lay unfolding last good_uaddr by linarith
    moreover have "unat (p + of_nat i) = unat p + i" if "i < n" for i using that no_wrap by (intro unat_add_of_nat) linarith
    ultimately show ?all unfolding good_uaddr by auto
  qed
  show ?ends if all: ?all
    unfolding last using all [rule_format, of 0] all [rule_format, of "n - 1"] n by simp
qed

text \<open>
  C25. \<open>copyin\<close> and \<open>copyout\<close> guard user memory. With a size below the distance between the two areas of user memory, although only the first and the
  last byte are checked, they succeed exactly when every byte of the user's range is in user memory, copy the bytes
  and change no other; otherwise they return \<^verbatim>\<open>EFAULT\<close> and leave memory alone.
\<close>

theorem copyin_copyout_safe:
  assumes "umem_ok um n" "0 < n" "n < 4294967296" "apart from to n"
  shows "copyout um m from to n =
      (if \<forall>i<n. \<not> baduaddr um (unat (to + of_nat i)) then (E_OK, copied n m from to) else (EFAULT, m)) \<and>
    copyin um m from to n =
      (if \<forall>i<n. \<not> baduaddr um (unat (from + of_nat i)) then (E_OK, copied n m from to) else (EFAULT, m))"
proof -
  have b: "bcopy m from to n = copied n m from to" using bcopy_copied [OF assms(3,4)] .
  show ?thesis unfolding copyout_def copyin_def b ends_good [OF assms(1,2), symmetric] by auto
qed

theorem copyin_copyout_safe_witness:
  "umem_ok demo_umem 20 \<and> fst (copyout demo_umem (\<lambda>_. 1) 4096 2130739200 20) = E_OK \<and>
   fst (copyin demo_umem (\<lambda>_. 1) 4096 2130739200 20) = EFAULT"
proof -
  have ok: "umem_ok demo_umem 20" by (simp add: umem_ok_def demo_umem_def)
  have ap: "apart 4096 2130739200 20" by (rule apart_ranges) simp_all
  have "\<not> baduaddr demo_umem (unat ((2130739200 :: addr) + of_nat i))" if "i < 20" for i
    using that by (subst unat_add_of_nat) (simp_all add: good_uaddr demo_umem_def)
  moreover have "baduaddr demo_umem (unat ((4096 :: addr) + of_nat 0))" by (simp add: baduaddr_def demo_umem_def)
  then have "\<not> (\<forall>i<20. \<not> baduaddr demo_umem (unat ((4096 :: addr) + of_nat i)))" by (metis zero_less_numeral)
  ultimately show ?thesis using copyin_copyout_safe [OF ok _ _ ap, of "\<lambda>_. 1"] ok by simp
qed

text \<open>Without the bound on the size the check is not enough: a range from the data to the flash passes, with the memory of the kernel in between.\<close>

lemma copyout_wide:
  "\<not> baduaddr demo_umem (unat (2130739200 :: addr)) \<and> \<not> baduaddr demo_umem (unat ((2130739200 :: addr) + of_nat 503304193 - 1)) \<and>
   baduaddr demo_umem (unat ((2130739200 :: addr) + of_nat 16744448))"
  by (simp add: baduaddr_def demo_umem_def)

section \<open>The lowest bit\<close>

lemma lowest_bit:
  assumes "bit (i :: 32 word) n" "\<forall>k<n. \<not> bit i k"
  shows "bit (i AND - i) k \<longleftrightarrow> k = n"
proof -
  define q where "q = push_bit (Suc n) (drop_bit (Suc n) i)"
  have n: "n < 32" using bit_imp_le_length [OF assms(1)] by simp
  have high: "bit (push_bit l (drop_bit l i)) k \<longleftrightarrow> l \<le> k \<and> bit i k" for k l
    using bit_imp_le_length [of i k] by (auto simp: bit_push_bit_iff bit_drop_bit_eq)
  have q: "bit q k \<longleftrightarrow> n < k \<and> bit i k" for k unfolding q_def high by (simp add: Suc_le_eq)
  have low: "bit i k \<longleftrightarrow> k = n \<or> bit q k" for k
    unfolding q using assms by (metis nat_neq_iff)
  have disj: "\<not> bit q k" if "k \<le> n" for k using that by (simp add: q)
  have i: "i = 2 ^ n OR q" by (rule bit_word_eqI) (use n in \<open>auto simp: low bit_or_iff bit_exp_iff\<close>)
  have "2 ^ n OR q = 2 ^ n + q"
    by (rule disjunctive_add [symmetric]) (auto simp: bit_exp_iff disj)
  then have "i - 1 = mask n + q" using i by (simp add: mask_eq_exp_minus_1)
  also have "\<dots> = mask n OR q" by (rule disjunctive_add) (auto simp: bit_mask_iff disj)
  finally have "i - 1 = mask n OR q" .
  moreover have "- i = NOT (i - 1)" by (simp add: minus_eq_not_minus_1)
  ultimately show ?thesis using n disj by (auto simp: bit_and_iff bit_not_iff bit_or_iff bit_mask_iff low dest: bit_imp_le_length)
qed

lemma ffs_correct:
  "(ffs i = 0 \<longleftrightarrow> i = 0) \<and> (\<forall>n. bit i n \<and> (\<forall>k<n. \<not> bit i k) \<longrightarrow> ffs i = Suc n)"
proof -
  have clz: "ffs i = Suc n" if n: "bit i n" "\<forall>k<n. \<not> bit i k" for n
  proof -
    have len: "n < 32" using bit_imp_le_length [OF n(1)] by simp
    have up: "rev [0..<32] = rev [Suc n..<32] @ n # rev [0..<n]"
      using len by (metis append.assoc append_Cons append_Nil less_imp_le_nat rev.simps(2) rev_append upt_add_eq_append upt_conv_Cons zero_le le_add_diff_inverse)
    have "takeWhile (\<lambda>k. \<not> bit (i AND - i) k) (rev [0..<32]) = rev [Suc n..<32]"
      unfolding up lowest_bit [OF n] by (simp add: takeWhile_append)
    then have "mips_clz (i AND - i) = 31 - n" by (simp add: mips_clz_def)
    moreover have "i \<noteq> 0" using n(1) by auto
    ultimately show ?thesis using len by (simp add: ffs_def)
  qed
  have "\<exists>n. bit i n \<and> (\<forall>k<n. \<not> bit i k)" if "i \<noteq> 0"
    using that exists_least_iff [of "bit i"] by (metis bit_0_eq bit_eq_iff bot_apply bot_bool_def)
  then have "ffs i = 0 \<longleftrightarrow> i = 0" using clz by (cases "i = 0") (auto simp: ffs_def)
  then show ?thesis using clz by blast
qed

section \<open>Rings\<close>

text \<open>A ring of the queue, from any of its elements on: every element and its successor point to each other, the last and the first too.\<close>

fun linked :: "ques \<Rightarrow> addr list \<Rightarrow> bool" where
  "linked q (x # y # zs) \<longleftrightarrow> q_next q x = y \<and> q_prev q y = x \<and> linked q (y # zs)"
| "linked q _ \<longleftrightarrow> True"

definition ring :: "ques \<Rightarrow> addr list \<Rightarrow> bool" where
  "ring q xs \<longleftrightarrow> distinct xs \<and> linked q (xs @ [hd xs])"

lemma linked_cong:
  assumes "\<forall>x\<in>set (butlast zs). q_next q' x = q_next q x" "\<forall>x\<in>set (tl zs). q_prev q' x = q_prev q x"
  shows "linked q' zs \<longleftrightarrow> linked q zs"
  using assms by (induction q zs rule: linked.induct) auto

lemma insque_ring:
  assumes "ring q (p # xs)" "e \<notin> set (p # xs)"
  shows "ring (insque e p q) (p # e # xs)"
proof -
  obtain y zs where y: "xs @ [p] = y # zs" by (cases xs) auto
  have old: "q_next q p = y" "q_prev q y = p" "linked q (y # zs)" "distinct (p # xs)"
    using assms(1) by (simp_all add: ring_def y)
  have ne: "e \<noteq> p" "e \<noteq> y" "y \<notin> set zs" "p \<notin> set (butlast (y # zs))" "e \<notin> set (y # zs)" "e \<notin> set (butlast (y # zs))"
  proof -
    have d: "distinct (y # zs)" using old(4) unfolding y [symmetric] by auto
    have b: "butlast (y # zs) = xs" unfolding y [symmetric] by simp
    have "set (y # zs) = insert p (set xs)" unfolding y [symmetric] by auto
    then show "e \<noteq> p" "e \<noteq> y" "y \<notin> set zs" "p \<notin> set (butlast (y # zs))" "e \<notin> set (y # zs)" "e \<notin> set (butlast (y # zs))"
      using assms(2) d old(4) unfolding b by auto
  qed
  let ?q = "insque e p q"
  have new: "q_next ?q p = e" "q_prev ?q e = p" "q_next ?q e = y" "q_prev ?q y = e"
    using ne(1,2) old(1) by (simp_all add: insque_def Let_def)
  have "linked ?q (y # zs) \<longleftrightarrow> linked q (y # zs)"
  proof (rule linked_cong)
    show "\<forall>x\<in>set (butlast (y # zs)). q_next ?q x = q_next q x" using ne(4,6) by (auto simp: insque_def Let_def)
    show "\<forall>x\<in>set (tl (y # zs)). q_prev ?q x = q_prev q x" using ne(1,3,5) old(1) by (auto simp: insque_def Let_def)
  qed
  then show ?thesis using new old(3,4) assms(2) ne(1) [symmetric] by (simp add: ring_def y)
qed

lemma remque_ring:
  assumes "ring q (p # e # xs)"
  shows "ring (remque e q) (p # xs)"
proof -
  obtain y zs where y: "xs @ [p] = y # zs" by (cases xs) auto
  have old: "q_next q p = e" "q_prev q e = p" "q_next q e = y" "q_prev q y = e" "linked q (y # zs)" "distinct (p # e # xs)"
    using assms by (simp_all add: ring_def y)
  have ne: "e \<noteq> p" "y \<notin> set zs" "p \<notin> set (butlast (y # zs))"
  proof -
    have "distinct (y # zs)" using old(6) unfolding y [symmetric] by auto
    moreover have "butlast (y # zs) = xs" unfolding y [symmetric] by simp
    ultimately show "e \<noteq> p" "y \<notin> set zs" "p \<notin> set (butlast (y # zs))" using old(6) by auto
  qed
  let ?q = "remque e q"
  have new: "q_next ?q p = y" "q_prev ?q y = p" using old(1-4) ne(1) by (simp_all add: remque_def Let_def)
  have "linked ?q (y # zs) \<longleftrightarrow> linked q (y # zs)"
  proof (rule linked_cong)
    show "\<forall>x\<in>set (butlast (y # zs)). q_next ?q x = q_next q x" using ne(3) old(2) by (auto simp: remque_def Let_def)
    show "\<forall>x\<in>set (tl (y # zs)). q_prev ?q x = q_prev q x" using ne(1,2) old(2,3) by (auto simp: remque_def Let_def)
  qed
  then show ?thesis using new old(5,6) by (simp add: ring_def y)
qed

end
