(* ===== verification/Descrip.thy ===== *)
theory Descrip
  imports Proc "HOL-Library.Word"
begin

text \<open>
  Open files: the file table and the descriptors of the processes of \<^verbatim>\<open>src/sys/kernel/kern_descrip.c\<close>, the advisory locks of
  \<^verbatim>\<open>src/sys/kernel/sys_inode.c\<close>, and the parts of \<^verbatim>\<open>open\<close>, \<^verbatim>\<open>pipe\<close>, \<^verbatim>\<open>fork\<close>, \<^verbatim>\<open>exit\<close> and \<^verbatim>\<open>exec\<close> that work on them.

  A file is its index in \<^verbatim>\<open>file[]\<close>, an inode its index in \<^verbatim>\<open>inode[]\<close>, a process its index in \<^verbatim>\<open>proc[]\<close>; a null pointer is
  \<open>None\<close>. The code runs for the process of \<^verbatim>\<open>u\<close>, which is the first argument of the operations. A process that sleeps inside
  \<^verbatim>\<open>vn_open\<close> or \<^verbatim>\<open>ino_lock\<close> lets the others run: the local variables it needs afterwards are its \<open>u_act\<close>.
  What the drivers and the file system answer (\<^verbatim>\<open>vn_open\<close>, \<^verbatim>\<open>closei\<close>, \<^verbatim>\<open>fo_ioctl\<close>) is an argument of the operations.
\<close>

unbundle bit_operations_syntax

section \<open>Files, descriptors and locks\<close>

type_synonym word32 = "32 word"

datatype dtype = DTYPE_NONE | DTYPE_INODE | DTYPE_SOCKET | DTYPE_PIPE

record file_s =
  f_flag :: word32
  f_type :: dtype
  f_count :: nat
  f_data :: "nat option"
  f_offset :: int

text \<open>The fields of an inode that the advisory locks use; the counts are 16 bits wide.\<close>

record ilock =
  i_shlockc :: nat
  i_exlockc :: nat
  ISHLOCK :: bool
  IEXLOCK :: bool
  ILWAIT :: bool

text \<open>
  \<open>Opening fp indx flags\<close> is a process inside the call of \<^verbatim>\<open>vn_open\<close> by \<^verbatim>\<open>copen\<close>. \<open>Locking fp cmd ch r\<close> is one inside
  \<^verbatim>\<open>ino_lock\<close>, called by \<^verbatim>\<open>copen\<close> for the descriptor \<open>r = Some indx\<close> or by \<^verbatim>\<open>flock\<close>: \<open>ch = Some ip\<close> while it sleeps on
  \<^verbatim>\<open>&ip->i_shlockc\<close>, and \<open>None\<close> once it was woken.
\<close>

datatype act = Running | Opening nat nat word32 | Locking nat word32 "nat option" "nat option"

record fuser =
  u_ofile :: "nat \<Rightarrow> nat option"
  u_pofile :: "nat \<Rightarrow> 8 word"
  u_lastfile :: int
  u_dupfd :: int
  u_rval :: int
  u_rval2 :: int \<comment> \<open>\<^verbatim>\<open>u_frame[FRAME_R3]\<close>\<close>
  u_err :: errno \<comment> \<open>\<^verbatim>\<open>u_error\<close>\<close>
  u_act :: act

record ftab =
  files :: "nat \<Rightarrow> file_s"
  lastf :: "nat option"
  inodes :: "nat \<Rightarrow> ilock"
  usr :: "nat \<Rightarrow> fuser"
  live :: "nat set"

abbreviation (input) NOFILE :: nat where "NOFILE \<equiv> 30"
abbreviation (input) NFILE :: nat where "NFILE \<equiv> 24"

abbreviation (input) FREAD :: word32 where "FREAD \<equiv> 0x1"
abbreviation (input) FWRITE :: word32 where "FWRITE \<equiv> 0x2"
abbreviation (input) FNONBLOCK :: word32 where "FNONBLOCK \<equiv> 0x4"
abbreviation (input) FAPPEND :: word32 where "FAPPEND \<equiv> 0x8"
abbreviation (input) FSHLOCK :: word32 where "FSHLOCK \<equiv> 0x10"
abbreviation (input) FEXLOCK :: word32 where "FEXLOCK \<equiv> 0x20"
abbreviation (input) FASYNC :: word32 where "FASYNC \<equiv> 0x40"
abbreviation (input) FFSYNC :: word32 where "FFSYNC \<equiv> 0x80"
abbreviation (input) LOCK_SH :: word32 where "LOCK_SH \<equiv> 1"
abbreviation (input) LOCK_EX :: word32 where "LOCK_EX \<equiv> 2"
abbreviation (input) LOCK_NB :: word32 where "LOCK_NB \<equiv> 4"
abbreviation (input) LOCK_UN :: word32 where "LOCK_UN \<equiv> 8"
abbreviation (input) UF_EXCLOSE :: "8 word" where "UF_EXCLOSE \<equiv> 1"

definition FFLAGS :: "word32 \<Rightarrow> word32" where "FFLAGS oflags = oflags + 1"

definition OFLAGS :: "word32 \<Rightarrow> word32" where "OFLAGS fflags = fflags - 1"

definition FMASK :: word32 where
  "FMASK = FREAD OR FWRITE OR FAPPEND OR FASYNC OR FFSYNC OR FNONBLOCK"

definition FCNTLFLAGS :: word32 where
  "FCNTLFLAGS = FAPPEND OR FASYNC OR FFSYNC OR FNONBLOCK"

definition upd_file :: "nat \<Rightarrow> (file_s \<Rightarrow> file_s) \<Rightarrow> ftab \<Rightarrow> ftab" where
  "upd_file fp g t = t\<lparr>files := (files t)(fp := g (files t fp))\<rparr>"

definition upd_usr :: "nat \<Rightarrow> (fuser \<Rightarrow> fuser) \<Rightarrow> ftab \<Rightarrow> ftab" where
  "upd_usr p g t = t\<lparr>usr := (usr t)(p := g (usr t p))\<rparr>"

definition upd_ino :: "nat \<Rightarrow> (ilock \<Rightarrow> ilock) \<Rightarrow> ftab \<Rightarrow> ftab" where
  "upd_ino ip g t = t\<lparr>inodes := (inodes t)(ip := g (inodes t ip))\<rparr>"

definition set_err :: "nat \<Rightarrow> errno \<Rightarrow> ftab \<Rightarrow> ftab" where
  "set_err p e t = upd_usr p (u_err_update (\<lambda>_. e)) t"

section \<open>Descriptors\<close>

definition ufalloc :: "nat \<Rightarrow> nat \<Rightarrow> ftab \<Rightarrow> nat option \<times> ftab" where
  "ufalloc p i t =
     (case find (\<lambda>i. u_ofile (usr t p) i = None) [i..<NOFILE] of
        Some i \<Rightarrow> (Some i, upd_usr p (\<lambda>v. v\<lparr>u_rval := int i, u_pofile := (u_pofile v)(i := 0),
                       u_lastfile := (if int i > u_lastfile v then int i else u_lastfile v)\<rparr>) t)
      | None \<Rightarrow> (None, set_err p EMFILE t))"

definition getdtablesize :: "nat \<Rightarrow> ftab \<Rightarrow> ftab" where
  "getdtablesize p t = upd_usr p (\<lambda>v. v\<lparr>u_rval := int NOFILE\<rparr>) t"

definition dupit :: "nat \<Rightarrow> nat \<Rightarrow> nat \<Rightarrow> 8 word \<Rightarrow> ftab \<Rightarrow> ftab" where
  "dupit p fd fp flags t =
     upd_usr p (\<lambda>v. v\<lparr>u_lastfile := (if int fd > u_lastfile v then int fd else u_lastfile v)\<rparr>)
      (upd_file fp (\<lambda>f. f\<lparr>f_count := f_count f + 1\<rparr>)
        (upd_usr p (\<lambda>v. v\<lparr>u_ofile := (u_ofile v)(fd := Some fp), u_pofile := (u_pofile v)(fd := flags)\<rparr>) t))"

text \<open>The macro \<^verbatim>\<open>GETF\<close> and the function \<^verbatim>\<open>getf\<close>: the descriptor is compared as an unsigned number.\<close>

definition ofile :: "nat \<Rightarrow> word32 \<Rightarrow> ftab \<Rightarrow> nat option" where
  "ofile p fd t = (if unat fd \<ge> NOFILE then None else u_ofile (usr t p) (unat fd))"

definition getf :: "nat \<Rightarrow> word32 \<Rightarrow> ftab \<Rightarrow> nat option \<times> ftab" where
  "getf p fd t = (case ofile p fd t of None \<Rightarrow> (None, set_err p EBADF t) | Some fp \<Rightarrow> (Some fp, t))"

section \<open>Advisory locks\<close>

text \<open>\<^verbatim>\<open>wakeup(&ip->i_shlockc)\<close>: everyone who sleeps there runs again.\<close>

definition wake_lock :: "nat \<Rightarrow> ftab \<Rightarrow> ftab" where
  "wake_lock ip t = t\<lparr>usr := \<lambda>q. (usr t q)\<lparr>u_act :=
     (case u_act (usr t q) of Locking fp cmd (Some ip') r \<Rightarrow> Locking fp cmd (if ip' = ip then None else Some ip') r | a \<Rightarrow> a)\<rparr>\<rparr>"

definition dec16 :: "nat \<Rightarrow> nat" where "dec16 n = (n + 65535) mod 65536"

definition inc16 :: "nat \<Rightarrow> nat" where "inc16 n = (n + 1) mod 65536"

definition ino_unlock_sh :: "nat \<Rightarrow> nat \<Rightarrow> bool \<Rightarrow> ftab \<Rightarrow> ftab" where
  "ino_unlock_sh fp ip lwait t =
     (let t = upd_ino ip (\<lambda>i. i\<lparr>i_shlockc := dec16 (i_shlockc i)\<rparr>) t;
          t = (if i_shlockc (inodes t ip) = 0
               then (if lwait then wake_lock ip else id) (upd_ino ip (\<lambda>i. i\<lparr>ISHLOCK := False\<rparr>) t)
               else t)
      in upd_file fp (\<lambda>f. f\<lparr>f_flag := f_flag f AND NOT FSHLOCK\<rparr>) t)"

definition ino_unlock_ex :: "nat \<Rightarrow> nat \<Rightarrow> bool \<Rightarrow> ftab \<Rightarrow> ftab" where
  "ino_unlock_ex fp ip lwait t =
     (let t = upd_ino ip (\<lambda>i. i\<lparr>i_exlockc := dec16 (i_exlockc i)\<rparr>) t;
          t = (if i_exlockc (inodes t ip) = 0
               then (if lwait then wake_lock ip else id) (upd_ino ip (\<lambda>i. i\<lparr>IEXLOCK := False, ILWAIT := False\<rparr>) t)
               else t)
      in upd_file fp (\<lambda>f. f\<lparr>f_flag := f_flag f AND NOT FEXLOCK\<rparr>) t)"

definition ino_unlock :: "nat \<Rightarrow> word32 \<Rightarrow> ftab \<Rightarrow> ftab" where
  "ino_unlock fp kind t =
     (let kind = kind AND f_flag (files t fp) in
      case f_data (files t fp) of
        None \<Rightarrow> t
      | Some ip \<Rightarrow>
          if kind = 0 then t
          else (let lwait = ILWAIT (inodes t ip);
                    t = (if kind AND FSHLOCK \<noteq> 0 then ino_unlock_sh fp ip lwait t else t)
                in if kind AND FEXLOCK \<noteq> 0 then ino_unlock_ex fp ip lwait t else t))"

text \<open>
  \<^verbatim>\<open>ino_lock\<close> from the label \<^verbatim>\<open>again\<close> to a return or to a sleep. When \<^verbatim>\<open>tsleep\<close> returns without an error the code goes
  back to the same place with the same local variables, whichever of the two sleeps it was, so a wakeup runs this again.
  The first argument bounds the jumps back to \<^verbatim>\<open>again\<close> that do not sleep; each of them gives up a lock of the file, so there
  are at most two.
\<close>

datatype lockres = Granted | Failed errno | Slept nat

fun ino_lock_again :: "nat \<Rightarrow> nat \<Rightarrow> word32 \<Rightarrow> ftab \<Rightarrow> (lockres \<times> ftab) outcome" where
  "ino_lock_again 0 fp cmd t = Diverge"
| "ino_lock_again (Suc n) fp cmd t =
     (case f_data (files t fp) of
        None \<Rightarrow> Fault
      | Some ip \<Rightarrow>
          if IEXLOCK (inodes t ip) then
            if f_flag (files t fp) AND FEXLOCK \<noteq> 0 then ino_lock_again n fp cmd (ino_unlock fp FEXLOCK t)
            else if cmd AND LOCK_NB \<noteq> 0 then Ret (Failed EWOULDBLOCK, t)
            else Ret (Slept ip, upd_ino ip (\<lambda>i. i\<lparr>ILWAIT := True\<rparr>) t)
          else if cmd AND LOCK_EX \<noteq> 0 \<and> ISHLOCK (inodes t ip) then
            if f_flag (files t fp) AND FSHLOCK \<noteq> 0 then ino_lock_again n fp cmd (ino_unlock fp FSHLOCK t)
            else if cmd AND LOCK_NB \<noteq> 0 then Ret (Failed EWOULDBLOCK, t)
            else Ret (Slept ip, upd_ino ip (\<lambda>i. i\<lparr>ILWAIT := True\<rparr>) t)
          else if cmd AND LOCK_EX \<noteq> 0 then
            Ret (Granted, upd_file fp (\<lambda>f. f\<lparr>f_flag := f_flag f OR FEXLOCK\<rparr>)
                   (upd_ino ip (\<lambda>i. i\<lparr>i_exlockc := inc16 (i_exlockc i), IEXLOCK := True\<rparr>) t))
          else if cmd AND LOCK_SH \<noteq> 0 \<and> f_flag (files t fp) AND FSHLOCK = 0 then
            Ret (Granted, upd_file fp (\<lambda>f. f\<lparr>f_flag := f_flag f OR FSHLOCK\<rparr>)
                   (upd_ino ip (\<lambda>i. i\<lparr>i_shlockc := inc16 (i_shlockc i), ISHLOCK := True\<rparr>) t))
          else Ret (Granted, t))"

definition ino_lock :: "nat \<Rightarrow> word32 \<Rightarrow> ftab \<Rightarrow> (lockres \<times> ftab) outcome" where
  "ino_lock fp cmd t = ino_lock_again 3 fp cmd t"

section \<open>Closing\<close>

text \<open>
  The \<^verbatim>\<open>fo_close\<close> entry of \<^verbatim>\<open>Fops[f_type]\<close>: the null pointer of type 0 faults; \<^verbatim>\<open>vn_closefile\<close> clears \<^verbatim>\<open>f_data\<close>;
  \<^verbatim>\<open>pipe_close\<close> returns 0; sockets are not configured and \<^verbatim>\<open>socls\<close> fails. \<open>e\<close> is what \<^verbatim>\<open>closei\<close> returns.
  \<^verbatim>\<open>closei\<close> may sleep, in the close of a device or in the truncation of a file that has no name left, and other processes may run then. The model takes \<^verbatim>\<open>closef\<close> as one
  step: the entry keeps a count of 1 over the sleep, so \<^verbatim>\<open>falloc\<close> does not hand it out, no descriptor leads to it any more, and \<^verbatim>\<open>vn_closefile\<close> has cleared
  its \<^verbatim>\<open>f_data\<close> before the call; what another process sees of the entry during the sleep is not part of the model.
\<close>

definition fo_close :: "errno \<Rightarrow> nat \<Rightarrow> ftab \<Rightarrow> (errno \<times> ftab) outcome" where
  "fo_close e fp t =
     (case f_type (files t fp) of
        DTYPE_NONE \<Rightarrow> Fault
      | DTYPE_INODE \<Rightarrow> Ret (e, upd_file fp (\<lambda>f. f\<lparr>f_data := None\<rparr>) t)
      | DTYPE_SOCKET \<Rightarrow> Ret (EOPNOTSUPP, t)
      | DTYPE_PIPE \<Rightarrow> Ret (E_OK, t))"

definition closef :: "errno \<Rightarrow> nat option \<Rightarrow> ftab \<Rightarrow> (errno \<times> ftab) outcome" where
  "closef e fpo t =
     (case fpo of
        None \<Rightarrow> Ret (E_OK, t)
      | Some fp \<Rightarrow>
          if f_count (files t fp) > 1 then Ret (E_OK, upd_file fp (\<lambda>f. f\<lparr>f_count := f_count f - 1\<rparr>) t)
          else
            let t = (if f_flag (files t fp) AND (FSHLOCK OR FEXLOCK) \<noteq> 0 \<and> f_type (files t fp) = DTYPE_INODE
                     then ino_unlock fp (FSHLOCK OR FEXLOCK) t else t)
            in bind_outcome (fo_close e fp t) (\<lambda>(e', t). Ret (e', upd_file fp (\<lambda>f. f\<lparr>f_count := 0\<rparr>) t)))"

text \<open>The loop that lowers \<^verbatim>\<open>u_lastfile\<close> to the last descriptor in use.\<close>

fun lower_lastfile :: "(nat \<Rightarrow> nat option) \<Rightarrow> nat \<Rightarrow> int" where
  "lower_lastfile ofs 0 = -1"
| "lower_lastfile ofs (Suc n) = (if ofs n = None then lower_lastfile ofs n else int n)"

definition trim_lastfile :: "nat \<Rightarrow> ftab \<Rightarrow> ftab" where
  "trim_lastfile p t = upd_usr p (\<lambda>v. v\<lparr>u_lastfile := lower_lastfile (u_ofile v) (nat (u_lastfile v + 1))\<rparr>) t"

section \<open>System calls on descriptors\<close>

definition clear_ofile :: "nat \<Rightarrow> nat \<Rightarrow> ftab \<Rightarrow> ftab" where
  "clear_ofile p i t = upd_usr p (\<lambda>v. v\<lparr>u_ofile := (u_ofile v)(i := None)\<rparr>) t"

definition pofile :: "nat \<Rightarrow> word32 \<Rightarrow> ftab \<Rightarrow> 8 word" where
  "pofile p fd t = u_pofile (usr t p) (unat fd)"

definition dup2 :: "errno \<Rightarrow> nat \<Rightarrow> word32 \<Rightarrow> word32 \<Rightarrow> ftab \<Rightarrow> ftab outcome" where
  "dup2 e p i j t =
     (case ofile p i t of
        None \<Rightarrow> Ret (set_err p EBADF t)
      | Some fp \<Rightarrow>
          if sint j < 0 \<or> sint j \<ge> int NOFILE then Ret (set_err p EBADF t)
          else
            let t = upd_usr p (\<lambda>v. v\<lparr>u_rval := sint j\<rparr>) t in
            if i = j then Ret t
            else bind_outcome (closef e (u_ofile (usr t p) (unat j)) t)
                   (\<lambda>(_, t). Ret (dupit p (unat j) fp (pofile p i t AND NOT UF_EXCLOSE) t)))"

definition dup :: "errno \<Rightarrow> nat \<Rightarrow> word32 \<Rightarrow> word32 \<Rightarrow> ftab \<Rightarrow> ftab outcome" where
  "dup e p i j t =
     (if i AND NOT 63 \<noteq> 0 then dup2 e p (i AND 63) j t
      else
        case ofile p i t of
          None \<Rightarrow> Ret (set_err p EBADF t)
        | Some fp \<Rightarrow>
            (case ufalloc p 0 t of
               (None, t) \<Rightarrow> Ret t
             | (Some j, t) \<Rightarrow> Ret (dupit p j fp (pofile p i t AND NOT UF_EXCLOSE) t)))"

definition close :: "errno \<Rightarrow> nat \<Rightarrow> word32 \<Rightarrow> ftab \<Rightarrow> ftab outcome" where
  "close e p i t =
     (case ofile p i t of
        None \<Rightarrow> Ret (set_err p EBADF t)
      | Some fp \<Rightarrow> bind_outcome (closef e (Some fp) (trim_lastfile p (clear_ofile p (unat i) t)))
                     (\<lambda>(e', t). Ret (set_err p e' t)))"

definition falloc :: "nat \<Rightarrow> ftab \<Rightarrow> nat option \<times> ftab" where
  "falloc p t =
     (case ufalloc p 0 t of
        (None, t) \<Rightarrow> (None, t)
      | (Some i, t) \<Rightarrow>
          let l = (case lastf t of None \<Rightarrow> 0 | Some l \<Rightarrow> l); t = t\<lparr>lastf := Some l\<rparr> in
          (case find (\<lambda>fp. f_count (files t fp) = 0) ([l..<NFILE] @ [0..<l]) of
             None \<Rightarrow> (None, set_err p ENFILE t)
           | Some fp \<Rightarrow>
               (Some fp, (upd_file fp (\<lambda>f. f\<lparr>f_count := 1, f_data := None, f_offset := 0\<rparr>)
                   (upd_usr p (\<lambda>v. v\<lparr>u_ofile := (u_ofile v)(i := Some fp)\<rparr>) t))\<lparr>lastf := Some (fp + 1)\<rparr>)))"

section \<open>File control\<close>

datatype iocmd = FIONBIO | FIOASYNC | TIOCGPGRP | TIOCSPGRP

text \<open>A driver's \<^verbatim>\<open>fo_ioctl\<close>: from the file, the command and the value to an error and the value it leaves.\<close>

type_synonym ioctl = "file_s \<Rightarrow> iocmd \<Rightarrow> int \<Rightarrow> errno \<times> int"

definition fioctl :: "ioctl \<Rightarrow> nat \<Rightarrow> iocmd \<Rightarrow> int \<Rightarrow> ftab \<Rightarrow> (errno \<times> int) outcome" where
  "fioctl io fp cmd v t =
     (case f_type (files t fp) of
        DTYPE_NONE \<Rightarrow> Fault
      | DTYPE_SOCKET \<Rightarrow> Ret (EOPNOTSUPP, v)
      | _ \<Rightarrow> Ret (io (files t fp) cmd v))"

definition fset :: "ioctl \<Rightarrow> nat \<Rightarrow> word32 \<Rightarrow> word32 \<Rightarrow> ftab \<Rightarrow> (errno \<times> ftab) outcome" where
  "fset io fp bits val t =
     (let t = upd_file fp (\<lambda>f. f\<lparr>f_flag := (if val \<noteq> 0 then f_flag f OR bits else f_flag f AND NOT bits)\<rparr>) t in
      bind_outcome (fioctl io fp (if bits = FNONBLOCK then FIONBIO else FIOASYNC) (sint val) t) (\<lambda>(e, _). Ret (e, t)))"

definition fgetown :: "ioctl \<Rightarrow> nat \<Rightarrow> int \<Rightarrow> ftab \<Rightarrow> (errno \<times> int) outcome" where
  "fgetown io fp v t = bind_outcome (fioctl io fp TIOCGPGRP v t) (\<lambda>(e, v). Ret (e, s32 (- v)))"

definition fsetown :: "ioctl \<Rightarrow> ks \<Rightarrow> nat \<Rightarrow> int \<Rightarrow> ftab \<Rightarrow> errno outcome" where
  "fsetown io k fp v t =
     (if v > 0 then
        case pfind v k of
          None \<Rightarrow> Ret ESRCH
        | Some q \<Rightarrow> bind_outcome (fioctl io fp TIOCSPGRP (p_pgrp (procs k q)) t) (\<lambda>(e, _). Ret e)
      else bind_outcome (fioctl io fp TIOCSPGRP (s32 (- v)) t) (\<lambda>(e, _). Ret e))"

datatype fcmd = F_DUPFD | F_GETFD | F_SETFD | F_GETFL | F_SETFL | F_GETOWN | F_SETOWN | F_OTHER

definition fcntl_setfl :: "ioctl \<Rightarrow> nat \<Rightarrow> nat \<Rightarrow> word32 \<Rightarrow> ftab \<Rightarrow> ftab outcome" where
  "fcntl_setfl io p fp arg t =
     (let t = upd_file fp (\<lambda>f. f\<lparr>f_flag := (f_flag f AND NOT FCNTLFLAGS) OR (FFLAGS arg AND FCNTLFLAGS)\<rparr>) t in
      bind_outcome (fset io fp FNONBLOCK (f_flag (files t fp) AND FNONBLOCK) t) (\<lambda>(e, t).
        if e \<noteq> E_OK then Ret (set_err p e t)
        else bind_outcome (fset io fp FASYNC (f_flag (files t fp) AND FASYNC) t) (\<lambda>(e, t).
          if e \<noteq> E_OK then bind_outcome (fset io fp FNONBLOCK 0 t) (\<lambda>(_, t). Ret (set_err p e t))
          else Ret (set_err p e t))))"

definition fcntl :: "ioctl \<Rightarrow> ks \<Rightarrow> nat \<Rightarrow> word32 \<Rightarrow> fcmd \<Rightarrow> word32 \<Rightarrow> ftab \<Rightarrow> ftab outcome" where
  "fcntl io k p fd cmd arg t =
     (case getf p fd t of
        (None, t) \<Rightarrow> Ret t
      | (Some fp, t) \<Rightarrow>
          (case cmd of
             F_DUPFD \<Rightarrow>
               if sint arg < 0 \<or> sint arg \<ge> int NOFILE then Ret (set_err p EINVAL t)
               else (case ufalloc p (unat arg) t of
                       (None, t) \<Rightarrow> Ret t
                     | (Some i, t) \<Rightarrow> Ret (dupit p i fp (pofile p fd t AND NOT UF_EXCLOSE) t))
           | F_GETFD \<Rightarrow> Ret (upd_usr p (\<lambda>v. v\<lparr>u_rval := uint (pofile p fd t AND 1)\<rparr>) t)
           | F_SETFD \<Rightarrow> Ret (upd_usr p (\<lambda>v. v\<lparr>u_pofile := (u_pofile v)
                              (unat fd := (pofile p fd t AND NOT 1) OR (ucast arg AND 1))\<rparr>) t)
           | F_GETFL \<Rightarrow> Ret (upd_usr p (\<lambda>v. v\<lparr>u_rval := sint (OFLAGS (f_flag (files t fp)))\<rparr>) t)
           | F_SETFL \<Rightarrow> fcntl_setfl io p fp arg t
           | F_GETOWN \<Rightarrow> bind_outcome (fgetown io fp (u_rval (usr t p)) t)
                            (\<lambda>(e, v). Ret (set_err p e (upd_usr p (u_rval_update (\<lambda>_. v)) t)))
           | F_SETOWN \<Rightarrow> bind_outcome (fsetown io k fp (sint arg) t) (\<lambda>e. Ret (set_err p e t))
           | F_OTHER \<Rightarrow> Ret (set_err p EINVAL t)))"

section \<open>Waiting for a lock\<close>

text \<open>
  What the caller of \<^verbatim>\<open>ino_lock\<close> does with its result: \<^verbatim>\<open>flock\<close> (\<open>r = None\<close>) stores the error; \<^verbatim>\<open>copen\<close>
  (\<open>r = Some indx\<close>) closes the file again when there is one. A sleep suspends the process.
\<close>

definition set_act :: "nat \<Rightarrow> act \<Rightarrow> ftab \<Rightarrow> ftab" where
  "set_act p a t = upd_usr p (u_act_update (\<lambda>_. a)) t"

definition lock_return :: "errno \<Rightarrow> nat \<Rightarrow> nat \<Rightarrow> word32 \<Rightarrow> nat option \<Rightarrow> lockres \<times> ftab \<Rightarrow> ftab outcome" where
  "lock_return e p fp cmd r = (\<lambda>(res, t).
     case res of
       Granted \<Rightarrow> Ret (set_err p E_OK (set_act p Running t))
     | Slept ip \<Rightarrow> Ret (set_act p (Locking fp cmd (Some ip) r) t)
     | Failed err \<Rightarrow>
         (case r of
            None \<Rightarrow> Ret (set_err p err (set_act p Running t))
          | Some indx \<Rightarrow> bind_outcome (closef e (Some fp) (set_act p Running t))
                            (\<lambda>(_, t). Ret (set_err p err (clear_ofile p indx t)))))"

definition lock_call :: "errno \<Rightarrow> nat \<Rightarrow> nat \<Rightarrow> word32 \<Rightarrow> nat option \<Rightarrow> ftab \<Rightarrow> ftab outcome" where
  "lock_call e p fp cmd r t = bind_outcome (ino_lock fp cmd t) (lock_return e p fp cmd r)"

definition flock :: "errno \<Rightarrow> nat \<Rightarrow> word32 \<Rightarrow> word32 \<Rightarrow> ftab \<Rightarrow> ftab outcome" where
  "flock e p fd how t =
     (case getf p fd t of
        (None, t) \<Rightarrow> Ret t
      | (Some fp, t) \<Rightarrow>
          if f_type (files t fp) \<noteq> DTYPE_INODE then Ret (set_err p EOPNOTSUPP t)
          else if how AND LOCK_UN \<noteq> 0 then Ret (ino_unlock fp (FSHLOCK OR FEXLOCK) t)
          else if how AND (LOCK_SH OR LOCK_EX) = 0 then Ret t
          else
            let how = (if how AND LOCK_EX \<noteq> 0 then how AND NOT LOCK_SH else how) in
            if f_flag (files t fp) AND FEXLOCK \<noteq> 0 \<and> how AND LOCK_EX \<noteq> 0 then Ret t
            else if f_flag (files t fp) AND FSHLOCK \<noteq> 0 \<and> how AND LOCK_SH \<noteq> 0 then Ret t
            else lock_call e p fp how None t)"

section \<open>Opening\<close>

definition fdopen :: "nat \<Rightarrow> nat \<Rightarrow> ftab \<Rightarrow> errno \<times> ftab" where
  "fdopen p dev t = (ENODEV, upd_usr p (\<lambda>v. v\<lparr>u_dupfd := int (dev mod 256)\<rparr>) t)"

definition dupfdopen :: "nat \<Rightarrow> nat \<Rightarrow> nat \<Rightarrow> word32 \<Rightarrow> errno \<Rightarrow> ftab \<Rightarrow> errno \<times> ftab" where
  "dupfdopen p indx dfd mode error t =
     (let fp = u_ofile (usr t p) indx in
      if dfd \<ge> NOFILE then (EBADF, t)
      else case u_ofile (usr t p) dfd of
        None \<Rightarrow> (EBADF, t)
      | Some wp \<Rightarrow>
          if fp = Some wp then (EBADF, t)
          else if error = ENODEV then
            if (mode AND (FREAD OR FWRITE)) OR f_flag (files t wp) \<noteq> f_flag (files t wp) then (EACCES, t)
            else
              (E_OK,
               upd_usr p (\<lambda>v. v\<lparr>u_lastfile := (if int indx > u_lastfile v then int indx else u_lastfile v)\<rparr>)
                (upd_file wp (\<lambda>f. f\<lparr>f_count := f_count f + 1\<rparr>)
                  (upd_usr p (\<lambda>v. v\<lparr>u_ofile := (u_ofile v)(indx := Some wp),
                                   u_pofile := (u_pofile v)(indx := u_pofile v dfd)\<rparr>) t)))
          else (error, t))"

text \<open>
  \<^verbatim>\<open>copen\<close> up to the call of \<^verbatim>\<open>vn_open\<close>, and from its return on. \<^verbatim>\<open>vn_open\<close> fails, opens an inode, or reaches
  the open routine \<^verbatim>\<open>fdopen\<close> of a device of \<^verbatim>\<open>/dev/fd\<close>. A C comparison that is assigned to \<^verbatim>\<open>error\<close> is 0 or 1.
\<close>

datatype vnres = VnFail errno | VnFd nat | VnOpen nat

definition vn_error :: "nat \<Rightarrow> vnres \<Rightarrow> ftab \<Rightarrow> errno \<times> ftab" where
  "vn_error p r t = (case r of VnFail e \<Rightarrow> (e, t) | VnFd dev \<Rightarrow> fdopen p dev t | VnOpen ip \<Rightarrow> (E_OK, t))"

definition copen_start :: "nat \<Rightarrow> word32 \<Rightarrow> ftab \<Rightarrow> ftab" where
  "copen_start p mode t =
     (case falloc p t of
        (None, t) \<Rightarrow> t
      | (Some fp, t) \<Rightarrow>
          let flags = FFLAGS mode; indx = u_rval (usr t p) in
          set_act p (Opening fp (nat indx) flags)
           (upd_usr p (\<lambda>v. v\<lparr>u_dupfd := - indx - 1\<rparr>)
             (upd_file fp (\<lambda>f. f\<lparr>f_flag := flags AND FMASK, f_type := DTYPE_INODE\<rparr>) t)))"

definition copen_failed :: "nat \<Rightarrow> nat \<Rightarrow> nat \<Rightarrow> word32 \<Rightarrow> errno \<Rightarrow> ftab \<Rightarrow> ftab" where
  "copen_failed p fp indx flags error t =
     (let t = upd_file fp (\<lambda>f. f\<lparr>f_count := 0\<rparr>) t in
      if (error = ENODEV \<or> error = ENXIO) \<and> u_dupfd (usr t p) \<ge> 0 then
        (case dupfdopen p indx (nat (u_dupfd (usr t p))) flags error t of
           (err, t) \<Rightarrow>
             let error = (if err = E_OK then EPERM else E_OK) in
             if error \<noteq> E_OK then set_err p E_OK (upd_usr p (\<lambda>v. v\<lparr>u_rval := int indx\<rparr>) t)
             else set_err p error (clear_ofile p indx t))
      else set_err p error (clear_ofile p indx t))"

definition copen_end :: "errno \<Rightarrow> nat \<Rightarrow> nat \<Rightarrow> nat \<Rightarrow> word32 \<Rightarrow> vnres \<Rightarrow> ftab \<Rightarrow> ftab outcome" where
  "copen_end e p fp indx flags r t =
     (case (r, vn_error p r (set_act p Running t)) of
        (VnOpen ip, (_, t)) \<Rightarrow>
          let t = upd_file fp (\<lambda>f. f\<lparr>f_data := Some ip\<rparr>) (upd_usr p (\<lambda>v. v\<lparr>u_dupfd := 0\<rparr>) t) in
          if flags AND (FEXLOCK OR FSHLOCK) \<noteq> 0 then
            let type = (if flags AND FEXLOCK \<noteq> 0 then LOCK_EX else LOCK_SH);
                type = (if flags AND FNONBLOCK \<noteq> 0 then type OR LOCK_NB else type)
            in lock_call e p fp type (Some indx) t
          else Ret (set_err p E_OK t)
      | (_, (error, t)) \<Rightarrow> Ret (copen_failed p fp indx flags error t))"

text \<open>\<^verbatim>\<open>pipe\<close>, given the inode that \<^verbatim>\<open>ialloc\<close> returned or the error that it left.\<close>

definition pipe :: "nat \<Rightarrow> errno + nat \<Rightarrow> ftab \<Rightarrow> ftab" where
  "pipe p ipo t =
     (case ipo of
        Inl e \<Rightarrow> set_err p e t
      | Inr ip \<Rightarrow>
          (case falloc p t of
             (None, t) \<Rightarrow> t
           | (Some rf, t) \<Rightarrow>
               let r = u_rval (usr t p) in
               (case falloc p t of
                  (None, t) \<Rightarrow> clear_ofile p (nat r) (upd_file rf (\<lambda>f. f\<lparr>f_count := 0\<rparr>) t)
                | (Some wfl, t) \<Rightarrow>
                    upd_file rf (\<lambda>f. f\<lparr>f_flag := FREAD, f_type := DTYPE_PIPE, f_data := Some ip\<rparr>)
                     (upd_file wfl (\<lambda>f. f\<lparr>f_flag := FWRITE, f_type := DTYPE_PIPE, f_data := Some ip\<rparr>)
                       (upd_usr p (\<lambda>v. v\<lparr>u_rval2 := u_rval v, u_rval := r\<rparr>) t)))))"

section \<open>Processes and their descriptors\<close>

text \<open>\<^verbatim>\<open>newproc\<close>: every open file has one reference more, and the child gets a copy of \<^verbatim>\<open>u\<close>.\<close>

definition fork_files :: "nat \<Rightarrow> nat \<Rightarrow> ftab \<Rightarrow> ftab" where
  "fork_files p c t =
     (let t = fold (\<lambda>n t. case u_ofile (usr t p) n of
                          None \<Rightarrow> t | Some fp \<Rightarrow> upd_file fp (\<lambda>f. f\<lparr>f_count := f_count f + 1\<rparr>) t)
                [0..<nat (u_lastfile (usr t p) + 1)] t
      in t\<lparr>usr := (usr t)(c := usr t p), live := insert c (live t)\<rparr>)"

fun exit_loop :: "errno \<Rightarrow> nat \<Rightarrow> nat list \<Rightarrow> ftab \<Rightarrow> ftab outcome" where
  "exit_loop e p [] t = Ret t"
| "exit_loop e p (i # is) t =
     (let f = u_ofile (usr t p) i;
          t = upd_usr p (\<lambda>v. v\<lparr>u_ofile := (u_ofile v)(i := None), u_pofile := (u_pofile v)(i := 0)\<rparr>) t
      in bind_outcome (closef e f t) (\<lambda>(_, t). exit_loop e p is t))"

definition exit_files :: "errno \<Rightarrow> nat \<Rightarrow> ftab \<Rightarrow> ftab outcome" where
  "exit_files e p t = bind_outcome (exit_loop e p [0..<nat (u_lastfile (usr t p) + 1)] t) (\<lambda>t. Ret (t\<lparr>live := live t - {p}\<rparr>))"

fun exec_loop :: "errno \<Rightarrow> nat \<Rightarrow> nat list \<Rightarrow> ftab \<Rightarrow> ftab outcome" where
  "exec_loop e p [] t = Ret t"
| "exec_loop e p (cc # ccs) t =
     (if u_pofile (usr t p) cc AND UF_EXCLOSE \<noteq> 0 then
        bind_outcome (closef e (u_ofile (usr t p) cc) t) (\<lambda>(_, t).
          exec_loop e p ccs (upd_usr p (\<lambda>v. v\<lparr>u_ofile := (u_ofile v)(cc := None), u_pofile := (u_pofile v)(cc := 0)\<rparr>) t))
      else exec_loop e p ccs t)"

definition exec_files :: "errno \<Rightarrow> nat \<Rightarrow> ftab \<Rightarrow> ftab outcome" where
  "exec_files e p t = bind_outcome (exec_loop e p [0..<nat (u_lastfile (usr t p) + 1)] t) (\<lambda>t. Ret (trim_lastfile p t))"

text \<open>
  \<^verbatim>\<open>forceclose\<close>: the open files of one character device lose their access; \<open>isdev\<close> tells the inodes of the device.
\<close>

definition forceclose :: "(nat \<Rightarrow> bool) \<Rightarrow> ftab \<Rightarrow> ftab" where
  "forceclose isdev t = t\<lparr>files := \<lambda>fp. let f = files t fp in
     if fp < NFILE \<and> f_count f \<noteq> 0 \<and> f_type f = DTYPE_INODE \<and> (\<exists>ip\<in>set_option (f_data f). isdev ip)
     then f\<lparr>f_flag := f_flag f AND NOT (FREAD OR FWRITE)\<rparr> else f\<rparr>"

section \<open>Steps of the processes\<close>

text \<open>
  A process that runs makes a system call, starting with \<^verbatim>\<open>u_error\<close> and \<^verbatim>\<open>u_rval\<close> cleared; one that sleeps in \<^verbatim>\<open>vn_open\<close>
  gets its result, and one that sleeps for a lock tries again after a wakeup or is interrupted by a signal.
\<close>

datatype fop =
    Dup word32 word32 | Dup2 word32 word32 | Close word32 | Fcntl word32 fcmd word32 | Flock word32 word32
  | Open word32 | OpenEnd vnres | Pipe "errno + nat" | LockAgain | LockIntr errno
  | Fork nat | Exit | Exec | Hangup "nat \<Rightarrow> bool" | Getdtablesize

definition syscall_enter :: "nat \<Rightarrow> ftab \<Rightarrow> ftab" where
  "syscall_enter p t = upd_usr p (\<lambda>v. v\<lparr>u_err := E_OK, u_rval := 0\<rparr>) t"

fun fstep :: "errno \<Rightarrow> ioctl \<Rightarrow> ks \<Rightarrow> nat \<Rightarrow> fop \<Rightarrow> ftab \<Rightarrow> ftab outcome" where
  "fstep e io k p (Dup i j) t = dup e p i j (syscall_enter p t)"
| "fstep e io k p (Dup2 i j) t = dup2 e p i j (syscall_enter p t)"
| "fstep e io k p (Close i) t = close e p i (syscall_enter p t)"
| "fstep e io k p (Fcntl fd cmd arg) t = fcntl io k p fd cmd arg (syscall_enter p t)"
| "fstep e io k p (Flock fd how) t = flock e p fd how (syscall_enter p t)"
| "fstep e io k p (Open mode) t = Ret (copen_start p mode (syscall_enter p t))"
| "fstep e io k p (OpenEnd r) t = (case u_act (usr t p) of Opening fp indx flags \<Rightarrow> copen_end e p fp indx flags r t | _ \<Rightarrow> Ret t)"
| "fstep e io k p (Pipe ipo) t = Ret (pipe p ipo (syscall_enter p t))"
| "fstep e io k p LockAgain t = (case u_act (usr t p) of Locking fp cmd ch r \<Rightarrow> lock_call e p fp cmd r t | _ \<Rightarrow> Ret t)"
| "fstep e io k p (LockIntr err) t =
     (case u_act (usr t p) of Locking fp cmd ch r \<Rightarrow> lock_return e p fp cmd r (Failed err, t) | _ \<Rightarrow> Ret t)"
| "fstep e io k p (Fork c) t = Ret (fork_files p c (syscall_enter p t))"
| "fstep e io k p Exit t = exit_files e p t"
| "fstep e io k p Exec t = exec_files e p (syscall_enter p t)"
| "fstep e io k p (Hangup isdev) t = Ret (forceclose isdev (syscall_enter p t))"
| "fstep e io k p Getdtablesize t = Ret (getdtablesize p (syscall_enter p t))"

fun fenabled :: "nat \<Rightarrow> fop \<Rightarrow> ftab \<Rightarrow> bool" where
  "fenabled p (OpenEnd r) t \<longleftrightarrow> p \<in> live t \<and> r \<noteq> VnFail E_OK \<and> (case u_act (usr t p) of Opening fp indx flags \<Rightarrow> True | _ \<Rightarrow> False)"
| "fenabled p LockAgain t \<longleftrightarrow> p \<in> live t \<and> (case u_act (usr t p) of Locking fp cmd ch r \<Rightarrow> ch = None | _ \<Rightarrow> False)"
| "fenabled p (LockIntr err) t \<longleftrightarrow> p \<in> live t \<and> (case u_act (usr t p) of Locking fp cmd ch r \<Rightarrow> True | _ \<Rightarrow> False)"
| "fenabled p (Fork c) t \<longleftrightarrow> p \<in> live t \<and> u_act (usr t p) = Running \<and> c < NPROC \<and> c \<notin> live t"
| "fenabled p op t \<longleftrightarrow> p \<in> live t \<and> u_act (usr t p) = Running"

text \<open>The tables before the first process opens a file, as \<^verbatim>\<open>main\<close> leaves them.\<close>

definition file_zero :: file_s where
  "file_zero = \<lparr>f_flag = 0, f_type = DTYPE_NONE, f_count = 0, f_data = None, f_offset = 0\<rparr>"

definition fuser_init :: fuser where
  "fuser_init = \<lparr>u_ofile = (\<lambda>_. None), u_pofile = (\<lambda>_. 0), u_lastfile = -1, u_dupfd = 0, u_rval = 0, u_rval2 = 0, u_err = E_OK, u_act = Running\<rparr>"

definition ftab_init :: ftab where
  "ftab_init = \<lparr>files = (\<lambda>_. file_zero), lastf = None,
     inodes = (\<lambda>_. \<lparr>i_shlockc = 0, i_exlockc = 0, ISHLOCK = False, IEXLOCK = False, ILWAIT = False\<rparr>),
     usr = (\<lambda>_. fuser_init), live = {0}\<rparr>"

inductive freach :: "ftab \<Rightarrow> bool" where
  freach_init: "freach ftab_init"
| freach_step: "freach t \<Longrightarrow> fenabled p op t \<Longrightarrow> fstep e io k p op t = Ret t' \<Longrightarrow> freach t'"

end
