(* ===== verification/Descrip_Inv.thy ===== *)
theory Descrip_Inv
  imports Descrip
begin

text \<open>
  The invariant of the file table: the count of a file is the number of descriptors that refer to it, in all processes; the
  lock fields of an inode agree with the lock flags of the files; and who sleeps for a lock sleeps for a lock that is held. The
  operations on locks, the closing of a file and the changes of descriptors keep it.
\<close>

section \<open>Flags\<close>

lemma and16 [simp]: "(w :: word32) AND 16 = 0 \<longleftrightarrow> \<not> bit w 4"
  using and_exp_eq_0_iff_not_bit [of w 4] by simp

lemma and32 [simp]: "(w :: word32) AND 32 = 0 \<longleftrightarrow> \<not> bit w 5"
  using and_exp_eq_0_iff_not_bit [of w 5] by simp

lemma and48 [simp]: "(w :: word32) AND 48 = 0 \<longleftrightarrow> \<not> bit w 4 \<and> \<not> bit w 5"
proof -
  have "(48 :: word32) = 16 OR 32" by simp
  then have "w AND 48 = (w AND 16) OR (w AND 32)" by (simp only: and.commute bit.conj_disj_distrib)
  then show ?thesis by (simp add: or_eq_0_iff)
qed

abbreviation shb :: "file_s \<Rightarrow> bool" where "shb f \<equiv> bit (f_flag f) 4"
abbreviation exb :: "file_s \<Rightarrow> bool" where "exb f \<equiv> bit (f_flag f) 5"

lemma bits_consts [simp]:
  "bit (16 :: word32) 4" "\<not> bit (16 :: word32) 5" "\<not> bit (32 :: word32) 4" "bit (32 :: word32) 5"
  "bit (48 :: word32) 4" "bit (48 :: word32) 5" "bit (NOT 16 :: word32) 5" "bit (NOT 32 :: word32) 4"
  "\<not> bit (NOT 16 :: word32) 4" "\<not> bit (NOT 32 :: word32) 5"
  by (simp_all add: bit_not_iff)

section \<open>The invariant\<close>

definition refs :: "ftab \<Rightarrow> nat \<Rightarrow> (nat \<times> nat) set" where
  "refs t f = {(p, i). p \<in> live t \<and> u_ofile (usr t p) i = Some f}"

definition desc_ok :: "ftab \<Rightarrow> bool" where
  "desc_ok t \<longleftrightarrow> live t \<subseteq> {..<NPROC} \<and> (\<forall>l. lastf t = Some l \<longrightarrow> l \<le> NFILE) \<and>
     (\<forall>p\<in>live t. -1 \<le> u_lastfile (usr t p) \<and> u_lastfile (usr t p) < int NOFILE \<and>
        (\<forall>i f. u_ofile (usr t p) i = Some f \<longrightarrow> int i \<le> u_lastfile (usr t p) \<and> f < NFILE))"

text \<open>\<open>x\<close> is a file to which the running code holds one more reference, \<open>N\<close> the files under construction.\<close>

definition count_ok :: "nat option \<Rightarrow> ftab \<Rightarrow> bool" where
  "count_ok x t \<longleftrightarrow> (\<forall>f<NFILE. f_count (files t f) = card (refs t f) + (if x = Some f then 1 else 0))"

definition type_ok :: "nat set \<Rightarrow> ftab \<Rightarrow> bool" where
  "type_ok N t \<longleftrightarrow> (\<forall>f<NFILE. f \<notin> N \<longrightarrow> f_count (files t f) > 0 \<longrightarrow>
     f_type (files t f) \<in> {DTYPE_INODE, DTYPE_PIPE} \<and>
     (f_type (files t f) = DTYPE_INODE \<and> f_data (files t f) = None \<longrightarrow>
        (\<exists>p\<in>live t. \<exists>i fl. u_act (usr t p) = Opening f i fl)))"

fun act_fits :: "(nat \<Rightarrow> file_s) \<Rightarrow> (nat \<Rightarrow> nat option) \<Rightarrow> act \<Rightarrow> bool" where
  "act_fits F ofs Running \<longleftrightarrow> True"
| "act_fits F ofs (Opening f i fl) \<longleftrightarrow>
     ofs i = Some f \<and> f_count (F f) = 1 \<and> f_type (F f) = DTYPE_INODE \<and> f_data (F f) = None"
| "act_fits F ofs (Locking f cmd ch r) \<longleftrightarrow>
     f_type (F f) = DTYPE_INODE \<and> f_data (F f) \<noteq> None \<and> (\<exists>i. ofs i = Some f) \<and>
     (case r of None \<Rightarrow> True | Some indx \<Rightarrow> ofs indx = Some f \<and> f_count (F f) = 1)"

definition act_ok :: "ftab \<Rightarrow> bool" where
  "act_ok t \<longleftrightarrow> (\<forall>p\<in>live t. act_fits (files t) (u_ofile (usr t p)) (u_act (usr t p)))"

definition shs :: "ftab \<Rightarrow> nat \<Rightarrow> nat set" where
  "shs t ip = {f. shb (files t f) \<and> f_data (files t f) = Some ip}"

definition exs :: "ftab \<Rightarrow> nat \<Rightarrow> nat set" where
  "exs t ip = {f. exb (files t f) \<and> f_data (files t f) = Some ip}"

definition ilk_ok :: "ilock \<Rightarrow> nat set \<Rightarrow> nat set \<Rightarrow> bool" where
  "ilk_ok i S X \<longleftrightarrow> i_shlockc i = card S \<and> i_exlockc i = card X \<and> ISHLOCK i = (S \<noteq> {}) \<and> IEXLOCK i = (X \<noteq> {}) \<and>
     (X \<noteq> {} \<longrightarrow> S = {} \<and> card X = 1)"

definition flags_ok :: "ftab \<Rightarrow> bool" where
  "flags_ok t \<longleftrightarrow> (\<forall>f. shb (files t f) \<or> exb (files t f) \<longrightarrow>
     f < NFILE \<and> f_count (files t f) > 0 \<and> f_type (files t f) = DTYPE_INODE \<and> f_data (files t f) \<noteq> None \<and>
     \<not> (shb (files t f) \<and> exb (files t f)))"

definition held :: "ftab \<Rightarrow> word32 \<Rightarrow> nat \<Rightarrow> bool" where
  "held t cmd ip \<longleftrightarrow> exs t ip \<noteq> {} \<or> cmd AND LOCK_EX \<noteq> 0 \<and> shs t ip \<noteq> {}"

definition sleep_ok :: "ftab \<Rightarrow> bool" where
  "sleep_ok t \<longleftrightarrow> (\<forall>p\<in>live t. \<forall>f cmd ip r. u_act (usr t p) = Locking f cmd (Some ip) r \<longrightarrow>
     f_data (files t f) = Some ip \<and> ILWAIT (inodes t ip) \<and> held t cmd ip)"

definition lock_ok :: "ftab \<Rightarrow> bool" where
  "lock_ok t \<longleftrightarrow> flags_ok t \<and> (\<forall>ip. ilk_ok (inodes t ip) (shs t ip) (exs t ip)) \<and> sleep_ok t"

definition finv :: "nat option \<Rightarrow> nat set \<Rightarrow> ftab \<Rightarrow> bool" where
  "finv x N t \<longleftrightarrow> desc_ok t \<and> count_ok x t \<and> type_ok N t \<and> act_ok t \<and> lock_ok t"

text \<open>What the operations on locks leave alone.\<close>

fun nochan :: "act \<Rightarrow> act" where
  "nochan (Locking f cmd ch r) = Locking f cmd None r"
| "nochan a = a"

definition usame :: "ftab \<Rightarrow> ftab \<Rightarrow> bool" where
  "usame t t' \<longleftrightarrow> live t' = live t \<and> lastf t' = lastf t \<and>
     (\<forall>p. (usr t' p)\<lparr>u_act := Running\<rparr> = (usr t p)\<lparr>u_act := Running\<rparr> \<and>
          nochan (u_act (usr t' p)) = nochan (u_act (usr t p)))"

definition rsame :: "ftab \<Rightarrow> ftab \<Rightarrow> bool" where
  "rsame t t' \<longleftrightarrow> usame t t' \<and>
     (\<forall>f. f_count (files t' f) = f_count (files t f) \<and> f_type (files t' f) = f_type (files t f) \<and>
          f_data (files t' f) = f_data (files t f))"

lemma usame_refl [simp]: "usame t t" by (simp add: usame_def)

lemma usame_trans [trans]: "usame t t' \<Longrightarrow> usame t' t'' \<Longrightarrow> usame t t''" by (simp add: usame_def)

lemma rsame_refl [simp]: "rsame t t" by (simp add: rsame_def)

lemma rsame_trans [trans]: "rsame t t' \<Longrightarrow> rsame t' t'' \<Longrightarrow> rsame t t''" by (auto simp: rsame_def intro: usame_trans)

lemma usame_usr:
  assumes "usame t t'"
  shows "u_ofile (usr t' p) = u_ofile (usr t p)" "u_lastfile (usr t' p) = u_lastfile (usr t p)"
    "u_pofile (usr t' p) = u_pofile (usr t p)" "u_rval (usr t' p) = u_rval (usr t p)" "u_dupfd (usr t' p) = u_dupfd (usr t p)"
proof -
  have e: "(usr t' p)\<lparr>u_act := Running\<rparr> = (usr t p)\<lparr>u_act := Running\<rparr>" using assms by (simp add: usame_def)
  show "u_ofile (usr t' p) = u_ofile (usr t p)" using arg_cong [OF e, of u_ofile] by simp
  show "u_lastfile (usr t' p) = u_lastfile (usr t p)" using arg_cong [OF e, of u_lastfile] by simp
  show "u_pofile (usr t' p) = u_pofile (usr t p)" using arg_cong [OF e, of u_pofile] by simp
  show "u_rval (usr t' p) = u_rval (usr t p)" using arg_cong [OF e, of u_rval] by simp
  show "u_dupfd (usr t' p) = u_dupfd (usr t p)" using arg_cong [OF e, of u_dupfd] by simp
qed

lemma act_fits_nochan: "act_fits F ofs (nochan a) = act_fits F ofs a"
  by (cases a) auto

lemma act_fits_cong:
  assumes "\<And>f. f_count (F' f) = f_count (F f) \<and> f_type (F' f) = f_type (F f) \<and> f_data (F' f) = f_data (F f)"
  shows "act_fits F' ofs a = act_fits F ofs a"
  using assms by (cases a) (auto split: option.splits)

lemma nochan_Opening: "nochan a = Opening f i fl \<longleftrightarrow> a = Opening f i fl"
  by (cases a) auto

lemma nochan_Running: "nochan a = Running \<longleftrightarrow> a = Running"
  by (cases a) auto

lemma usame_acts:
  assumes "usame t t'"
  shows "u_act (usr t' p) = Opening f i fl \<longleftrightarrow> u_act (usr t p) = Opening f i fl"
    "u_act (usr t' p) = Running \<longleftrightarrow> u_act (usr t p) = Running"
proof -
  have "nochan (u_act (usr t' p)) = nochan (u_act (usr t p))" using assms by (simp add: usame_def)
  then show "u_act (usr t' p) = Opening f i fl \<longleftrightarrow> u_act (usr t p) = Opening f i fl"
    "u_act (usr t' p) = Running \<longleftrightarrow> u_act (usr t p) = Running"
    by (metis nochan_Opening, metis nochan_Running)
qed

lemma usame_live: "usame t t' \<Longrightarrow> live t' = live t" "usame t t' \<Longrightarrow> lastf t' = lastf t"
  by (simp_all add: usame_def)

lemma rsame_usame: "rsame t t' \<Longrightarrow> usame t t'" by (simp add: rsame_def)

lemma rsame_files:
  "rsame t t' \<Longrightarrow> f_count (files t' f) = f_count (files t f)" "rsame t t' \<Longrightarrow> f_type (files t' f) = f_type (files t f)"
  "rsame t t' \<Longrightarrow> f_data (files t' f) = f_data (files t f)"
  by (simp_all add: rsame_def)

lemma finv_rsame:
  assumes "finv x N t" "rsame t t'" "lock_ok t'"
  shows "finv x N t'"
proof -
  have us: "usame t t'" using assms(2) by (simp add: rsame_def)
  note u = usame_usr [OF us] usame_acts [OF us] usame_live [OF us] rsame_files [OF assms(2)]
  have a: "\<And>p. nochan (u_act (usr t' p)) = nochan (u_act (usr t p))" using us by (simp add: usame_def)
  have "refs t' = refs t" by (simp add: refs_def u fun_eq_iff)
  moreover have "act_fits (files t') (u_ofile (usr t' p)) (u_act (usr t' p)) =
      act_fits (files t) (u_ofile (usr t p)) (u_act (usr t p))" for p
    using act_fits_cong [of "files t'" "files t"] u(10-12) a act_fits_nochan u(1) by metis
  ultimately show ?thesis using assms(1,3)
    by (simp add: finv_def desc_ok_def count_ok_def type_ok_def act_ok_def u)
qed

section \<open>Operations on locks\<close>

lemma upd_simps [simp]:
  "files (upd_file fp g t) = (files t)(fp := g (files t fp))" "usr (upd_file fp g t) = usr t"
  "inodes (upd_file fp g t) = inodes t" "live (upd_file fp g t) = live t" "lastf (upd_file fp g t) = lastf t"
  "files (upd_usr p h t) = files t" "usr (upd_usr p h t) = (usr t)(p := h (usr t p))"
  "inodes (upd_usr p h t) = inodes t" "live (upd_usr p h t) = live t" "lastf (upd_usr p h t) = lastf t"
  "files (upd_ino ip k t) = files t" "usr (upd_ino ip k t) = usr t"
  "inodes (upd_ino ip k t) = (inodes t)(ip := k (inodes t ip))" "live (upd_ino ip k t) = live t" "lastf (upd_ino ip k t) = lastf t"
  by (simp_all add: upd_file_def upd_usr_def upd_ino_def)

lemma wake_simps [simp]:
  "files (wake_lock ip t) = files t" "inodes (wake_lock ip t) = inodes t" "live (wake_lock ip t) = live t"
  "lastf (wake_lock ip t) = lastf t"
  by (simp_all add: wake_lock_def)

lemma wake_asleep:
  "u_act (usr (wake_lock ip t) p) = Locking f cmd (Some ip') r \<longleftrightarrow> u_act (usr t p) = Locking f cmd (Some ip') r \<and> ip' \<noteq> ip"
  by (auto simp: wake_lock_def split: act.splits option.splits)

lemma rsame_wake: "rsame t (wake_lock ip t)"
  by (auto simp: rsame_def usame_def wake_lock_def split: act.splits option.splits)

lemma locks_finite:
  assumes "flags_ok t"
  shows "finite (shs t ip)" "finite (exs t ip)" "card (shs t ip) \<le> NFILE" "card (exs t ip) \<le> NFILE"
proof -
  have s: "shs t ip \<subseteq> {..<NFILE}" "exs t ip \<subseteq> {..<NFILE}"
    using assms by (auto simp: flags_ok_def shs_def exs_def)
  then show "finite (shs t ip)" "finite (exs t ip)" using finite_subset by blast+
  show "card (shs t ip) \<le> NFILE" "card (exs t ip) \<le> NFILE"
    using card_mono [OF _ s(1)] card_mono [OF _ s(2)] by auto
qed

lemma dec16: "0 < n \<Longrightarrow> n < 65536 \<Longrightarrow> dec16 n = n - 1"
  by (cases n) (auto simp: dec16_def)

lemma inc16: "n < 65535 \<Longrightarrow> inc16 n = n + 1"
  by (simp add: inc16_def)

lemma lock_okD:
  assumes "lock_ok t"
  shows "flags_ok t" "i_shlockc (inodes t ip) = card (shs t ip)" "i_exlockc (inodes t ip) = card (exs t ip)"
    "ISHLOCK (inodes t ip) = (shs t ip \<noteq> {})" "IEXLOCK (inodes t ip) = (exs t ip \<noteq> {})"
    "exs t ip \<noteq> {} \<Longrightarrow> shs t ip = {}" "exs t ip \<noteq> {} \<Longrightarrow> card (exs t ip) = 1" "sleep_ok t"
  using assms by (auto simp: lock_ok_def ilk_ok_def)

lemma lock_okI:
  assumes "flags_ok t" "sleep_ok t" "\<And>ip. ilk_ok (inodes t ip) (shs t ip) (exs t ip)"
  shows "lock_ok t"
  using assms by (simp add: lock_ok_def)

lemma unlock_sh_ok:
  assumes inv: "lock_ok t" and fp: "shb (files t fp)" "f_data (files t fp) = Some ip"
  defines "t' \<equiv> ino_unlock_sh fp ip (ILWAIT (inodes t ip)) t"
  shows "lock_ok t'" "rsame t t'" "\<not> shb (files t' fp)" "exb (files t' fp) = exb (files t fp)"
proof -
  note L = lock_okD [OF inv]
  note fin = locks_finite [OF L(1)]
  have mem: "fp \<in> shs t ip" using fp by (simp add: shs_def)
  then have ne: "shs t ip \<noteq> {}" "exs t ip = {}" using L(6) by auto
  have pos: "0 < card (shs t ip)" using mem fin(1) by (auto simp: card_gt_0_iff)
  have dec: "dec16 (i_shlockc (inodes t ip)) = card (shs t ip - {fp})"
    using dec16 [of "card (shs t ip)"] pos fin(1,3) [of ip] mem L(2) by simp
  have z: "card (shs t ip - {fp}) = 0 \<longleftrightarrow> shs t ip - {fp} = {}" using fin(1) by simp
  have files: "files t' = (files t)(fp := (files t fp)\<lparr>f_flag := f_flag (files t fp) AND NOT 16\<rparr>)"
    by (simp add: t'_def ino_unlock_sh_def Let_def)
  have S: "shs t' j = (if j = ip then shs t ip - {fp} else shs t j)" and X: "exs t' j = exs t j" for j
    using fp by (auto simp: shs_def exs_def files bit_and_iff)
  have inodes: "inodes t' = (inodes t)(ip := (inodes t ip)\<lparr>i_shlockc := card (shs t ip - {fp}), ISHLOCK := shs t ip - {fp} \<noteq> {}\<rparr>)"
    using L(4) [of ip] ne(1) by (auto simp: t'_def ino_unlock_sh_def Let_def dec z)
  have live: "live t' = live t" by (simp add: t'_def ino_unlock_sh_def Let_def)
  show "rsame t t'" using rsame_wake [of t ip] unfolding rsame_def usame_def files live
    by (auto simp: t'_def ino_unlock_sh_def Let_def rsame_def usame_def wake_lock_def)
  show "\<not> shb (files t' fp)" "exb (files t' fp) = exb (files t fp)" by (simp_all add: files bit_and_iff)
  have asleep: "u_act (usr t' p) = Locking f cmd (Some j) r \<Longrightarrow>
      u_act (usr t p) = Locking f cmd (Some j) r \<and> (j = ip \<longrightarrow> shs t ip - {fp} \<noteq> {} \<or> \<not> ILWAIT (inodes t ip))" for p f cmd j r
    by (auto simp: t'_def ino_unlock_sh_def Let_def dec z wake_asleep split: if_splits)
  show "lock_ok t'"
  proof (rule lock_okI)
    show "flags_ok t'" using L(1) by (auto simp: flags_ok_def files bit_and_iff)
    show "ilk_ok (inodes t' j) (shs t' j) (exs t' j)" for j
      using L(2-7) [of j] ne(2) by (auto simp: ilk_ok_def inodes S X)
    show "sleep_ok t'" unfolding sleep_ok_def
    proof (intro ballI allI impI)
      fix p f cmd j r assume p: "p \<in> live t'" "u_act (usr t' p) = Locking f cmd (Some j) r"
      note a = asleep [OF p(2)]
      then have "f_data (files t f) = Some j" "ILWAIT (inodes t j)" "held t cmd j"
        using L(8) p(1) live by (auto simp: sleep_ok_def)
      then show "f_data (files t' f) = Some j \<and> ILWAIT (inodes t' j) \<and> held t' cmd j"
        using a ne(2) by (auto simp: files inodes held_def S X)
    qed
  qed
qed

lemma unlock_ex_ok:
  assumes inv: "lock_ok t" and fp: "exb (files t fp)" "f_data (files t fp) = Some ip"
  defines "t' \<equiv> ino_unlock_ex fp ip (ILWAIT (inodes t ip)) t"
  shows "lock_ok t'" "rsame t t'" "\<not> exb (files t' fp)" "shb (files t' fp) = shb (files t fp)"
proof -
  note L = lock_okD [OF inv]
  note fin = locks_finite [OF L(1)]
  have mem: "fp \<in> exs t ip" using fp by (simp add: exs_def)
  then have ne: "shs t ip = {}" "card (exs t ip) = 1" using L(6,7) by auto
  then have one: "exs t ip = {fp}" using mem by (auto simp: card_1_singleton_iff)
  have dec: "dec16 (i_exlockc (inodes t ip)) = 0" using L(3) ne(2) by (simp add: dec16_def)
  have files: "files t' = (files t)(fp := (files t fp)\<lparr>f_flag := f_flag (files t fp) AND NOT 32\<rparr>)"
    by (simp add: t'_def ino_unlock_ex_def Let_def)
  have X: "exs t' j = (if j = ip then {} else exs t j)" and S: "shs t' j = shs t j" for j
    using fp one by (auto simp: shs_def exs_def files bit_and_iff)
  have inodes: "inodes t' = (inodes t)(ip := (inodes t ip)\<lparr>i_exlockc := 0, IEXLOCK := False, ILWAIT := False\<rparr>)"
    by (auto simp: t'_def ino_unlock_ex_def Let_def dec)
  have live: "live t' = live t" by (simp add: t'_def ino_unlock_ex_def Let_def)
  show "rsame t t'" using rsame_wake [of t ip] unfolding rsame_def usame_def files live
    by (auto simp: t'_def ino_unlock_ex_def Let_def rsame_def usame_def wake_lock_def)
  show "\<not> exb (files t' fp)" "shb (files t' fp) = shb (files t fp)" by (simp_all add: files bit_and_iff)
  have asleep: "u_act (usr t' p) = Locking f cmd (Some j) r \<Longrightarrow>
      u_act (usr t p) = Locking f cmd (Some j) r \<and> (j = ip \<longrightarrow> \<not> ILWAIT (inodes t ip))" for p f cmd j r
    by (auto simp: t'_def ino_unlock_ex_def Let_def dec wake_asleep split: if_splits)
  show "lock_ok t'"
  proof (rule lock_okI)
    show "flags_ok t'" using L(1) by (auto simp: flags_ok_def files bit_and_iff)
    show "ilk_ok (inodes t' j) (shs t' j) (exs t' j)" for j
      using L(2-7) [of j] ne(1) by (auto simp: ilk_ok_def inodes S X)
    show "sleep_ok t'" unfolding sleep_ok_def
    proof (intro ballI allI impI)
      fix p f cmd j r assume p: "p \<in> live t'" "u_act (usr t' p) = Locking f cmd (Some j) r"
      note a = asleep [OF p(2)]
      then have "f_data (files t f) = Some j" "ILWAIT (inodes t j)" "held t cmd j"
        using L(8) p(1) live by (auto simp: sleep_ok_def)
      then show "f_data (files t' f) = Some j \<and> ILWAIT (inodes t' j) \<and> held t' cmd j"
        using a by (auto simp: files inodes held_def S X)
    qed
  qed
qed

lemma ino_unlock_ok:
  assumes "lock_ok t"
  shows "lock_ok (ino_unlock fp kind t)" "rsame t (ino_unlock fp kind t)"
    "bit kind 4 \<Longrightarrow> \<not> shb (files (ino_unlock fp kind t) fp)" "bit kind 5 \<Longrightarrow> \<not> exb (files (ino_unlock fp kind t) fp)"
    "exb (files (ino_unlock fp kind t) fp) \<Longrightarrow> exb (files t fp)"
    "shb (files (ino_unlock fp kind t) fp) \<Longrightarrow> shb (files t fp)"
proof -
  note L = lock_okD [OF assms]
  let ?k = "kind AND f_flag (files t fp)"
  consider "shb (files t fp)" "\<not> exb (files t fp)" | "exb (files t fp)" "\<not> shb (files t fp)" | "\<not> shb (files t fp)" "\<not> exb (files t fp)"
    using L(1) by (auto simp: flags_ok_def)
  then have "lock_ok (ino_unlock fp kind t) \<and> rsame t (ino_unlock fp kind t) \<and>
    (bit kind 4 \<longrightarrow> \<not> shb (files (ino_unlock fp kind t) fp)) \<and> (bit kind 5 \<longrightarrow> \<not> exb (files (ino_unlock fp kind t) fp)) \<and>
    (exb (files (ino_unlock fp kind t) fp) \<longrightarrow> exb (files t fp)) \<and> (shb (files (ino_unlock fp kind t) fp) \<longrightarrow> shb (files t fp))"
  proof cases
    case 1
    then obtain ip where ip: "f_data (files t fp) = Some ip" using L(1) by (auto simp: flags_ok_def)
    have "ino_unlock fp kind t = (if bit kind 4 then ino_unlock_sh fp ip (ILWAIT (inodes t ip)) t else t)"
    proof (cases "bit kind 4")
      case True
      then have "?k \<noteq> 0" using 1(1) by (metis bit_and_iff bit_0_eq bot_apply bot_bool_def)
      then show ?thesis using True 1 ip by (simp add: ino_unlock_def bit_and_iff Let_def)
    next
      case False
      then show ?thesis using 1 ip by (simp add: ino_unlock_def bit_and_iff Let_def)
    qed
    then show ?thesis using unlock_sh_ok [OF assms 1(1) ip] 1 assms by auto
  next
    case 2
    then obtain ip where ip: "f_data (files t fp) = Some ip" using L(1) by (auto simp: flags_ok_def)
    have "ino_unlock fp kind t = (if bit kind 5 then ino_unlock_ex fp ip (ILWAIT (inodes t ip)) t else t)"
    proof (cases "bit kind 5")
      case True
      then have "?k \<noteq> 0" using 2(1) by (metis bit_and_iff bit_0_eq bot_apply bot_bool_def)
      then show ?thesis using True 2 ip by (simp add: ino_unlock_def bit_and_iff Let_def)
    next
      case False
      then show ?thesis using 2 ip by (simp add: ino_unlock_def bit_and_iff Let_def)
    qed
    then show ?thesis using unlock_ex_ok [OF assms 2(1) ip] 2 assms by auto
  next
    case 3
    then have "ino_unlock fp kind t = t" by (auto simp: ino_unlock_def bit_and_iff Let_def split: option.splits)
    then show ?thesis using 3 assms by simp
  qed
  then show "lock_ok (ino_unlock fp kind t)" "rsame t (ino_unlock fp kind t)"
    "bit kind 4 \<Longrightarrow> \<not> shb (files (ino_unlock fp kind t) fp)" "bit kind 5 \<Longrightarrow> \<not> exb (files (ino_unlock fp kind t) fp)"
    "exb (files (ino_unlock fp kind t) fp) \<Longrightarrow> exb (files t fp)"
    "shb (files (ino_unlock fp kind t) fp) \<Longrightarrow> shb (files t fp)" by auto
qed

lemma held_cong:
  assumes "files t' = files t"
  shows "shs t' = shs t" "exs t' = exs t" "held t' = held t"
  using assms by (simp_all add: shs_def exs_def held_def fun_eq_iff)

lemma lock_ok_lwait:
  assumes "lock_ok t"
  shows "lock_ok (upd_ino ip (\<lambda>i. i\<lparr>ILWAIT := True\<rparr>) t)" "rsame t (upd_ino ip (\<lambda>i. i\<lparr>ILWAIT := True\<rparr>) t)"
proof -
  let ?t = "upd_ino ip (\<lambda>i. i\<lparr>ILWAIT := True\<rparr>) t"
  note c = held_cong [of ?t t, simplified]
  show "lock_ok ?t" using assms by (auto simp: lock_ok_def flags_ok_def sleep_ok_def c ilk_ok_def)
  show "rsame t ?t" by (simp add: rsame_def usame_def)
qed

definition can_lock :: "ftab \<Rightarrow> nat \<Rightarrow> nat \<Rightarrow> bool" where
  "can_lock t fp ip \<longleftrightarrow> fp < NFILE \<and> f_count (files t fp) > 0 \<and> f_type (files t fp) = DTYPE_INODE \<and> f_data (files t fp) = Some ip"

lemma grant_ex_ok:
  assumes inv: "lock_ok t" and fp: "can_lock t fp ip" and free: "exs t ip = {}" "shs t ip = {}"
  defines "t' \<equiv> upd_file fp (\<lambda>f. f\<lparr>f_flag := f_flag f OR FEXLOCK\<rparr>)
                   (upd_ino ip (\<lambda>i. i\<lparr>i_exlockc := inc16 (i_exlockc i), IEXLOCK := True\<rparr>) t)"
  shows "lock_ok t'" "rsame t t'"
proof -
  note L = lock_okD [OF inv]
  have d: "f_data (files t fp) = Some ip" using fp by (simp add: can_lock_def)
  have files: "files t' = (files t)(fp := (files t fp)\<lparr>f_flag := f_flag (files t fp) OR 32\<rparr>)" by (simp add: t'_def)
  have rest: "inodes t' = (inodes t)(ip := (inodes t ip)\<lparr>i_exlockc := 1, IEXLOCK := True\<rparr>)" "live t' = live t" "usr t' = usr t"
    using L(3) free(1) by (simp_all add: t'_def inc16)
  have X: "exs t' j = (if j = ip then {fp} else exs t j)" and S: "shs t' j = shs t j" for j
    using d free by (auto simp: shs_def exs_def files bit_or_iff)
  have no: "\<not> shb (files t fp)" "\<not> exb (files t fp)" using free d by (auto simp: shs_def exs_def)
  show "rsame t t'" by (simp add: rsame_def usame_def t'_def)
  show "lock_ok t'"
  proof (rule lock_okI)
    show "flags_ok t'" using L(1) fp no by (auto simp: flags_ok_def files bit_or_iff can_lock_def)
    show "ilk_ok (inodes t' j) (shs t' j) (exs t' j)" for j
      using L(2-7) [of j] free by (cases "j = ip") (simp_all add: ilk_ok_def S X rest)
    show "sleep_ok t'" using L(8) free by (auto simp: sleep_ok_def held_def S X files rest)
  qed
qed

lemma grant_sh_ok:
  assumes inv: "lock_ok t" and fp: "can_lock t fp ip" and free: "exs t ip = {}" "\<not> shb (files t fp)"
  defines "t' \<equiv> upd_file fp (\<lambda>f. f\<lparr>f_flag := f_flag f OR FSHLOCK\<rparr>)
                   (upd_ino ip (\<lambda>i. i\<lparr>i_shlockc := inc16 (i_shlockc i), ISHLOCK := True\<rparr>) t)"
  shows "lock_ok t'" "rsame t t'"
proof -
  note L = lock_okD [OF inv]
  note fin = locks_finite [OF L(1), of ip]
  have d: "f_data (files t fp) = Some ip" using fp by (simp add: can_lock_def)
  have files: "files t' = (files t)(fp := (files t fp)\<lparr>f_flag := f_flag (files t fp) OR 16\<rparr>)" by (simp add: t'_def)
  have S: "shs t' j = (if j = ip then insert fp (shs t ip) else shs t j)" and X: "exs t' j = exs t j" for j
    using d by (auto simp: shs_def exs_def files bit_or_iff)
  have no: "fp \<notin> shs t ip" "\<not> exb (files t fp)" using free d by (auto simp: shs_def exs_def)
  have rest: "inodes t' = (inodes t)(ip := (inodes t ip)\<lparr>i_shlockc := card (insert fp (shs t ip)), ISHLOCK := True\<rparr>)"
    "live t' = live t" "usr t' = usr t"
    using L(2) [of ip] fin no(1) by (simp_all add: t'_def inc16)
  show "rsame t t'" by (simp add: rsame_def usame_def t'_def)
  show "lock_ok t'"
  proof (rule lock_okI)
    show "flags_ok t'" using L(1) fp no free by (auto simp: flags_ok_def files bit_or_iff can_lock_def)
    show "ilk_ok (inodes t' j) (shs t' j) (exs t' j)" for j
      using L(2-7) [of j] free(1) by (cases "j = ip") (simp_all add: ilk_ok_def S X rest)
    show "sleep_ok t'" using L(8) free(1) by (auto simp: sleep_ok_def held_def S X files rest)
  qed
qed

definition lock_result :: "ftab \<Rightarrow> nat \<Rightarrow> word32 \<Rightarrow> lockres \<Rightarrow> ftab \<Rightarrow> bool" where
  "lock_result t fp cmd res t' \<longleftrightarrow> lock_ok t' \<and> rsame t t' \<and> res \<noteq> Failed E_OK \<and>
     (\<forall>ip. res = Slept ip \<longrightarrow> f_data (files t' fp) = Some ip \<and> ILWAIT (inodes t' ip) \<and> held t' cmd ip)"

lemma ino_lock_free:
  assumes inv: "lock_ok t" and fp: "can_lock t fp ip"
    and no: "\<not> exb (files t fp)" "shb (files t fp) \<Longrightarrow> cmd AND LOCK_EX = 0"
  shows "\<exists>res t'. ino_lock_again (Suc n) fp cmd t = Ret (res, t') \<and> lock_result t fp cmd res t'"
proof -
  note L = lock_okD [OF inv]
  let ?w = "upd_ino ip (\<lambda>i. i\<lparr>ILWAIT := True\<rparr>) t"
  have d: "f_data (files t fp) = Some ip" using fp by (simp add: can_lock_def)
  have h: "held ?w = held t" by (rule held_cong) simp
  show ?thesis
  proof (cases "exs t ip = {}")
    case False
    then have "held t cmd ip" by (simp add: held_def)
    then have "lock_result t fp cmd (Slept ip) ?w" using lock_ok_lwait [OF inv] h d by (simp add: lock_result_def)
    moreover have "lock_result t fp cmd (Failed EWOULDBLOCK) t" using inv by (simp add: lock_result_def)
    ultimately show ?thesis using False no(1) d L(5) [of ip] by (cases "cmd AND LOCK_NB = 0") auto
  next
    case X: True
    show ?thesis
    proof (cases "cmd AND LOCK_EX \<noteq> 0")
      case True
      then have n: "\<not> shb (files t fp)" using no by auto
      show ?thesis
      proof (cases "shs t ip = {}")
        case S: True
        then show ?thesis using X True grant_ex_ok [OF inv fp X S] d L(4,5) [of ip] by (auto simp: lock_result_def)
      next
        case S: False
        then have "held t cmd ip" using True by (simp add: held_def)
        then have "lock_result t fp cmd (Slept ip) ?w" using lock_ok_lwait [OF inv] h d by (simp add: lock_result_def)
        moreover have "lock_result t fp cmd (Failed EWOULDBLOCK) t" using inv by (simp add: lock_result_def)
        ultimately show ?thesis using S X True n d L(4,5) [of ip] by (cases "cmd AND LOCK_NB = 0") auto
      qed
    next
      case False
      then show ?thesis using X grant_sh_ok [OF inv fp X] d L(4,5) [of ip] inv
        by (cases "shb (files t fp)") (auto simp: lock_result_def)
    qed
  qed
qed

lemma lock_result_trans:
  assumes "rsame t t1" "lock_result t1 fp cmd res t'"
  shows "lock_result t fp cmd res t'"
  using assms rsame_trans by (auto simp: lock_result_def)

lemma ino_lock_ok:
  assumes inv: "lock_ok t" and fp: "can_lock t fp ip"
  shows "\<exists>res t'. ino_lock fp cmd t = Ret (res, t') \<and> lock_result t fp cmd res t'"
proof -
  have k: "rsame t t' \<Longrightarrow> can_lock t' fp ip" for t' using fp by (auto simp: can_lock_def rsame_def)
  have d: "f_data (files t fp) = Some ip" using fp by (simp add: can_lock_def)
  note L = lock_okD [OF inv]
  have n: "3 = Suc (Suc (Suc 0))" by simp
  consider "exb (files t fp)" | "shb (files t fp)" "\<not> exb (files t fp)" "cmd AND LOCK_EX \<noteq> 0"
    | "\<not> exb (files t fp)" "shb (files t fp) \<Longrightarrow> cmd AND LOCK_EX = 0" by blast
  then show ?thesis
  proof cases
    case 1
    then have i: "IEXLOCK (inodes t ip)" using L(5) d by (auto simp: exs_def)
    note U = ino_unlock_ok [OF inv, where fp = fp and kind = FEXLOCK]
    have "ino_lock fp cmd t = ino_lock_again (Suc (Suc 0)) fp cmd (ino_unlock fp FEXLOCK t)"
      unfolding ino_lock_def n using 1 d i by simp
    moreover have "\<not> exb (files (ino_unlock fp FEXLOCK t) fp)" "\<not> shb (files (ino_unlock fp FEXLOCK t) fp)"
      using U(4,6) 1 L(1) by (auto simp: flags_ok_def)
    ultimately show ?thesis
      using ino_lock_free [OF U(1) k [OF U(2)], of cmd "Suc 0"] lock_result_trans [OF U(2)] by auto
  next
    case 2
    then have "shs t ip \<noteq> {}" using d by (auto simp: shs_def)
    then have i: "ISHLOCK (inodes t ip)" "\<not> IEXLOCK (inodes t ip)" using L(4,5,6) by auto
    note U = ino_unlock_ok [OF inv, where fp = fp and kind = FSHLOCK]
    have "ino_lock fp cmd t = ino_lock_again (Suc (Suc 0)) fp cmd (ino_unlock fp FSHLOCK t)"
      unfolding ino_lock_def n using 2 d i by simp
    moreover have "\<not> exb (files (ino_unlock fp FSHLOCK t) fp)" "\<not> shb (files (ino_unlock fp FSHLOCK t) fp)"
      using U(3,5) 2 by auto
    ultimately show ?thesis
      using ino_lock_free [OF U(1) k [OF U(2)], of cmd "Suc 0"] lock_result_trans [OF U(2)] by auto
  next
    case 3
    then show ?thesis using ino_lock_free [OF inv fp, of cmd "Suc (Suc 0)"] unfolding ino_lock_def n by auto
  qed
qed

section \<open>References\<close>

lemma finvD:
  assumes "finv x N t"
  shows "desc_ok t" "count_ok x t" "type_ok N t" "act_ok t" "lock_ok t"
  using assms by (simp_all add: finv_def)

lemma ofile_bounds:
  assumes "desc_ok t" "p \<in> live t" "u_ofile (usr t p) i = Some f"
  shows "p < NPROC" "i < NOFILE" "f < NFILE" "int i \<le> u_lastfile (usr t p)"
proof -
  have "int i \<le> u_lastfile (usr t p)" "u_lastfile (usr t p) < int NOFILE" "f < NFILE" "p < NPROC"
    using assms unfolding desc_ok_def by auto
  then show "p < NPROC" "i < NOFILE" "f < NFILE" "int i \<le> u_lastfile (usr t p)" by auto
qed

lemma refs_finite:
  assumes "desc_ok t"
  shows "finite (refs t f)"
proof (rule finite_subset)
  show "refs t f \<subseteq> {..<NPROC} \<times> {..<NOFILE}" using ofile_bounds [OF assms] by (auto simp: refs_def)
qed simp

lemma refs_upd_file [simp]: "refs (upd_file f g t) = refs t"
  by (simp add: refs_def fun_eq_iff)

lemma in_refs: "p \<in> live t \<Longrightarrow> u_ofile (usr t p) i = Some f \<Longrightarrow> (p, i) \<in> refs t f"
  by (simp add: refs_def)

lemma count_pos:
  assumes "finv x N t" "p \<in> live t" "u_ofile (usr t p) i = Some f"
  shows "f_count (files t f) > 0"
proof -
  have "card (refs t f) > 0" using in_refs [OF assms(2,3)] refs_finite finvD(1) [OF assms(1)] card_gt_0_iff by blast
  then show ?thesis using finvD(2) [OF assms(1)] ofile_bounds(3) [OF finvD(1) [OF assms(1)] assms(2,3)] by (auto simp: count_ok_def)
qed

text \<open>A file with one reference is referred to by one descriptor only.\<close>

lemma sole_ref:
  assumes "finv x N t" "q \<in> live t" "u_ofile (usr t q) j = Some f" "f_count (files t f) = 1"
    and "p \<in> live t" "u_ofile (usr t p) i = Some f"
  shows "q = p" "j = i" "x \<noteq> Some f"
proof -
  have f: "f < NFILE" using ofile_bounds(3) [OF finvD(1) [OF assms(1)] assms(2,3)] .
  have r: "(q, j) \<in> refs t f" "(p, i) \<in> refs t f" using assms by (simp_all add: in_refs)
  have fin: "finite (refs t f)" using refs_finite finvD(1) [OF assms(1)] by blast
  then have c: "card (refs t f) > 0" using r(1) card_gt_0_iff by blast
  have e: "1 = card (refs t f) + (if x = Some f then 1 else 0)"
    using finvD(2) [OF assms(1)] f assms(4) unfolding count_ok_def by metis
  have one: "card (refs t f) = 1" using c e by linarith
  have x: "x \<noteq> Some f" using c e by (metis add_left_cancel add_0_right one zero_neq_one)
  from one obtain a where "refs t f = {a}" by (rule card_1_singletonE)
  then have "(q, j) = (p, i)" using r by simp
  then show "q = p" "j = i" "x \<noteq> Some f" using x by simp_all
qed

text \<open>So no one else is opening a file, or waits to open it, that a running process refers to.\<close>

lemma not_opening:
  assumes "finv x N t" "p \<in> live t" "u_act (usr t p) = Running" "u_ofile (usr t p) i = Some f \<or> x = Some f" "q \<in> live t"
  shows "u_act (usr t q) \<noteq> Opening f j fl" "u_act (usr t q) \<noteq> Locking f cmd ch (Some indx)"
proof -
  have a: "act_fits (files t) (u_ofile (usr t q)) (u_act (usr t q))" using finvD(4) [OF assms(1)] assms(5) by (simp add: act_ok_def)
  have no: "False" if "u_ofile (usr t q) k = Some f" "f_count (files t f) = 1" "u_act (usr t q) \<noteq> Running" for k
    using sole_ref [OF assms(1,5) that(1,2), of p i] sole_ref(3) [OF assms(1,5) that(1,2) assms(5) that(1)] assms(2-4) that(3) by auto
  show "u_act (usr t q) \<noteq> Opening f j fl" using a no [of j] by auto
  show "u_act (usr t q) \<noteq> Locking f cmd ch (Some indx)" using a no [of indx] by auto
qed

lemma lock_ok_cong:
  assumes "files t' = files t" "inodes t' = inodes t" "live t' \<subseteq> live t" "\<And>p. p \<in> live t' \<Longrightarrow> u_act (usr t' p) = u_act (usr t p)"
    and "lock_ok t"
  shows "lock_ok t'"
proof -
  note c = held_cong [OF assms(1)]
  show ?thesis using assms by (auto simp: lock_ok_def flags_ok_def c sleep_ok_def)
qed

lemma finv_view:
  assumes "files t' = files t" "inodes t' = inodes t" "live t' = live t" "lastf t' = lastf t"
    and u: "\<And>p. u_ofile (usr t' p) = u_ofile (usr t p)" "\<And>p. u_lastfile (usr t' p) = u_lastfile (usr t p)"
      "\<And>p. u_act (usr t' p) = u_act (usr t p)"
    and "finv x N t"
  shows "finv x N t'"
proof -
  have "refs t' = refs t" by (simp add: refs_def u assms fun_eq_iff)
  moreover have "lock_ok t'" using lock_ok_cong [of t' t] assms finvD(5) by simp
  ultimately show ?thesis using assms by (simp add: finv_def desc_ok_def count_ok_def type_ok_def act_ok_def)
qed

lemma finv_upd_usr:
  assumes "finv x N t" "\<And>v. u_ofile (g v) = u_ofile v" "\<And>v. u_lastfile (g v) = u_lastfile v" "\<And>v. u_act (g v) = u_act v"
  shows "finv x N (upd_usr p g t)"
  by (rule finv_view [OF _ _ _ _ _ _ _ assms(1)]) (simp_all add: assms)

lemma finv_set_err: "finv x N t \<Longrightarrow> finv x N (set_err p e t)"
  by (simp add: set_err_def finv_upd_usr)

section \<open>Changes of one descriptor\<close>

lemma type_okI:
  assumes "type_ok N t"
    and "\<And>f. f < NFILE \<Longrightarrow> f \<notin> N' \<Longrightarrow> f_count (files t' f) > 0 \<Longrightarrow>
      f \<notin> N \<and> f_count (files t f) > 0 \<and> f_type (files t' f) = f_type (files t f) \<and> f_data (files t' f) = f_data (files t f) \<and>
      (\<forall>q\<in>live t. \<forall>i fl. u_act (usr t q) = Opening f i fl \<longrightarrow> q \<in> live t' \<and> u_act (usr t' q) = Opening f i fl) \<or>
      f_type (files t' f) \<in> {DTYPE_INODE, DTYPE_PIPE} \<and>
      (f_type (files t' f) = DTYPE_INODE \<longrightarrow> f_data (files t' f) = None \<longrightarrow> (\<exists>p\<in>live t'. \<exists>i fl. u_act (usr t' p) = Opening f i fl))"
  shows "type_ok N' t'"
  unfolding type_ok_def
proof (intro allI impI)
  fix f assume f: "f < NFILE" "f \<notin> N'" "f_count (files t' f) > 0"
  show "f_type (files t' f) \<in> {DTYPE_INODE, DTYPE_PIPE} \<and>
      (f_type (files t' f) = DTYPE_INODE \<and> f_data (files t' f) = None \<longrightarrow> (\<exists>p\<in>live t'. \<exists>i fl. u_act (usr t' p) = Opening f i fl))"
    using assms(2) [OF f] assms(1) f(1) unfolding type_ok_def by (elim disjE) (metis, blast)
qed

lemma refs_upd:
  assumes "p \<in> live t" "\<And>v. u_ofile (g v) = (u_ofile v)(i := y)"
  shows "refs (upd_usr p g t) f = (refs t f - {(p, i)}) \<union> (if y = Some f then {(p, i)} else {})"
  using assms by (auto simp: refs_def split: if_splits)

lemma clear_finv:
  assumes inv: "finv None N t" and p: "p \<in> live t" "u_act (usr t p) = Running" "u_ofile (usr t p) i = Some f"
    and g: "\<And>v. u_ofile (g v) = (u_ofile v)(i := None)" "\<And>v. u_lastfile (g v) = u_lastfile v" "\<And>v. u_act (g v) = u_act v"
  shows "finv (Some f) N (upd_usr p g t)"
proof -
  note I = finvD [OF inv]
  let ?t = "upd_usr p g t"
  have c: "card (refs ?t h) = card (refs t h) - (if h = f then 1 else 0)" "h = f \<Longrightarrow> card (refs t h) > 0" for h
  proof -
    have r: "refs ?t h = refs t h - {(p, i)}" using refs_upd [OF p(1) g(1)] by simp
    show "h = f \<Longrightarrow> card (refs t h) > 0" using in_refs [OF p(1,3)] refs_finite [OF I(1)] card_gt_0_iff by blast
    have "(p, i) \<in> refs t h \<longleftrightarrow> h = f" using p by (auto simp: refs_def)
    then show "card (refs ?t h) = card (refs t h) - (if h = f then 1 else 0)"
      unfolding r using refs_finite [OF I(1), of h] by (cases "h = f") simp_all
  qed
  have "desc_ok ?t" using I(1) by (auto simp: desc_ok_def g)
  moreover have "count_ok (Some f) ?t" using I(2) c by (auto simp: count_ok_def)
  moreover have "type_ok N ?t" by (rule type_okI [OF I(3)]) (simp add: g)
  moreover have "act_ok ?t" using I(4) p(2) by (auto simp: act_ok_def g)
  moreover have "lock_ok ?t" by (rule lock_ok_cong [OF _ _ _ _ I(5)]) (simp_all add: g)
  ultimately show ?thesis by (simp add: finv_def)
qed

section \<open>Closing a file\<close>

fun act_file :: "act \<Rightarrow> nat option" where
  "act_file Running = None"
| "act_file (Opening f i fl) = Some f"
| "act_file (Locking f cmd ch r) = Some f"

lemma act_fits_ref: "act_fits F ofs a \<Longrightarrow> act_file a = Some f \<Longrightarrow> \<exists>i. ofs i = Some f"
  by (cases a) auto

lemma act_fits_other: "act_file a \<noteq> Some f \<Longrightarrow> act_fits (F(f := g)) ofs a = act_fits F ofs a"
  by (cases a) (auto split: option.splits)

lemma act_fits_count:
  assumes "\<And>i fl. a \<noteq> Opening f i fl" "\<And>cmd ch i. a \<noteq> Locking f cmd ch (Some i)"
  shows "act_fits (F(f := (F f)\<lparr>f_count := c\<rparr>)) ofs a = act_fits F ofs a"
  using assms by (cases a) (auto split: option.splits)

lemma act_not_file:
  assumes "act_ok t" "q \<in> live t" "refs t f = {}"
  shows "act_file (u_act (usr t q)) \<noteq> Some f"
proof
  assume "act_file (u_act (usr t q)) = Some f"
  moreover have "act_fits (files t) (u_ofile (usr t q)) (u_act (usr t q))" using assms(1,2) by (simp add: act_ok_def)
  ultimately obtain i where "u_ofile (usr t q) i = Some f" using act_fits_ref by blast
  then show False using assms(2,3) by (auto simp: refs_def)
qed

lemma lock_ok_files:
  assumes "lock_ok t" "inodes t' = inodes t" "live t' \<subseteq> live t" "flags_ok t'" "shs t' = shs t" "exs t' = exs t"
    and "\<And>q f cmd ip r. q \<in> live t' \<Longrightarrow> u_act (usr t' q) = Locking f cmd (Some ip) r \<Longrightarrow>
      u_act (usr t q) = Locking f cmd (Some ip) r \<and> f_data (files t' f) = f_data (files t f)"
  shows "lock_ok t'"
proof (rule lock_okI)
  show "ilk_ok (inodes t' ip) (shs t' ip) (exs t' ip)" for ip using assms by (simp add: lock_ok_def)
  show "sleep_ok t'" unfolding sleep_ok_def
  proof (intro ballI allI impI)
    fix p f cmd ip r assume p: "p \<in> live t'" "u_act (usr t' p) = Locking f cmd (Some ip) r"
    then show "f_data (files t' f) = Some ip \<and> ILWAIT (inodes t' ip) \<and> held t' cmd ip"
      using assms(7) [OF p] assms(3) lock_okD(8) [OF assms(1)] by (auto simp: sleep_ok_def held_def assms(2,5,6))
  qed
qed (rule assms)

lemma no_bits_sets:
  assumes "\<not> shb (files t f)" "\<not> exb (files t f)" "\<not> shb g" "\<not> exb g" "files t' = (files t)(f := g)"
  shows "shs t' = shs t" "exs t' = exs t"
  using assms by (auto simp: shs_def exs_def fun_eq_iff)

lemma locksets_keep:
  assumes "shb (g (files t f)) = shb (files t f)" "exb (g (files t f)) = exb (files t f)" "f_data (g (files t f)) = f_data (files t f)"
  shows "shs (upd_file f g t) = shs t" "exs (upd_file f g t) = exs t"
  using assms by (auto simp: shs_def exs_def fun_eq_iff)

lemma closef_last:
  assumes inv: "finv (Some f) N t" and f: "f < NFILE" "f \<notin> N" "f_count (files t f) = 1"
  shows "\<exists>e' t'. closef e (Some f) t = Ret (e', t') \<and> finv None N t' \<and> usame t t'"
proof -
  note I = finvD [OF inv]
  define t1 where "t1 = (if f_flag (files t f) AND (FSHLOCK OR FEXLOCK) \<noteq> 0 \<and> f_type (files t f) = DTYPE_INODE
                     then ino_unlock f (FSHLOCK OR FEXLOCK) t else t)"
  have t1: "lock_ok t1" "rsame t t1" using ino_unlock_ok(1,2) [OF I(5)] I(5) by (simp_all add: t1_def)
  have bits: "\<not> shb (files t1 f)" "\<not> exb (files t1 f)"
  proof -
    have "shb (files t f) \<or> exb (files t f) \<Longrightarrow> f_type (files t f) = DTYPE_INODE" using lock_okD(1) [OF I(5)] by (auto simp: flags_ok_def)
    then show "\<not> shb (files t1 f)" "\<not> exb (files t1 f)" using ino_unlock_ok(3,4) [OF I(5), of "FSHLOCK OR FEXLOCK" f] by (auto simp: t1_def)
  qed
  have inv1: "finv (Some f) N t1" by (rule finv_rsame [OF inv t1(2,1)])
  note I1 = finvD [OF inv1]
  have ty: "f_type (files t1 f) \<in> {DTYPE_INODE, DTYPE_PIPE}"
    using I(3) f by (simp add: rsame_files [OF t1(2)] type_ok_def)
  have "refs t1 f = {}"
  proof -
    have "f_count (files t1 f) = card (refs t1 f) + 1" using I1(2) f(1) by (simp add: count_ok_def)
    then have "card (refs t1 f) = 0" using f(3) rsame_files(1) [OF t1(2)] by simp
    then show ?thesis using refs_finite [OF I1(1)] by simp
  qed
  note na = act_not_file [OF I1(4) _ this]
  define F where "F = (if f_type (files t1 f) = DTYPE_INODE then (files t1 f)\<lparr>f_data := None, f_count := 0\<rparr> else (files t1 f)\<lparr>f_count := 0\<rparr>)"
  define t' where "t' = t1\<lparr>files := (files t1)(f := F)\<rparr>"
  have "closef e (Some f) t = Ret (if f_type (files t1 f) = DTYPE_INODE then e else E_OK, t')"
  proof -
    have "\<not> f_count (files t f) > 1" using f(3) by simp
    then have "closef e (Some f) t = bind_outcome (fo_close e f t1) (\<lambda>(e', t). Ret (e', upd_file f (\<lambda>f. f\<lparr>f_count := 0\<rparr>) t))"
      unfolding closef_def t1_def Let_def by (simp only: option.case if_False)
    then show ?thesis using ty by (auto simp: fo_close_def t'_def F_def upd_file_def)
  qed
  moreover have "usame t t'" using t1(2) by (simp add: rsame_def usame_def t'_def)
  moreover have "finv None N t'" unfolding finv_def
  proof (intro conjI)
    have s: "files t' = (files t1)(f := F)" "usr t' = usr t1" "live t' = live t1" "lastf t' = lastf t1" "inodes t' = inodes t1"
      by (simp_all add: t'_def)
    show "desc_ok t'" using I1(1) by (simp add: desc_ok_def s)
    have r: "refs t' = refs t1" by (simp add: refs_def s fun_eq_iff)
    show "count_ok None t'" using I1(2) \<open>refs t1 f = {}\<close> by (auto simp: count_ok_def r s F_def)
    show "type_ok N t'" by (rule type_okI [OF I1(3)]) (auto simp: s F_def split: if_splits)
    show "act_ok t'" using I1(4) na by (simp add: act_ok_def s act_fits_other)
    have nb: "\<not> shb F" "\<not> exb F" using bits by (simp_all add: F_def)
    show "lock_ok t'"
    proof (rule lock_ok_files [OF I1(5)])
      show "flags_ok t'" using lock_okD(1) [OF I1(5)] nb by (simp add: flags_ok_def s)
      show "shs t' = shs t1" "exs t' = exs t1" using no_bits_sets [OF bits nb s(1)] by simp_all
      fix q g cmd ip r assume "q \<in> live t'" "u_act (usr t' q) = Locking g cmd (Some ip) r"
      then show "u_act (usr t1 q) = Locking g cmd (Some ip) r \<and> f_data (files t' g) = f_data (files t1 g)"
        using na [of q] by (simp add: s)
    qed (simp_all add: s)
  qed
  ultimately show ?thesis by blast
qed

lemma closef_more:
  assumes inv: "finv (Some f) N t" and f: "f < NFILE" "f_count (files t f) > 1"
  shows "\<exists>e' t'. closef e (Some f) t = Ret (e', t') \<and> finv None N t' \<and> usame t t'"
proof -
  note I = finvD [OF inv]
  let ?t = "upd_file f (\<lambda>f. f\<lparr>f_count := f_count f - 1\<rparr>) t"
  have no: "u_act (usr t q) \<noteq> Opening f i fl" "u_act (usr t q) \<noteq> Locking f cmd ch (Some i)" if "q \<in> live t" for q i fl cmd ch
    using I(4) that f(2) by (auto simp: act_ok_def dest!: bspec)
  have "finv None N ?t" unfolding finv_def
  proof (intro conjI)
    show "desc_ok ?t" using I(1) by (simp add: desc_ok_def)
    show "count_ok None ?t" using I(2) by (auto simp: count_ok_def)
    show "type_ok N ?t" by (rule type_okI [OF I(3)]) (auto split: if_splits)
    show "act_ok ?t" unfolding act_ok_def
    proof
      fix q assume "q \<in> live ?t"
      then have q: "q \<in> live t" by simp
      show "act_fits (files ?t) (u_ofile (usr ?t q)) (u_act (usr ?t q))"
        using act_fits_count [OF no(1) [OF q] no(2) [OF q]] I(4) q by (simp add: act_ok_def)
    qed
    show "lock_ok ?t"
    proof (rule lock_ok_files [OF I(5)])
      show "flags_ok ?t" using lock_okD(1) [OF I(5)] f(2) by (simp add: flags_ok_def)
      show "shs ?t = shs t" "exs ?t = exs t" by (simp_all add: locksets_keep)
    qed auto
  qed
  moreover have "usame t ?t" by (simp add: usame_def)
  ultimately show ?thesis using f(2) by (simp add: closef_def)
qed

lemma closef_finv:
  assumes "finv (Some f) N t" "f < NFILE" "f \<notin> N"
  shows "\<exists>e' t'. closef e (Some f) t = Ret (e', t') \<and> finv None N t' \<and> usame t t'"
proof -
  have "f_count (files t f) > 0" using finvD(2) [OF assms(1)] assms(2) by (simp add: count_ok_def)
  then consider "f_count (files t f) = 1" | "f_count (files t f) > 1" by linarith
  then show ?thesis by cases (use closef_last closef_more assms in blast)+
qed

end
