(* ===== verification/Descrip_Ops.thy ===== *)
theory Descrip_Ops
  imports Descrip_Inv
begin

text \<open>
  Every operation on descriptors returns and keeps the invariant of theory \<open>Descrip_Inv\<close>: allocation, duplication, closing,
  opening, pipes, locks, and the descriptors of \<^verbatim>\<open>fork\<close>, \<^verbatim>\<open>exit\<close> and \<^verbatim>\<open>exec\<close>.
\<close>

section \<open>The order of closing and clearing\<close>

text \<open>
  \<^verbatim>\<open>dup2\<close>, \<^verbatim>\<open>exec\<close> and \<^verbatim>\<open>copen\<close> close a file before they overwrite the descriptor. The result is the one of the other order,
  in which the count agrees with the descriptors all the time.
\<close>

definition act_free :: "(fuser \<Rightarrow> fuser) \<Rightarrow> bool" where
  "act_free g \<longleftrightarrow> (\<forall>v. u_act (g v) = u_act v) \<and> (\<forall>v a. g (v\<lparr>u_act := a\<rparr>) = (g v)\<lparr>u_act := a\<rparr>)"

lemma wake_upd_usr:
  assumes "act_free g"
  shows "wake_lock ip (upd_usr p g t) = upd_usr p g (wake_lock ip t)"
  using assms unfolding act_free_def wake_lock_def upd_usr_def by (simp add: fun_eq_iff)

lemma upd_usr_commute [simp]:
  "upd_file f h (upd_usr p g t) = upd_usr p g (upd_file f h t)" "upd_ino ip k (upd_usr p g t) = upd_usr p g (upd_ino ip k t)"
  by (simp_all add: upd_file_def upd_usr_def upd_ino_def)

lemma ino_unlock_upd_usr:
  assumes "act_free g"
  shows "ino_unlock f kind (upd_usr p g t) = upd_usr p g (ino_unlock f kind t)"
  by (simp add: ino_unlock_def ino_unlock_sh_def ino_unlock_ex_def Let_def wake_upd_usr [OF assms] split: option.splits)

lemma closef_upd_usr:
  assumes "act_free g"
  shows "closef e fo (upd_usr p g t) = bind_outcome (closef e fo t) (\<lambda>(e', t'). Ret (e', upd_usr p g t'))"
proof -
  have f: "fo_close e f (upd_usr p g t) = bind_outcome (fo_close e f t) (\<lambda>(e', t'). Ret (e', upd_usr p g t'))" for f t
    by (simp add: fo_close_def split: dtype.splits)
  have b: "bind_outcome (bind_outcome (fo_close e f t) (\<lambda>(e', t'). Ret (e', upd_usr p g t'))) (\<lambda>(e', t). Ret (e', upd_file f k t)) =
    bind_outcome (bind_outcome (fo_close e f t) (\<lambda>(e', t). Ret (e', upd_file f k t))) (\<lambda>(e', t'). Ret (e', upd_usr p g t'))" for f k t
    by (cases "fo_close e f t") auto
  show ?thesis
    by (cases fo) (simp_all add: closef_def Let_def ino_unlock_upd_usr [OF assms] f b)
qed

lemma close_clear:
  assumes inv: "finv None {} t" and p: "p \<in> live t" "u_act (usr t p) = Running" "u_ofile (usr t p) i = Some f"
    and g: "act_free g" "\<And>v. u_ofile (g v) = (u_ofile v)(i := None)" "\<And>v. u_lastfile (g v) = u_lastfile v"
  shows "\<exists>e' t1. closef e (Some f) (upd_usr p g t) = Ret (e', upd_usr p g t1) \<and> closef e (Some f) t = Ret (e', t1) \<and>
    finv None {} (upd_usr p g t1) \<and> usame t t1"
proof -
  have "finv (Some f) {} (upd_usr p g t)"
    using clear_finv [OF inv p g(2,3)] g(1) by (auto simp: act_free_def)
  moreover have "f < NFILE" using ofile_bounds(3) [OF finvD(1) [OF inv] p(1,3)] .
  ultimately obtain e' t' where c: "closef e (Some f) (upd_usr p g t) = Ret (e', t')" "finv None {} t'" "usame (upd_usr p g t) t'"
    using closef_finv by blast
  then obtain t1 where t1: "closef e (Some f) t = Ret (e', t1)" "t' = upd_usr p g t1"
    using closef_upd_usr [OF g(1), of e "Some f" p t] by (auto simp: outcome_simps)
  have "usame t t1"
  proof (cases "f_count (files t f) > 1")
    case True
    then show ?thesis using t1(1) by (auto simp: closef_def usame_def)
  next
    case False
    have "usame t (ino_unlock f k t)" for k using ino_unlock_ok(2) [OF finvD(5) [OF inv]] by (simp add: rsame_def)
    then have u: "usame t (if b then ino_unlock f k t else t)" for b k by simp
    have "fo_close e f s = Ret (e', s') \<Longrightarrow> usame t s \<Longrightarrow> usame t (upd_file f h s')" for s s' e' h
      by (auto simp: fo_close_def usame_def split: dtype.splits)
    then show ?thesis using t1(1) False u unfolding closef_def Let_def by (auto simp: outcome_simps)
  qed
  then show ?thesis using c t1 by blast
qed

section \<open>Allocation and duplication\<close>

lemma finv_lastfile:
  assumes "finv x N t" "p \<in> live t" "-1 \<le> l" "l < int NOFILE" "\<And>i f. u_ofile (usr t p) i = Some f \<Longrightarrow> int i \<le> l"
  shows "finv x N (upd_usr p (\<lambda>v. v\<lparr>u_lastfile := l\<rparr>) t)"
proof -
  let ?t = "upd_usr p (\<lambda>v. v\<lparr>u_lastfile := l\<rparr>) t"
  note I = finvD [OF assms(1)]
  have "refs ?t = refs t" by (auto simp: refs_def fun_eq_iff split: if_splits)
  moreover have "lock_ok ?t" by (rule lock_ok_cong [OF _ _ _ _ I(5)]) simp_all
  moreover have "desc_ok ?t" using I(1) assms(2-5) by (simp add: desc_ok_def)
  moreover have "type_ok N ?t" by (rule type_okI [OF I(3)]) simp
  moreover have "act_ok ?t" using I(4) by (simp add: act_ok_def)
  ultimately show ?thesis using I(2) by (simp add: finv_def count_ok_def)
qed

lemma lower_lastfile_bounds:
  "-1 \<le> lower_lastfile ofs n" "lower_lastfile ofs n < int n" "i < n \<Longrightarrow> ofs i \<noteq> None \<Longrightarrow> int i \<le> lower_lastfile ofs n"
  by (induction n) (auto simp: less_Suc_eq)

lemma trim_lastfile_finv:
  assumes "finv x N t" "p \<in> live t"
  shows "finv x N (trim_lastfile p t)"
proof -
  note I = finvD(1) [OF assms(1)]
  let ?n = "nat (u_lastfile (usr t p) + 1)" and ?l = "lower_lastfile (u_ofile (usr t p)) (nat (u_lastfile (usr t p) + 1))"
  have b: "-1 \<le> u_lastfile (usr t p)" "u_lastfile (usr t p) < int NOFILE" using I assms(2) by (auto simp: desc_ok_def)
  have "finv x N (upd_usr p (\<lambda>v. v\<lparr>u_lastfile := ?l\<rparr>) t)"
  proof (rule finv_lastfile [OF assms])
    show "-1 \<le> ?l" by (rule lower_lastfile_bounds)
    show "?l < int NOFILE" using lower_lastfile_bounds(2) [of "u_ofile (usr t p)" ?n] b by linarith
    fix i f assume "u_ofile (usr t p) i = Some f"
    then show "int i \<le> ?l" using ofile_bounds(4) [OF I assms(2)] b by (intro lower_lastfile_bounds(3)) fastforce+
  qed
  then show ?thesis by (simp add: trim_lastfile_def upd_usr_def)
qed

lemma desc_okI:
  assumes "desc_ok t" "live t' = live t" "\<And>l. lastf t' = Some l \<Longrightarrow> l \<le> NFILE"
    and "\<And>q. q \<in> live t \<Longrightarrow> u_lastfile (usr t q) \<le> u_lastfile (usr t' q) \<and> u_lastfile (usr t' q) < int NOFILE"
    and "\<And>q i f. q \<in> live t \<Longrightarrow> u_ofile (usr t' q) i = Some f \<Longrightarrow>
      u_ofile (usr t q) i = Some f \<or> f < NFILE \<and> int i \<le> u_lastfile (usr t' q)"
  shows "desc_ok t'"
  unfolding desc_ok_def
proof (intro conjI ballI allI impI)
  note b = ofile_bounds [OF assms(1)]
  show "live t' \<subseteq> {..<NPROC}" using assms(1,2) by (simp add: desc_ok_def)
  show "l \<le> NFILE" if "lastf t' = Some l" for l using assms(3) that .
  fix q assume "q \<in> live t'"
  then have q: "q \<in> live t" using assms(2) by simp
  show "u_lastfile (usr t' q) < int NOFILE" using assms(4) [OF q] by blast
  have "-1 \<le> u_lastfile (usr t q)" using assms(1) q by (simp add: desc_ok_def)
  then show "-1 \<le> u_lastfile (usr t' q)" using assms(4) [OF q] by linarith
  fix i f assume f: "u_ofile (usr t' q) i = Some f"
  show "int i \<le> u_lastfile (usr t' q)" "f < NFILE"
    using assms(5) [OF q f] assms(4) [OF q] b(3,4) [OF q] by force+
qed

lemma dupit_finv:
  assumes inv: "finv None {} t" and p: "p \<in> live t" "u_act (usr t p) = Running" "u_ofile (usr t p) i = Some f"
    and fd: "fd < NOFILE" "u_ofile (usr t p) fd = None"
  shows "finv None {} (dupit p fd f fl t)"
proof -
  note I = finvD [OF inv]
  let ?t = "dupit p fd f fl t"
  have s: "files ?t = (files t)(f := (files t f)\<lparr>f_count := f_count (files t f) + 1\<rparr>)" "inodes ?t = inodes t" "live ?t = live t"
    "lastf ?t = lastf t" "\<And>q. u_act (usr ?t q) = u_act (usr t q)"
    "\<And>q. u_ofile (usr ?t q) = (if q = p then (u_ofile (usr t p))(fd := Some f) else u_ofile (usr t q))"
    "\<And>q. u_lastfile (usr ?t q) = (if q = p then max (int fd) (u_lastfile (usr t p)) else u_lastfile (usr t q))"
    by (simp_all add: dupit_def)
  have f: "f < NFILE" using ofile_bounds(3) [OF I(1) p(1,3)] .
  have no: "u_act (usr t q) \<noteq> Opening f j fl" "u_act (usr t q) \<noteq> Locking f cmd ch (Some j)" if "q \<in> live t" for q j fl cmd ch
    using not_opening [OF inv p(1,2) _ that] p(3) by auto
  have r: "refs ?t h = (if h = f then insert (p, fd) (refs t f) else refs t h)" for h
    using p(1) fd(2) by (auto simp: refs_def s split: if_splits)
  have new: "(p, fd) \<notin> refs t f" using fd(2) by (simp add: refs_def)
  show ?thesis unfolding finv_def
  proof (intro conjI)
    show "desc_ok ?t"
    proof (rule desc_okI [OF I(1)])
      show "l \<le> NFILE" if "lastf ?t = Some l" for l using I(1) that by (simp add: s desc_ok_def)
      show "u_lastfile (usr t q) \<le> u_lastfile (usr ?t q) \<and> u_lastfile (usr ?t q) < int NOFILE" if "q \<in> live t" for q
        using I(1) that fd(1) by (auto simp: s desc_ok_def)
    qed (use f in \<open>auto simp: s split: if_splits\<close>)
    show "count_ok None ?t" using I(2) new refs_finite [OF I(1)] by (simp add: count_ok_def s r)
    show "type_ok {} ?t" using count_pos [OF inv p(1,3)] by (intro type_okI [OF I(3)]) (auto simp: s split: if_splits)
    show "act_ok ?t" unfolding act_ok_def
    proof
      fix q assume "q \<in> live ?t"
      then have q: "q \<in> live t" by (simp add: s)
      have "act_fits (files t) (u_ofile (usr t q)) (u_act (usr t q))" using I(4) q by (simp add: act_ok_def)
      then show "act_fits (files ?t) (u_ofile (usr ?t q)) (u_act (usr ?t q))"
        using act_fits_count [OF no(1) [OF q] no(2) [OF q]] p(2) by (auto simp: s)
    qed
    show "lock_ok ?t"
    proof (rule lock_ok_files [OF I(5)])
      show "flags_ok ?t" using lock_okD(1) [OF I(5)] by (simp add: flags_ok_def s)
      show "shs ?t = shs t" "exs ?t = exs t" by (auto simp: shs_def exs_def s fun_eq_iff)
    qed (auto simp: s)
  qed
qed

lemma ufalloc_finv:
  assumes inv: "finv x N t" and p: "p \<in> live t" and u: "ufalloc p i t = (r, t')"
  shows "finv x N t'" "files t' = files t" "live t' = live t" "lastf t' = lastf t" "inodes t' = inodes t"
    "u_ofile (usr t' q) = u_ofile (usr t q)" "u_act (usr t' q) = u_act (usr t q)"
    "r = Some k \<Longrightarrow> i \<le> k \<and> k < NOFILE \<and> u_ofile (usr t p) k = None \<and> u_rval (usr t' p) = int k \<and> int k \<le> u_lastfile (usr t' p)"
proof -
  note I = finvD(1) [OF inv]
  have b: "-1 \<le> u_lastfile (usr t p)" "u_lastfile (usr t p) < int NOFILE"
    "\<And>i f. u_ofile (usr t p) i = Some f \<Longrightarrow> int i \<le> u_lastfile (usr t p)" using I p by (auto simp: desc_ok_def)
  show "files t' = files t" "live t' = live t" "lastf t' = lastf t" "inodes t' = inodes t" "u_ofile (usr t' q) = u_ofile (usr t q)"
    "u_act (usr t' q) = u_act (usr t q)"
    using u by (auto simp: ufalloc_def set_err_def split: option.splits)
  show "r = Some k \<Longrightarrow> i \<le> k \<and> k < NOFILE \<and> u_ofile (usr t p) k = None \<and> u_rval (usr t' p) = int k \<and> int k \<le> u_lastfile (usr t' p)"
    using u by (auto simp: ufalloc_def find_Some_iff nth_append split: option.splits)
  show "finv x N t'"
  proof (cases "find (\<lambda>i. u_ofile (usr t p) i = None) [i..<NOFILE]")
    case None
    then show ?thesis using u finv_set_err [OF inv] by (auto simp: ufalloc_def)
  next
    case (Some k)
    have k: "k < NOFILE" using Some by (auto simp: find_Some_iff)
    let ?l = "max (int k) (u_lastfile (usr t p))"
    have "finv x N (upd_usr p (\<lambda>v. v\<lparr>u_lastfile := ?l\<rparr>) t)"
    proof (rule finv_lastfile [OF inv p])
      show "-1 \<le> ?l" "?l < int NOFILE" using b(1,2) k by auto
      show "int j \<le> ?l" if "u_ofile (usr t p) j = Some f" for j f using b(3) [OF that] by simp
    qed
    then show ?thesis by (rule finv_view [rotated -1]) (use u Some in \<open>auto simp: ufalloc_def max_def split: if_splits\<close>)
  qed
qed

lemma find_SomeD: "find P xs = Some x \<Longrightarrow> x \<in> set xs \<and> P x"
  by (induction xs) (auto split: if_splits)

text \<open>A descriptor for a file that no one refers to.\<close>

lemma new_file_finv:
  assumes inv: "finv None N t" and p: "p \<in> live t" "u_act (usr t p) = Running" "u_ofile (usr t p) i = None"
    and i: "i < NOFILE" "int i \<le> u_lastfile (usr t p)" and f: "f < NFILE" "f_count (files t f) = 0"
  defines "t' \<equiv> upd_file f (\<lambda>f. f\<lparr>f_count := 1, f_data := None, f_offset := 0\<rparr>)
      (upd_usr p (\<lambda>v. v\<lparr>u_ofile := (u_ofile v)(i := Some f)\<rparr>) t)\<lparr>lastf := Some (f + 1)\<rparr>"
  shows "finv None (insert f N) t'"
proof -
  note I = finvD [OF inv]
  have s: "files t' = (files t)(f := (files t f)\<lparr>f_count := 1, f_data := None, f_offset := 0\<rparr>)" "inodes t' = inodes t" "live t' = live t"
    "lastf t' = Some (f + 1)" "\<And>q. u_act (usr t' q) = u_act (usr t q)" "\<And>q. u_lastfile (usr t' q) = u_lastfile (usr t q)"
    "\<And>q. u_ofile (usr t' q) = (if q = p then (u_ofile (usr t p))(i := Some f) else u_ofile (usr t q))"
    by (simp_all add: t'_def upd_file_def upd_usr_def)
  have none: "refs t f = {}" using I(2) f refs_finite [OF I(1)] by (simp add: count_ok_def)
  have r: "refs t' h = (if h = f then {(p, i)} else refs t h)" for h
    using none p(1,3) by (auto simp: refs_def s split: if_splits)
  have bits: "\<not> shb (files t f)" "\<not> exb (files t f)" using lock_okD(1) [OF I(5)] f(2) by (auto simp: flags_ok_def)
  note na = act_not_file [OF I(4) _ none]
  show ?thesis unfolding finv_def
  proof (intro conjI)
    show "desc_ok t'"
    proof (rule desc_okI [OF I(1)])
      show "u_lastfile (usr t q) \<le> u_lastfile (usr t' q) \<and> u_lastfile (usr t' q) < int NOFILE" if "q \<in> live t" for q
        using I(1) that by (simp add: s desc_ok_def)
    qed (use f i in \<open>auto simp: s split: if_splits\<close>)
    show "count_ok None t'" using I(2) by (simp add: count_ok_def s r)
    show "type_ok (insert f N) t'" by (rule type_okI [OF I(3)]) (simp add: s)
    show "act_ok t'" using I(4) na p(2) by (auto simp: act_ok_def s act_fits_other)
    show "lock_ok t'"
    proof (rule lock_ok_files [OF I(5)])
      show "flags_ok t'" using lock_okD(1) [OF I(5)] bits by (simp add: flags_ok_def s)
      show "shs t' = shs t" "exs t' = exs t" using no_bits_sets [OF bits _ _ s(1)] bits by simp_all
      fix q g cmd ip r assume "q \<in> live t'" "u_act (usr t' q) = Locking g cmd (Some ip) r"
      then show "u_act (usr t q) = Locking g cmd (Some ip) r \<and> f_data (files t' g) = f_data (files t g)"
        using na [of q] by (simp add: s)
    qed (simp_all add: s)
  qed
qed

definition fresh :: "nat \<Rightarrow> nat \<Rightarrow> nat \<Rightarrow> nat set \<Rightarrow> ftab \<Rightarrow> bool" where
  "fresh p f i N t \<longleftrightarrow> finv None (insert f N) t \<and> p \<in> live t \<and> u_act (usr t p) = Running \<and> u_ofile (usr t p) i = Some f \<and>
     f_count (files t f) = 1 \<and> f_data (files t f) = None"

lemma falloc_finv:
  assumes inv: "finv None N t" and p: "p \<in> live t" "u_act (usr t p) = Running" and a: "falloc p t = (r, t')"
  shows "live t' = live t" "u_act (usr t' p) = Running" "r = None \<Longrightarrow> finv None N t'"
    "u_ofile (usr t p) j = Some g \<Longrightarrow> u_ofile (usr t' p) j = Some g \<and> files t' g = files t g"
    "r = Some f \<Longrightarrow> \<exists>i. u_rval (usr t' p) = int i \<and> fresh p f i N t' \<and> u_ofile (usr t p) i = None \<and>
       (\<forall>j g. u_ofile (usr t p) j = Some g \<longrightarrow> u_ofile (usr t' p) j = Some g \<and> files t' g = files t g \<and> g \<noteq> f)"
proof -
  obtain ro t1 where u: "ufalloc p 0 t = (ro, t1)" by fastforce
  note U = ufalloc_finv [OF inv p(1) u]
  have A: "live t' = live t \<and> u_act (usr t' p) = Running \<and> (r = None \<longrightarrow> finv None N t') \<and>
    (\<forall>j g. u_ofile (usr t p) j = Some g \<longrightarrow> u_ofile (usr t' p) j = Some g \<and> files t' g = files t g) \<and>
    (\<forall>f. r = Some f \<longrightarrow> (\<exists>i. u_rval (usr t' p) = int i \<and> fresh p f i N t' \<and> u_ofile (usr t p) i = None \<and>
      (\<forall>j g. u_ofile (usr t p) j = Some g \<longrightarrow> u_ofile (usr t' p) j = Some g \<and> files t' g = files t g \<and> g \<noteq> f)))"
  proof (cases ro)
    case None
    then show ?thesis using a u U(1,2,3,6,7) p by (auto simp: falloc_def)
  next
    case (Some i)
    note i = U(8) [OF Some]
    define l where "l = (case lastf t1 of None \<Rightarrow> 0 | Some l \<Rightarrow> l)"
    have l: "l \<le> NFILE" using finvD(1) [OF inv] U(4) by (auto simp: desc_ok_def l_def split: option.splits)
    let ?t2 = "t1\<lparr>lastf := Some l\<rparr>"
    have inv2: "finv None N ?t2"
    proof -
      have "desc_ok ?t2" by (rule desc_okI [OF finvD(1) [OF U(1)]]) (use finvD(1) [OF U(1)] l in \<open>auto simp: desc_ok_def\<close>)
      moreover have "refs ?t2 = refs t1" by (simp add: refs_def fun_eq_iff)
      moreover have "lock_ok ?t2" by (rule lock_ok_cong [OF _ _ _ _ finvD(5) [OF U(1)]]) simp_all
      ultimately show ?thesis using finvD [OF U(1)] by (simp add: finv_def count_ok_def type_ok_def act_ok_def)
    qed
    show ?thesis
    proof (cases "find (\<lambda>fp. f_count (files t1 fp) = 0) ([l..<NFILE] @ [0..<l])")
      case None
      have e: "r = None" "t' = set_err p ENFILE ?t2"
        using a None unfolding falloc_def u Some by (simp_all add: l_def [symmetric] Let_def)
      have "live t' = live t" unfolding e(2) set_err_def by (simp add: U(3))
      moreover have "u_act (usr t' p) = Running" unfolding e(2) set_err_def by (simp add: U(7) p(2))
      moreover have "finv None N t'" unfolding e(2) by (rule finv_set_err [OF inv2])
      moreover have "u_ofile (usr t' p) = u_ofile (usr t p)" "files t' = files t" unfolding e(2) set_err_def by (simp_all add: U(2,6))
      ultimately show ?thesis using e(1) by simp
    next
      case (Some f)
      have f: "f < NFILE" "f_count (files t1 f) = 0"
        using find_SomeD [OF Some] l by auto
      have t': "r = Some f" "t' = upd_file f (\<lambda>f. f\<lparr>f_count := 1, f_data := None, f_offset := 0\<rparr>)
          (upd_usr p (\<lambda>v. v\<lparr>u_ofile := (u_ofile v)(i := Some f)\<rparr>) ?t2)\<lparr>lastf := Some (f + 1)\<rparr>"
        using a Some unfolding falloc_def u \<open>ro = Some i\<close> by (auto simp: l_def [symmetric] Let_def)
      have "finv None (insert f N) t'" unfolding t'(2)
        by (rule new_file_finv [OF inv2]) (use p U(3,6,7) i f in auto)
      moreover have "live t' = live t" "u_act (usr t' p) = Running" "u_ofile (usr t' p) i = Some f" "f_count (files t' f) = 1"
        "f_data (files t' f) = None" "u_rval (usr t' p) = int i" "u_ofile (usr t p) i = None"
        using p U(2,3,6,7) i by (simp_all add: t'(2) upd_file_def upd_usr_def)
      moreover have "u_ofile (usr t' p) j = Some g \<and> files t' g = files t g \<and> g \<noteq> f" if g: "u_ofile (usr t p) j = Some g" for j g
      proof -
        have "f_count (files t g) > 0" by (rule count_pos [OF inv p(1) g])
        then show ?thesis using g U(2,6) i f(2) by (auto simp: t'(2) upd_file_def upd_usr_def)
      qed
      ultimately show ?thesis using t'(1) p(1) unfolding fresh_def by auto
    qed
  qed
  then show "live t' = live t" "u_act (usr t' p) = Running" "r = None \<Longrightarrow> finv None N t'"
    "u_ofile (usr t p) j = Some g \<Longrightarrow> u_ofile (usr t' p) j = Some g \<and> files t' g = files t g"
    "r = Some f \<Longrightarrow> \<exists>i. u_rval (usr t' p) = int i \<and> fresh p f i N t' \<and> u_ofile (usr t p) i = None \<and>
       (\<forall>j g. u_ofile (usr t p) j = Some g \<longrightarrow> u_ofile (usr t' p) j = Some g \<and> files t' g = files t g \<and> g \<noteq> f)" by blast+
qed

lemma freshD:
  assumes "fresh p f i N t"
  shows "finv None (insert f N) t" "p \<in> live t" "u_act (usr t p) = Running" "u_ofile (usr t p) i = Some f"
    "f_count (files t f) = 1" "f_data (files t f) = None" "f < NFILE" "\<not> shb (files t f)" "\<not> exb (files t f)" "refs t f = {(p, i)}"
    "q \<in> live t \<Longrightarrow> act_file (u_act (usr t q)) \<noteq> Some f"
proof -
  show inv: "finv None (insert f N) t" and p: "p \<in> live t" "u_act (usr t p) = Running" "u_ofile (usr t p) i = Some f"
    and f: "f_count (files t f) = 1" "f_data (files t f) = None"
    using assms by (simp_all add: fresh_def)
  note I = finvD [OF inv]
  show "f < NFILE" by (rule ofile_bounds(3) [OF I(1) p(1,3)])
  show "\<not> shb (files t f)" using lock_okD(1) [OF I(5)] f(2) unfolding flags_ok_def by blast
  show "\<not> exb (files t f)" using lock_okD(1) [OF I(5)] f(2) unfolding flags_ok_def by blast
  show r: "refs t f = {(p, i)}"
  proof (intro equalityI subsetI)
    fix x assume "x \<in> refs t f"
    then obtain q j where x: "x = (q, j)" "q \<in> live t" "u_ofile (usr t q) j = Some f" by (auto simp: refs_def)
    then show "x \<in> {(p, i)}" using sole_ref(1,2) [OF inv x(2,3) f(1) p(1,3)] by simp
  qed (simp add: refs_def p)
  assume q: "q \<in> live t"
  show "act_file (u_act (usr t q)) \<noteq> Some f"
  proof
    assume a: "act_file (u_act (usr t q)) = Some f"
    moreover have "act_fits (files t) (u_ofile (usr t q)) (u_act (usr t q))" using I(4) q by (simp add: act_ok_def)
    ultimately obtain j where "u_ofile (usr t q) j = Some f" using act_fits_ref by blast
    then have "q = p" using r q in_refs by blast
    then show False using a p(2) by simp
  qed
qed

text \<open>The allocated file gets its type.\<close>

lemma built_finv:
  assumes fr: "fresh p f i N t" and "f \<notin> N"
    and g: "f_count (g (files t f)) = 1" "\<not> shb (g (files t f))" "\<not> exb (g (files t f))" "f_type (g (files t f)) \<in> {DTYPE_INODE, DTYPE_PIPE}"
    and a: "a = Running \<and> (f_type (g (files t f)) = DTYPE_INODE \<longrightarrow> f_data (g (files t f)) \<noteq> None) \<or>
      a = Opening f i fl \<and> f_type (g (files t f)) = DTYPE_INODE \<and> f_data (g (files t f)) = None"
  shows "finv None N (set_act p a (upd_file f g t))"
proof -
  note F = freshD [OF fr]
  note I = finvD [OF F(1)]
  let ?t = "set_act p a (upd_file f g t)"
  have s: "files ?t = (files t)(f := g (files t f))" "inodes ?t = inodes t" "live ?t = live t" "lastf ?t = lastf t"
    "\<And>q. u_act (usr ?t q) = (if q = p then a else u_act (usr t q))" "\<And>q. u_lastfile (usr ?t q) = u_lastfile (usr t q)"
    "\<And>q. u_ofile (usr ?t q) = u_ofile (usr t q)"
    by (simp_all add: set_act_def)
  have r: "refs ?t = refs t" by (simp add: refs_def s fun_eq_iff)
  show ?thesis unfolding finv_def
  proof (intro conjI)
    show "desc_ok ?t" using I(1) by (simp add: desc_ok_def s)
    show "count_ok None ?t" using I(2) F(10) g(1) by (simp add: count_ok_def s r)
    show "type_ok N ?t" using a g(4) F(2,3) assms(2) by (intro type_okI [OF I(3)]) (auto simp: s)
    show "act_ok ?t" unfolding act_ok_def
    proof
      fix q assume "q \<in> live ?t"
      then have q: "q \<in> live t" by (simp add: s)
      have "act_fits (files t) (u_ofile (usr t q)) (u_act (usr t q))" using I(4) q by (simp add: act_ok_def)
      then show "act_fits (files ?t) (u_ofile (usr ?t q)) (u_act (usr ?t q))"
        using act_fits_other [OF F(11) [OF q]] a F(4) g(1) by (auto simp: s)
    qed
    show "lock_ok ?t"
    proof (rule lock_ok_files [OF I(5)])
      show "flags_ok ?t" using lock_okD(1) [OF I(5)] g(2,3) by (simp add: flags_ok_def s)
      show "shs ?t = shs t" "exs ?t = exs t" using no_bits_sets [OF F(8,9) g(2,3) s(1)] by simp_all
      fix q h cmd ip r assume "q \<in> live ?t" "u_act (usr ?t q) = Locking h cmd (Some ip) r"
      then show "u_act (usr t q) = Locking h cmd (Some ip) r \<and> f_data (files ?t h) = f_data (files t h)"
        using F(11) [of q] a by (auto simp: s split: if_splits)
    qed (simp_all add: s)
  qed
qed

text \<open>The allocation is taken back.\<close>

lemma unalloc_finv:
  assumes fr: "fresh p f i N t"
  shows "finv None N (clear_ofile p i (upd_file f (\<lambda>f. f\<lparr>f_count := 0\<rparr>) t))"
proof -
  note F = freshD [OF fr]
  note I = finvD [OF F(1)]
  let ?t = "clear_ofile p i (upd_file f (\<lambda>f. f\<lparr>f_count := 0\<rparr>) t)"
  have s: "files ?t = (files t)(f := (files t f)\<lparr>f_count := 0\<rparr>)" "inodes ?t = inodes t" "live ?t = live t" "lastf ?t = lastf t"
    "\<And>q. u_act (usr ?t q) = u_act (usr t q)" "\<And>q. u_lastfile (usr ?t q) = u_lastfile (usr t q)"
    "\<And>q. u_ofile (usr ?t q) = (if q = p then (u_ofile (usr t p))(i := None) else u_ofile (usr t q))"
    by (simp_all add: clear_ofile_def)
  have r: "refs ?t h = (if h = f then {} else refs t h)" for h
  proof -
    have "(p, i) \<in> refs t h \<longleftrightarrow> h = f" using F(2,4) by (auto simp: refs_def)
    moreover have "refs ?t h = refs t h - {(p, i)}" by (auto simp: refs_def s split: if_splits)
    ultimately show ?thesis using F(10) by auto
  qed
  show ?thesis unfolding finv_def
  proof (intro conjI)
    show "desc_ok ?t" using I(1) by (auto simp: desc_ok_def s)
    show "count_ok None ?t" using I(2) by (simp add: count_ok_def s r)
    show "type_ok N ?t" by (rule type_okI [OF I(3)]) (auto simp: s split: if_splits)
    show "act_ok ?t" unfolding act_ok_def
    proof
      fix q assume "q \<in> live ?t"
      then have q: "q \<in> live t" by (simp add: s)
      have "act_fits (files t) (u_ofile (usr t q)) (u_act (usr t q))" using I(4) q by (simp add: act_ok_def)
      then show "act_fits (files ?t) (u_ofile (usr ?t q)) (u_act (usr ?t q))"
        using act_fits_other [OF F(11) [OF q]] F(3) by (auto simp: s)
    qed
    show "lock_ok ?t"
    proof (rule lock_ok_files [OF I(5)])
      show "flags_ok ?t" using lock_okD(1) [OF I(5)] F(8,9) by (simp add: flags_ok_def s)
      show "shs ?t = shs t" "exs ?t = exs t" using no_bits_sets [OF F(8,9) _ _ s(1)] F(8,9) by simp_all
    qed (auto simp: s)
  qed
qed

lemma opening_fresh:
  assumes inv: "finv None {} t" and p: "p \<in> live t" "u_act (usr t p) = Opening f i fl"
  shows "fresh p f i {} (set_act p Running t)"
proof -
  note I = finvD [OF inv]
  let ?t = "set_act p Running t"
  have s: "files ?t = files t" "inodes ?t = inodes t" "live ?t = live t" "lastf ?t = lastf t"
    "\<And>q. u_act (usr ?t q) = (if q = p then Running else u_act (usr t q))" "\<And>q. u_lastfile (usr ?t q) = u_lastfile (usr t q)"
    "\<And>q. u_ofile (usr ?t q) = u_ofile (usr t q)"
    by (simp_all add: set_act_def)
  have a: "act_fits (files t) (u_ofile (usr t p)) (Opening f i fl)" using I(4) p by (auto simp: act_ok_def)
  have r: "refs ?t = refs t" by (simp add: refs_def s fun_eq_iff)
  have "finv None {f} ?t" unfolding finv_def
  proof (intro conjI)
    show "desc_ok ?t" using I(1) by (simp add: desc_ok_def s)
    show "count_ok None ?t" using I(2) by (simp add: count_ok_def s r)
    show "type_ok {f} ?t" using p(2) by (intro type_okI [OF I(3)]) (auto simp: s)
    show "act_ok ?t" using I(4) by (auto simp: act_ok_def s)
    show "lock_ok ?t" by (rule lock_ok_files [OF I(5)]) (use lock_okD(1) [OF I(5)] in \<open>auto simp: s flags_ok_def shs_def exs_def fun_eq_iff split: if_splits\<close>)
  qed
  then show ?thesis using a p(1) by (simp add: fresh_def s)
qed

section \<open>Locks\<close>

lemma set_act_finv:
  assumes inv: "finv x N t" and p: "p \<in> live t" "\<And>f i fl. u_act (usr t p) \<noteq> Opening f i fl" "act_fits (files t) (u_ofile (usr t p)) a"
    and a: "\<And>f cmd ip r. a = Locking f cmd (Some ip) r \<Longrightarrow> f_data (files t f) = Some ip \<and> ILWAIT (inodes t ip) \<and> held t cmd ip"
  shows "finv x N (set_act p a t)"
proof -
  note I = finvD [OF inv]
  let ?t = "set_act p a t"
  have s: "files ?t = files t" "inodes ?t = inodes t" "live ?t = live t" "lastf ?t = lastf t"
    "\<And>q. u_act (usr ?t q) = (if q = p then a else u_act (usr t q))" "\<And>q. u_lastfile (usr ?t q) = u_lastfile (usr t q)"
    "\<And>q. u_ofile (usr ?t q) = u_ofile (usr t q)"
    by (simp_all add: set_act_def)
  have r: "refs ?t = refs t" by (simp add: refs_def s fun_eq_iff)
  show ?thesis unfolding finv_def
  proof (intro conjI)
    show "desc_ok ?t" using I(1) by (simp add: desc_ok_def s)
    show "count_ok x ?t" using I(2) by (simp add: count_ok_def s r)
    show "type_ok N ?t" using p(2) by (intro type_okI [OF I(3)]) (auto simp: s)
    show "act_ok ?t" using I(4) p(3) by (auto simp: act_ok_def s)
    show "lock_ok ?t"
    proof (rule lock_okI)
      show "flags_ok ?t" using lock_okD(1) [OF I(5)] by (simp add: flags_ok_def s)
      show "ilk_ok (inodes ?t ip) (shs ?t ip) (exs ?t ip)" for ip
        using I(5) unfolding held_cong [OF s(1)] s by (simp add: lock_ok_def)
      show "sleep_ok ?t" using lock_okD(8) [OF I(5)] a unfolding sleep_ok_def held_cong [OF s(1)] s by auto
    qed
  qed
qed

abbreviation safe :: "ftab outcome \<Rightarrow> bool" where
  "safe m \<equiv> \<exists>t'. m = Ret t' \<and> finv None {} t'"

lemma lock_fail_safe:
  assumes inv: "finv None {} t" and p: "p \<in> live t" "u_act (usr t p) = Running"
    and r: "\<And>indx. r = Some indx \<Longrightarrow> u_ofile (usr t p) indx = Some fp"
  shows "safe (lock_return e p fp cmd r (Failed err, t))"
proof -
  have run: "set_act p Running t = t"
    using p(2) by (simp add: set_act_def upd_usr_def fun_upd_idem)
  show ?thesis
  proof (cases r)
    case None
    then show ?thesis using finv_set_err [OF inv] by (simp add: lock_return_def run)
  next
    case (Some indx)
    let ?g = "\<lambda>v. v\<lparr>u_ofile := (u_ofile v)(indx := None)\<rparr>"
    have "\<exists>e' t1. closef e (Some fp) (upd_usr p ?g t) = Ret (e', upd_usr p ?g t1) \<and> closef e (Some fp) t = Ret (e', t1) \<and>
        finv None {} (upd_usr p ?g t1) \<and> usame t t1"
      by (rule close_clear [OF inv p r [OF Some]]) (auto simp: act_free_def)
    then show ?thesis using Some finv_set_err by (auto simp: lock_return_def run clear_ofile_def)
  qed
qed

lemma lock_call_safe:
  assumes inv: "finv None {} t" and p: "p \<in> live t" "u_act (usr t p) = Running \<or> (\<exists>ch. u_act (usr t p) = Locking fp cmd ch r)"
    and f: "f_type (files t fp) = DTYPE_INODE" "f_data (files t fp) \<noteq> None" "\<exists>i. u_ofile (usr t p) i = Some fp"
    and r: "\<And>indx. r = Some indx \<Longrightarrow> u_ofile (usr t p) indx = Some fp \<and> f_count (files t fp) = 1"
  shows "safe (lock_call e p fp cmd r t)"
proof -
  note I = finvD [OF inv]
  obtain ip where ip: "f_data (files t fp) = Some ip" using f(2) by auto
  obtain i where i: "u_ofile (usr t p) i = Some fp" using f(3) by auto
  have "can_lock t fp ip" using ofile_bounds(3) [OF I(1) p(1) i] count_pos [OF inv p(1) i] f(1) ip by (simp add: can_lock_def)
  then obtain res t1 where t1: "ino_lock fp cmd t = Ret (res, t1)" "lock_result t fp cmd res t1" using ino_lock_ok [OF I(5)] by blast
  then have l1: "lock_ok t1" and rs: "rsame t t1"
    and sl: "\<And>ip. res = Slept ip \<Longrightarrow> f_data (files t1 fp) = Some ip \<and> ILWAIT (inodes t1 ip) \<and> held t1 cmd ip"
    by (auto simp: lock_result_def)
  have inv1: "finv None {} t1" by (rule finv_rsame [OF inv rs l1])
  note u = usame_usr [OF rsame_usame [OF rs]] usame_acts [OF rsame_usame [OF rs]] usame_live [OF rsame_usame [OF rs]] rsame_files [OF rs]
  have no: "u_act (usr t1 p) \<noteq> Opening g j fl" for g j fl using p(2) u(6) by auto
  have fits: "act_fits (files t1) (u_ofile (usr t1 p)) (Locking fp cmd ch r)" for ch
    using f r by (simp add: u split: option.splits)
  have run: "finv None {} (set_act p Running t1)" by (rule set_act_finv [OF inv1]) (use p(1) no u(8) in auto)
  show ?thesis
  proof (cases res)
    case Granted
    then show ?thesis using finv_set_err [OF run] by (simp add: lock_call_def t1 lock_return_def)
  next
    case (Slept ip)
    have "finv None {} (set_act p (Locking fp cmd (Some ip) r) t1)"
      by (rule set_act_finv [OF inv1 _ no fits]) (use p(1) u(8) sl [OF Slept] in auto)
    then show ?thesis using Slept by (simp add: lock_call_def t1 lock_return_def)
  next
    case (Failed err)
    have "safe (lock_return e p fp cmd r (Failed err, set_act p Running t1))"
      by (rule lock_fail_safe [OF run]) (use p(1) r in \<open>auto simp: set_act_def u\<close>)
    moreover have "lock_return e p fp cmd r (Failed err, set_act p Running t1) = lock_return e p fp cmd r (Failed err, t1)"
      by (simp add: lock_return_def set_act_def upd_usr_def split: option.splits)
    ultimately show ?thesis using Failed by (simp add: lock_call_def t1)
  qed
qed

end
