(* ===== verification/Descrip_Spec.thy ===== *)
theory Descrip_Spec
  imports Descrip_Ops
begin

text \<open>
  The system calls on descriptors keep the invariant of the file table, whatever the order in which the processes make them and
  sleep in them; the properties of the file table and of the advisory locks; and the lost error of an open of \<^verbatim>\<open>/dev/fd\<close>.
\<close>

section \<open>System calls\<close>

lemma ofile_Some: "ofile p fd t = Some f \<Longrightarrow> u_ofile (usr t p) (unat fd) = Some f"
  by (simp add: ofile_def split: if_splits)

lemma dupit_clear: "dupit p i f fl (clear_ofile p i t) = dupit p i f fl t"
  by (simp add: dupit_def clear_ofile_def upd_usr_def upd_file_def)

lemma sint_small:
  assumes "\<not> (sint (j :: word32) < 0 \<or> sint j \<ge> int NOFILE)"
  shows "unat j < NOFILE"
proof -
  have "uint j = sint j" unfolding uint_sint by (rule take_bit_int_eq_self) (use assms in auto)
  then show ?thesis using assms by (simp add: unat_eq_nat_uint nat_less_iff)
qed

lemma dup2_safe:
  assumes inv: "finv None {} t" and p: "p \<in> live t" "u_act (usr t p) = Running"
  shows "safe (dup2 e p i j t)"
proof (cases "ofile p i t")
  case None
  then show ?thesis using finv_set_err [OF inv] by (simp add: dup2_def)
next
  case (Some f)
  note f = ofile_Some [OF Some]
  show ?thesis
  proof (cases "sint j < 0 \<or> sint j \<ge> int NOFILE")
    case True
    then show ?thesis using finv_set_err [OF inv] Some by (simp add: dup2_def)
  next
    case False
    note j = sint_small [OF False]
    define t1 where "t1 = upd_usr p (\<lambda>v. v\<lparr>u_rval := sint j\<rparr>) t"
    have inv1: "finv None {} t1" unfolding t1_def by (rule finv_upd_usr [OF inv]) simp_all
    have p1: "p \<in> live t1" "u_act (usr t1 p) = Running" "u_ofile (usr t1 p) (unat i) = Some f" using p f by (simp_all add: t1_def)
    have d: "dup2 e p i j t = (if i = j then Ret t1 else
        bind_outcome (closef e (u_ofile (usr t1 p) (unat j)) t1) (\<lambda>(_, t). Ret (dupit p (unat j) f (pofile p i t AND NOT UF_EXCLOSE) t)))"
      using False Some by (simp add: dup2_def t1_def Let_def)
    show ?thesis
    proof (cases "i = j")
      case True
      then show ?thesis using inv1 d by simp
    next
      case False
      then have ij: "unat i \<noteq> unat j" using unsigned_word_eqI by blast
      show ?thesis
      proof (cases "u_ofile (usr t1 p) (unat j)")
        case None
        then show ?thesis using d False dupit_finv [OF inv1 p1 j None] by (simp add: closef_def)
      next
        case (Some h)
        let ?g = "\<lambda>v. v\<lparr>u_ofile := (u_ofile v)(unat j := None)\<rparr>"
        have "\<exists>e' t2. closef e (Some h) (upd_usr p ?g t1) = Ret (e', upd_usr p ?g t2) \<and> closef e (Some h) t1 = Ret (e', t2) \<and>
            finv None {} (upd_usr p ?g t2) \<and> usame t1 t2"
          by (rule close_clear [OF inv1 p1(1,2) Some]) (auto simp: act_free_def)
        then obtain e' t2 where t2: "closef e (Some h) t1 = Ret (e', t2)" "finv None {} (clear_ofile p (unat j) t2)" "usame t1 t2"
          by (auto simp: clear_ofile_def)
        note u = usame_usr [OF t2(3)] usame_acts [OF t2(3)] usame_live [OF t2(3)]
        have "finv None {} (dupit p (unat j) f fl (clear_ofile p (unat j) t2))" for fl
          by (rule dupit_finv [OF t2(2), of p "unat i"]) (use p1 ij j in \<open>auto simp: clear_ofile_def u\<close>)
        then show ?thesis using d False t2(1) Some by (simp add: dupit_clear)
      qed
    qed
  qed
qed

lemma dup_safe:
  assumes inv: "finv None {} t" and p: "p \<in> live t" "u_act (usr t p) = Running"
  shows "safe (dup e p i j t)"
proof (cases "i AND NOT 63 \<noteq> 0")
  case True
  then show ?thesis using dup2_safe [OF inv p] by (simp add: dup_def)
next
  case False
  show ?thesis
  proof (cases "ofile p i t")
    case None
    then show ?thesis using finv_set_err [OF inv] False by (simp add: dup_def)
  next
    case (Some f)
    obtain r t1 where u: "ufalloc p 0 t = (r, t1)" by fastforce
    note U = ufalloc_finv [OF inv p(1) u]
    show ?thesis
    proof (cases r)
      case None
      then show ?thesis using U(1) False Some u by (simp add: dup_def)
    next
      case (Some k)
      have "finv None {} (dupit p k f fl t1)" for fl
        by (rule dupit_finv [OF U(1), of p "unat i"]) (use p U(3,6,7) U(8) [OF Some] ofile_Some [OF \<open>ofile p i t = Some f\<close>] in auto)
      then show ?thesis using False \<open>ofile p i t = Some f\<close> Some u by (simp add: dup_def)
    qed
  qed
qed

lemma close_safe:
  assumes inv: "finv None {} t" and p: "p \<in> live t" "u_act (usr t p) = Running"
  shows "safe (close e p i t)"
proof (cases "ofile p i t")
  case None
  then show ?thesis using finv_set_err [OF inv] by (simp add: close_def)
next
  case (Some f)
  note f = ofile_Some [OF Some]
  have "finv (Some f) {} (clear_ofile p (unat i) t)" unfolding clear_ofile_def by (rule clear_finv [OF inv p f]) simp_all
  then have "finv (Some f) {} (trim_lastfile p (clear_ofile p (unat i) t))" using p(1) by (intro trim_lastfile_finv) (simp_all add: clear_ofile_def)
  moreover have "f < NFILE" by (rule ofile_bounds(3) [OF finvD(1) [OF inv] p(1) f])
  ultimately show ?thesis using closef_finv [of f "{}" _ e] finv_set_err Some by (fastforce simp: close_def)
qed

lemma flags_finv:
  assumes inv: "finv x N t" and g: "\<And>f. shb (g f) = shb f" "\<And>f. exb (g f) = exb f" "\<And>f. f_count (g f) = f_count f"
    "\<And>f. f_type (g f) = f_type f" "\<And>f. f_data (g f) = f_data f"
  shows "finv x N (upd_file f g t)"
proof -
  have "lock_ok (upd_file f g t)"
    by (rule lock_ok_files [OF finvD(5) [OF inv]]) (use lock_okD(1) [OF finvD(5) [OF inv]] g in \<open>auto simp: flags_ok_def shs_def exs_def fun_eq_iff\<close>)
  moreover have "rsame t (upd_file f g t)" by (simp add: rsame_def usame_def g)
  ultimately show ?thesis by (rule finv_rsame [OF inv, rotated])
qed

lemma file_type:
  assumes "finv None {} t" "p \<in> live t" "u_ofile (usr t p) i = Some f"
  shows "f_type (files t f) = DTYPE_INODE \<or> f_type (files t f) = DTYPE_PIPE"
  using finvD(3) [OF assms(1)] count_pos [OF assms] ofile_bounds(3) [OF finvD(1) [OF assms(1)] assms(2,3)] by (auto simp: type_ok_def)

lemma fioctl_returns:
  assumes "f_type (files t f) = DTYPE_INODE \<or> f_type (files t f) = DTYPE_PIPE"
  shows "\<exists>e v'. fioctl io f cmd v t = Ret (e, v')"
  using assms by (auto simp: fioctl_def)

lemma fset_safe:
  assumes inv: "finv None {} t" and f: "f_type (files t f) = DTYPE_INODE \<or> f_type (files t f) = DTYPE_PIPE"
    and b: "\<not> bit bits 4" "\<not> bit bits 5"
  shows "\<exists>e t'. fset io f bits v t = Ret (e, t') \<and> finv None {} t' \<and> f_type (files t' f) = f_type (files t f)"
proof -
  let ?g = "\<lambda>f. f\<lparr>f_flag := (if v \<noteq> 0 then f_flag f OR bits else f_flag f AND NOT bits)\<rparr>"
  have "finv None {} (upd_file f ?g t)"
    by (rule flags_finv [OF inv]) (use b in \<open>simp_all add: bit_or_iff bit_and_iff bit_not_iff\<close>)
  moreover have "f_type (files (upd_file f ?g t) f) = DTYPE_INODE \<or> f_type (files (upd_file f ?g t) f) = DTYPE_PIPE" using f by simp
  then obtain e v' where "fioctl io f (if bits = FNONBLOCK then FIONBIO else FIOASYNC) (sint v) (upd_file f ?g t) = Ret (e, v')"
    using fioctl_returns by blast
  ultimately show ?thesis by (simp add: fset_def Let_def)
qed

lemma setfl_safe:
  assumes inv: "finv None {} t" and f: "f_type (files t f) = DTYPE_INODE \<or> f_type (files t f) = DTYPE_PIPE"
  shows "safe (fcntl_setfl io p f arg t)"
proof -
  let ?g = "\<lambda>f. f\<lparr>f_flag := (f_flag f AND NOT FCNTLFLAGS) OR (FFLAGS arg AND FCNTLFLAGS)\<rparr>"
  define t1 where "t1 = upd_file f ?g t"
  have inv1: "finv None {} t1" unfolding t1_def
    by (rule flags_finv [OF inv]) (simp_all add: bit_or_iff bit_and_iff bit_not_iff FCNTLFLAGS_def)
  have b: "\<not> bit FNONBLOCK 4" "\<not> bit FNONBLOCK 5" "\<not> bit FASYNC 4" "\<not> bit FASYNC 5" by simp_all
  have f1: "f_type (files t1 f) = DTYPE_INODE \<or> f_type (files t1 f) = DTYPE_PIPE" using f by (simp add: t1_def)
  obtain e2 t2 where t2: "fset io f FNONBLOCK (f_flag (files t1 f) AND FNONBLOCK) t1 = Ret (e2, t2)" "finv None {} t2"
    "f_type (files t2 f) = f_type (files t1 f)" using fset_safe [OF inv1 f1 b(1,2)] by blast
  obtain e3 t3 where t3: "fset io f FASYNC (f_flag (files t2 f) AND FASYNC) t2 = Ret (e3, t3)" "finv None {} t3"
    "f_type (files t3 f) = f_type (files t2 f)" using fset_safe [OF t2(2) f1 [folded t2(3)] b(3,4)] by blast
  obtain e4 t4 where t4: "fset io f FNONBLOCK 0 t3 = Ret (e4, t4)" "finv None {} t4"
    using fset_safe [OF t3(2) f1 [folded t2(3) t3(3)] b(1,2)] by blast
  show ?thesis using t2 t3 t4 finv_set_err
    by (simp add: fcntl_setfl_def Let_def t1_def [symmetric])
qed

lemma fcntl_safe:
  assumes inv: "finv None {} t" and p: "p \<in> live t" "u_act (usr t p) = Running"
  shows "safe (fcntl io k p fd cmd arg t)"
proof (cases "ofile p fd t")
  case None
  then show ?thesis using finv_set_err [OF inv] by (simp add: fcntl_def getf_def)
next
  case (Some f)
  note f = ofile_Some [OF Some]
  note ty = file_type [OF inv p(1) f]
  have u: "finv None {} (upd_usr p g t)" if "\<And>v. u_ofile (g v) = u_ofile v" "\<And>v. u_lastfile (g v) = u_lastfile v" "\<And>v. u_act (g v) = u_act v" for g
    using finv_upd_usr [OF inv] that by blast
  show ?thesis
  proof (cases cmd)
    case F_DUPFD
    show ?thesis
    proof (cases "sint arg < 0 \<or> sint arg \<ge> int NOFILE")
      case True
      then show ?thesis using finv_set_err [OF inv] F_DUPFD Some by (simp add: fcntl_def getf_def)
    next
      case False
      obtain r t1 where uf: "ufalloc p (unat arg) t = (r, t1)" by fastforce
      note U = ufalloc_finv [OF inv p(1) uf]
      have "finv None {} (dupit p i f fl t1)" if "r = Some i" for i fl
        by (rule dupit_finv [OF U(1), of p "unat fd"]) (use p f U(3,6,7) U(8) [OF that] in auto)
      then show ?thesis using False F_DUPFD Some uf U(1) by (cases r) (simp_all add: fcntl_def getf_def)
    qed
  next
    case F_GETOWN
    obtain e v' where "fioctl io f TIOCGPGRP (u_rval (usr t p)) t = Ret (e, v')" using fioctl_returns [OF ty] by blast
    then show ?thesis using F_GETOWN Some finv_set_err [OF u] by (simp add: fcntl_def getf_def fgetown_def)
  next
    case F_SETOWN
    have "\<exists>e. bind_outcome (fioctl io f cmd w t) (\<lambda>(e, _). Ret e) = Ret e" for cmd w
      using fioctl_returns [OF ty, of io cmd w] by auto
    then have "\<exists>e. fsetown io k f v t = Ret e" for v by (simp add: fsetown_def split: option.splits)
    then obtain e where "fsetown io k f (sint arg) t = Ret e" by blast
    then show ?thesis using F_SETOWN Some finv_set_err [OF inv] by (simp add: fcntl_def getf_def)
  qed (use Some u finv_set_err [OF inv] setfl_safe [OF inv ty] in \<open>simp_all add: fcntl_def getf_def\<close>)
qed

lemma flock_safe:
  assumes inv: "finv None {} t" and p: "p \<in> live t" "u_act (usr t p) = Running"
  shows "safe (flock e p fd how t)"
proof (cases "ofile p fd t")
  case None
  then show ?thesis using finv_set_err [OF inv] by (simp add: flock_def getf_def)
next
  case (Some f)
  note f = ofile_Some [OF Some]
  note U = ino_unlock_ok(1,2) [OF finvD(5) [OF inv]]
  have un: "finv None {} (ino_unlock f kind t)" for kind by (rule finv_rsame [OF inv U(2,1)])
  show ?thesis
  proof (cases "f_type (files t f) = DTYPE_INODE")
    case True
    have "f_data (files t f) \<noteq> None"
      using finvD(3) [OF inv] count_pos [OF inv p(1) f] ofile_bounds(3) [OF finvD(1) [OF inv] p(1) f] True
        not_opening(1) [OF inv p] f by (fastforce simp: type_ok_def)
    then have "safe (lock_call e p f cmd None t)" for cmd using True p f by (intro lock_call_safe [OF inv]) auto
    then show ?thesis using Some un inv True by (simp add: flock_def getf_def Let_def)
  next
    case False
    then show ?thesis using Some finv_set_err [OF inv] by (simp add: flock_def getf_def)
  qed
qed

lemma forceclose_finv:
  assumes inv: "finv None {} t"
  shows "finv None {} (forceclose isdev t)"
proof -
  let ?t = "forceclose isdev t"
  have b: "shb (files ?t f) = shb (files t f)" "exb (files ?t f) = exb (files t f)" "f_count (files ?t f) = f_count (files t f)"
    "f_type (files ?t f) = f_type (files t f)" "f_data (files ?t f) = f_data (files t f)" for f
    by (simp_all add: forceclose_def Let_def bit_and_iff bit_not_iff)
  have s: "inodes ?t = inodes t" "live ?t = live t" "usr ?t = usr t" "lastf ?t = lastf t" by (simp_all add: forceclose_def)
  have "lock_ok ?t"
    by (rule lock_ok_files [OF finvD(5) [OF inv]]) (use lock_okD(1) [OF finvD(5) [OF inv]] in \<open>auto simp: flags_ok_def shs_def exs_def fun_eq_iff b s\<close>)
  moreover have "rsame t ?t" by (simp add: rsame_def usame_def b s)
  ultimately show ?thesis by (rule finv_rsame [OF inv, rotated])
qed

section \<open>Opening\<close>

lemma fresh_upd_usr:
  assumes "fresh p f i N t" "\<And>v. u_ofile (g v) = u_ofile v" "\<And>v. u_lastfile (g v) = u_lastfile v" "\<And>v. u_act (g v) = u_act v"
  shows "fresh p f i N (upd_usr p g t)"
  using assms finv_upd_usr [of None "insert f N" t g p] by (simp add: fresh_def)

lemma set_act_Running: "u_act (usr t p) = Running \<Longrightarrow> set_act p Running t = t"
  by (simp add: set_act_def upd_usr_def fun_upd_idem)

lemma copen_start_finv:
  assumes inv: "finv None {} t" and p: "p \<in> live t" "u_act (usr t p) = Running"
  shows "finv None {} (copen_start p mode t)"
proof -
  obtain r t1 where a: "falloc p t = (r, t1)" by fastforce
  note F = falloc_finv [OF inv p a]
  show ?thesis
  proof (cases r)
    case None
    then show ?thesis using F(3) a by (simp add: copen_start_def)
  next
    case (Some f)
    then obtain i where i: "u_rval (usr t1 p) = int i" "fresh p f i {} t1" using F(5) by blast
    let ?d = "\<lambda>v. v\<lparr>u_dupfd := - int i - 1\<rparr>" and ?g = "\<lambda>f. f\<lparr>f_flag := FFLAGS mode AND FMASK, f_type := DTYPE_INODE\<rparr>"
    have "fresh p f i {} (upd_usr p ?d t1)" by (rule fresh_upd_usr [OF i(2)]) simp_all
    then have "finv None {} (set_act p (Opening f i (FFLAGS mode)) (upd_file f ?g (upd_usr p ?d t1)))"
      by (rule built_finv) (use freshD(5,6) [OF i(2)] in \<open>simp_all add: FMASK_def bit_and_iff\<close>)
    then show ?thesis using a Some i(1) by (simp add: copen_start_def Let_def)
  qed
qed

lemma dupfdopen_cases:
  assumes "dupfdopen p indx dfd mode error t = (err, t')"
  shows "err \<noteq> E_OK \<and> t' = t \<or> error = E_OK \<or> (\<exists>f. err = E_OK \<and> u_ofile (usr t p) dfd = Some f \<and>
    u_ofile (usr t p) indx \<noteq> Some f \<and> t' = dupit p indx f (u_pofile (usr t p) dfd) t)"
proof (cases "dfd < NOFILE \<and> u_ofile (usr t p) dfd \<noteq> None \<and> u_ofile (usr t p) indx \<noteq> u_ofile (usr t p) dfd \<and> error = ENODEV")
  case True
  then obtain f where f: "u_ofile (usr t p) dfd = Some f" by auto
  have "upd_usr p (\<lambda>v. v\<lparr>u_ofile := (u_ofile v)(indx := Some f), u_pofile := (u_pofile v)(indx := u_pofile v dfd)\<rparr>) t =
      upd_usr p (\<lambda>v. v\<lparr>u_ofile := (u_ofile v)(indx := Some f), u_pofile := (u_pofile v)(indx := u_pofile (usr t p) dfd)\<rparr>) t"
    by (simp add: upd_usr_def)
  then show ?thesis using assms True f unfolding dupfdopen_def dupit_def Let_def
    by (cases "(mode AND (FREAD OR FWRITE)) OR f_flag (files t f) = f_flag (files t f)") (simp_all del: upd_usr_commute, auto)
next
  case False
  then show ?thesis using assms unfolding dupfdopen_def Let_def by (auto split: if_splits option.splits)
qed

lemma copen_failed_finv:
  assumes fr: "fresh p f i {} t" and err: "error \<noteq> E_OK"
  shows "finv None {} (copen_failed p f i flags error t)"
proof -
  let ?u = "upd_file f (\<lambda>f. f\<lparr>f_count := 0\<rparr>) t"
  note inv = unalloc_finv [OF fr]
  note F = freshD [OF fr]
  show ?thesis
  proof (cases "(error = ENODEV \<or> error = ENXIO) \<and> u_dupfd (usr t p) \<ge> 0")
    case False
    then have "copen_failed p f i flags error t = set_err p error (clear_ofile p i ?u)" by (auto simp: copen_failed_def Let_def)
    then show ?thesis using finv_set_err [OF inv] by simp
  next
    case True
    let ?d = "nat (u_dupfd (usr t p))"
    obtain e' t' where d: "dupfdopen p i ?d flags error ?u = (e', t')" by fastforce
    have c: "copen_failed p f i flags error t =
        (if e' = E_OK then set_err p E_OK (upd_usr p (\<lambda>v. v\<lparr>u_rval := int i\<rparr>) t') else set_err p E_OK (clear_ofile p i t'))"
      using True d by (simp add: copen_failed_def Let_def)
    from dupfdopen_cases [OF d] err consider "e' \<noteq> E_OK" "t' = ?u"
      | w where "e' = E_OK" "u_ofile (usr ?u p) ?d = Some w" "u_ofile (usr ?u p) i \<noteq> Some w" "t' = dupit p i w (u_pofile (usr ?u p) ?d) ?u"
      by blast
    then show ?thesis
    proof cases
      case 1
      then show ?thesis using finv_set_err [OF inv] c by simp
    next
      case (2 w)
      have w: "u_ofile (usr t p) ?d = Some w" "?d \<noteq> i" using 2(2,3) by auto
      have "finv None {} (dupit p i w fl (clear_ofile p i ?u))" for fl
        by (rule dupit_finv [OF inv, of p ?d]) (use w F ofile_bounds(2) [OF finvD(1) [OF F(1)] F(2,4)] in \<open>auto simp: clear_ofile_def\<close>)
      then have "finv None {} t'" using 2(4) by (simp add: dupit_clear)
      then have "finv None {} (upd_usr p (\<lambda>v. v\<lparr>u_rval := int i\<rparr>) t')" by (rule finv_upd_usr) simp_all
      then show ?thesis using c 2(1) finv_set_err by simp
    qed
  qed
qed

lemma copen_end_safe:
  assumes inv: "finv None {} t" and p: "p \<in> live t" "u_act (usr t p) = Opening f i flags" and r: "r \<noteq> VnFail E_OK"
  shows "safe (copen_end e p f i flags r t)"
proof -
  let ?t0 = "set_act p Running t"
  have fr: "fresh p f i {} ?t0" by (rule opening_fresh [OF inv p])
  have ty: "f_type (files ?t0 f) = DTYPE_INODE"
    using finvD(4) [OF inv] p by (auto simp: act_ok_def set_act_def dest!: bspec)
  show ?thesis
  proof (cases r)
    case (VnFail err)
    then show ?thesis using copen_failed_finv [OF fr] r by (simp add: copen_end_def vn_error_def)
  next
    case (VnFd dev)
    have "fresh p f i {} (upd_usr p (\<lambda>v. v\<lparr>u_dupfd := int (dev mod 256)\<rparr>) ?t0)" by (rule fresh_upd_usr [OF fr]) simp_all
    from copen_failed_finv [OF this] show ?thesis using VnFd by (simp add: copen_end_def vn_error_def fdopen_def)
  next
    case (VnOpen ip)
    define t1 where "t1 = upd_file f (\<lambda>f. f\<lparr>f_data := Some ip\<rparr>) (upd_usr p (\<lambda>v. v\<lparr>u_dupfd := 0\<rparr>) ?t0)"
    have fr1: "fresh p f i {} (upd_usr p (\<lambda>v. v\<lparr>u_dupfd := 0\<rparr>) ?t0)" by (rule fresh_upd_usr [OF fr]) simp_all
    have "finv None {} (set_act p Running t1)" unfolding t1_def
      by (rule built_finv [OF fr1]) (use freshD [OF fr] ty in simp_all)
    moreover have run: "u_act (usr t1 p) = Running" using freshD(3) [OF fr] by (simp add: t1_def)
    ultimately have inv1: "finv None {} t1" by (simp add: set_act_Running)
    have "safe (lock_call e p f cmd (Some i) t1)" for cmd
    proof (rule lock_call_safe [OF inv1 _ disjI1 [OF run]])
      show "p \<in> live t1" "f_type (files t1 f) = DTYPE_INODE" "f_data (files t1 f) \<noteq> None" "\<exists>i. u_ofile (usr t1 p) i = Some f"
        using freshD(2,4) [OF fr] ty by (auto simp: t1_def)
      show "u_ofile (usr t1 p) indx = Some f \<and> f_count (files t1 f) = 1" if "Some i = Some indx" for indx
        using freshD(4,5) [OF fr] that by (simp add: t1_def)
    qed
    then show ?thesis using VnOpen finv_set_err [OF inv1] by (simp add: copen_end_def vn_error_def t1_def Let_def)
  qed
qed

lemma pipe_finv:
  assumes inv: "finv None {} t" and p: "p \<in> live t" "u_act (usr t p) = Running"
  shows "finv None {} (pipe p ipo t)"
proof (cases ipo)
  case (Inl e)
  then show ?thesis using finv_set_err [OF inv] by (simp add: pipe_def)
next
  case (Inr ip)
  obtain r t1 where a: "falloc p t = (r, t1)" by fastforce
  note A = falloc_finv [OF inv p a]
  show ?thesis
  proof (cases r)
    case None
    then show ?thesis using A(3) a Inr by (simp add: pipe_def)
  next
    case (Some rf)
    then obtain i where i: "u_rval (usr t1 p) = int i" "fresh p rf i {} t1" using A(5) by blast
    note F = freshD [OF i(2)]
    obtain r2 t2 where b: "falloc p t1 = (r2, t2)" by fastforce
    note B = falloc_finv [OF F(1-3) b]
    have keep: "u_ofile (usr t2 p) i = Some rf" "files t2 rf = files t1 rf" using B(4) [OF F(4)] by simp_all
    show ?thesis
    proof (cases r2)
      case None
      then have "fresh p rf i {} t2" using B(1-3) F(2,5,6) keep by (simp add: fresh_def)
      from unalloc_finv [OF this] show ?thesis using a Some b None i(1) Inr by (simp add: pipe_def Let_def)
    next
      case S2: (Some wp)
      then obtain j where j: "fresh p wp j {rf} t2" "wp \<noteq> rf" using B(5) F(4) by blast
      let ?u = "\<lambda>v. v\<lparr>u_rval2 := u_rval v, u_rval := int i\<rparr>" and ?w = "\<lambda>f. f\<lparr>f_flag := FWRITE, f_type := DTYPE_PIPE, f_data := Some ip\<rparr>"
        and ?r = "\<lambda>f. f\<lparr>f_flag := FREAD, f_type := DTYPE_PIPE, f_data := Some ip\<rparr>"
      let ?t3 = "upd_usr p ?u t2"
      have j3: "fresh p wp j {rf} ?t3" by (rule fresh_upd_usr [OF j(1)]) simp_all
      have "finv None {rf} (set_act p Running (upd_file wp ?w ?t3))"
        by (rule built_finv [OF j3]) (use freshD(5) [OF j(1)] j(2) in simp_all)
      then have "finv None {rf} (upd_file wp ?w ?t3)" using B(2) by (simp add: set_act_Running)
      then have "fresh p rf i {} (upd_file wp ?w ?t3)" using B(1,2) F(2,5,6) keep j(2) by (simp add: fresh_def)
      then have "finv None {} (set_act p Running (upd_file rf ?r (upd_file wp ?w ?t3)))"
        by (rule built_finv) (use F(5) keep j(2) in simp_all)
      then show ?thesis using a Some b S2 i(1) Inr B(2) by (simp add: pipe_def Let_def set_act_Running)
    qed
  qed
qed

section \<open>Fork, exit and exec\<close>

lemma fork_fold:
  fixes p :: nat
  defines "inc \<equiv> \<lambda>n t. case u_ofile (usr t p) n of None \<Rightarrow> t | Some fp \<Rightarrow> upd_file fp (\<lambda>f. f\<lparr>f_count := f_count f + 1\<rparr>) t"
  shows "usr (fold inc ns t) = usr t \<and> live (fold inc ns t) = live t \<and> inodes (fold inc ns t) = inodes t \<and> lastf (fold inc ns t) = lastf t \<and>
    files (fold inc ns t) = (\<lambda>f. (files t f)\<lparr>f_count := f_count (files t f) + length (filter (\<lambda>n. u_ofile (usr t p) n = Some f) ns)\<rparr>)"
proof (induction ns arbitrary: t)
  case Nil
  show ?case by simp
next
  case (Cons n ns)
  have "usr (inc n t) = usr t" "live (inc n t) = live t" "inodes (inc n t) = inodes t" "lastf (inc n t) = lastf t"
    "files (inc n t) = (\<lambda>f. (files t f)\<lparr>f_count := f_count (files t f) + (if u_ofile (usr t p) n = Some f then 1 else 0)\<rparr>)"
    by (auto simp: inc_def fun_eq_iff split: option.splits)
  then show ?case using Cons.IH [of "inc n t"] by (simp add: fun_eq_iff)
qed

lemma act_fits_counts:
  assumes "\<And>f. f_type (F' f) = f_type (F f) \<and> f_data (F' f) = f_data (F f)"
    and "\<And>f i fl. a = Opening f i fl \<Longrightarrow> f_count (F' f) = f_count (F f)"
    and "\<And>f cmd ch i. a = Locking f cmd ch (Some i) \<Longrightarrow> f_count (F' f) = f_count (F f)"
  shows "act_fits F' ofs a = act_fits F ofs a"
  using assms by (cases a) (auto split: option.splits)

lemma fork_finv:
  assumes inv: "finv None {} t" and p: "p \<in> live t" "u_act (usr t p) = Running" and c: "c < NPROC" "c \<notin> live t"
  shows "finv None {} (fork_files p c t)"
proof -
  note I = finvD [OF inv]
  let ?ns = "[0..<nat (u_lastfile (usr t p) + 1)]" and ?t = "fork_files p c t"
  define k where "k = (\<lambda>f. card {n. u_ofile (usr t p) n = Some f})"
  have k: "length (filter (\<lambda>n. u_ofile (usr t p) n = Some f) ?ns) = k f" for f
  proof -
    have "{n. u_ofile (usr t p) n = Some f} \<inter> set ?ns = {n. u_ofile (usr t p) n = Some f}"
    proof (intro Int_absorb2 subsetI)
      fix n assume "n \<in> {n. u_ofile (usr t p) n = Some f}"
      then show "n \<in> set ?ns" using ofile_bounds(4) [OF I(1) p(1), of n f] by simp
    qed
    then show ?thesis unfolding k_def using distinct_length_filter [OF distinct_upt, of "\<lambda>n. u_ofile (usr t p) n = Some f"] by metis
  qed
  have s: "files ?t = (\<lambda>f. (files t f)\<lparr>f_count := f_count (files t f) + k f\<rparr>)" "inodes ?t = inodes t" "lastf ?t = lastf t"
    "usr ?t = (usr t)(c := usr t p)" "live ?t = insert c (live t)"
    using fork_fold [of p ?ns t] by (simp_all add: fork_files_def Let_def k)
  have r: "card (refs ?t f) = card (refs t f) + k f" for f
  proof -
    have e: "refs ?t f = refs t f \<union> Pair c ` {n. u_ofile (usr t p) n = Some f}"
      using c(2) by (auto simp: refs_def s split: if_splits)
    have d: "refs t f \<inter> Pair c ` {n. u_ofile (usr t p) n = Some f} = {}" using c(2) by (auto simp: refs_def)
    have f: "finite {n. u_ofile (usr t p) n = Some f}"
      by (rule finite_subset [of _ "{..<NOFILE}"]) (use ofile_bounds(2) [OF I(1) p(1)] in auto)
    have "card (Pair c ` {n. u_ofile (usr t p) n = Some f}) = k f" unfolding k_def by (rule card_image) (simp add: inj_on_def)
    then show ?thesis unfolding e using card_Un_disjoint [OF refs_finite [OF I(1)] _ d] f by simp
  qed
  have none: "k f = 0" if "\<And>i. u_ofile (usr t p) i \<noteq> Some f" for f using that by (simp add: k_def)
  have bits: "shs ?t = shs t" "exs ?t = exs t" by (simp_all add: shs_def exs_def s fun_eq_iff)
  show ?thesis unfolding finv_def
  proof (intro conjI)
    show "desc_ok ?t" using I(1) p(1) c(1) by (auto simp: desc_ok_def s)
    show "count_ok None ?t" using I(2) by (simp add: count_ok_def r) (simp add: s)
    show "type_ok {} ?t"
    proof (rule type_okI [OF I(3)])
      fix f assume f: "f < NFILE" "f_count (files ?t f) > 0"
      have "f_count (files t f) > 0"
      proof (rule ccontr)
        assume "\<not> f_count (files t f) > 0"
        then have "u_ofile (usr t p) i \<noteq> Some f" for i using count_pos [OF inv p(1), of i f] by auto
        then show False using f(2) none \<open>\<not> f_count (files t f) > 0\<close> by (simp add: s)
      qed
      then show "f \<notin> {} \<and> f_count (files t f) > 0 \<and> f_type (files ?t f) = f_type (files t f) \<and> f_data (files ?t f) = f_data (files t f) \<and>
        (\<forall>q\<in>live t. \<forall>i fl. u_act (usr t q) = Opening f i fl \<longrightarrow> q \<in> live ?t \<and> u_act (usr ?t q) = Opening f i fl) \<or>
        f_type (files ?t f) \<in> {DTYPE_INODE, DTYPE_PIPE} \<and>
        (f_type (files ?t f) = DTYPE_INODE \<longrightarrow> f_data (files ?t f) = None \<longrightarrow> (\<exists>p\<in>live ?t. \<exists>i fl. u_act (usr ?t p) = Opening f i fl))"
        using c(2) by (auto simp: s)
    qed
    show "act_ok ?t" unfolding act_ok_def
    proof
      fix q assume "q \<in> live ?t"
      then consider "q = c" | "q \<in> live t" "q \<noteq> c" by (auto simp: s)
      then show "act_fits (files ?t) (u_ofile (usr ?t q)) (u_act (usr ?t q))"
      proof cases
        case 1
        then show ?thesis using p(2) by (simp add: s)
      next
        case 2
        have "act_fits (files ?t) (u_ofile (usr t q)) (u_act (usr t q)) = act_fits (files t) (u_ofile (usr t q)) (u_act (usr t q))"
        proof (rule act_fits_counts)
          show "f_count (files ?t f) = f_count (files t f)" if "u_act (usr t q) = Opening f i fl" for f i fl
            using not_opening(1) [OF inv p _ 2(1), of _ f] that none [of f] by (auto simp: s)
          show "f_count (files ?t f) = f_count (files t f)" if "u_act (usr t q) = Locking f cmd ch (Some i)" for f cmd ch i
            using not_opening(2) [OF inv p _ 2(1), of _ f] that none [of f] by (auto simp: s)
        qed (simp add: s)
        then show ?thesis using I(4) 2 by (simp add: act_ok_def) (simp add: s)
      qed
    qed
    show "lock_ok ?t"
    proof (rule lock_okI)
      show "flags_ok ?t" using lock_okD(1) [OF I(5)] by (simp add: flags_ok_def s)
      show "ilk_ok (inodes ?t ip) (shs ?t ip) (exs ?t ip)" for ip using I(5) by (simp add: bits lock_ok_def) (simp add: s)
      show "sleep_ok ?t" using lock_okD(8) [OF I(5)] p(2) c(2) unfolding sleep_ok_def held_def bits by (auto simp: s)
    qed
  qed
qed

lemma exit_loop_safe:
  assumes "finv None {} t" "p \<in> live t" "u_act (usr t p) = Running"
  shows "\<exists>t'. exit_loop e p is t = Ret t' \<and> finv None {} t' \<and> live t' = live t \<and> u_act (usr t' p) = Running \<and>
    (\<forall>i. u_ofile (usr t' p) i = (if i \<in> set is then None else u_ofile (usr t p) i))"
  using assms
proof (induction "is" arbitrary: t)
  case Nil
  then show ?case by simp
next
  case (Cons i "is")
  let ?g = "\<lambda>v. v\<lparr>u_ofile := (u_ofile v)(i := None), u_pofile := (u_pofile v)(i := 0)\<rparr>"
  let ?t1 = "upd_usr p ?g t"
  have "\<exists>e' t2. closef e (u_ofile (usr t p) i) ?t1 = Ret (e', t2) \<and> finv None {} t2 \<and> usame ?t1 t2"
  proof (cases "u_ofile (usr t p) i")
    case None
    have "finv None {} ?t1" by (rule finv_view [OF _ _ _ _ _ _ _ Cons.prems(1)]) (use None in auto)
    then show ?thesis using None by (simp add: closef_def)
  next
    case (Some f)
    have "finv (Some f) {} ?t1" by (rule clear_finv [OF Cons.prems Some]) simp_all
    then show ?thesis using closef_finv [of f "{}" ?t1 e] ofile_bounds(3) [OF finvD(1) [OF Cons.prems(1)] Cons.prems(2) Some] Some by auto
  qed
  then obtain e' t2 where t2: "closef e (u_ofile (usr t p) i) ?t1 = Ret (e', t2)" "finv None {} t2" "usame ?t1 t2" by blast
  note u = usame_usr [OF t2(3)] usame_acts [OF t2(3)] usame_live [OF t2(3)]
  have "p \<in> live t2" "u_act (usr t2 p) = Running" using Cons.prems(2,3) by (simp_all add: u)
  from Cons.IH [OF t2(2) this] show ?case using t2(1) by (auto simp: u Let_def)
qed

lemma exit_safe:
  assumes inv: "finv None {} t" and p: "p \<in> live t" "u_act (usr t p) = Running"
  shows "safe (exit_files e p t)"
proof -
  obtain t1 where t1: "exit_loop e p [0..<nat (u_lastfile (usr t p) + 1)] t = Ret t1" "finv None {} t1" "live t1 = live t" "u_act (usr t1 p) = Running"
    "\<And>i. u_ofile (usr t1 p) i = (if i \<in> set [0..<nat (u_lastfile (usr t p) + 1)] then None else u_ofile (usr t p) i)"
    using exit_loop_safe [OF assms] by blast
  have none: "u_ofile (usr t1 p) i = None" for i
    using t1(5) [of i] ofile_bounds(4) [OF finvD(1) [OF inv] p(1), of i] by (cases "u_ofile (usr t p) i") fastforce+
  let ?t = "t1\<lparr>live := live t1 - {p}\<rparr>"
  note I = finvD [OF t1(2)]
  have r: "refs ?t = refs t1" using none by (auto simp: refs_def fun_eq_iff)
  have "finv None {} ?t" unfolding finv_def
  proof (intro conjI)
    show "desc_ok ?t" using I(1) by (auto simp: desc_ok_def)
    show "count_ok None ?t" using I(2) by (simp add: count_ok_def r)
    show "type_ok {} ?t" using t1(4) by (intro type_okI [OF I(3)]) auto
    show "act_ok ?t" using I(4) by (simp add: act_ok_def)
    show "lock_ok ?t" by (rule lock_ok_cong [OF _ _ _ _ I(5)]) auto
  qed
  then show ?thesis using t1(1) by (simp add: exit_files_def)
qed

lemma exec_loop_safe:
  assumes "finv None {} t" "p \<in> live t" "u_act (usr t p) = Running"
  shows "\<exists>t'. exec_loop e p ccs t = Ret t' \<and> finv None {} t' \<and> p \<in> live t'"
  using assms
proof (induction ccs arbitrary: t)
  case Nil
  then show ?case by simp
next
  case (Cons i ccs)
  let ?g = "\<lambda>v. v\<lparr>u_ofile := (u_ofile v)(i := None), u_pofile := (u_pofile v)(i := 0)\<rparr>"
  have "\<exists>e' t2. closef e (u_ofile (usr t p) i) t = Ret (e', t2) \<and> finv None {} (upd_usr p ?g t2) \<and> usame t t2"
  proof (cases "u_ofile (usr t p) i")
    case None
    have "finv None {} (upd_usr p ?g t)" by (rule finv_view [OF _ _ _ _ _ _ _ Cons.prems(1)]) (use None in auto)
    then show ?thesis using None by (simp add: closef_def)
  next
    case (Some f)
    have "\<exists>e' t1. closef e (Some f) (upd_usr p ?g t) = Ret (e', upd_usr p ?g t1) \<and> closef e (Some f) t = Ret (e', t1) \<and>
        finv None {} (upd_usr p ?g t1) \<and> usame t t1"
      by (rule close_clear [OF Cons.prems Some]) (auto simp: act_free_def)
    then show ?thesis using Some by auto
  qed
  then obtain e' t2 where t2: "closef e (u_ofile (usr t p) i) t = Ret (e', t2)" "finv None {} (upd_usr p ?g t2)" "usame t t2" by blast
  have "p \<in> live (upd_usr p ?g t2)" "u_act (usr (upd_usr p ?g t2) p) = Running"
    using Cons.prems(2,3) usame_acts(2) [OF t2(3)] usame_live(1) [OF t2(3)] by simp_all
  from Cons.IH [OF t2(2) this] Cons.IH [OF Cons.prems] show ?case using t2(1) by simp
qed

lemma exec_safe:
  assumes "finv None {} t" "p \<in> live t" "u_act (usr t p) = Running"
  shows "safe (exec_files e p t)"
  using exec_loop_safe [OF assms, of e "[0..<nat (u_lastfile (usr t p) + 1)]"] trim_lastfile_finv by (auto simp: exec_files_def)

section \<open>All steps\<close>

lemma init_finv: "finv None {} ftab_init"
  by (simp add: finv_def desc_ok_def count_ok_def type_ok_def act_ok_def lock_ok_def flags_ok_def ilk_ok_def sleep_ok_def
      refs_def shs_def exs_def ftab_init_def fuser_init_def file_zero_def)

lemma enter_finv: "finv None {} t \<Longrightarrow> finv None {} (syscall_enter p t)"
  unfolding syscall_enter_def by (rule finv_upd_usr) simp_all

lemma enter_simps [simp]: "live (syscall_enter p t) = live t" "u_act (usr (syscall_enter p t) q) = u_act (usr t q)"
  by (simp_all add: syscall_enter_def)

lemma lockintr_safe:
  assumes inv: "finv None {} t" and p: "p \<in> live t" "u_act (usr t p) = Locking f cmd ch r"
  shows "safe (lock_return e p f cmd r (Failed err, t))"
proof -
  have fits: "act_fits (files t) (u_ofile (usr t p)) (Locking f cmd ch r)" using finvD(4) [OF inv] p by (auto simp: act_ok_def dest: bspec)
  have "finv None {} (set_act p Running t)" by (rule set_act_finv [OF inv]) (use p in auto)
  then have "safe (lock_return e p f cmd r (Failed err, set_act p Running t))"
    by (rule lock_fail_safe) (use p fits in \<open>auto simp: set_act_def\<close>)
  moreover have "lock_return e p f cmd r (Failed err, set_act p Running t) = lock_return e p f cmd r (Failed err, t)"
    by (simp add: lock_return_def set_act_def upd_usr_def split: option.splits)
  ultimately show ?thesis by simp
qed

lemma lockagain_safe:
  assumes inv: "finv None {} t" and p: "p \<in> live t" "u_act (usr t p) = Locking f cmd ch r"
  shows "safe (lock_call e p f cmd r t)"
proof -
  have "act_fits (files t) (u_ofile (usr t p)) (Locking f cmd ch r)" using finvD(4) [OF inv] p by (auto simp: act_ok_def dest: bspec)
  then show ?thesis by (intro lock_call_safe [OF inv]) (use p in auto)
qed

lemma fstep_safe:
  assumes inv: "finv None {} t" and en: "fenabled p op t"
  shows "safe (fstep e io k p op t)"
proof -
  note I = enter_finv [OF inv, of p]
  show ?thesis
  proof (cases op)
    case (OpenEnd r)
    then show ?thesis using en copen_end_safe [OF inv] by (auto split: act.splits)
  next
    case LockAgain
    then show ?thesis using en lockagain_safe [OF inv] by (auto split: act.splits)
  next
    case (LockIntr err)
    then show ?thesis using en lockintr_safe [OF inv] by (auto split: act.splits)
  next
    case Getdtablesize
    have "finv None {} (getdtablesize p (syscall_enter p t))" unfolding getdtablesize_def by (rule finv_upd_usr [OF I]) simp_all
    then show ?thesis using Getdtablesize by simp
  next
    case Exit
    then show ?thesis using en exit_safe [OF inv] by simp
  qed (use en dup_safe [OF I] dup2_safe [OF I] close_safe [OF I] fcntl_safe [OF I] flock_safe [OF I] copen_start_finv [OF I]
      pipe_finv [OF I] fork_finv [OF I] exec_safe [OF I] forceclose_finv [OF I] in simp_all)
qed

lemma freach_finv: "freach t \<Longrightarrow> finv None {} t"
proof (induction rule: freach.induct)
  case freach_init
  show ?case by (rule init_finv)
next
  case (freach_step t p op e io k t')
  show ?case using fstep_safe [OF freach_step.IH freach_step.hyps(2), of e io k] freach_step.hyps(3) by simp
qed

text \<open>
  C2. The file table. Whatever system calls the processes make and in whatever order they sleep in them, every enabled step
  returns (no null entry of \<^verbatim>\<open>Fops\<close> is called), the count of a file is the number of descriptors that refer to it in all
  processes, so that no file is released or allocated again while a descriptor refers to it, and every descriptor in use
  refers to an entry of the table that is in use.
\<close>
theorem file_table_safe:
  assumes "freach t" "fenabled p op t"
  shows "(\<exists>t'. fstep e io k p op t = Ret t' \<and> freach t') \<and>
    (\<forall>f<24. f_count (files t f) = card {(q, i). q \<in> live t \<and> u_ofile (usr t q) i = Some f}) \<and>
    (\<forall>q\<in>live t. \<forall>i f. u_ofile (usr t q) i = Some f \<longrightarrow> i < 30 \<and> f < 24 \<and> f_count (files t f) > 0 \<and> f_type (files t f) \<noteq> DTYPE_NONE)"
proof (intro conjI)
  note inv = freach_finv [OF assms(1)]
  note I = finvD [OF inv]
  show "\<exists>t'. fstep e io k p op t = Ret t' \<and> freach t'" using fstep_safe [OF inv assms(2)] freach_step [OF assms] by blast
  show "\<forall>f<24. f_count (files t f) = card {(q, i). q \<in> live t \<and> u_ofile (usr t q) i = Some f}"
    using I(2) by (simp add: count_ok_def refs_def)
  show "\<forall>q\<in>live t. \<forall>i f. u_ofile (usr t q) i = Some f \<longrightarrow> i < 30 \<and> f < 24 \<and> f_count (files t f) > 0 \<and> f_type (files t f) \<noteq> DTYPE_NONE"
    using ofile_bounds [OF I(1)] count_pos [OF inv] file_type [OF inv] by fastforce
qed

text \<open>A process with a pipe and its child.\<close>

definition demo_pipe :: ftab where
  "demo_pipe = pipe 0 (Inr 5) (syscall_enter 0 ftab_init)"

definition demo_ftab :: ftab where
  "demo_ftab = fork_files 0 1 (syscall_enter 0 demo_pipe)"

abbreviation (input) demo_io :: ioctl where "demo_io \<equiv> \<lambda>f cmd v. (E_OK, v)"

abbreviation (input) demo_ks :: ks where "demo_ks \<equiv> ks_zero \<lparr>a_lbolt = 0, a_runin = 0, a_runout = 0, a_proc = (\<lambda>_. 0)\<rparr>"

lemma demo_reach: "freach demo_pipe" "freach demo_ftab"
proof -
  show p: "freach demo_pipe"
    by (rule freach_step [OF freach_init, of 0 "Pipe (Inr 5)" E_OK demo_io demo_ks])
      (simp_all add: demo_pipe_def, simp_all add: ftab_init_def fuser_init_def)
  have "fenabled 0 (Fork 1) demo_pipe" by code_simp
  then show "freach demo_ftab"
    by (rule freach_step [OF p, where e = E_OK and io = demo_io and k = demo_ks]) (simp add: demo_ftab_def)
qed

theorem file_table_safe_witness:
  "(\<exists>t'. fstep E_OK demo_io demo_ks 1 (Close 0) demo_ftab = Ret t' \<and> freach t') \<and>
   f_count (files demo_ftab 0) = 2 \<and> f_count (files demo_ftab 0) = card {(q, i). q \<in> live demo_ftab \<and> u_ofile (usr demo_ftab q) i = Some 0}"
proof -
  have en: "fenabled 1 (Close 0) demo_ftab" "f_count (files demo_ftab 0) = 2" by code_simp+
  show ?thesis using file_table_safe [OF demo_reach(2) en(1), of E_OK demo_io demo_ks] en(2) by simp
qed

text \<open>
  C17. Advisory locks. In every reachable state a file that holds the exclusive lock of an inode is the only one that holds a
  lock of it, and a process sleeps for a lock only while a lock that excludes its own is held: no wakeup is lost.
\<close>
theorem flock_exclusive:
  assumes "freach t"
  shows "(\<forall>f g. f_flag (files t f) AND FEXLOCK \<noteq> 0 \<longrightarrow> g \<noteq> f \<longrightarrow> f_data (files t g) = f_data (files t f) \<longrightarrow>
      f_flag (files t g) AND (FSHLOCK OR FEXLOCK) = 0) \<and>
    (\<forall>q\<in>live t. \<forall>f cmd ip r. u_act (usr t q) = Locking f cmd (Some ip) r \<longrightarrow>
      (\<exists>g. f_data (files t g) = Some ip \<and> f_count (files t g) > 0 \<and>
        (f_flag (files t g) AND FEXLOCK \<noteq> 0 \<or> cmd AND LOCK_EX \<noteq> 0 \<and> f_flag (files t g) AND FSHLOCK \<noteq> 0)))"
proof (intro conjI allI ballI impI)
  note L = lock_okD [OF finvD(5) [OF freach_finv [OF assms]]]
  {
    fix f g assume f: "f_flag (files t f) AND FEXLOCK \<noteq> 0" "g \<noteq> f" "f_data (files t g) = f_data (files t f)"
    then have b: "exb (files t f)" by simp
    then obtain ip where ip: "f_data (files t f) = Some ip" using L(1) by (auto simp: flags_ok_def)
    have m: "f \<in> exs t ip" using b ip by (simp add: exs_def)
    then have "card (exs t ip) = 1" "shs t ip = {}" using L(6,7) by auto
    then have "exs t ip = {f}" "shs t ip = {}" using m by (auto simp: card_1_singleton_iff)
    then have "\<not> shb (files t g)" "\<not> exb (files t g)" using f(2,3) ip by (auto simp: shs_def exs_def)
    then show "f_flag (files t g) AND (FSHLOCK OR FEXLOCK) = 0" by simp
  next
    fix q f cmd ip r assume "q \<in> live t" "u_act (usr t q) = Locking f cmd (Some ip) r"
    then have "held t cmd ip" using L(8) by (auto simp: sleep_ok_def)
    then show "\<exists>g. f_data (files t g) = Some ip \<and> f_count (files t g) > 0 \<and>
        (f_flag (files t g) AND FEXLOCK \<noteq> 0 \<or> cmd AND LOCK_EX \<noteq> 0 \<and> f_flag (files t g) AND FSHLOCK \<noteq> 0)"
      using L(1) unfolding held_def exs_def shs_def flags_ok_def by fastforce
  }
qed

text \<open>A process opens inode 7 with an exclusive lock, opens it again in the same way, and sleeps.\<close>

lemma find_upt:
  "i < n \<Longrightarrow> P i \<Longrightarrow> find P [i..<n] = Some i" "i < n \<Longrightarrow> \<not> P i \<Longrightarrow> find P [i..<n] = find P [Suc i..<n]"
  "i < n \<Longrightarrow> P i \<Longrightarrow> find P ([i..<n] @ xs) = Some i"
  by (simp_all add: upt_conv_Cons)

lemmas demo_simps = upd_file_def upd_usr_def ftab_init_def file_zero_def fuser_init_def find_upt Let_def

definition demo_opening :: ftab where
  "demo_opening = ftab_init\<lparr>files := (\<lambda>_. file_zero)(0 := file_zero\<lparr>f_flag := 3, f_type := DTYPE_INODE, f_count := 1\<rparr>),
     lastf := Some 1, usr := (\<lambda>_. fuser_init)(0 := fuser_init\<lparr>u_ofile := (\<lambda>_. None)(0 := Some 0), u_lastfile := 0, u_dupfd := -1,
       u_act := Opening 0 0 0x23\<rparr>)\<rparr>"

definition demo_held :: ftab where
  "demo_held = ftab_init\<lparr>files := (\<lambda>_. file_zero)(0 := file_zero\<lparr>f_flag := 0x23, f_type := DTYPE_INODE, f_count := 1, f_data := Some 7\<rparr>),
     lastf := Some 1, usr := (\<lambda>_. fuser_init)(0 := fuser_init\<lparr>u_ofile := (\<lambda>_. None)(0 := Some 0), u_lastfile := 0\<rparr>),
     inodes := (inodes ftab_init)(7 := \<lparr>i_shlockc = 0, i_exlockc = 1, ISHLOCK = False, IEXLOCK = True, ILWAIT = False\<rparr>)\<rparr>"

definition demo_again :: ftab where
  "demo_again = copen_start 0 0x22 (syscall_enter 0 demo_held)"

definition demo_lock :: ftab where
  "demo_lock = (case copen_end E_OK 0 1 1 0x23 (VnOpen 7) demo_again of Ret t \<Rightarrow> t | _ \<Rightarrow> demo_again)"

lemma demo_open_start: "copen_start 0 0x22 (syscall_enter 0 ftab_init) = demo_opening"
proof -
  have enter: "syscall_enter 0 ftab_init = ftab_init" by (simp add: syscall_enter_def demo_simps fun_upd_idem)
  have "ufalloc 0 0 ftab_init = (Some 0, ftab_init\<lparr>usr := (\<lambda>_. fuser_init)(0 := fuser_init\<lparr>u_lastfile := 0\<rparr>)\<rparr>)"
    by (simp add: ufalloc_def demo_simps fun_upd_idem)
  then have f: "falloc 0 ftab_init = (Some 0, ftab_init\<lparr>files := (\<lambda>_. file_zero)(0 := file_zero\<lparr>f_count := 1\<rparr>), lastf := Some 1,
      usr := (\<lambda>_. fuser_init)(0 := fuser_init\<lparr>u_ofile := (\<lambda>_. None)(0 := Some 0), u_lastfile := 0\<rparr>)\<rparr>)"
    unfolding falloc_def by (simp add: demo_simps)
  show ?thesis unfolding enter copen_start_def f
    by (simp add: demo_opening_def demo_simps set_act_def FFLAGS_def FMASK_def)
qed

lemma demo_open_end: "copen_end E_OK 0 0 0 0x23 (VnOpen 7) demo_opening = Ret demo_held"
  by (simp add: demo_opening_def demo_held_def demo_simps set_act_def copen_end_def vn_error_def lock_call_def ino_lock_def numeral_3_eq_3
      upd_ino_def inc16_def lock_return_def set_err_def)

lemma demo_lock_reach: "freach demo_lock"
proof -
  note step = freach_step [where e = E_OK and io = demo_io and k = demo_ks]
  have "fenabled 0 (Open 0x22) ftab_init" by (simp add: ftab_init_def fuser_init_def)
  then have r: "freach demo_opening" by (rule step [OF freach_init]) (simp add: demo_open_start)
  have o: "u_act (usr demo_opening 0) = Opening 0 0 0x23" "0 \<in> live demo_opening" by (simp_all add: demo_opening_def ftab_init_def)
  have "fenabled 0 (OpenEnd (VnOpen 7)) demo_opening" "fstep E_OK demo_io demo_ks 0 (OpenEnd (VnOpen 7)) demo_opening = Ret demo_held"
    using o by (simp_all add: demo_open_end)
  then have h: "freach demo_held" by (rule step [OF r])
  have "fenabled 0 (Open 0x22) demo_held" by (simp add: demo_held_def ftab_init_def fuser_init_def)
  with h have a: "freach demo_again" by (rule step) (simp add: demo_again_def)
  have "u_act (usr demo_again 0) = Opening 1 1 0x23" "0 \<in> live demo_again" by code_simp+
  then have en: "fenabled 0 (OpenEnd (VnOpen 7)) demo_again"
    "fstep E_OK demo_io demo_ks 0 (OpenEnd (VnOpen 7)) demo_again = copen_end E_OK 0 1 1 0x23 (VnOpen 7) demo_again" by simp_all
  show ?thesis
  proof (cases "copen_end E_OK 0 1 1 0x23 (VnOpen 7) demo_again")
    case (Ret t)
    then show ?thesis using step [OF a en(1)] en(2) unfolding demo_lock_def by simp
  qed (unfold demo_lock_def, use a in simp_all)
qed

theorem flock_exclusive_witness:
  "u_act (usr demo_lock 0) = Locking 1 2 (Some 7) (Some 1) \<and> f_flag (files demo_lock 1) AND (FSHLOCK OR FEXLOCK) = 0 \<and>
   (\<exists>g. f_data (files demo_lock g) = Some 7 \<and> f_count (files demo_lock g) > 0 \<and>
      (f_flag (files demo_lock g) AND FEXLOCK \<noteq> 0 \<or> (2 :: word32) AND LOCK_EX \<noteq> 0 \<and> f_flag (files demo_lock g) AND FSHLOCK \<noteq> 0))"
proof -
  have s: "f_flag (files demo_lock 0) AND FEXLOCK \<noteq> 0" "f_data (files demo_lock 1) = f_data (files demo_lock 0)" "0 \<in> live demo_lock"
    "u_act (usr demo_lock 0) = Locking 1 2 (Some 7) (Some 1)" by code_simp+
  note T = flock_exclusive [OF demo_lock_reach]
  have "f_flag (files demo_lock 1) AND (FSHLOCK OR FEXLOCK) = 0"
    using conjunct1 [OF T, rule_format, OF s(1) _ s(2)] by simp
  moreover have "\<exists>g. f_data (files demo_lock g) = Some 7 \<and> f_count (files demo_lock g) > 0 \<and>
      (f_flag (files demo_lock g) AND FEXLOCK \<noteq> 0 \<or> (2 :: word32) AND LOCK_EX \<noteq> 0 \<and> f_flag (files demo_lock g) AND FSHLOCK \<noteq> 0)"
    using conjunct2 [OF T, rule_format, OF s(3,4)] .
  ultimately show ?thesis using s(4) by blast
qed

text \<open>
  C33. An open of \<^verbatim>\<open>/dev/fd/n\<close> always succeeds. When descriptor \<open>n\<close> is open with the mode asked for, the new descriptor refers to the
  same file. Otherwise \<^verbatim>\<open>dupfdopen\<close> returns \<^verbatim>\<open>EBADF\<close> or \<^verbatim>\<open>EACCES\<close>, but \<^verbatim>\<open>copen\<close> assigns the comparison
  \<^verbatim>\<open>dupfdopen(...) == 0\<close>, that is 0, to its \<^verbatim>\<open>error\<close>: the call reports success with a descriptor that is not open.
\<close>
theorem open_fd_error_lost:
  assumes "u_act (usr t p) = Opening fp indx flags" "u_ofile (usr t p) indx = Some fp" "dfd = dev mod 256"
  shows "\<exists>t'. copen_end e p fp indx flags (VnFd dev) t = Ret t' \<and> u_err (usr t' p) = E_OK \<and>
    u_ofile (usr t' p) indx =
      (if dfd < 30 \<and> u_ofile (usr t p) dfd \<noteq> None \<and> u_ofile (usr t p) dfd \<noteq> Some fp \<and>
          (flags AND (FREAD OR FWRITE)) OR f_flag (files t (the (u_ofile (usr t p) dfd))) = f_flag (files t (the (u_ofile (usr t p) dfd)))
       then u_ofile (usr t p) dfd else None)"
proof -
  define t1 where "t1 = upd_file fp (\<lambda>f. f\<lparr>f_count := 0\<rparr>) (upd_usr p (\<lambda>v. v\<lparr>u_dupfd := int dfd\<rparr>) (set_act p Running t))"
  have s: "u_ofile (usr t1 p) = u_ofile (usr t p)" "u_dupfd (usr t1 p) = int dfd" "\<And>f. f_flag (files t1 f) = f_flag (files t f)"
    by (simp_all add: t1_def set_act_def)
  have fd: "copen_end e p fp indx flags (VnFd dev) t =
      Ret (case dupfdopen p indx dfd flags ENODEV t1 of (err, t') \<Rightarrow>
        if err = E_OK then set_err p E_OK (upd_usr p (\<lambda>v. v\<lparr>u_rval := int indx\<rparr>) t') else set_err p E_OK (clear_ofile p indx t'))"
    using s(2) by (simp add: copen_end_def vn_error_def fdopen_def copen_failed_def Let_def t1_def assms(3) split: prod.split)
  show ?thesis
  proof (cases "dfd < NOFILE \<and> u_ofile (usr t p) dfd \<noteq> None \<and> u_ofile (usr t p) dfd \<noteq> Some fp")
    case True
    then obtain w where w: "u_ofile (usr t p) dfd = Some w" "w \<noteq> fp" "dfd < NOFILE" by auto
    show ?thesis
      by (cases "(flags AND (FREAD OR FWRITE)) OR f_flag (files t w) = f_flag (files t w)")
        (use fd w assms(2) in \<open>simp_all add: dupfdopen_def s set_err_def clear_ofile_def Let_def\<close>)
  next
    case False
    then have "dupfdopen p indx dfd flags ENODEV t1 = (EBADF, t1)"
      using assms(2) by (auto simp: dupfdopen_def s Let_def split: option.splits)
    then show ?thesis using fd False by (auto simp: set_err_def clear_ofile_def)
  qed
qed

definition demo_open :: ftab where
  "demo_open = copen_start 0 0 (syscall_enter 0 ftab_init)"

theorem open_fd_error_lost_witness:
  "u_ofile (usr demo_open 0) 9 = None \<and>
   (\<exists>t'. copen_end E_OK 0 0 0 1 (VnFd 9) demo_open = Ret t' \<and> u_err (usr t' 0) = E_OK \<and> u_ofile (usr t' 0) 0 = None)"
proof -
  have s: "u_act (usr demo_open 0) = Opening 0 0 1" "u_ofile (usr demo_open 0) 0 = Some 0" "u_ofile (usr demo_open 0) 9 = None" by code_simp+
  show ?thesis using open_fd_error_lost [OF s(1,2), of 9 9 E_OK] s(3) by simp
qed

end
