(* ===== verification/Ufs.thy ===== *)
theory Ufs
  imports Kern_Prelude
begin

text \<open>
  Storage of the file system: the free list of blocks in the super block
  (\<^verbatim>\<open>src/sys/kernel/ufs_alloc.c\<close>, \<^verbatim>\<open>ufs_subr.c\<close>), the map from the blocks of a file to the blocks of the
  volume (\<^verbatim>\<open>ufs_bmap.c\<close>) and truncation (\<^verbatim>\<open>ufs_inode.c\<close>).

  A block number (\<^verbatim>\<open>daddr_t\<close>, a 32-bit \<^verbatim>\<open>long\<close>) is an integer. A block of the volume is its 256 words; the buffer cache
  is transparent: \<^verbatim>\<open>bread\<close> gives the contents last written and the three ways to write a buffer differ only in time.
  \<open>rderr\<close> tells the blocks that the disk cannot read, with the error that \<^verbatim>\<open>geterror\<close> reports. A process that finds \<^verbatim>\<open>fs_flock\<close>
  set sleeps before it starts; the lock is held across every sleep inside \<^verbatim>\<open>balloc\<close> and \<^verbatim>\<open>free\<close>,
  so each of them is one step. The fields for free inodes are there because \<^verbatim>\<open>getfs\<close> looks at them.
\<close>

section \<open>The super block and the volume\<close>

abbreviation (input) NICFREE :: nat where "NICFREE \<equiv> 200"
abbreviation (input) NICINOD :: nat where "NICINOD \<equiv> 32"
abbreviation (input) INOPB :: nat where "INOPB \<equiv> 16"
abbreviation (input) ROOTINO :: nat where "ROOTINO \<equiv> 2"
abbreviation (input) NADDR :: nat where "NADDR \<equiv> 7"
abbreviation (input) NDADDR :: nat where "NDADDR \<equiv> 4"
abbreviation (input) NINDIR :: nat where "NINDIR \<equiv> 256"
abbreviation (input) DEV_BSIZE :: nat where "DEV_BSIZE \<equiv> 1024"

type_synonym blk = "nat \<Rightarrow> int"

record fs =
  fs_isize :: nat
  fs_fsize :: nat
  fs_nfree :: int
  fs_free :: "nat \<Rightarrow> int"
  fs_ninode :: int
  fs_inode :: "nat \<Rightarrow> nat"
  fs_fmod :: bool
  fs_tfree :: nat
  fs_tinode :: nat
  fs_lasti :: nat
  fs_nbehind :: nat

record ufs =
  fsb :: fs \<comment> \<open>the super block in core\<close>
  superb :: fs \<comment> \<open>and on the disk\<close>
  disk :: "int \<Rightarrow> blk"
  rderr :: "int \<Rightarrow> errno"
  rablock :: int
  u_er :: errno \<comment> \<open>\<^verbatim>\<open>u.u_error\<close>\<close>

definition upd_fs :: "(fs \<Rightarrow> fs) \<Rightarrow> ufs \<Rightarrow> ufs" where
  "upd_fs g s = s\<lparr>fsb := g (fsb s)\<rparr>"

definition upd_blk :: "int \<Rightarrow> blk \<Rightarrow> ufs \<Rightarrow> ufs" where
  "upd_blk b v s = s\<lparr>disk := (disk s)(b := v)\<rparr>"

text \<open>\<^verbatim>\<open>bread\<close>: \<^verbatim>\<open>biowait\<close> stores the error of a failed read unless there is one already.\<close>

definition bread :: "int \<Rightarrow> ufs \<Rightarrow> bool \<times> ufs" where
  "bread b s = (rderr s b = E_OK, s\<lparr>u_er := (if u_er s = E_OK then rderr s b else u_er s)\<rparr>)"

text \<open>\<^verbatim>\<open>badblock\<close> compares a \<^verbatim>\<open>long\<close> with unsigned fields, so as an unsigned number.\<close>

definition badblock :: "fs \<Rightarrow> int \<Rightarrow> bool" where
  "badblock f bn \<longleftrightarrow> nat (bn mod 2 ^ 32) < fs_isize f \<or> nat (bn mod 2 ^ 32) \<ge> fs_fsize f"

section \<open>Free blocks\<close>

text \<open>The loop that takes entries off \<^verbatim>\<open>fs_free\<close> until one is a good block: \<open>n\<close> is \<^verbatim>\<open>fs_nfree\<close>.\<close>

fun pop_block :: "fs \<Rightarrow> nat \<Rightarrow> (int \<times> nat) option" where
  "pop_block f 0 = None"
| "pop_block f (Suc n) =
     (if Suc n > NICFREE then None
      else if fs_free f n = 0 then None
      else if badblock f (fs_free f n) then pop_block f n
      else Some (fs_free f n, n))"

definition nospace :: "ufs \<Rightarrow> ufs" where
  "nospace s = (upd_fs (\<lambda>f. f\<lparr>fs_nfree := 0, fs_tfree := 0\<rparr>) s)\<lparr>u_er := ENOSPC\<rparr>"

text \<open>\<^verbatim>\<open>*((FBLKP)&fs->fs_nfree) = *fbp\<close> and its converse: word 0 of a \<^verbatim>\<open>struct fblk\<close> is the count.\<close>

definition load_fblk :: "blk \<Rightarrow> fs \<Rightarrow> fs" where
  "load_fblk v f = f\<lparr>fs_nfree := v 0, fs_free := (\<lambda>i. if i < NICFREE then v (i + 1) else fs_free f i)\<rparr>"

definition store_fblk :: "fs \<Rightarrow> blk \<Rightarrow> blk" where
  "store_fblk f v = (\<lambda>i. if i = 0 then fs_nfree f else if i \<le> NICFREE then fs_free f (i - 1) else v i)"

definition balloc_next :: "int \<Rightarrow> ufs \<Rightarrow> ufs" where
  "balloc_next bno s =
     (let (ok, s) = bread bno s;
          s = (if ok then upd_fs (load_fblk (disk s bno)) s else s);
          s = upd_fs (\<lambda>f. f\<lparr>fs_fmod := False\<rparr>) s
      in s\<lparr>superb := fsb s\<rparr>)"

text \<open>
  \<^verbatim>\<open>balloc\<close>; \<open>clr\<close> is \<^verbatim>\<open>B_CLRBUF\<close>. Without it the contents of the buffer that \<^verbatim>\<open>getblk\<close> returns are whatever it held; the model lets the block keep the words it has on the disk.
\<close>

definition balloc :: "bool \<Rightarrow> ufs \<Rightarrow> int option \<times> ufs" where
  "balloc clr s =
     (case pop_block (fsb s) (nat (fs_nfree (fsb s))) of
        None \<Rightarrow> (None, nospace s)
      | Some (bno, n) \<Rightarrow>
          let s = upd_fs (\<lambda>f. f\<lparr>fs_nfree := int n\<rparr>) s;
              s = (if n = 0 then balloc_next bno s else s)
          in if n = 0 \<and> fs_nfree (fsb s) \<le> 0 then (None, nospace s)
             else
               let s = (if clr then upd_blk bno (\<lambda>_. 0) s else s)
               in (Some bno, upd_fs (\<lambda>f. f\<lparr>fs_fmod := True, fs_tfree := u32 (fs_tfree f + 4294967295)\<rparr>) s))"

definition free :: "int \<Rightarrow> ufs \<Rightarrow> ufs" where
  "free bno s =
     (if badblock (fsb s) bno then s
      else
        let s = (if fs_nfree (fsb s) \<le> 0 then upd_fs (\<lambda>f. f\<lparr>fs_nfree := 1, fs_free := (fs_free f)(0 := 0)\<rparr>) s else s);
            s = (if fs_nfree (fsb s) \<ge> int NICFREE
                 then upd_fs (\<lambda>f. f\<lparr>fs_nfree := 0\<rparr>) (upd_blk bno (store_fblk (fsb s) (disk s bno)) s) else s)
        in upd_fs (\<lambda>f. f\<lparr>fs_free := (fs_free f)(nat (fs_nfree f) := bno), fs_nfree := fs_nfree f + 1,
                         fs_tfree := u32 (fs_tfree f + 1), fs_fmod := True\<rparr>) s)"

text \<open>\<^verbatim>\<open>getfs\<close> for the one volume of the model: a count out of range makes both lists empty.\<close>

definition getfs_check :: "fs \<Rightarrow> fs" where
  "getfs_check f = (if fs_nfree f > int NICFREE \<or> fs_ninode f > int NICINOD then f\<lparr>fs_nfree := 0, fs_ninode := 0\<rparr> else f)"

section \<open>The blocks of a file\<close>

record inode =
  i_addr :: "nat \<Rightarrow> int"
  i_size :: nat
  i_pipe :: bool \<comment> \<open>\<^verbatim>\<open>IPIPE\<close>\<close>
  i_chg :: bool \<comment> \<open>\<^verbatim>\<open>IUPD\<close> and \<^verbatim>\<open>ICHG\<close> of \<^verbatim>\<open>i_flag\<close>\<close>

text \<open>The number of levels of indirection and the block number counted from the first block of that level.\<close>

fun indir_level :: "nat \<Rightarrow> int \<Rightarrow> int \<Rightarrow> (nat \<times> int) option" where
  "indir_level 0 nb bn = None"
| "indir_level (Suc j) nb bn = (if bn < nb * 256 then Some (3 - j, bn) else indir_level j (nb * 256) (bn - nb * 256))"

text \<open>The loop through the indirect blocks; \<open>l\<close> is the number of levels left, so that \<^verbatim>\<open>sh\<close> is \<open>8 * l\<close>.\<close>

fun bmap_loop :: "bool \<Rightarrow> nat \<Rightarrow> int \<Rightarrow> int \<Rightarrow> int \<Rightarrow> ufs \<Rightarrow> int \<times> ufs" where
  "bmap_loop wr 0 ra nb bn s = (nb, s\<lparr>rablock := ra\<rparr>)"
| "bmap_loop wr (Suc l) ra nb bn s =
     (case bread nb s of
        (False, s) \<Rightarrow> (0, s)
      | (True, s) \<Rightarrow>
          let i = nat (bn div 256 ^ l mod 256);
              nb' = disk s nb i;
              ra' = (if i < NINDIR - 1 then disk s nb (i + 1) else ra)
          in if nb' = 0 then
               if \<not> wr then (-1, s)
               else (case balloc True s of
                       (None, s) \<Rightarrow> (-1, s)
                     | (Some b, s) \<Rightarrow> bmap_loop wr l ra' b bn (upd_blk nb ((disk s nb)(i := b)) s))
             else bmap_loop wr l ra' nb' bn s)"

definition bmap :: "bool \<Rightarrow> bool \<Rightarrow> int \<Rightarrow> inode \<Rightarrow> ufs \<Rightarrow> int \<times> inode \<times> ufs" where
  "bmap wr clr bn ip s =
     (if bn < 0 then (0, ip, s\<lparr>u_er := EFBIG\<rparr>)
      else
        let s = s\<lparr>rablock := 0\<rparr> in
        if bn < int (NADDR - 3) then
          let i = nat bn; nb = i_addr ip i; ra = (\<lambda>ip. if i < NADDR - 4 then i_addr ip (i + 1) else 0) in
          if nb = 0 then
            if \<not> wr then (-1, ip, s)
            else (case balloc clr s of
                    (None, s) \<Rightarrow> (-1, ip, s)
                  | (Some b, s) \<Rightarrow>
                      let ip = ip\<lparr>i_addr := (i_addr ip)(i := b), i_chg := True\<rparr> in (b, ip, s\<lparr>rablock := ra ip\<rparr>))
          else (nb, ip, s\<lparr>rablock := ra ip\<rparr>)
        else
          case indir_level 3 1 (bn - int (NADDR - 3)) of
            None \<Rightarrow> (0, ip, s\<lparr>u_er := EFBIG\<rparr>)
          | Some (l, bn) \<Rightarrow>
              let k = NDADDR + l - 1; nb = i_addr ip k in
              if nb = 0 then
                if \<not> wr then (-1, ip, s)
                else (case balloc True s of
                        (None, s) \<Rightarrow> (-1, ip, s)
                      | (Some b, s) \<Rightarrow>
                          let (r, s) = bmap_loop wr l 0 b bn s in (r, ip\<lparr>i_addr := (i_addr ip)(k := b), i_chg := True\<rparr>, s))
              else let (r, s) = bmap_loop wr l 0 nb bn s in (r, ip, s))"

section \<open>Truncation\<close>

text \<open>
  \<^verbatim>\<open>trsingle\<close> and \<^verbatim>\<open>indirtrunc\<close>: \<open>cpy\<close> is the buffer that keeps the addresses while the block itself is cleared. The level counts
  from \<^verbatim>\<open>SINGLE\<close> = 0, so that \<^verbatim>\<open>factor\<close> is \<open>256 ^ level\<close>; \<open>lst\<close> (\<^verbatim>\<open>last\<close>) is -1 when the whole block goes.
\<close>

definition trsingle :: "blk \<Rightarrow> int \<Rightarrow> ufs \<Rightarrow> ufs" where
  "trsingle cpy lst s = fold (\<lambda>i s. if cpy i \<noteq> 0 then free (cpy i) s else s) (rev [nat (lst + 1)..<NINDIR]) s"

definition clear_above :: "int \<Rightarrow> blk \<Rightarrow> blk" where
  "clear_above lst v = (\<lambda>i. if lst < int i \<and> i < NINDIR then 0 else v i)"

primrec indirtrunc :: "nat \<Rightarrow> int \<Rightarrow> int \<Rightarrow> ufs \<Rightarrow> ufs" where
  "indirtrunc 0 bn lastbn s =
     (case bread bn s of
        (False, s) \<Rightarrow> s
      | (True, s) \<Rightarrow> let cpy = disk s bn in trsingle cpy lastbn (upd_blk bn (clear_above lastbn cpy) s))"
| "indirtrunc (Suc l) bn lastbn s =
     (let lst = (if lastbn > 0 then lastbn div 256 ^ Suc l else lastbn) in
      case bread bn s of
        (False, s) \<Rightarrow> s
      | (True, s) \<Rightarrow>
          let cpy = disk s bn;
              s = upd_blk bn (clear_above lst cpy) s;
              s = fold (\<lambda>i s. if cpy i \<noteq> 0 then free (cpy i) (indirtrunc l (cpy i) (-1) s) else s) (rev [nat (lst + 1)..<NINDIR]) s
          in if lastbn \<ge> 0 \<and> cpy (nat lst) \<noteq> 0 then indirtrunc l (cpy (nat lst)) (lastbn mod 256 ^ Suc l) s else s)"

text \<open>\<^verbatim>\<open>bzero (bp->b_addr + offset, DEV_BSIZE - offset)\<close> on the words of a block, the low byte of a word first.\<close>

definition bzero_tail :: "nat \<Rightarrow> blk \<Rightarrow> blk" where
  "bzero_tail off v = (\<lambda>i. if i < off div 4 \<or> i \<ge> NINDIR then v i else if i = off div 4 then v i mod 256 ^ (off mod 4) else 0)"

text \<open>The loop over the indirect blocks, \<open>True\<close> when it leaves by \<^verbatim>\<open>goto done\<close>; \<open>a\<close> is the copy of the addresses in \<^verbatim>\<open>tip\<close>.\<close>

fun trunc_levels :: "(nat \<Rightarrow> int) \<Rightarrow> nat list \<Rightarrow> (nat \<Rightarrow> int) \<Rightarrow> ufs \<Rightarrow> bool \<times> (nat \<Rightarrow> int) \<times> ufs" where
  "trunc_levels lib [] a s = (False, a, s)"
| "trunc_levels lib (level # ls) a s =
     (let bn = a (NDADDR + level);
          (a, s) = (if bn \<noteq> 0 then
                      let s = indirtrunc level bn (lib level) s
                      in if lib level < 0 then (a(NDADDR + level := 0), free bn s) else (a, s)
                    else (a, s))
      in if lib level \<ge> 0 then (True, a, s) else trunc_levels lib ls a s)"

fun trunc_direct :: "nat list \<Rightarrow> (nat \<Rightarrow> int) \<Rightarrow> ufs \<Rightarrow> (nat \<Rightarrow> int) \<times> ufs" where
  "trunc_direct [] a s = (a, s)"
| "trunc_direct (i # is) a s = (if a i = 0 then trunc_direct is a s else trunc_direct is (a(i := 0)) (free (a i) s))"

definition lastiblock :: "int \<Rightarrow> nat \<Rightarrow> int" where
  "lastiblock lastblock level =
     (let l0 = lastblock - int NDADDR; l1 = l0 - int NINDIR; l2 = l1 - int (NINDIR * NINDIR);
          l = (if level = 0 then l0 else if level = 1 then l1 else l2)
      in if l < 0 then -1 else l)"

text \<open>The part of \<^verbatim>\<open>itrunc\<close> that gives back the blocks after \<open>lastblock\<close>; the addresses are cleared in the inode before that.\<close>

definition itrunc_blocks :: "int \<Rightarrow> inode \<Rightarrow> ufs \<Rightarrow> inode \<times> ufs" where
  "itrunc_blocks lastblock ip s =
     (let lib = lastiblock lastblock;
          a = i_addr ip;
          cleared = (\<lambda>k. if NDADDR \<le> k \<and> k < NADDR \<and> lib (k - NDADDR) < 0 then 0
                         else if k < NDADDR \<and> lastblock < int k then 0 else a k);
          (done, a, s) = trunc_levels lib [2, 1, 0] a s;
          (a, s) = (if done then (a, s) else trunc_direct (rev [nat (lastblock + 1)..<NDADDR]) a s)
      in (ip\<lparr>i_addr := cleared\<rparr>, s))"

text \<open>
  \<^verbatim>\<open>itrunc\<close>, up to \<^verbatim>\<open>iupdat\<close>, which copies the inode to the inode list. \<^verbatim>\<open>length\<close> is an unsigned 32-bit number, and so is the size
  that it is compared with; \<^verbatim>\<open>length + DEV_BSIZE - 1\<close> wraps.
\<close>

definition itrunc :: "nat \<Rightarrow> inode \<Rightarrow> ufs \<Rightarrow> inode \<times> ufs" where
  "itrunc len ip s =
     (let ip = (if i_pipe ip then ip\<lparr>i_size := NDADDR * DEV_BSIZE\<rparr> else ip) in
      if \<not> i_pipe ip \<and> i_size ip = len then (ip\<lparr>i_chg := True\<rparr>, s)
      else if i_size ip < len then
        let (bn, ip, s) = bmap True True (int (u32 (len + 4294967295) div DEV_BSIZE)) ip s
        in if u_er s \<noteq> E_OK \<or> bn < 0 then (ip, s) else (ip\<lparr>i_size := len, i_chg := True\<rparr>, s)
      else
        let lastblock = int (u32 (len + (DEV_BSIZE - 1)) div DEV_BSIZE) - 1;
            off = len mod DEV_BSIZE;
            (ok, ip, s) =
              (if off \<noteq> 0 then
                 let (bn, ip, s) = bmap True True (int (len div DEV_BSIZE)) ip s
                 in if u_er s \<noteq> E_OK \<or> bn < 0 then (False, ip, s)
                    else (case bread bn s of
                            (False, s) \<Rightarrow> (False, ip, s\<lparr>u_er := EIO\<rparr>)
                          | (True, s) \<Rightarrow> (True, ip, upd_blk bn (bzero_tail off (disk s bn)) s))
               else (True, ip, s))
        in if \<not> ok then (ip, s)
           else let (ip, s) = itrunc_blocks lastblock (ip\<lparr>i_size := len\<rparr>) s in (ip\<lparr>i_chg := True\<rparr>, s))"

end
