(* ===== verification/Ufs_Free.thy ===== *)
theory Ufs_Free
  imports Ufs
begin

text \<open>
  The free list of blocks is a stack. The table in the super block, and the tables in the blocks that its entry 0 and the
  entries 0 of those lead to, list the free blocks in the order in which \<^verbatim>\<open>balloc\<close> takes them; \<^verbatim>\<open>free\<close> puts a block in front.
\<close>

section \<open>The list of free blocks\<close>

definition good :: "fs \<Rightarrow> int \<Rightarrow> bool" where
  "good f b \<longleftrightarrow> b \<noteq> 0 \<and> \<not> badblock f b"

inductive flist :: "fs \<Rightarrow> (int \<Rightarrow> blk) \<Rightarrow> int \<Rightarrow> (nat \<Rightarrow> int) \<Rightarrow> int list \<Rightarrow> bool" for f d where
  flist_none: "n \<le> 0 \<Longrightarrow> flist f d n F []"
| flist_last: "0 < n \<Longrightarrow> n \<le> int NICFREE \<Longrightarrow> F 0 = 0 \<Longrightarrow> \<forall>i. 0 < i \<and> i < nat n \<longrightarrow> good f (F i) \<Longrightarrow>
    flist f d n F (map F (rev [1..<nat n]))"
| flist_chain: "0 < n \<Longrightarrow> n \<le> int NICFREE \<Longrightarrow> \<forall>i<nat n. good f (F i) \<Longrightarrow> 0 < d (F 0) 0 \<Longrightarrow>
    flist f d (d (F 0) 0) (\<lambda>i. d (F 0) (i + 1)) ys \<Longrightarrow> flist f d n F (map F (rev [1..<nat n]) @ F 0 # ys)"

definition fl :: "ufs \<Rightarrow> int list \<Rightarrow> bool" where
  "fl s xs \<longleftrightarrow> flist (fsb s) (disk s) (fs_nfree (fsb s)) (fs_free (fsb s)) xs \<and> distinct xs \<and> fs_tfree (fsb s) = length xs"

lemma good_cong: "fs_isize f' = fs_isize f \<Longrightarrow> fs_fsize f' = fs_fsize f \<Longrightarrow> good f' = good f"
  by (simp add: good_def badblock_def fun_eq_iff)

lemma flist_cong:
  assumes "flist f d n F xs" "good f' = good f" "\<forall>x\<in>set xs. d' x = d x" "\<forall>i<NICFREE. F' i = F i"
  shows "flist f' d' n F' xs"
  using assms
proof (induction arbitrary: F' rule: flist.induct)
  case (flist_none n F)
  then show ?case by (intro flist.flist_none) simp
next
  case (flist_last n F)
  have e: "map F (rev [1..<nat n]) = map F' (rev [1..<nat n])" using flist_last by auto
  show ?case unfolding e by (rule flist.flist_last) (use flist_last in auto)
next
  case (flist_chain n F ys)
  have e: "map F (rev [1..<nat n]) = map F' (rev [1..<nat n])" using flist_chain by auto
  have z: "F' 0 = F 0" "d' (F 0) = d (F 0)" using flist_chain by auto
  have "flist f' d' (d' (F' 0) 0) (\<lambda>i. d' (F' 0) (i + 1)) ys" unfolding z by (rule flist_chain.IH) (use flist_chain.prems in auto)
  then have "flist f' d' n F' (map F' (rev [1..<nat n]) @ F' 0 # ys)"
    by (intro flist.flist_chain) (use flist_chain z in auto)
  then show ?case unfolding e z .
qed

lemma flist_good: "flist f d n F xs \<Longrightarrow> x \<in> set xs \<Longrightarrow> good f x"
  by (induction rule: flist.induct) auto

lemma flist_le: "flist f d n F xs \<Longrightarrow> n \<le> int NICFREE"
  by (induction rule: flist.induct) auto

lemma fl_good: "fl s xs \<Longrightarrow> x \<in> set xs \<Longrightarrow> good (fsb s) x"
  by (auto simp: fl_def flist_good)

text \<open>Two volumes with the same super block in core that agree on the free blocks.\<close>

lemma fl_disk:
  assumes "fl s xs" "fsb s' = fsb s" "\<forall>x\<in>set xs. disk s' x = disk s x"
  shows "fl s' xs"
  using assms by (auto simp: fl_def intro: flist_cong)

section \<open>Taking a block\<close>

lemma rev_upt: "1 < n \<Longrightarrow> rev [1..<n] = (n - 1) # rev [1..<n - 1]"
  by (cases n) (auto simp: upt_Suc_append)

lemma flist_pop:
  assumes "flist f d n F (b # ys)" "F = fs_free f"
  shows "pop_block f (nat n) = Some (b, nat n - 1) \<and>
    (if nat n = 1 then b = F 0 \<and> 0 < d b 0 \<and> flist f d (d b 0) (\<lambda>i. d b (i + 1)) ys else flist f d (int (nat n - 1)) F ys)"
proof -
  have pop: "pop_block f (nat n) = Some (F (nat n - 1), nat n - 1)" if "0 < n" "n \<le> int NICFREE" "good f (F (nat n - 1))"
    using that assms(2) by (cases "nat n") (auto simp: good_def)
  from assms(1) show ?thesis
  proof (cases rule: flist.cases)
    case flist_last
    then have n: "1 < nat n" by (cases "nat n \<le> 1") auto
    then have e: "b = F (nat n - 1)" "ys = map F (rev [1..<nat n - 1])" using flist_last(1) unfolding rev_upt [OF n] by simp_all
    have "flist f d (int (nat n - 1)) F (map F (rev [1..<nat (int (nat n - 1))]))"
      by (rule flist.flist_last) (use flist_last n in auto)
    then have "flist f d (int (nat n - 1)) F ys" unfolding e(2) nat_int .
    moreover have "good f (F (nat n - 1))" "nat n \<noteq> 1" using flist_last n by auto
    ultimately show ?thesis using pop [OF flist_last(2,3)] e(1) by simp
  next
    case chain: (flist_chain zs)
    show ?thesis
    proof (cases "nat n = 1")
      case True
      then have "b = F 0" "ys = zs" using chain(1) by simp_all
      moreover have "good f (F (nat n - 1))" using chain(4) True by simp
      ultimately show ?thesis using pop [OF chain(2,3)] chain True by simp
    next
      case False
      then have n: "1 < nat n" using chain(2) by linarith
      then have e: "b = F (nat n - 1)" "ys = map F (rev [1..<nat n - 1]) @ F 0 # zs" using chain(1) unfolding rev_upt [OF n] by simp_all
      have "flist f d (int (nat n - 1)) F (map F (rev [1..<nat (int (nat n - 1))]) @ F 0 # zs)"
        by (rule flist.flist_chain) (use chain n in auto)
      then have "flist f d (int (nat n - 1)) F ys" unfolding e(2) nat_int .
      moreover have "good f (F (nat n - 1))" using chain(4) n by simp
      ultimately show ?thesis using pop [OF chain(2,3)] False e(1) by simp
    qed
  qed
qed

lemma flist_Nil_pop:
  assumes "flist f d n F []" "F = fs_free f"
  shows "pop_block f (nat n) = None"
  using assms(1)
proof (cases rule: flist.cases)
  case flist_last
  then have "nat n = 1" by simp
  then show ?thesis using flist_last assms(2) by simp
qed simp_all

lemma nospace_fl: "fl (nospace s) []"
  by (simp add: fl_def nospace_def upd_fs_def flist.flist_none)

text \<open>What the allocation of a block leaves alone.\<close>

definition same_vol :: "ufs \<Rightarrow> ufs \<Rightarrow> bool" where
  "same_vol s s' \<longleftrightarrow> fs_isize (fsb s') = fs_isize (fsb s) \<and> fs_fsize (fsb s') = fs_fsize (fsb s) \<and> rderr s' = rderr s"

lemma same_vol_refl [simp]: "same_vol s s" by (simp add: same_vol_def)

lemma same_vol_trans [trans]: "same_vol s s' \<Longrightarrow> same_vol s' s'' \<Longrightarrow> same_vol s s''" by (simp add: same_vol_def)

lemma same_vol_good: "same_vol s s' \<Longrightarrow> good (fsb s') = good (fsb s)"
  by (rule good_cong) (simp_all add: same_vol_def)

lemma balloc_none:
  assumes "fl s []"
  shows "balloc clr s = (None, nospace s)"
  using flist_Nil_pop [of "fsb s" "disk s" "fs_nfree (fsb s)" "fs_free (fsb s)"] assms by (simp add: balloc_def fl_def)

lemma balloc_some:
  assumes fl: "fl s (b # ys)" and rd: "rderr s b = E_OK" and len: "length ys < 4294967295"
  shows "\<exists>s'. balloc clr s = (Some b, s') \<and> fl s' ys \<and> disk s' = (if clr then (disk s)(b := (\<lambda>_. 0)) else disk s) \<and>
    same_vol s s' \<and> u_er s' = u_er s"
proof -
  let ?n = "nat (fs_nfree (fsb s))"
  have F: "flist (fsb s) (disk s) (fs_nfree (fsb s)) (fs_free (fsb s)) (b # ys)" "distinct (b # ys)" "fs_tfree (fsb s) = length (b # ys)"
    using fl by (simp_all add: fl_def)
  note P = conjunct1 [OF flist_pop [OF F(1) refl]] and P2 = conjunct2 [OF flist_pop [OF F(1) refl]]
  define s1 where "s1 = (let s = upd_fs (\<lambda>f. f\<lparr>fs_nfree := int (?n - 1)\<rparr>) s in if ?n - 1 = 0 then balloc_next b s else s)"
  have pos: "0 < ?n" using P by (cases ?n) auto
  have d1: "disk s1 = disk s" "same_vol s s1" "u_er s1 = u_er s" "fs_tfree (fsb s1) = length (b # ys)"
    using rd F(3) by (auto simp: s1_def Let_def balloc_next_def bread_def upd_fs_def same_vol_def load_fblk_def)
  have f1: "flist (fsb s1) (disk s1) (fs_nfree (fsb s1)) (fs_free (fsb s1)) ys \<and> (?n - 1 = 0 \<longrightarrow> 0 < fs_nfree (fsb s1))"
  proof (cases "?n = 1")
    case True
    have "flist (fsb s) (disk s) (disk s b 0) (\<lambda>i. disk s b (i + 1)) ys" "0 < disk s b 0" using P2 True by auto
    moreover have "fs_nfree (fsb s1) = disk s b 0" "\<forall>i<NICFREE. fs_free (fsb s1) i = disk s b (i + 1)"
      using True rd by (simp_all add: s1_def balloc_next_def bread_def upd_fs_def load_fblk_def Let_def)
    ultimately show ?thesis using same_vol_good [OF d1(2)] d1(1) by (auto intro: flist_cong)
  next
    case False
    then have n: "?n - 1 \<noteq> 0" using pos by linarith
    then have "s1 = upd_fs (\<lambda>f. f\<lparr>fs_nfree := int (?n - 1)\<rparr>) s" unfolding s1_def Let_def by (simp only: if_False)
    then have e: "fs_nfree (fsb s1) = int (?n - 1)" "fs_free (fsb s1) = fs_free (fsb s)" by (simp_all add: upd_fs_def)
    have "flist (fsb s) (disk s) (int (?n - 1)) (fs_free (fsb s)) ys" using P2 False by simp
    then have "flist (fsb s1) (disk s1) (int (?n - 1)) (fs_free (fsb s)) ys"
      by (rule flist_cong) (use same_vol_good [OF d1(2)] d1(1) in simp_all)
    then show ?thesis using n unfolding e by blast
  qed
  define s2 where "s2 = (if clr then upd_blk b (\<lambda>_. 0) s1 else s1)"
  define s' where "s' = upd_fs (\<lambda>f. f\<lparr>fs_fmod := True, fs_tfree := u32 (fs_tfree f + 4294967295)\<rparr>) s2"
  have "balloc clr s = (Some b, s')"
    using P f1 by (auto simp: balloc_def Let_def s'_def s2_def s1_def)
  moreover have d': "disk s' = (if clr then (disk s)(b := (\<lambda>_. 0)) else disk s)" by (simp add: s'_def s2_def upd_fs_def upd_blk_def d1)
  moreover have v': "same_vol s s'" "u_er s' = u_er s" using d1 by (simp_all add: s'_def s2_def upd_fs_def upd_blk_def same_vol_def)
  moreover have "fl s' ys" unfolding fl_def
  proof (intro conjI)
    have "fs_nfree (fsb s') = fs_nfree (fsb s1)" "fs_free (fsb s') = fs_free (fsb s1)" by (simp_all add: s'_def s2_def upd_fs_def upd_blk_def)
    moreover have "good (fsb s') = good (fsb s1)" using same_vol_good [OF v'(1)] same_vol_good [OF d1(2)] by simp
    moreover have "\<forall>x\<in>set ys. disk s' x = disk s1 x" using F(2) d1(1) d' by auto
    ultimately show "flist (fsb s') (disk s') (fs_nfree (fsb s')) (fs_free (fsb s')) ys" using f1 by (auto intro: flist_cong)
    show "distinct ys" using F(2) by simp
    have "fs_tfree (fsb s') = u32 (fs_tfree (fsb s1) + 4294967295)" by (simp add: s'_def s2_def upd_fs_def upd_blk_def)
    then show "fs_tfree (fsb s') = length ys" using d1(4) len by (simp add: u32_def)
  qed
  ultimately show ?thesis by blast
qed

section \<open>Returning a block\<close>

lemma free_ok:
  assumes fl: "fl s xs" and b: "good (fsb s) b" "b \<notin> set xs" and len: "length xs < 4294967295"
  shows "fl (free b s) (b # xs)" "\<forall>x. x \<noteq> b \<longrightarrow> disk (free b s) x = disk s x" "same_vol s (free b s)" "u_er (free b s) = u_er s"
proof -
  define s1 where "s1 = (if fs_nfree (fsb s) \<le> 0 then upd_fs (\<lambda>f. f\<lparr>fs_nfree := 1, fs_free := (fs_free f)(0 := 0)\<rparr>) s else s)"
  define s2 where "s2 = (if fs_nfree (fsb s1) \<ge> int NICFREE
                 then upd_fs (\<lambda>f. f\<lparr>fs_nfree := 0\<rparr>) (upd_blk b (store_fblk (fsb s1) (disk s1 b)) s1) else s1)"
  have fr: "free b s = upd_fs (\<lambda>f. f\<lparr>fs_free := (fs_free f)(nat (fs_nfree f) := b), fs_nfree := fs_nfree f + 1,
                         fs_tfree := u32 (fs_tfree f + 1), fs_fmod := True\<rparr>) s2"
    using b(1) by (simp add: free_def good_def s1_def s2_def Let_def)
  have v1: "same_vol s s1" "disk s1 = disk s" "u_er s1 = u_er s" "fs_tfree (fsb s1) = length xs"
    using fl by (simp_all add: s1_def upd_fs_def same_vol_def fl_def)
  have v2: "same_vol s s2" "\<forall>x. x \<noteq> b \<longrightarrow> disk s2 x = disk s x" "u_er s2 = u_er s" "fs_tfree (fsb s2) = length xs"
    using v1 by (auto simp: s2_def upd_fs_def upd_blk_def same_vol_def)
  show "\<forall>x. x \<noteq> b \<longrightarrow> disk (free b s) x = disk s x" "same_vol s (free b s)" "u_er (free b s) = u_er s"
    using v2 by (simp_all add: fr upd_fs_def same_vol_def)
  have f1: "flist (fsb s) (disk s) (fs_nfree (fsb s1)) (fs_free (fsb s1)) xs" and pos: "0 < fs_nfree (fsb s1)"
  proof -
    have F: "flist (fsb s) (disk s) (fs_nfree (fsb s)) (fs_free (fsb s)) xs" using fl by (simp add: fl_def)
    show pos: "0 < fs_nfree (fsb s1)" by (simp add: s1_def upd_fs_def)
    show "flist (fsb s) (disk s) (fs_nfree (fsb s1)) (fs_free (fsb s1)) xs"
    proof (cases "fs_nfree (fsb s) \<le> 0")
      case True
      with F have "xs = []" by (cases rule: flist.cases) auto
      moreover have "flist (fsb s) (disk s) 1 ((fs_free (fsb s))(0 := 0)) (map ((fs_free (fsb s))(0 := 0)) (rev [1..<nat 1]))"
        by (rule flist.flist_last) auto
      ultimately show ?thesis using True by (simp add: s1_def upd_fs_def)
    next
      case False
      then show ?thesis using F by (simp add: s1_def)
    qed
  qed
  let ?n = "fs_nfree (fsb s1)" and ?F = "fs_free (fsb s1)"
  have tf: "fs_tfree (fsb (free b s)) = length (b # xs)" using v2(4) len by (simp add: fr upd_fs_def)
  have g: "good (fsb (free b s)) = good (fsb s)" using v2(1) by (intro good_cong) (simp_all add: fr upd_fs_def same_vol_def)
  have "flist (fsb (free b s)) (disk (free b s)) (fs_nfree (fsb (free b s))) (fs_free (fsb (free b s))) (b # xs)"
  proof (cases "?n \<ge> int NICFREE")
    case True
    then have n: "?n = int NICFREE" using flist_le [OF f1] by simp
    have e: "fs_nfree (fsb (free b s)) = 1" "fs_free (fsb (free b s)) 0 = b" "disk (free b s) b 0 = ?n"
      "\<forall>i<NICFREE. disk (free b s) b (i + 1) = ?F i"
      using True by (simp_all add: fr s2_def upd_fs_def upd_blk_def store_fblk_def)
    have "flist (fsb (free b s)) (disk (free b s)) ?n (\<lambda>i. disk (free b s) b (i + 1)) xs"
      by (rule flist_cong [OF f1 g]) (use b(2) v2(2) e(4) in \<open>auto simp: fr upd_fs_def\<close>)
    then have "flist (fsb (free b s)) (disk (free b s)) 1 (fs_free (fsb (free b s)))
        (map (fs_free (fsb (free b s))) (rev [1..<nat 1]) @ fs_free (fsb (free b s)) 0 # xs)"
      by (intro flist.flist_chain) (use e(2,3) n b(1) g in auto)
    then show ?thesis unfolding e(1,2) by simp
  next
    case False
    have e: "fs_nfree (fsb (free b s)) = ?n + 1" "fs_free (fsb (free b s)) = ?F(nat ?n := b)" "disk (free b s) = disk s"
      using False v1(2) by (simp_all add: fr s2_def upd_fs_def)
    have n: "1 < nat (?n + 1)" "nat (?n + 1) - 1 = nat ?n" using pos by auto
    have m: "map (?F(nat ?n := b)) (rev [1..<nat (?n + 1)]) = b # map ?F (rev [1..<nat ?n])" unfolding rev_upt [OF n(1)] n(2) by simp
    from f1 show ?thesis
    proof (cases rule: flist.cases)
      case flist_none
      then show ?thesis using pos by simp
    next
      case flist_last
      have "flist (fsb (free b s)) (disk s) (?n + 1) (?F(nat ?n := b)) (map (?F(nat ?n := b)) (rev [1..<nat (?n + 1)]))"
        by (rule flist.flist_last) (use flist_last False b(1) g in auto)
      then show ?thesis unfolding e m flist_last(1) .
    next
      case (flist_chain ys)
      have z: "(?F(nat ?n := b)) 0 = ?F 0" using pos by simp
      have "flist (fsb (free b s)) (disk s) (disk s (?F 0) 0) (\<lambda>i. disk s (?F 0) (i + 1)) ys"
        by (rule flist_cong [OF flist_chain(6) g]) simp_all
      then have "flist (fsb (free b s)) (disk s) (?n + 1) (?F(nat ?n := b))
          (map (?F(nat ?n := b)) (rev [1..<nat (?n + 1)]) @ (?F(nat ?n := b)) 0 # ys)"
        by (intro flist.flist_chain) (use flist_chain z False b(1) g in auto)
      then show ?thesis unfolding e m z flist_chain(1) by simp
    qed
  qed
  then show "fl (free b s) (b # xs)" using tf b(2) fl by (simp add: fl_def)
qed

section \<open>Users of blocks\<close>

text \<open>
  The users of the volume hold blocks: they take blocks, write to blocks they hold and return blocks they hold. For them the
  volume is a stack of free blocks.
\<close>

datatype bop = BAlloc bool | BFree int | BWrite int blk

fun bstep :: "bop \<Rightarrow> ufs \<times> int set \<Rightarrow> (int option \<times> ufs \<times> int set) option" where
  "bstep (BAlloc clr) (s, H) =
     (case balloc clr s of (None, s') \<Rightarrow> Some (None, s', H) | (Some b, s') \<Rightarrow> Some (Some b, s', insert b H))"
| "bstep (BFree b) (s, H) = Some (None, if b \<in> H then (free b s, H - {b}) else (s, H))"
| "bstep (BWrite b v) (s, H) = Some (None, if b \<in> H then (upd_blk b v s, H) else (s, H))"

fun bspec :: "bop \<Rightarrow> int list \<times> int set \<Rightarrow> int option \<Rightarrow> int list \<times> int set \<Rightarrow> bool" where
  "bspec (BAlloc clr) (xs, H) r a \<longleftrightarrow>
     (case xs of [] \<Rightarrow> r = None \<and> a = ([], H) | b # ys \<Rightarrow> r = Some b \<and> a = (ys, insert b H) \<and> b \<notin> H)"
| "bspec (BFree b) (xs, H) r a \<longleftrightarrow> r = None \<and> a = (if b \<in> H then (b # xs, H - {b}) else (xs, H))"
| "bspec (BWrite b v) (xs, H) r a \<longleftrightarrow> r = None \<and> a = (xs, H)"

definition vol_rep :: "ufs \<times> int set \<Rightarrow> int list \<times> int set \<Rightarrow> bool" where
  "vol_rep c a \<longleftrightarrow> snd c = snd a \<and> fl (fst c) (fst a) \<and> set (fst a) \<inter> snd a = {} \<and> finite (snd a) \<and>
     (\<forall>b\<in>snd a. good (fsb (fst c)) b) \<and> (\<forall>b. rderr (fst c) b = E_OK) \<and> length (fst a) + card (snd a) < 4294967296"

lemma bstep_sim:
  assumes "vol_rep c a"
  shows "\<exists>r c' a'. bstep op c = Some (r, c') \<and> vol_rep c' a' \<and> bspec op a r a'"
proof -
  obtain s H xs where c: "c = (s, H)" "a = (xs, H)" using assms by (cases c; cases a) (auto simp: vol_rep_def)
  have R: "fl s xs" "set xs \<inter> H = {}" "finite H" "\<forall>b\<in>H. good (fsb s) b" "\<forall>b. rderr s b = E_OK" "length xs + card H < 4294967296"
    using assms by (simp_all add: vol_rep_def c)
  show ?thesis
  proof (cases op)
    case (BAlloc clr)
    show ?thesis
    proof (cases xs)
      case Nil
      have "vol_rep (nospace s, H) ([], H)" using R nospace_fl same_vol_good [of s "nospace s"]
        by (simp add: vol_rep_def same_vol_def nospace_def upd_fs_def)
      then show ?thesis using balloc_none [of s clr] R(1) Nil BAlloc by (auto simp: c)
    next
      case (Cons b ys)
      obtain s' where s': "balloc clr s = (Some b, s')" "fl s' ys" "same_vol s s'"
        using balloc_some [of s b ys clr] R(1,5,6) unfolding Cons by fastforce
      have b: "b \<notin> H" "b \<notin> set ys" "good (fsb s) b" "set ys \<inter> H = {}" using R(1,2) Cons fl_good [OF R(1)] by (auto simp: fl_def)
      have "card (insert b H) = Suc (card H)" using b(1) R(3) by simp
      then have "length ys + card (insert b H) < 4294967296" using R(6) Cons by simp
      moreover have "\<forall>x\<in>insert b H. good (fsb s') x" using b(3) R(4) same_vol_good [OF s'(3)] by simp
      moreover have "\<forall>b. rderr s' b = E_OK" using R(5) s'(3) by (simp add: same_vol_def)
      ultimately have "vol_rep (s', insert b H) (ys, insert b H)" using s'(2) b R(3) by (simp add: vol_rep_def)
      then show ?thesis using s'(1) R(2) Cons BAlloc by (auto simp: c)
    qed
  next
    case (BFree b)
    show ?thesis
    proof (cases "b \<in> H")
      case True
      have h: "card H = Suc (card (H - {b}))" by (rule card.remove [OF R(3) True])
      have n: "b \<notin> set xs" "good (fsb s) b" using True R(2,4) by auto
      have l: "length xs < 4294967295" "length (b # xs) + card (H - {b}) < 4294967296" using h R(6) unfolding list.size by linarith+
      note F = free_ok [OF R(1) n(2,1) l(1)]
      have "set (b # xs) \<inter> (H - {b}) = {}" using R(2) by auto
      moreover have "\<forall>x\<in>H - {b}. good (fsb (free b s)) x" using R(4) same_vol_good [OF F(3)] by simp
      moreover have "\<forall>b'. rderr (free b s) b' = E_OK" using R(5) F(3) by (simp add: same_vol_def)
      ultimately have "vol_rep (free b s, H - {b}) (b # xs, H - {b})" using F(1) R(3) l(2) by (simp add: vol_rep_def)
      then show ?thesis using True BFree by (auto simp: c)
    next
      case False
      then show ?thesis using assms BFree by (auto simp: c)
    qed
  next
    case (BWrite b v)
    show ?thesis
    proof (cases "b \<in> H")
      case True
      have "fl (upd_blk b v s) xs" by (rule fl_disk [OF R(1)]) (use True R(2) in \<open>auto simp: upd_blk_def\<close>)
      then have "vol_rep (upd_blk b v s, H) (xs, H)" using R by (simp add: vol_rep_def upd_blk_def)
      then show ?thesis using True BWrite by (auto simp: c)
    next
      case False
      then show ?thesis using assms BWrite by (auto simp: c)
    qed
  qed
qed

interpretation volume_stack: simulation bstep vol_rep "\<lambda>_. True" bspec
  by unfold_locales (rule bstep_sim)

lemma bspec_total: "bspec op (xs, H) r (ys, K) \<Longrightarrow> set ys \<union> K = set xs \<union> H"
  by (cases op) (auto split: list.splits if_splits)

lemma spec_run_total: "spec_run bspec ops (xs, H) rs (ys, K) \<Longrightarrow> set ys \<union> K = set xs \<union> H"
proof (induction ops arbitrary: xs H rs)
  case (Cons op ops)
  then obtain r rs' where rs: "rs = r # rs'" by (cases rs) auto
  with Cons.prems obtain zs L where z: "bspec op (xs, H) r (zs, L)" "spec_run bspec ops (zs, L) rs' (ys, K)" by auto
  show ?case using Cons.IH [OF z(2)] bspec_total [OF z(1)] by simp
qed simp

text \<open>
  C4. The free list of a volume is a stack. From a well-formed list, any sequence of allocations, of writes to blocks held and of
  returns of blocks held is what a stack of blocks would do: \<^verbatim>\<open>balloc\<close> takes the block returned last, through the
  tables in the free blocks themselves, and fails with \<^verbatim>\<open>ENOSPC\<close> only when no block is free; a block held is never
  allocated again and no block is lost; the list stays well-formed and its count right.
\<close>
theorem free_list_stack:
  assumes "fl s xs" "set xs \<inter> H = {}" "finite H" "\<forall>b\<in>H. good (fsb s) b" "\<forall>b. rderr s b = E_OK" "length xs + card H < 4294967296"
  shows "\<exists>rs s' H' xs'. run_steps bstep ops (s, H) = Some (rs, (s', H')) \<and> spec_run bspec ops (xs, H) rs (xs', H') \<and>
    fl s' xs' \<and> set xs' \<inter> H' = {} \<and> set xs' \<union> H' = set xs \<union> H"
proof -
  have "vol_rep (s, H) (xs, H)" using assms by (simp add: vol_rep_def)
  then obtain rs c' a' where r: "run_steps bstep ops (s, H) = Some (rs, c')" "vol_rep c' a'" "spec_run bspec ops (xs, H) rs a'"
    using volume_stack.run_refines [of "(s, H)" "(xs, H)" ops] by auto
  obtain s' H' xs' where c: "c' = (s', H')" "a' = (xs', H')" using r(2) by (cases c'; cases a') (auto simp: vol_rep_def)
  have "set xs' \<union> H' = set xs \<union> H" using r(3) spec_run_total unfolding c(2) by blast
  moreover have "fl s' xs' \<and> set xs' \<inter> H' = {}" using r(2) by (simp add: c vol_rep_def)
  ultimately show ?thesis using r(1,3) unfolding c by blast
qed

definition demo_vol :: ufs where
  "demo_vol = \<lparr>fsb = \<lparr>fs_isize = 10, fs_fsize = 100, fs_nfree = 3, fs_free = (\<lambda>i. [0, 20, 30] ! i), fs_ninode = 0, fs_inode = (\<lambda>_. 0),
       fs_fmod = False, fs_tfree = 2, fs_tinode = 0, fs_lasti = 1, fs_nbehind = 0\<rparr>,
     superb = \<lparr>fs_isize = 10, fs_fsize = 100, fs_nfree = 0, fs_free = (\<lambda>_. 0), fs_ninode = 0, fs_inode = (\<lambda>_. 0),
       fs_fmod = False, fs_tfree = 0, fs_tinode = 0, fs_lasti = 1, fs_nbehind = 0\<rparr>,
     disk = (\<lambda>_ _. 0), rderr = (\<lambda>_. E_OK), rablock = 0, u_er = E_OK\<rparr>"

lemma demo_vol_fl: "fl demo_vol [30, 20]"
proof -
  let ?F = "\<lambda>i. [0, 20, 30] ! i" and ?f = "fsb demo_vol"
  have g: "good ?f 20" "good ?f 30" by (simp_all add: good_def badblock_def demo_vol_def)
  have "flist ?f (disk demo_vol) 3 ?F (map ?F (rev [1..<nat 3]))"
  proof (rule flist_last)
    show "\<forall>i. 0 < i \<and> i < nat 3 \<longrightarrow> good ?f ([0, 20, 30] ! i)"
    proof (intro allI impI)
      fix i :: nat assume "0 < i \<and> i < nat 3"
      then have "i = 1 \<or> i = 2" by auto
      then show "good ?f ([0, 20, 30] ! i)" using g by auto
    qed
  qed simp_all
  moreover have "map ?F (rev [1..<nat 3]) = [30, 20 :: int]" by (simp add: upt_conv_Cons numeral_3_eq_3)
  ultimately show ?thesis by (simp add: fl_def demo_vol_def)
qed

theorem free_list_stack_witness:
  "\<exists>rs s' H' xs'. run_steps bstep [BAlloc True, BFree 40, BAlloc False, BAlloc True, BAlloc True] (demo_vol, {40}) = Some (rs, (s', H')) \<and>
    spec_run bspec [BAlloc True, BFree 40, BAlloc False, BAlloc True, BAlloc True] ([30, 20], {40}) rs (xs', H') \<and>
    fl s' xs' \<and> set xs' \<inter> H' = {} \<and> set xs' \<union> H' = set [30, 20] \<union> {40}"
  by (rule free_list_stack [OF demo_vol_fl]) (simp_all add: good_def badblock_def demo_vol_def)

end
