(* ===== verification/Ufs_Tree.thy ===== *)
theory Ufs_Tree
  imports Ufs_Free
begin

text \<open>
  The blocks of a file form a tree below the addresses in its inode: direct blocks, and indirect blocks of up to three levels. A
  read through \<^verbatim>\<open>bmap\<close> looks a block up in the tree; a write extends the tree by free blocks.
\<close>

section \<open>Trees of indirect blocks\<close>

text \<open>The blocks of a tree of \<open>l\<close> levels below block \<open>b\<close>, what makes it a tree, and the block that it has for number \<open>n\<close>.\<close>

fun tb :: "(int \<Rightarrow> blk) \<Rightarrow> nat \<Rightarrow> int \<Rightarrow> int set" where
  "tb d 0 b = {b}"
| "tb d (Suc l) b = insert b (\<Union>i\<in>{i. i < NINDIR \<and> d b i \<noteq> 0}. tb d l (d b i))"

fun tree :: "(int \<Rightarrow> blk) \<Rightarrow> nat \<Rightarrow> int \<Rightarrow> bool" where
  "tree d 0 b \<longleftrightarrow> True"
| "tree d (Suc l) b \<longleftrightarrow> (\<forall>i<NINDIR. d b i \<noteq> 0 \<longrightarrow> tree d l (d b i) \<and> b \<notin> tb d l (d b i) \<and>
     (\<forall>j<NINDIR. j \<noteq> i \<longrightarrow> d b j \<noteq> 0 \<longrightarrow> tb d l (d b i) \<inter> tb d l (d b j) = {}))"

definition idx :: "nat \<Rightarrow> int \<Rightarrow> nat" where
  "idx l n = nat (n div 256 ^ l mod 256)"

fun tlook :: "(int \<Rightarrow> blk) \<Rightarrow> nat \<Rightarrow> int \<Rightarrow> int \<Rightarrow> int" where
  "tlook d 0 b n = b"
| "tlook d (Suc l) b n = (let c = d b (idx l n) in if c = 0 then 0 else tlook d l c n)"

lemma idx_less [simp]: "idx l n < NINDIR"
proof -
  have "n div 256 ^ l mod 256 < 256" by (rule pos_mod_bound) simp
  then show ?thesis by (simp add: idx_def nat_less_iff)
qed

lemma root_in_tb [simp]: "b \<in> tb d l b" by (cases l) auto

lemma tb_child: "i < NINDIR \<Longrightarrow> d b i \<noteq> 0 \<Longrightarrow> tb d l (d b i) \<subseteq> tb d (Suc l) b" by auto

lemma tree_cong:
  assumes "\<And>x. x \<in> tb d l b \<Longrightarrow> d' x = d x"
  shows "tb d' l b = tb d l b \<and> tree d' l b = tree d l b \<and> (\<forall>n. tlook d' l b n = tlook d l b n)"
  using assms
proof (induction l arbitrary: b)
  case (Suc l)
  have b: "d' b = d b" using Suc.prems by simp
  have c: "tb d' l (d b i) = tb d l (d b i) \<and> tree d' l (d b i) = tree d l (d b i) \<and> (\<forall>n. tlook d' l (d b i) n = tlook d l (d b i) n)"
    if "i < NINDIR" "d b i \<noteq> 0" for i
    using Suc.IH [of "d b i"] Suc.prems tb_child [of i d b l] that by blast
  have "tb d' (Suc l) b = tb d (Suc l) b" using c by (auto simp: b)
  moreover have "tree d' (Suc l) b = tree d (Suc l) b" using c by (auto simp: b)
  moreover have "tlook d' (Suc l) b n = tlook d (Suc l) b n" for n using c [OF idx_less] by (auto simp: b Let_def)
  ultimately show ?case by blast
qed simp

text \<open>A tree in which the child \<open>i\<close> of the root is replaced or set.\<close>

lemma tree_child:
  assumes t: "tree d (Suc l) b" and i: "i < NINDIR" and d': "d' b = (d b)(i := c)" "c \<noteq> 0"
    and c: "tree d' l c" "b \<notin> tb d' l c"
    and o: "\<And>j. j < NINDIR \<Longrightarrow> j \<noteq> i \<Longrightarrow> d b j \<noteq> 0 \<Longrightarrow> tb d' l c \<inter> tb d l (d b j) = {} \<and> (\<forall>x\<in>tb d l (d b j). d' x = d x)"
  shows "tree d' (Suc l) b"
    "tb d' (Suc l) b = insert b (tb d' l c \<union> (\<Union>j\<in>{j. j < NINDIR \<and> j \<noteq> i \<and> d b j \<noteq> 0}. tb d l (d b j)))"
    "tlook d' (Suc l) b n = (if idx l n = i then tlook d' l c n else tlook d (Suc l) b n)"
proof -
  have k: "tb d' l (d b j) = tb d l (d b j) \<and> tree d' l (d b j) = tree d l (d b j) \<and> (\<forall>n. tlook d' l (d b j) n = tlook d l (d b j) n)"
    if "j < NINDIR" "j \<noteq> i" "d b j \<noteq> 0" for j
    by (rule tree_cong) (use o that in blast)
  have D: "d' b j = (if j = i then c else d b j)" for j using d' by simp
  show "tb d' (Suc l) b = insert b (tb d' l c \<union> (\<Union>j\<in>{j. j < NINDIR \<and> j \<noteq> i \<and> d b j \<noteq> 0}. tb d l (d b j)))"
    using i d'(2) k by (auto simp: D split: if_splits)
  show "tlook d' (Suc l) b n = (if idx l n = i then tlook d' l c n else tlook d (Suc l) b n)"
    using d'(2) k [OF idx_less] by (auto simp: D Let_def)
  show "tree d' (Suc l) b" unfolding tree.simps
  proof (intro allI impI conjI)
    fix j assume j: "j < NINDIR" "d' b j \<noteq> 0"
    show "tree d' l (d' b j)" "b \<notin> tb d' l (d' b j)" using t j c k [OF j(1)] by (auto simp: D split: if_splits)
    fix m assume m: "m < NINDIR" "m \<noteq> j" "d' b m \<noteq> 0"
    show "tb d' l (d' b j) \<inter> tb d' l (d' b m) = {}"
    proof (cases "j = i \<or> m = i")
      case True
      then show ?thesis using o [of j] o [of m] k [of j] k [of m] j m by (auto simp: D split: if_splits)
    next
      case False
      then have "tb d l (d b j) \<inter> tb d l (d b m) = {}" using t j m by (auto simp: D)
      then show ?thesis using False k [of j] k [of m] j m by (simp add: D)
    qed
  qed
qed

lemma tree_zero: "d b = (\<lambda>_. 0) \<Longrightarrow> tree d l b \<and> tb d l b = {b} \<and> (\<forall>n. tlook d l b n = (if l = 0 then b else 0))"
  by (cases l) auto

section \<open>Reading\<close>

lemma bread_ok: "rderr s b = E_OK \<Longrightarrow> bread b s = (True, s)"
  by (simp add: bread_def)

lemma bmap_loop_read:
  assumes "\<And>x. rderr s x = E_OK"
  shows "\<exists>ra'. bmap_loop False l ra b n s = (if tlook (disk s) l b n = 0 \<and> (l \<noteq> 0) then (-1, s) else (tlook (disk s) l b n, s\<lparr>rablock := ra'\<rparr>))"
proof (induction l arbitrary: ra b)
  case (Suc l)
  let ?c = "disk s b (idx l n)"
  show ?case
  proof (cases "?c = 0")
    case True
    then show ?thesis by (simp add: bread_ok assms idx_def)
  next
    case False
    obtain ra' where "bmap_loop False l (if idx l n < NINDIR - 1 then disk s b (idx l n + 1) else ra) ?c n s =
        (if tlook (disk s) l ?c n = 0 \<and> l \<noteq> 0 then (-1, s) else (tlook (disk s) l ?c n, s\<lparr>rablock := ra'\<rparr>))"
      using Suc.IH by blast
    moreover have "l = 0 \<Longrightarrow> tlook (disk s) l ?c n \<noteq> 0" using False by simp
    ultimately show ?thesis using False by (auto simp: bread_ok assms idx_def Let_def)
  qed
qed auto

section \<open>Writing\<close>

lemma mod_split:
  assumes "idx l m = idx l n" "m mod 256 ^ l = n mod 256 ^ l"
  shows "m mod 256 ^ Suc l = n mod 256 ^ Suc l"
proof -
  have "m div 256 ^ l mod 256 = n div 256 ^ l mod 256" using assms(1) by (simp add: idx_def eq_nat_nat_iff)
  moreover have "x mod (256 ^ l * 256) = 256 ^ l * (x div 256 ^ l mod 256) + x mod 256 ^ l" for x :: int
    by (rule zmod_zmult2_eq) simp
  ultimately show ?thesis using assms(2) by (simp add: mult.commute)
qed

lemma fl_distinct: "fl s xs \<Longrightarrow> distinct xs" by (simp add: fl_def)

lemma grow_child:
  assumes t: "tree d (Suc l) b" and i: "i < NINDIR" and d': "d' b = (d b)(i := c)" "c \<noteq> 0" "tree d' l c"
    and C: "tb d' l c = (if d b i = 0 then {} else tb d l (d b i)) \<union> A" and A: "A \<inter> tb d (Suc l) b = {}"
    and u: "\<And>x. x \<noteq> b \<Longrightarrow> x \<notin> tb d' l c \<Longrightarrow> d' x = d x"
  shows "tree d' (Suc l) b" "tb d' (Suc l) b = tb d (Suc l) b \<union> A"
    "tlook d' (Suc l) b n = (if idx l n = i then tlook d' l c n else tlook d (Suc l) b n)"
proof -
  have "b \<notin> A" using A root_in_tb by blast
  moreover have "d b i \<noteq> 0 \<Longrightarrow> b \<notin> tb d l (d b i)" using t i by simp
  ultimately have bc: "b \<notin> tb d' l c" unfolding C by simp
  have o: "tb d' l c \<inter> tb d l (d b j) = {} \<and> (\<forall>x\<in>tb d l (d b j). d' x = d x)" if j: "j < NINDIR" "j \<noteq> i" "d b j \<noteq> 0" for j
  proof -
    have dis: "tb d' l c \<inter> tb d l (d b j) = {}"
    proof (cases "d b i = 0")
      case True
      then have "tb d' l c = A" using C by simp
      then show ?thesis using A tb_child [of j d b l] j by blast
    next
      case False
      then have "tb d l (d b i) \<inter> tb d l (d b j) = {}" using t i j by simp
      moreover have "tb d' l c = tb d l (d b i) \<union> A" using C False by simp
      ultimately show ?thesis using A tb_child [of j d b l] j by blast
    qed
    moreover have "b \<notin> tb d l (d b j)" using t j by simp
    ultimately show ?thesis by (intro conjI ballI u) auto
  qed
  show "tree d' (Suc l) b" by (rule tree_child(1) [OF t i d'(1,2,3) bc]) (rule o)
  show "tlook d' (Suc l) b n = (if idx l n = i then tlook d' l c n else tlook d (Suc l) b n)"
    by (rule tree_child(3) [OF t i d'(1,2,3) bc]) (rule o)
  have K: "tb d' (Suc l) b = insert b (tb d' l c \<union> (\<Union>j\<in>{j. j < NINDIR \<and> j \<noteq> i \<and> d b j \<noteq> 0}. tb d l (d b j)))"
    by (rule tree_child(2) [OF t i d'(1,2,3) bc]) (rule o)
  have "tb d (Suc l) b = insert b ((if d b i = 0 then {} else tb d l (d b i)) \<union> (\<Union>j\<in>{j. j < NINDIR \<and> j \<noteq> i \<and> d b j \<noteq> 0}. tb d l (d b j)))"
    using i by auto
  then show "tb d' (Suc l) b = tb d (Suc l) b \<union> A" unfolding K C by auto
qed

declare tb.simps(2) [simp del] tree.simps(2) [simp del] tlook.simps(2) [simp del]

text \<open>The indirect blocks of a tree; the other blocks hold data and do not count for its shape.\<close>

fun inner :: "(int \<Rightarrow> blk) \<Rightarrow> nat \<Rightarrow> int \<Rightarrow> int set" where
  "inner d 0 b = {}"
| "inner d (Suc l) b = insert b (\<Union>i\<in>{i. i < NINDIR \<and> d b i \<noteq> 0}. inner d l (d b i))"

declare inner.simps(2) [simp del]

lemma inner_sub: "inner d l b \<subseteq> tb d l b"
  by (induction l arbitrary: b) (auto simp: inner.simps(2) tb.simps(2))

lemma inner_cong:
  assumes "\<And>x. x \<in> inner d l b \<Longrightarrow> d' x = d x"
  shows "inner d' l b = inner d l b \<and> tb d' l b = tb d l b \<and> tree d' l b = tree d l b \<and> (\<forall>n. tlook d' l b n = tlook d l b n)"
  using assms
proof (induction l arbitrary: b)
  case (Suc l)
  have b: "d' b = d b" using Suc.prems by (simp add: inner.simps(2))
  have c: "inner d' l (d b i) = inner d l (d b i) \<and> tb d' l (d b i) = tb d l (d b i) \<and> tree d' l (d b i) = tree d l (d b i) \<and>
      (\<forall>n. tlook d' l (d b i) n = tlook d l (d b i) n)" if "i < NINDIR" "d b i \<noteq> 0" for i
    using Suc.IH [of "d b i"] Suc.prems that by (auto simp: inner.simps(2))
  have "inner d' (Suc l) b = inner d (Suc l) b" "tb d' (Suc l) b = tb d (Suc l) b" using c by (auto simp: b inner.simps(2) tb.simps(2))
  moreover have "tree d' (Suc l) b = tree d (Suc l) b" using c by (auto simp: b tree.simps(2))
  moreover have "tlook d' (Suc l) b n = tlook d (Suc l) b n" for n using c [OF idx_less] by (auto simp: b Let_def tlook.simps(2))
  ultimately show ?case by blast
qed simp

lemma leaf_in: "tlook d l b n \<noteq> 0 \<Longrightarrow> tlook d l b n \<in> tb d l b"
proof (induction l arbitrary: b)
  case (Suc l)
  then show ?case using tb_child [of "idx l n" d b l] by (auto simp: tlook.simps(2) Let_def split: if_splits)
qed simp

lemma leaf_not_inner: "tree d l b \<Longrightarrow> tlook d l b n \<noteq> 0 \<Longrightarrow> tlook d l b n \<notin> inner d l b"
proof (induction l arbitrary: b)
  case (Suc l)
  let ?c = "d b (idx l n)"
  have c: "?c \<noteq> 0" "tlook d (Suc l) b n = tlook d l ?c n" "tlook d l ?c n \<noteq> 0" using Suc.prems(2) by (auto simp: tlook.simps(2) Let_def split: if_splits)
  have t: "tree d l ?c" "b \<notin> tb d l ?c" using Suc.prems(1) c(1) idx_less by (auto simp: tree.simps(2))
  have "tlook d l ?c n \<notin> inner d l (d b j)" if "j < NINDIR" "d b j \<noteq> 0" for j
  proof (cases "j = idx l n")
    case True
    then show ?thesis using Suc.IH [OF t(1) c(3)] by simp
  next
    case False
    then have "tb d l ?c \<inter> tb d l (d b j) = {}" using Suc.prems(1) c(1) that idx_less [of l n] unfolding tree.simps(2) by blast
    then show ?thesis using inner_sub [of d l "d b j"] leaf_in [OF c(3)] by blast
  qed
  moreover have "tlook d l ?c n \<noteq> b" using t(2) leaf_in [OF c(3)] by metis
  ultimately show ?case unfolding c(2) inner.simps(2) by blast
qed simp

text \<open>
  What a walk for block \<open>n\<close> through a tree that may allocate does: it takes some blocks off the free list and adds them to the tree,
  changes no other block and no data block of the tree and no other entry of the map, and either ends at the block mapped for \<open>n\<close> or runs out of blocks.
\<close>

definition grown :: "nat \<Rightarrow> int \<Rightarrow> int \<Rightarrow> ufs \<Rightarrow> int list \<Rightarrow> int \<Rightarrow> ufs \<Rightarrow> nat \<Rightarrow> bool" where
  "grown l b n s xs r s' k \<longleftrightarrow> k \<le> length xs \<and> fl s' (drop k xs) \<and> same_vol s s' \<and>
     tree (disk s') l b \<and> tb (disk s') l b = tb (disk s) l b \<union> set (take k xs) \<and>
     (\<forall>x. x \<notin> tb (disk s) l b \<union> set (take k xs) \<longrightarrow> disk s' x = disk s x) \<and>
     (\<forall>x. x \<in> tb (disk s) l b \<longrightarrow> x \<notin> inner (disk s) l b \<longrightarrow> disk s' x = disk s x) \<and>
     (\<forall>m. m mod 256 ^ l \<noteq> n mod 256 ^ l \<longrightarrow> tlook (disk s') l b m = tlook (disk s) l b m) \<and>
     (r = -1 \<and> l \<noteq> 0 \<and> k = length xs \<and> u_er s' = ENOSPC \<and> tlook (disk s) l b n = 0 \<and> tlook (disk s') l b n = 0 \<or>
      r = tlook (disk s') l b n \<and> u_er s' = u_er s \<and> (l \<noteq> 0 \<longrightarrow> r \<noteq> 0) \<and> (l = 0 \<or> tlook (disk s) l b n \<noteq> 0 \<longrightarrow> k = 0 \<and> disk s' = disk s) \<and>
      (l \<noteq> 0 \<longrightarrow> tlook (disk s) l b n = 0 \<longrightarrow> disk s' r = (\<lambda>_. 0)))"

lemma grownD:
  assumes "grown l b n s xs r s' k"
  shows "k \<le> length xs" "fl s' (drop k xs)" "same_vol s s'" "tree (disk s') l b" "tb (disk s') l b = tb (disk s) l b \<union> set (take k xs)"
    "\<And>x. x \<notin> tb (disk s) l b \<union> set (take k xs) \<Longrightarrow> disk s' x = disk s x"
    "\<And>m. m mod 256 ^ l \<noteq> n mod 256 ^ l \<Longrightarrow> tlook (disk s') l b m = tlook (disk s) l b m"
    "r = -1 \<and> l \<noteq> 0 \<and> k = length xs \<and> u_er s' = ENOSPC \<and> tlook (disk s) l b n = 0 \<and> tlook (disk s') l b n = 0 \<or>
      r = tlook (disk s') l b n \<and> u_er s' = u_er s \<and> (l \<noteq> 0 \<longrightarrow> r \<noteq> 0) \<and> (l = 0 \<or> tlook (disk s) l b n \<noteq> 0 \<longrightarrow> k = 0 \<and> disk s' = disk s) \<and>
      (l \<noteq> 0 \<longrightarrow> tlook (disk s) l b n = 0 \<longrightarrow> disk s' r = (\<lambda>_. 0))"
    "\<And>x. x \<in> tb (disk s) l b \<Longrightarrow> x \<notin> inner (disk s) l b \<Longrightarrow> disk s' x = disk s x"
  using assms unfolding grown_def by blast+

lemma grown_old:
  assumes t: "tree (disk s) (Suc l) b" "tb (disk s) (Suc l) b \<inter> set xs = {}" and c: "disk s b (idx l n) \<noteq> 0"
    and g: "grown l (disk s b (idx l n)) n s xs r s' k"
  shows "grown (Suc l) b n s xs r s' k"
proof -
  let ?i = "idx l n" and ?d = "disk s" and ?d' = "disk s'"
  note G = grownD [OF g]
  have sub: "set (take k xs) \<inter> tb ?d (Suc l) b = {}" using t(2) set_take_subset [of k xs] by blast
  have bx: "b \<notin> set (take k xs)" using sub root_in_tb [of b ?d "Suc l"] by blast
  have b: "b \<notin> tb ?d l (?d b ?i)" using t(1) c by (simp add: tree.simps(2))
  have db: "?d' b = (?d b)(?i := ?d b ?i)" using G(6) [of b] b bx by simp
  note K = grow_child [OF t(1) idx_less db c G(4), of "set (take k xs)"]
  have tr: "tree ?d' (Suc l) b" and bl: "tb ?d' (Suc l) b = tb ?d (Suc l) b \<union> set (take k xs)"
    and lk: "\<And>m. tlook ?d' (Suc l) b m = (if idx l m = ?i then tlook ?d' l (?d b ?i) m else tlook ?d (Suc l) b m)"
    using K G(5,6) c sub bx by simp_all
  have out: "?d' x = ?d x" if "x \<notin> tb ?d (Suc l) b \<union> set (take k xs)" for x
    using G(6) [of x] that tb_child [of ?i ?d b l, OF idx_less c] by blast
  have old: "tlook ?d (Suc l) b m = tlook ?d l (?d b ?i) m" if "idx l m = ?i" for m using c that by (simp add: tlook.simps(2) Let_def)
  have oth: "tlook ?d' (Suc l) b m = tlook ?d (Suc l) b m" if "m mod 256 ^ Suc l \<noteq> n mod 256 ^ Suc l" for m
  proof (cases "idx l m = ?i")
    case True
    then have "m mod 256 ^ l \<noteq> n mod 256 ^ l" using mod_split that by blast
    then show ?thesis using G(7) lk old True by simp
  qed (simp add: lk)
  have l0: "l = 0 \<Longrightarrow> tlook ?d' l (?d b ?i) n \<noteq> 0" using c by simp
  have data: "?d' x = ?d x" if "x \<in> tb ?d (Suc l) b" "x \<notin> inner ?d (Suc l) b" for x
  proof (cases "x \<in> tb ?d l (?d b ?i)")
    case True
    moreover have "x \<notin> inner ?d l (?d b ?i)" using that(2) c idx_less [of l n] unfolding inner.simps(2) by blast
    ultimately show ?thesis by (rule G(9))
  next
    case False
    then show ?thesis using G(6) [of x] sub that(1) by blast
  qed
  show ?thesis unfolding grown_def
    using G(1-3,8) tr bl out oth data lk [of n] old [of n] l0 c by auto
qed

lemma grown_new:
  assumes t: "tree (disk s) (Suc l) b" "tb (disk s) (Suc l) b \<inter> set (a # ys) = {}" and c: "disk s b (idx l n) = 0" "a \<noteq> 0"
    and s2: "same_vol s s2" "disk s2 = (disk s)(a := (\<lambda>_. 0), b := (disk s b)(idx l n := a))" "u_er s2 = u_er s"
    and g: "grown l a n s2 ys r s' k" and d: "distinct (a # ys)"
  shows "grown (Suc l) b n s (a # ys) r s' (Suc k)"
proof -
  let ?i = "idx l n" and ?d = "disk s" and ?d' = "disk s'"
  note G = grownD [OF g]
  have ab: "a \<noteq> b" using t(2) root_in_tb [of b ?d "Suc l"] by auto
  have z: "tree (disk s2) l a" "tb (disk s2) l a = {a}" "\<And>m. tlook (disk s2) l a m = (if l = 0 then a else 0)"
    using tree_zero [of "disk s2" a l] ab by (simp_all add: s2(2))
  have D2: "disk s2 x = (if x = b then (?d b)(?i := a) else if x = a then (\<lambda>_. 0) else ?d x)" for x by (simp add: s2(2))
  let ?A = "set (take (Suc k) (a # ys))"
  have A: "?A = insert a (set (take k ys))" by simp
  have sub: "?A \<inter> tb ?d (Suc l) b = {}" using t(2) set_take_subset [of k ys] unfolding A by auto
  have bx: "b \<notin> ?A" using sub root_in_tb [of b ?d "Suc l"] by blast
  have Tc: "tb ?d' l a = ?A" using G(5) z(2) A by simp
  have db: "?d' b = (?d b)(?i := a)" using G(6) [of b] bx z(2) by (auto simp: D2 A)
  have out: "?d' x = ?d x" if "x \<noteq> b" "x \<notin> ?A" for x using G(6) [of x] that by (auto simp: z(2) D2 A)
  note K = grow_child [OF t(1) idx_less db c(2) G(4), of ?A]
  have tr: "tree ?d' (Suc l) b" and bl: "tb ?d' (Suc l) b = tb ?d (Suc l) b \<union> ?A"
    and lk: "\<And>m. tlook ?d' (Suc l) b m = (if idx l m = ?i then tlook ?d' l a m else tlook ?d (Suc l) b m)"
    using K sub out Tc c(1) by simp_all
  have old: "tlook ?d (Suc l) b m = 0" if "idx l m = ?i" for m using c(1) that by (simp add: tlook.simps(2) Let_def)
  have oth: "tlook ?d' (Suc l) b m = tlook ?d (Suc l) b m" if "m mod 256 ^ Suc l \<noteq> n mod 256 ^ Suc l" for m
  proof (cases "idx l m = ?i")
    case True
    then have ne: "m mod 256 ^ l \<noteq> n mod 256 ^ l" using mod_split that by blast
    then have "l \<noteq> 0" by (intro notI) simp
    then show ?thesis using G(7) [OF ne] lk [of m] old [OF True] z(3) True by simp
  qed (simp add: lk)
  have r: "r = -1 \<and> k = length ys \<and> u_er s' = ENOSPC \<and> tlook ?d' (Suc l) b n = 0 \<or>
      r = tlook ?d' (Suc l) b n \<and> u_er s' = u_er s \<and> r \<noteq> 0 \<and> ?d' r = (\<lambda>_. 0)"
    using G(8) lk [of n] c(2) s2(3) z(3) [of n] D2 [of a] ab by (cases "l = 0") auto
  have rest: "k \<le> length ys" "fl s' (drop k ys)" "same_vol s s'" using G(1-3) same_vol_trans [OF s2(1)] by simp_all
  have out': "\<forall>x. x \<notin> tb ?d (Suc l) b \<union> ?A \<longrightarrow> ?d' x = ?d x"
    using out root_in_tb [of b ?d "Suc l"] by (metis UnCI)
  have data: "\<forall>x. x \<in> tb ?d (Suc l) b \<longrightarrow> x \<notin> inner ?d (Suc l) b \<longrightarrow> ?d' x = ?d x"
    using out sub by (auto simp: inner.simps(2))
  show ?thesis unfolding grown_def
    using rest tr bl out' data oth r old [of n] by simp
qed

lemma bmap_loop_Suc:
  assumes "rderr s b = E_OK" "ra' = (if idx l n < NINDIR - 1 then disk s b (idx l n + 1) else ra)"
  shows "disk s b (idx l n) \<noteq> 0 \<Longrightarrow> bmap_loop wr (Suc l) ra b n s = bmap_loop wr l ra' (disk s b (idx l n)) n s"
    "disk s b (idx l n) = 0 \<Longrightarrow> bmap_loop wr (Suc l) ra b n s = (if \<not> wr then (-1, s)
       else (case balloc True s of (None, s) \<Rightarrow> (-1, s)
             | (Some a, s) \<Rightarrow> bmap_loop wr l ra' a n (upd_blk b ((disk s b)(idx l n := a)) s)))"
  unfolding assms(2) idx_def by (simp_all add: bread_ok assms(1) Let_def del: One_nat_def)

lemma bmap_loop_write:
  assumes "fl s xs" "tree (disk s) l b" "tb (disk s) l b \<inter> set xs = {}" "\<And>x. rderr s x = E_OK" "length xs \<le> 4294967295"
  shows "\<exists>r s' k. bmap_loop True l ra b n s = (r, s') \<and> grown l b n s xs r s' k"
  using assms
proof (induction l arbitrary: ra b s xs)
  case 0
  have "grown 0 b n s xs b (s\<lparr>rablock := ra\<rparr>) 0" using 0 by (auto simp: grown_def same_vol_def fl_def)
  then show ?case by auto
next
  case (Suc l)
  let ?i = "idx l n"
  let ?c = "disk s b ?i" and ?ra = "if ?i < NINDIR - 1 then disk s b (?i + 1) else ra"
  show ?case
  proof (cases "?c = 0")
    case False
    have "tree (disk s) l ?c" "tb (disk s) l ?c \<inter> set xs = {}" using Suc.prems(2,3) False tb_child [of ?i "disk s" b l, OF idx_less False] by (auto simp: tree.simps(2))
    from Suc.IH [OF Suc.prems(1) this Suc.prems(4,5), of ?ra] obtain r s' k where
      r: "bmap_loop True l ?ra ?c n s = (r, s')" "grown l ?c n s xs r s' k" by blast
    have "bmap_loop True (Suc l) ra b n s = (r, s')" using r(1) bmap_loop_Suc(1) [OF Suc.prems(4) refl False] by simp
    then show ?thesis using grown_old [OF Suc.prems(2,3) False r(2)] by blast
  next
    case c: True
    show ?thesis
    proof (cases xs)
      case Nil
      have "bmap_loop True (Suc l) ra b n s = (-1, nospace s)"
        using bmap_loop_Suc(2) [OF Suc.prems(4) refl c] Suc.prems(1) balloc_none [of s True] Nil by simp
      moreover have "grown (Suc l) b n s xs (-1) (nospace s) 0"
        using nospace_fl [of s] c Suc.prems(2) Nil by (simp add: grown_def nospace_def upd_fs_def same_vol_def Let_def tlook.simps(2))
      ultimately show ?thesis by blast
    next
      case (Cons a ys)
      have ly: "length ys < 4294967295" using Suc.prems(5) Cons by simp
      obtain s1 where s1: "balloc True s = (Some a, s1)" "fl s1 ys" "disk s1 = (disk s)(a := (\<lambda>_. 0))" "same_vol s s1" "u_er s1 = u_er s"
        using balloc_some [of s a ys True] Suc.prems(1,4) ly unfolding Cons by auto
      have bx: "b \<notin> set xs" using Suc.prems(3) root_in_tb [of b "disk s" "Suc l"] by blast
      have ab: "a \<noteq> b" "b \<notin> set ys" "a \<notin> set ys" "distinct (a # ys)" 
        using bx fl_distinct [OF Suc.prems(1)] unfolding Cons by auto
      have a0: "a \<noteq> 0" using fl_good [OF Suc.prems(1), of a] Cons by (simp add: good_def)
      define s2 where "s2 = upd_blk b ((disk s1 b)(?i := a)) s1"
      have f2: "fl s2 ys" by (rule fl_disk [OF s1(2)]) (use ab(2) in \<open>auto simp: s2_def upd_blk_def\<close>)
      have d2: "disk s2 = (disk s)(a := (\<lambda>_. 0), b := (disk s b)(?i := a))" using ab(1) by (simp add: s2_def upd_blk_def s1(3))
      have v2: "same_vol s s2" "u_er s2 = u_er s" "\<And>x. rderr s2 x = E_OK"
        using s1(4,5) Suc.prems(4) by (simp_all add: s2_def upd_blk_def same_vol_def)
      have z: "tree (disk s2) l a" "tb (disk s2) l a \<inter> set ys = {}" using tree_zero [of "disk s2" a l] ab d2 by auto
      obtain r s' k where r: "bmap_loop True l ?ra a n s2 = (r, s')" "grown l a n s2 ys r s' k"
        using Suc.IH [OF f2 z v2(3), of ?ra] ly by auto
      have "bmap_loop True (Suc l) ra b n s = (r, s')"
        using r(1) s1(1) unfolding bmap_loop_Suc(2) [OF Suc.prems(4) refl c] by (simp add: s2_def)
      moreover have "grown (Suc l) b n s xs r s' (Suc k)"
        unfolding Cons by (rule grown_new [OF Suc.prems(2) _ c a0 v2(1) d2 v2(2) r(2) ab(4)]) (rule Suc.prems(3) [unfolded Cons])
      ultimately show ?thesis by blast
    qed
  qed
qed

end
