(* ===== verification/Ufs_Bmap.thy ===== *)
theory Ufs_Bmap
  imports Ufs_Tree
begin

text \<open>
  The map from the blocks of a file to the blocks of the volume (\<^verbatim>\<open>src/sys/kernel/ufs_bmap.c\<close>): a file is the seven trees below its
  inode. Reading finds the block of a file, writing adds one, and neither changes any other block of the file.
\<close>

section \<open>Files\<close>

definition lev :: "nat \<Rightarrow> nat" where
  "lev k = (if k < NDADDR then 0 else k - 3)"

text \<open>The address in the inode that covers block \<open>bn\<close>, and the number of the block below that address.\<close>

definition slot :: "int \<Rightarrow> (nat \<times> int) option" where
  "slot bn = (if bn < 0 then None else if bn < 4 then Some (nat bn, 0) else if bn < 260 then Some (4, bn - 4)
     else if bn < 65796 then Some (5, bn - 260) else if bn < 16843012 then Some (6, bn - 65796) else None)"

definition fblocks :: "(int \<Rightarrow> blk) \<Rightarrow> (nat \<Rightarrow> int) \<Rightarrow> int set" where
  "fblocks d a = (\<Union>k\<in>{k. k < NADDR \<and> a k \<noteq> 0}. tb d (lev k) (a k))"

definition file_ok :: "(int \<Rightarrow> blk) \<Rightarrow> (nat \<Rightarrow> int) \<Rightarrow> bool" where
  "file_ok d a \<longleftrightarrow> (\<forall>k<NADDR. a k \<noteq> 0 \<longrightarrow> tree d (lev k) (a k) \<and>
     (\<forall>j<NADDR. j \<noteq> k \<longrightarrow> a j \<noteq> 0 \<longrightarrow> tb d (lev k) (a k) \<inter> tb d (lev j) (a j) = {}))"

definition flook :: "(int \<Rightarrow> blk) \<Rightarrow> (nat \<Rightarrow> int) \<Rightarrow> int \<Rightarrow> int" where
  "flook d a bn = (case slot bn of None \<Rightarrow> 0 | Some (k, n) \<Rightarrow> if a k = 0 then 0 else tlook d (lev k) (a k) n)"

lemma slot_ranges:
  assumes "slot bn = Some (k, n)"
  shows "k < NADDR" "0 \<le> n" "n < 256 ^ lev k"
  using assms by (auto simp: slot_def lev_def split: if_splits)

lemma slot_inj:
  assumes "slot bn = Some (k, n)" "slot bm = Some (k, m)" "bn \<noteq> bm"
  shows "m mod 256 ^ lev k \<noteq> n mod 256 ^ lev k"
proof -
  have "m \<noteq> n" using assms by (auto simp: slot_def split: if_splits)
  then show ?thesis using slot_ranges [OF assms(1)] slot_ranges [OF assms(2)] by simp
qed

text \<open>The tree below one address grows, or is planted.\<close>

lemma file_grow:
  assumes f: "file_ok d a" and k: "k < NADDR" and c: "c \<noteq> 0" "tree d' (lev k) c"
    and C: "tb d' (lev k) c = (if a k = 0 then {} else tb d (lev k) (a k)) \<union> A" and A: "A \<inter> fblocks d a = {}"
    and u: "\<And>x. x \<notin> tb d' (lev k) c \<Longrightarrow> d' x = d x"
  shows "file_ok d' (a(k := c))" "fblocks d' (a(k := c)) = fblocks d a \<union> A"
    "\<And>j n. j < NADDR \<Longrightarrow> j \<noteq> k \<Longrightarrow> a j \<noteq> 0 \<Longrightarrow> tlook d' (lev j) (a j) n = tlook d (lev j) (a j) n"
proof -
  have sub: "tb d (lev j) (a j) \<subseteq> fblocks d a" if "j < NADDR" "a j \<noteq> 0" for j using that by (auto simp: fblocks_def)
  have o: "tb d' (lev k) c \<inter> tb d (lev j) (a j) = {}" if j: "j < NADDR" "j \<noteq> k" "a j \<noteq> 0" for j
  proof -
    have "a k \<noteq> 0 \<Longrightarrow> tb d (lev k) (a k) \<inter> tb d (lev j) (a j) = {}" using f k j unfolding file_ok_def by blast
    moreover have "A \<inter> tb d (lev j) (a j) = {}" using A sub j by blast
    ultimately show ?thesis unfolding C by auto
  qed
  have T: "tb d' (lev j) (a j) = tb d (lev j) (a j) \<and> tree d' (lev j) (a j) = tree d (lev j) (a j) \<and>
      (\<forall>n. tlook d' (lev j) (a j) n = tlook d (lev j) (a j) n)" if "j < NADDR" "j \<noteq> k" "a j \<noteq> 0" for j
    by (rule tree_cong, rule u) (use o [OF that] in blast)
  show "\<And>j n. j < NADDR \<Longrightarrow> j \<noteq> k \<Longrightarrow> a j \<noteq> 0 \<Longrightarrow> tlook d' (lev j) (a j) n = tlook d (lev j) (a j) n" using T by blast
  have "fblocks d a = (if a k = 0 then {} else tb d (lev k) (a k)) \<union> (\<Union>j\<in>{j. j < NADDR \<and> j \<noteq> k \<and> a j \<noteq> 0}. tb d (lev j) (a j))"
    using k by (auto simp: fblocks_def)
  moreover have "fblocks d' (a(k := c)) = tb d' (lev k) c \<union> (\<Union>j\<in>{j. j < NADDR \<and> j \<noteq> k \<and> a j \<noteq> 0}. tb d (lev j) (a j))"
    using k c(1) T by (auto simp: fblocks_def split: if_splits)
  ultimately show "fblocks d' (a(k := c)) = fblocks d a \<union> A" unfolding C by auto
  show "file_ok d' (a(k := c))" unfolding file_ok_def
  proof (intro allI impI conjI)
    fix j assume j: "j < NADDR" "(a(k := c)) j \<noteq> 0"
    show "tree d' (lev j) ((a(k := c)) j)" using f j T [of j] c(2) unfolding file_ok_def by (cases "j = k") auto
    fix m assume m: "m < NADDR" "m \<noteq> j" "(a(k := c)) m \<noteq> 0"
    consider "j = k" | "m = k" | "j \<noteq> k" "m \<noteq> k" by blast
    then show "tb d' (lev j) ((a(k := c)) j) \<inter> tb d' (lev m) ((a(k := c)) m) = {}"
    proof cases
      case 1
      then show ?thesis using o [of m] T [of m] m by simp
    next
      case 2
      then show ?thesis using o [of j] T [of j] m j by (simp add: Int_commute)
    next
      case 3
      then have "tb d (lev j) (a j) \<inter> tb d (lev m) (a m) = {}" using f j m unfolding file_ok_def by auto
      then show ?thesis using 3 T [of j] T [of m] j m by simp
    qed
  qed
qed

section \<open>The cases of bmap\<close>

lemma indir_slot: "4 \<le> bn \<Longrightarrow> indir_level 3 1 (bn - 4) = (case slot bn of None \<Rightarrow> None | Some (k, n) \<Rightarrow> Some (lev k, n))"
  by (simp add: slot_def lev_def eval_nat_numeral(2,3))

lemma slot_direct: "slot bn = Some (k, n) \<Longrightarrow> k < NDADDR \<longleftrightarrow> bn < 4"
  by (auto simp: slot_def split: if_splits)

lemma slot_some: "0 \<le> bn \<Longrightarrow> bn < 16843012 \<Longrightarrow> \<exists>k n. slot bn = Some (k, n)"
  by (simp add: slot_def)

lemma slot_neg: "slot bn = Some (k, n) \<Longrightarrow> 0 \<le> bn"
  by (auto simp: slot_def split: if_splits)

lemma bmap_out: "0 \<le> bn \<Longrightarrow> slot bn = None \<Longrightarrow> bmap wr clr bn ip s = (0, ip, s\<lparr>rablock := 0, u_er := EFBIG\<rparr>)"
  using indir_slot [of bn] by (simp add: bmap_def slot_def split: if_splits)

lemma bmap_mapped:
  assumes s: "slot bn = Some (k, n)" and a: "i_addr ip k \<noteq> 0"
  shows "\<exists>ra. bmap wr clr bn ip s = (let (r, s') = bmap_loop wr (lev k) ra (i_addr ip k) n (s\<lparr>rablock := 0\<rparr>) in (r, ip, s'))"
proof (cases "bn < 4")
  case True
  then have "k = nat bn" "lev k = 0" using s slot_neg [OF s] by (auto simp: slot_def lev_def)
  then show ?thesis using True slot_neg [OF s] a by (auto simp: bmap_def Let_def)
next
  case False
  moreover have "\<not> k < NDADDR" using slot_direct [OF s] False by simp
  then have "NDADDR + lev k - 1 = k" by (simp add: lev_def)
  ultimately show ?thesis using slot_neg [OF s] indir_slot [of bn] s a by (auto simp: bmap_def Let_def)
qed

lemma bmap_unmapped_read:
  assumes s: "slot bn = Some (k, n)" and a: "i_addr ip k = 0"
  shows "bmap False clr bn ip s = (-1, ip, s\<lparr>rablock := 0\<rparr>)"
proof (cases "bn < 4")
  case True
  then have "k = nat bn" using s slot_neg [OF s] by (auto simp: slot_def)
  then show ?thesis using True slot_neg [OF s] a by (auto simp: bmap_def Let_def)
next
  case False
  moreover have "\<not> k < NDADDR" using slot_direct [OF s] False by simp
  then have "NDADDR + lev k - 1 = k" by (simp add: lev_def)
  ultimately show ?thesis using slot_neg [OF s] indir_slot [of bn] s a by (auto simp: bmap_def Let_def)
qed

lemma bmap_unmapped_write:
  assumes s: "slot bn = Some (k, n)" and a: "i_addr ip k = 0"
  shows "\<exists>ra. bmap True clr bn ip s = (case balloc (if k < NDADDR then clr else True) (s\<lparr>rablock := 0\<rparr>) of (None, s) \<Rightarrow> (-1, ip, s)
    | (Some b, s) \<Rightarrow> let (r, s) = bmap_loop True (lev k) ra b n s in (r, ip\<lparr>i_addr := (i_addr ip)(k := b), i_chg := True\<rparr>, s))"
proof (cases "bn < 4")
  case True
  then have "k = nat bn" "lev k = 0" "k < NDADDR" using s slot_neg [OF s] by (auto simp: slot_def lev_def)
  then show ?thesis using True slot_neg [OF s] a
    by (intro exI [of _ "if nat bn < 3 then i_addr ip (nat bn + 1) else 0"]) (auto simp: bmap_def Let_def split: prod.splits option.splits)
next
  case False
  have k: "\<not> k < NDADDR" using slot_direct [OF s] False by simp
  then have "NDADDR + lev k - 1 = k" by (simp add: lev_def)
  then show ?thesis using False k slot_neg [OF s] indir_slot [of bn] s a
    by (intro exI [of _ 0]) (simp add: bmap_def Let_def split: prod.splits option.splits)
qed

section \<open>Reading\<close>

lemma bmap_reads:
  assumes "\<And>x. rderr s x = E_OK" "0 \<le> bn" "bn < 16843012"
  shows "\<exists>ra. bmap False clr bn ip s = (if flook (disk s) (i_addr ip) bn = 0 then -1 else flook (disk s) (i_addr ip) bn, ip, s\<lparr>rablock := ra\<rparr>)"
proof -
  obtain k n where sl: "slot bn = Some (k, n)" using slot_some [OF assms(2,3)] by blast
  let ?a = "i_addr ip k"
  show ?thesis
  proof (cases "?a = 0")
    case True
    then show ?thesis using bmap_unmapped_read [OF sl True, of clr s] by (auto simp: flook_def sl)
  next
    case False
    obtain ra where b: "bmap False clr bn ip s = (let (r, s') = bmap_loop False (lev k) ra ?a n (s\<lparr>rablock := 0\<rparr>) in (r, ip, s'))"
      using bmap_mapped [OF sl False] by blast
    have "\<And>x. rderr (s\<lparr>rablock := 0\<rparr>) x = E_OK" using assms(1) by simp
    from bmap_loop_read [OF this, of "lev k" ra ?a n] obtain ra' where
      "bmap_loop False (lev k) ra ?a n (s\<lparr>rablock := 0\<rparr>) = (if tlook (disk (s\<lparr>rablock := 0\<rparr>)) (lev k) ?a n = 0 \<and> lev k \<noteq> 0 then (-1, s\<lparr>rablock := 0\<rparr>)
         else (tlook (disk (s\<lparr>rablock := 0\<rparr>)) (lev k) ?a n, s\<lparr>rablock := 0, rablock := ra'\<rparr>))" by blast
    then show ?thesis using False by (cases "lev k = 0"; cases "tlook (disk s) (lev k) ?a n = 0") (auto simp: flook_def sl b)
  qed
qed

section \<open>Writing\<close>

text \<open>
  What \<^verbatim>\<open>bmap\<close> for writing does to a volume with the free blocks \<open>xs\<close>: \<open>j\<close> of them become blocks of the file, no other block of the
  volume, no data block of the file and no other entry of the map changes.
\<close>

definition fgrown :: "int \<Rightarrow> inode \<Rightarrow> ufs \<Rightarrow> int list \<Rightarrow> int \<Rightarrow> inode \<Rightarrow> ufs \<Rightarrow> nat \<Rightarrow> bool" where
  "fgrown bn ip s xs r ip' s' j \<longleftrightarrow> j \<le> length xs \<and> fl s' (drop j xs) \<and> same_vol s s' \<and> file_ok (disk s') (i_addr ip') \<and>
     fblocks (disk s') (i_addr ip') = fblocks (disk s) (i_addr ip) \<union> set (take j xs) \<and> i_size ip' = i_size ip \<and>
     (\<forall>x. x \<notin> fblocks (disk s) (i_addr ip) \<union> set (take j xs) \<longrightarrow> disk s' x = disk s x) \<and>
     (\<forall>m. flook (disk s) (i_addr ip) m \<noteq> 0 \<longrightarrow> disk s' (flook (disk s) (i_addr ip) m) = disk s (flook (disk s) (i_addr ip) m)) \<and>
     (\<forall>m. m \<noteq> bn \<longrightarrow> flook (disk s') (i_addr ip') m = flook (disk s) (i_addr ip) m) \<and>
     (r = -1 \<and> j = length xs \<and> u_er s' = ENOSPC \<and> flook (disk s) (i_addr ip) bn = 0 \<and> flook (disk s') (i_addr ip') bn = 0 \<or>
      r = flook (disk s') (i_addr ip') bn \<and> r \<noteq> 0 \<and> u_er s' = u_er s \<and> (flook (disk s) (i_addr ip) bn \<noteq> 0 \<longrightarrow> j = 0 \<and> ip' = ip \<and> disk s' = disk s))"

lemma flook_other:
  assumes sl: "slot bn = Some (k, n)" and ne: "m \<noteq> bn"
    and o: "\<And>i x. i < NADDR \<Longrightarrow> i \<noteq> k \<Longrightarrow> a i \<noteq> 0 \<Longrightarrow> tlook d' (lev i) (a i) x = tlook d (lev i) (a i) x"
    and t: "\<And>x. x mod 256 ^ lev k \<noteq> n mod 256 ^ lev k \<Longrightarrow> tlook d' (lev k) c x = (if a k = 0 then 0 else tlook d (lev k) (a k) x)"
    and c: "c \<noteq> 0"
  shows "flook d' (a(k := c)) m = flook d a m"
proof (cases "slot m")
  case None
  then show ?thesis by (simp add: flook_def)
next
  case (Some z)
  then obtain i x where sm: "slot m = Some (i, x)" by (cases z) auto
  show ?thesis
  proof (cases "i = k")
    case True
    then show ?thesis using t [of x] slot_inj [OF sl, of m x] sm ne c by (simp add: flook_def)
  next
    case False
    then show ?thesis using o [of i x] slot_ranges(1) [OF sm] by (simp add: flook_def sm)
  qed
qed

lemma leaf_fblocks:
  assumes "flook d a m \<noteq> 0"
  shows "flook d a m \<in> fblocks d a"
proof -
  obtain k n where sl: "slot m = Some (k, n)" "a k \<noteq> 0" "flook d a m = tlook d (lev k) (a k) n"
    using assms by (auto simp: flook_def split: option.splits if_splits)
  then show ?thesis using leaf_in [of d "lev k" "a k" n] slot_ranges(1) [OF sl(1)] assms by (auto simp: fblocks_def)
qed

lemma data_kept:
  assumes f: "file_ok d a" and k: "k < NADDR"
    and o: "\<And>x. x \<notin> tb d (lev k) (a k) \<union> A \<Longrightarrow> d' x = d x" and i: "\<And>x. x \<in> tb d (lev k) (a k) \<Longrightarrow> x \<notin> inner d (lev k) (a k) \<Longrightarrow> d' x = d x"
    and A: "A \<inter> fblocks d a = {}" and m: "flook d a m \<noteq> 0" and ak: "a k \<noteq> 0"
  shows "d' (flook d a m) = d (flook d a m)"
proof -
  obtain h n where sl: "slot m = Some (h, n)" "a h \<noteq> 0" "flook d a m = tlook d (lev h) (a h) n"
    using m by (auto simp: flook_def split: option.splits if_splits)
  have h: "h < NADDR" "tree d (lev h) (a h)" "tlook d (lev h) (a h) n \<noteq> 0" using slot_ranges(1) [OF sl(1)] f sl m by (simp_all add: file_ok_def)
  have nA: "flook d a m \<notin> A" using A leaf_fblocks [OF m] by blast
  show ?thesis
  proof (cases "h = k")
    case True
    then show ?thesis using i leaf_in [OF h(3)] leaf_not_inner [OF h(2,3)] sl(3) by simp
  next
    case False
    then have "tb d (lev h) (a h) \<inter> tb d (lev k) (a k) = {}" using f h(1) k sl(2) ak unfolding file_ok_def by blast
    then show ?thesis using o leaf_in [OF h(3)] sl(3) nA by auto
  qed
qed

lemma fgrown_old:
  assumes sl: "slot bn = Some (k, n)" and a: "i_addr ip k \<noteq> 0" and f: "file_ok (disk s) (i_addr ip)"
    and x: "fblocks (disk s) (i_addr ip) \<inter> set xs = {}" and g: "grown (lev k) (i_addr ip k) n s xs r s' j"
  shows "fgrown bn ip s xs r ip s' j"
proof -
  note G = grownD [OF g] and k = slot_ranges(1) [OF sl]
  let ?a = "i_addr ip"
  have A: "set (take j xs) \<inter> fblocks (disk s) ?a = {}" using x set_take_subset [of j xs] by blast
  have C: "tb (disk s') (lev k) (?a k) = (if ?a k = 0 then {} else tb (disk s) (lev k) (?a k)) \<union> set (take j xs)" using G(5) a by simp
  have u: "\<And>x. x \<notin> tb (disk s') (lev k) (?a k) \<Longrightarrow> disk s' x = disk s x" using G(5,6) by simp
  note K = file_grow [OF f k a G(4) C A u, simplified]
  have sub: "tb (disk s) (lev k) (?a k) \<subseteq> fblocks (disk s) ?a" using k a by (auto simp: fblocks_def)
  have out: "\<forall>x. x \<notin> fblocks (disk s) ?a \<union> set (take j xs) \<longrightarrow> disk s' x = disk s x" using G(6) sub by blast
  have oth: "flook (disk s') ?a m = flook (disk s) ?a m" if "m \<noteq> bn" for m
    using flook_other [OF sl that, of ?a "disk s'" "disk s" "?a k"] K(3) G(7) a by simp
  have "flook (disk s') ?a bn = tlook (disk s') (lev k) (?a k) n" "flook (disk s) ?a bn = tlook (disk s) (lev k) (?a k) n"
    using a by (simp_all add: flook_def sl)
  moreover have "lev k = 0 \<Longrightarrow> tlook (disk s') (lev k) (?a k) n \<noteq> 0" using a by simp
  moreover have "\<forall>m. flook (disk s) ?a m \<noteq> 0 \<longrightarrow> disk s' (flook (disk s) ?a m) = disk s (flook (disk s) ?a m)"
    using data_kept [OF f k, of "set (take j xs)" "disk s'"] G(6,9) A a by blast
  ultimately show ?thesis unfolding fgrown_def using G(1-3,8) K(1,2) out oth by auto
qed

lemma fgrown_new:
  assumes sl: "slot bn = Some (k, n)" and a: "i_addr ip k = 0" "b \<noteq> 0" and f: "file_ok (disk s) (i_addr ip)"
    and x: "fblocks (disk s) (i_addr ip) \<inter> set (b # ys) = {}"
    and s1: "tree (disk s1) (lev k) b" "tb (disk s1) (lev k) b = {b}" "\<And>m. tlook (disk s1) (lev k) b m = (if lev k = 0 then b else 0)"
      "\<And>x. x \<noteq> b \<Longrightarrow> disk s1 x = disk s x" "same_vol s s1" "u_er s1 = u_er s"
    and g: "grown (lev k) b n s1 ys r s' j"
  shows "fgrown bn ip s (b # ys) r (ip\<lparr>i_addr := (i_addr ip)(k := b), i_chg := True\<rparr>) s' (Suc j)"
proof -
  note G = grownD [OF g] and k = slot_ranges(1) [OF sl]
  let ?a = "i_addr ip" and ?A = "set (take (Suc j) (b # ys))"
  have A: "?A \<inter> fblocks (disk s) ?a = {}" using x set_take_subset [of j ys] by auto
  have C: "tb (disk s') (lev k) b = (if ?a k = 0 then {} else tb (disk s) (lev k) (?a k)) \<union> ?A" using G(5) a s1(2) by simp
  have u: "\<And>x. x \<notin> tb (disk s') (lev k) b \<Longrightarrow> disk s' x = disk s x" using G(5,6) s1(2,4) by simp
  note K = file_grow [OF f k a(2) G(4) C A u]
  have out: "\<forall>x. x \<notin> fblocks (disk s) ?a \<union> ?A \<longrightarrow> disk s' x = disk s x" using u C a by simp
  have "tlook (disk s') (lev k) b m = 0" if "m mod 256 ^ lev k \<noteq> n mod 256 ^ lev k" for m
  proof -
    have "lev k \<noteq> 0" using that by (intro notI) simp
    then show ?thesis using G(7) [OF that] s1(3) by simp
  qed
  then have oth: "flook (disk s') (?a(k := b)) m = flook (disk s) ?a m" if "m \<noteq> bn" for m
    using flook_other [OF sl that, of ?a "disk s'" "disk s" b] K(3) a by simp
  have fb: "flook (disk s') (?a(k := b)) bn = tlook (disk s') (lev k) b n" "flook (disk s) ?a bn = 0" using a by (simp_all add: flook_def sl)
  have r: "r = -1 \<and> j = length ys \<and> u_er s' = ENOSPC \<and> tlook (disk s') (lev k) b n = 0 \<or>
      r = tlook (disk s') (lev k) b n \<and> u_er s' = u_er s \<and> r \<noteq> 0"
    using G(8) a(2) s1(6) by (cases "lev k = 0") auto
  have vol: "same_vol s s'" using same_vol_trans [OF s1(5) G(3)] .
  have "disk s' x = disk s x" if "x \<in> fblocks (disk s) ?a" for x
    by (rule u) (use that A C a(1) in \<open>simp del: take_Suc_Cons, blast\<close>)
  then have "\<forall>m. flook (disk s) ?a m \<noteq> 0 \<longrightarrow> disk s' (flook (disk s) ?a m) = disk s (flook (disk s) ?a m)"
    using leaf_fblocks by blast
  then show ?thesis unfolding fgrown_def using G(1,2) vol K(1,2) out oth r fb by auto
qed

lemma bmap_writes:
  assumes sl: "slot bn = Some (k, n)" and s0: "s0 = s\<lparr>rablock := 0\<rparr>" and fl: "fl s0 xs" and f: "file_ok (disk s0) (i_addr ip)"
    and x: "fblocks (disk s0) (i_addr ip) \<inter> set xs = {}" and rd: "\<And>x. rderr s0 x = E_OK" and len: "length xs < 4294967296"
  shows "\<exists>r ip' s' j. bmap True clr bn ip s = (r, ip', s') \<and> fgrown bn ip s0 xs r ip' s' j"
proof (cases "i_addr ip k = 0")
  case False
  obtain ra where b: "bmap True clr bn ip s = (let (r, s') = bmap_loop True (lev k) ra (i_addr ip k) n s0 in (r, ip, s'))"
    using bmap_mapped [OF sl False] unfolding s0 by blast
  have t: "tree (disk s0) (lev k) (i_addr ip k)" "tb (disk s0) (lev k) (i_addr ip k) \<inter> set xs = {}"
    using f x slot_ranges(1) [OF sl] False by (auto simp: file_ok_def fblocks_def)
  obtain r s' j where "bmap_loop True (lev k) ra (i_addr ip k) n s0 = (r, s')" "grown (lev k) (i_addr ip k) n s0 xs r s' j"
    using bmap_loop_write [OF fl t rd, of ra n] len by auto
  then show ?thesis using fgrown_old [OF sl False f x] by (auto simp: b)
next
  case a: True
  let ?clr = "if k < NDADDR then clr else True"
  obtain ra where b: "bmap True clr bn ip s = (case balloc ?clr s0 of (None, s) \<Rightarrow> (-1, ip, s)
    | (Some b, s) \<Rightarrow> let (r, s) = bmap_loop True (lev k) ra b n s in (r, ip\<lparr>i_addr := (i_addr ip)(k := b), i_chg := True\<rparr>, s))"
    using bmap_unmapped_write [OF sl a] unfolding s0 by blast
  show ?thesis
  proof (cases xs)
    case Nil
    then have "bmap True clr bn ip s = (-1, ip, nospace s0)" using balloc_none [of s0] fl b by simp
    moreover have "fgrown bn ip s0 xs (-1) ip (nospace s0) 0"
      using f nospace_fl a Nil by (simp add: fgrown_def nospace_def upd_fs_def same_vol_def flook_def sl)
    ultimately show ?thesis by blast
  next
    case (Cons c ys)
    have ly: "length ys < 4294967295" using len Cons by simp
    obtain s1 where s1: "balloc ?clr s0 = (Some c, s1)" "fl s1 ys" "disk s1 = (if ?clr then (disk s0)(c := (\<lambda>_. 0)) else disk s0)"
      "same_vol s0 s1" "u_er s1 = u_er s0" using balloc_some [of s0 c ys ?clr] fl rd ly unfolding Cons by blast
    have "lev k = 0 \<or> disk s1 c = (\<lambda>_. 0)" using s1(3) by (simp add: lev_def)
    then have z: "tree (disk s1) (lev k) c" "tb (disk s1) (lev k) c = {c}" "\<And>m. tlook (disk s1) (lev k) c m = (if lev k = 0 then c else 0)"
      using tree_zero [of "disk s1" c "lev k"] by auto
    have c: "c \<noteq> 0" "c \<notin> set ys" using fl_good [OF fl, of c] fl_distinct [OF fl] Cons by (auto simp: good_def)
    have d1: "\<And>x. x \<noteq> c \<Longrightarrow> disk s1 x = disk s0 x" using s1(3) by (simp split: if_splits)
    have rd1: "\<And>x. rderr s1 x = E_OK" using s1(4) rd by (simp add: same_vol_def)
    obtain r s' j where r: "bmap_loop True (lev k) ra c n s1 = (r, s')" "grown (lev k) c n s1 ys r s' j"
      using bmap_loop_write [OF s1(2) z(1) _ rd1, of ra n] z(2) c(2) ly by auto
    have "bmap True clr bn ip s = (r, ip\<lparr>i_addr := (i_addr ip)(k := c), i_chg := True\<rparr>, s')" using b s1(1) r(1) by simp
    then show ?thesis using fgrown_new [OF sl a c(1) f x [unfolded Cons] z d1 s1(4,5) r(2)] unfolding Cons by blast
  qed
qed

lemma bmap_grown:
  assumes "fl s xs" "file_ok (disk s) (i_addr ip)" "fblocks (disk s) (i_addr ip) \<inter> set xs = {}"
    "\<And>x. rderr s x = E_OK" "length xs < 4294967296" "0 \<le> bn" "bn < 16843012"
  shows "\<exists>r ip' s' j. bmap True clr bn ip s = (r, ip', s') \<and> fgrown bn ip s xs r ip' s' j"
proof -
  let ?s = "s\<lparr>rablock := 0\<rparr>"
  obtain k n where sl: "slot bn = Some (k, n)" using slot_some [OF assms(6,7)] by blast
  obtain r ip' s' j where r: "bmap True clr bn ip s = (r, ip', s')" "fgrown bn ip ?s xs r ip' s' j"
    using bmap_writes [OF sl refl fl_disk [OF assms(1), of ?s], of ip clr] assms(2-5) by auto
  then show ?thesis by (auto simp: fgrown_def same_vol_def)
qed

text \<open>A block that is new in the map is clear, if that was asked for or it hangs below an indirect block.\<close>

lemma bmap_fresh:
  assumes fl: "fl s xs" and f: "file_ok (disk s) (i_addr ip)" and x: "fblocks (disk s) (i_addr ip) \<inter> set xs = {}"
    and rd: "\<And>x. rderr s x = E_OK" and len: "length xs < 4294967296" and bn: "0 \<le> bn" "bn < 16843012"
    and bm: "bmap True clr bn ip s = (r, ip', s')" and new: "flook (disk s) (i_addr ip) bn = 0" "r \<noteq> -1" "clr \<or> 4 \<le> bn"
  shows "disk s' r = (\<lambda>_. 0)"
proof -
  obtain k n where sl: "slot bn = Some (k, n)" using slot_some [OF bn] by blast
  define s0 where "s0 = s\<lparr>rablock := 0\<rparr>"
  have fl0: "fl s0 xs" and rd0: "\<And>x. rderr s0 x = E_OK" and d0: "disk s0 = disk s" using fl_disk [OF fl, of s0] rd by (simp_all add: s0_def)
  show ?thesis
  proof (cases "i_addr ip k = 0")
    case False
    obtain ra where b: "bmap True clr bn ip s = (let (r, s') = bmap_loop True (lev k) ra (i_addr ip k) n s0 in (r, ip, s'))"
      using bmap_mapped [OF sl False] unfolding s0_def by blast
    have t: "tree (disk s0) (lev k) (i_addr ip k)" "tb (disk s0) (lev k) (i_addr ip k) \<inter> set xs = {}"
      using f x slot_ranges(1) [OF sl] False by (auto simp: file_ok_def fblocks_def d0)
    obtain j where "grown (lev k) (i_addr ip k) n s0 xs r s' j"
      using bmap_loop_write [OF fl0 t rd0, of ra n] len bm b by auto
    note grownD(8) [OF this]
    moreover have "tlook (disk s0) (lev k) (i_addr ip k) n = 0" using new(1) False by (simp add: flook_def sl d0)
    moreover have "lev k \<noteq> 0" using calculation(2) False by (intro notI) simp
    ultimately show ?thesis using new(2) by blast
  next
    case a: True
    let ?clr = "if k < NDADDR then clr else True"
    have c: ?clr using new(3) slot_direct [OF sl] by auto
    obtain ra where b: "bmap True clr bn ip s = (case balloc True s0 of (None, s) \<Rightarrow> (-1, ip, s)
      | (Some b, s) \<Rightarrow> let (r, s) = bmap_loop True (lev k) ra b n s in (r, ip\<lparr>i_addr := (i_addr ip)(k := b), i_chg := True\<rparr>, s))"
      using bmap_unmapped_write [OF sl a, of clr s] c unfolding s0_def by auto
    have "xs \<noteq> []" using balloc_none [of s0] fl0 b bm new(2) by auto
    then obtain e ys where xs: "xs = e # ys" by (cases xs) auto
    obtain s1 where s1: "balloc True s0 = (Some e, s1)" "fl s1 ys" "disk s1 = (disk s0)(e := (\<lambda>_. 0))" "same_vol s0 s1"
      using balloc_some [of s0 e ys True] fl0 rd0 len unfolding xs by auto
    have z: "tree (disk s1) (lev k) e" "tb (disk s1) (lev k) e \<inter> set ys = {}" "lev k \<noteq> 0 \<Longrightarrow> tlook (disk s1) (lev k) e n = 0"
      using tree_zero [of "disk s1" e "lev k"] fl_distinct [OF fl0] xs s1(3) by auto
    have rd1: "\<And>x. rderr s1 x = E_OK" using s1(4) rd0 by (simp add: same_vol_def)
    obtain j where "grown (lev k) e n s1 ys r s' j"
      using bmap_loop_write [OF s1(2) z(1,2) rd1, of ra n] len bm b s1(1) xs by auto
    from grownD(8) [OF this] show ?thesis using z(3) s1(3) new(2) by (cases "lev k = 0") auto
  qed
qed

text \<open>
  C6. \<^verbatim>\<open>bmap\<close> for writing, on a file whose blocks form a tree and a volume whose free list is \<open>xs\<close>, for every block number of a file:
  it takes the first \<open>j\<close> free blocks and no others; they become blocks of the file, which still form a tree; no other block of the
  volume and no data of the file changes and every other block number of the file is mapped as before. It returns the block now mapped for \<open>bn\<close>, keeping a block that was mapped,
  and a read then finds the same block; or no free block is left, the result is -1 with \<^verbatim>\<open>ENOSPC\<close>, and \<open>bn\<close> is still not mapped.
\<close>

theorem bmap_extends:
  assumes "fl s xs" "file_ok (disk s) (i_addr ip)" "fblocks (disk s) (i_addr ip) \<inter> set xs = {}"
    "\<And>x. rderr s x = E_OK" "length xs < 4294967296" "0 \<le> bn" "bn < 16843012"
  shows "\<exists>r ip' s' j. bmap True clr bn ip s = (r, ip', s') \<and> fgrown bn ip s xs r ip' s' j \<and>
    (\<exists>ra. bmap False clr bn ip' s' = (r, ip', s'\<lparr>rablock := ra\<rparr>))"
proof -
  obtain r ip' s' j where r: "bmap True clr bn ip s = (r, ip', s')" "fgrown bn ip s xs r ip' s' j" using bmap_grown [OF assms] by blast
  then have rd: "\<And>x. rderr s' x = E_OK" using assms(4) by (simp add: fgrown_def same_vol_def)
  have "r = -1 \<and> flook (disk s') (i_addr ip') bn = 0 \<or> r = flook (disk s') (i_addr ip') bn \<and> r \<noteq> 0"
    using r(2) unfolding fgrown_def by blast
  then have "\<exists>ra. bmap False clr bn ip' s' = (r, ip', s'\<lparr>rablock := ra\<rparr>)" using bmap_reads [OF rd assms(6,7), of clr ip'] by auto
  then show ?thesis using r by blast
qed

definition demo_ip :: inode where
  "demo_ip = \<lparr>i_addr = (\<lambda>_. 0), i_size = 0, i_pipe = False, i_chg = False\<rparr>"

theorem bmap_extends_witness:
  "\<exists>r ip' s' j. bmap True False 5 demo_ip demo_vol = (r, ip', s') \<and> fgrown 5 demo_ip demo_vol [30, 20] r ip' s' j \<and>
    (\<exists>ra. bmap False False 5 ip' s' = (r, ip', s'\<lparr>rablock := ra\<rparr>))"
  by (rule bmap_extends [OF demo_vol_fl]) (simp_all add: demo_ip_def demo_vol_def file_ok_def fblocks_def)

end
