(* ===== verification/Ufs_Trunc.thy ===== *)
theory Ufs_Trunc
  imports Ufs_Bmap
begin

text \<open>
  Truncation of a file (\<^verbatim>\<open>trsingle\<close>, \<^verbatim>\<open>indirtrunc\<close> and \<^verbatim>\<open>itrunc\<close> of \<^verbatim>\<open>src/sys/kernel/ufs_inode.c\<close>): the blocks after the new end go back
  to the free list, each of them once, and the blocks before it are kept. The children of an indirect block and the addresses of an
  inode are both a forest, cut at one index.
\<close>

section \<open>A volume and the blocks in use\<close>

abbreviation vol :: "ufs \<Rightarrow> int list \<Rightarrow> int set \<Rightarrow> bool" where
  "vol s xs B \<equiv> vol_rep (s, B) (xs, B)"

lemma vol_def: "vol s xs B \<longleftrightarrow> fl s xs \<and> set xs \<inter> B = {} \<and> finite B \<and> (\<forall>b\<in>B. good (fsb s) b) \<and> (\<forall>b. rderr s b = E_OK) \<and>
    length xs + card B < 4294967296"
  by (simp add: vol_rep_def)

lemma vol_free:
  assumes v: "vol s xs B" and b: "b \<in> B"
  shows "vol (free b s) (b # xs) (B - {b})" "\<And>x. x \<noteq> b \<Longrightarrow> disk (free b s) x = disk s x" "u_er (free b s) = u_er s"
proof -
  have V: "fl s xs" "set xs \<inter> B = {}" "finite B" "\<forall>b\<in>B. good (fsb s) b" "length xs + card B < 4294967296"
    using v by (simp_all add: vol_def)
  have "card B = Suc (card (B - {b}))" by (rule card.remove [OF V(3) b])
  then have l: "length xs < 4294967295" using V(5) by linarith
  have n: "good (fsb s) b" "b \<notin> set xs" using V(2,4) b by auto
  show "vol (free b s) (b # xs) (B - {b})" using bstep_sim [OF v, of "BFree b"] b by (auto simp del: One_nat_def)
  show "u_er (free b s) = u_er s" "\<And>x. x \<noteq> b \<Longrightarrow> disk (free b s) x = disk s x" using free_ok [OF V(1) n l] by auto
qed

lemma vol_write: "vol s xs B \<Longrightarrow> b \<in> B \<Longrightarrow> vol (upd_blk b v s) xs B"
  using bstep_sim [of "(s, B)" "(xs, B)" "BWrite b v"] by auto

lemma vol_read: "vol s xs B \<Longrightarrow> bread b s = (True, s)"
  by (rule bread_ok) (simp add: vol_def)

section \<open>Forests\<close>

text \<open>Trees of the levels \<open>L i\<close> below the addresses \<open>a i\<close>, for \<open>i \<in> I\<close>.\<close>

definition forest :: "(int \<Rightarrow> blk) \<Rightarrow> (nat \<Rightarrow> nat) \<Rightarrow> nat set \<Rightarrow> (nat \<Rightarrow> int) \<Rightarrow> bool" where
  "forest d L I a \<longleftrightarrow> (\<forall>i\<in>I. a i \<noteq> 0 \<longrightarrow> tree d (L i) (a i) \<and>
     (\<forall>j\<in>I. j \<noteq> i \<longrightarrow> a j \<noteq> 0 \<longrightarrow> tb d (L i) (a i) \<inter> tb d (L j) (a j) = {}))"

definition fb :: "(int \<Rightarrow> blk) \<Rightarrow> (nat \<Rightarrow> nat) \<Rightarrow> nat set \<Rightarrow> (nat \<Rightarrow> int) \<Rightarrow> int set" where
  "fb d L I a = (\<Union>i\<in>{i. i \<in> I \<and> a i \<noteq> 0}. tb d (L i) (a i))"

lemma file_forest: "file_ok d a = forest d lev {..<NADDR} a" "fblocks d a = fb d lev {..<NADDR} a"
  by (simp_all add: file_ok_def forest_def fblocks_def fb_def Ball_def)

lemma tree_forest: "tree d (Suc l) b \<longleftrightarrow> forest d (\<lambda>_. l) {..<NINDIR} (d b) \<and> b \<notin> fb d (\<lambda>_. l) {..<NINDIR} (d b)"
  "tb d (Suc l) b = insert b (fb d (\<lambda>_. l) {..<NINDIR} (d b))"
  by (auto simp: forest_def fb_def tree.simps(2) tb.simps(2))

lemma fb_sub: "i \<in> I \<Longrightarrow> a i \<noteq> 0 \<Longrightarrow> tb d (L i) (a i) \<subseteq> fb d L I a"
  by (auto simp: fb_def)

lemma forest_cong:
  assumes "\<And>x. x \<in> fb d L I a \<Longrightarrow> d' x = d x"
  shows "forest d' L I a = forest d L I a" "fb d' L I a = fb d L I a"
    "i \<in> I \<Longrightarrow> a i \<noteq> 0 \<Longrightarrow> tlook d' (L i) (a i) n = tlook d (L i) (a i) n"
proof -
  have T: "tb d' (L i) (a i) = tb d (L i) (a i) \<and> tree d' (L i) (a i) = tree d (L i) (a i) \<and>
      (\<forall>n. tlook d' (L i) (a i) n = tlook d (L i) (a i) n)" if "i \<in> I" "a i \<noteq> 0" for i
    by (rule tree_cong, rule assms) (use fb_sub [of i I a d L] that in blast)
  show "forest d' L I a = forest d L I a" unfolding forest_def using T by (metis (no_types, lifting))
  show "fb d' L I a = fb d L I a" unfolding fb_def using T by auto
  show "i \<in> I \<Longrightarrow> a i \<noteq> 0 \<Longrightarrow> tlook d' (L i) (a i) n = tlook d (L i) (a i) n" using T by blast
qed

lemma finite_tb: "finite (tb d l b)"
  by (induction l arbitrary: b) (simp_all add: tb.simps(2))

text \<open>The forest up to index \<open>q\<close>, where the tree at \<open>q\<close> may have lost blocks.\<close>

lemma forest_cut:
  assumes f: "forest d L I a" and a': "\<And>i. i \<in> I \<Longrightarrow> a' i = (if int i \<le> q then a i else 0)"
    and u: "\<And>i. i \<in> I \<Longrightarrow> int i < q \<Longrightarrow> a i \<noteq> 0 \<Longrightarrow> (\<forall>x\<in>tb d (L i) (a i). d' x = d x)"
    and p: "\<And>i. i \<in> I \<Longrightarrow> int i = q \<Longrightarrow> a i \<noteq> 0 \<Longrightarrow> tree d' (L i) (a i) \<and> tb d' (L i) (a i) \<subseteq> tb d (L i) (a i)"
  shows "forest d' L I a'"
proof -
  have T: "tb d' (L i) (a i) = tb d (L i) (a i) \<and> tree d' (L i) (a i) = tree d (L i) (a i)" if "i \<in> I" "int i < q" "a i \<noteq> 0" for i
    using tree_cong [of d "L i" "a i" d'] u that by blast
  have S: "tree d' (L i) (a i) \<and> tb d' (L i) (a i) \<subseteq> tb d (L i) (a i)" if "i \<in> I" "int i \<le> q" "a i \<noteq> 0" for i
    using T [of i] p [of i] f that unfolding forest_def by (cases "int i = q") auto
  have K: "int i \<le> q \<and> a i \<noteq> 0 \<and> a' i = a i" if "i \<in> I" "a' i \<noteq> 0" for i using a' [OF that(1)] that(2) by (auto split: if_splits)
  show "forest d' L I a'" unfolding forest_def
  proof (intro ballI impI conjI)
    fix i assume i: "i \<in> I" "a' i \<noteq> 0"
    show "tree d' (L i) (a' i)" using K [OF i] S [of i] i(1) by simp
    fix j assume j: "j \<in> I" "j \<noteq> i" "a' j \<noteq> 0"
    have "tb d (L i) (a i) \<inter> tb d (L j) (a j) = {}" using f K [OF i] K [OF j(1,3)] i j unfolding forest_def by simp
    then show "tb d' (L i) (a' i) \<inter> tb d' (L j) (a' j) = {}" using K [OF i] K [OF j(1,3)] S [of i] S [of j] i(1) j(1) by auto
  qed
qed

section \<open>Giving blocks back\<close>

text \<open>The blocks \<open>zs\<close> went from the blocks in use to the free list; only blocks of \<open>W\<close> changed.\<close>

definition gave :: "ufs \<Rightarrow> int list \<Rightarrow> int set \<Rightarrow> int set \<Rightarrow> ufs \<Rightarrow> int list \<Rightarrow> bool" where
  "gave s xs B W s' zs \<longleftrightarrow> vol s' (zs @ xs) (B - set zs) \<and> set zs \<subseteq> W \<and> (\<forall>x. x \<notin> W \<longrightarrow> disk s' x = disk s x) \<and> u_er s' = u_er s"

lemma gave_refl: "vol s xs B \<Longrightarrow> gave s xs B W s []"
  by (simp add: gave_def)

lemma gave_trans:
  assumes "gave s xs B W s1 zs" "gave s1 (zs @ xs) (B - set zs) W' s2 ws"
  shows "gave s xs B (W \<union> W') s2 (ws @ zs)"
proof -
  have "B - set zs - set ws = B - set (ws @ zs)" by auto
  then show ?thesis using assms unfolding gave_def by auto
qed

lemma gave_free: "vol s xs B \<Longrightarrow> b \<in> B \<Longrightarrow> gave s xs B {b} (free b s) [b]"
  using vol_free [of s B xs b] by (simp add: gave_def)

lemma gave_mono: "gave s xs B W s' zs \<Longrightarrow> W \<subseteq> W' \<Longrightarrow> gave s xs B W' s' zs"
  unfolding gave_def by blast

text \<open>A loop that gives back whole trees, when \<open>h i\<close> gives back the tree at \<open>i\<close> up to its root.\<close>

lemma free_tree:
  assumes h: "gave s xs B T s1 zs" "set zs = T - {c}" and c: "c \<in> T" "T \<subseteq> B"
  shows "gave s xs B T (free c s1) (c # zs)" "set (c # zs) = T"
proof -
  have "vol s1 (zs @ xs) (B - set zs)" "c \<in> B - set zs" using h c by (auto simp: gave_def)
  from gave_trans [OF h(1) gave_free [OF this]] show "gave s xs B T (free c s1) (c # zs)" by (simp add: insert_absorb c(1))
  show "set (c # zs) = T" using h(2) c(1) by auto
qed

lemma free_trees:
  assumes H: "\<And>i s xs B. i \<in> set is \<Longrightarrow> c i \<noteq> 0 \<Longrightarrow> vol s xs B \<Longrightarrow> tree (disk s) (L i) (c i) \<Longrightarrow> tb (disk s) (L i) (c i) \<subseteq> B \<Longrightarrow>
      \<exists>zs. gave s xs B (tb (disk s) (L i) (c i)) (h i s) zs \<and> set zs = tb (disk s) (L i) (c i) - {c i}"
    and "vol s xs B" "distinct is" "forest (disk s) L (set is) c" "fb (disk s) L (set is) c \<subseteq> B"
  shows "\<exists>zs. gave s xs B (fb (disk s) L (set is) c) (fold (\<lambda>i s. if c i \<noteq> 0 then free (c i) (h i s) else s) is s) zs \<and>
    set zs = fb (disk s) L (set is) c"
  using assms
proof (induction "is" arbitrary: s xs B)
  case Nil
  then show ?case using gave_refl by (intro exI [of _ "[]"]) (simp add: fb_def)
next
  case (Cons i "is")
  note H = Cons.prems(1) [OF list.set_intros(2)]
  have f: "forest (disk s) L (set is) c" and B: "fb (disk s) L (set is) c \<subseteq> B" and i: "i \<notin> set is" "distinct is"
    using Cons.prems(3-5) by (auto simp: forest_def fb_def)
  show ?case
  proof (cases "c i = 0")
    case True
    then have "fb (disk s) L (set (i # is)) c = fb (disk s) L (set is) c" by (auto simp: fb_def)
    then show ?thesis using Cons.IH [OF H Cons.prems(2) i(2) f B] True by simp
  next
    case False
    let ?T = "tb (disk s) (L i) (c i)" and ?F = "fb (disk s) L (set is) c"
    have T: "tree (disk s) (L i) (c i)" "?T \<subseteq> B" "?T \<inter> ?F = {}" "fb (disk s) L (set (i # is)) c = ?T \<union> ?F"
      using Cons.prems(4,5) False i(1) by (auto simp: forest_def fb_def)
    obtain zs where z: "gave s xs B ?T (h i s) zs" "set zs = ?T - {c i}"
      using Cons.prems(1) [OF list.set_intros(1) False Cons.prems(2) T(1,2)] by blast
    define s1 where "s1 = free (c i) (h i s)"
    note g = free_tree [OF z root_in_tb T(2), folded s1_def]
    have v1: "vol s1 ((c i # zs) @ xs) (B - set (c i # zs))" and d1: "\<And>x. x \<in> ?F \<Longrightarrow> disk s1 x = disk s x"
      using g T(3) by (auto simp: gave_def)
    note C = forest_cong(1,2) [of "disk s" L "set is" c "disk s1", OF d1]
    have B1: "?F \<subseteq> B - set (c i # zs)" unfolding g(2) using B T(3) by blast
    obtain ws where w: "gave s1 ((c i # zs) @ xs) (B - set (c i # zs)) ?F (fold (\<lambda>i s. if c i \<noteq> 0 then free (c i) (h i s) else s) is s1) ws"
      "set ws = ?F" using Cons.IH [OF H v1 i(2)] C f B1 by auto
    have "set (ws @ c i # zs) = ?T \<union> ?F" using w(2) g(2) by auto
    then show ?thesis using gave_trans [OF g(1) w(1)] False unfolding T(4) by (auto simp: s1_def)
  qed
qed

section \<open>Cutting a forest\<close>

text \<open>A tree without the blocks after number \<open>mm\<close>, which went to the free list.\<close>

definition tcut :: "nat \<Rightarrow> int \<Rightarrow> int \<Rightarrow> ufs \<Rightarrow> int list \<Rightarrow> int set \<Rightarrow> ufs \<Rightarrow> bool" where
  "tcut l b mm s xs B s' \<longleftrightarrow> (\<exists>zs. gave s xs B (tb (disk s) l b) s' zs \<and> set zs = tb (disk s) l b - tb (disk s') l b) \<and>
     tree (disk s') l b \<and> tb (disk s') l b \<subseteq> tb (disk s) l b \<and>
     (\<forall>x. x \<in> tb (disk s') l b \<longrightarrow> x \<notin> inner (disk s) l b \<longrightarrow> disk s' x = disk s x) \<and>
     (\<forall>m. 0 \<le> m \<and> m < 256 ^ l \<longrightarrow> tlook (disk s') l b m = (if m \<le> mm then tlook (disk s) l b m else 0))"

lemma forest_sub: "forest d L I a \<Longrightarrow> J \<subseteq> I \<Longrightarrow> forest d L J a" "J \<subseteq> I \<Longrightarrow> fb d L J a \<subseteq> fb d L I a"
  unfolding forest_def fb_def by blast+

lemma forest_apart:
  assumes "forest d L I a" "J \<subseteq> I" "K \<subseteq> I" "J \<inter> K = {}"
  shows "fb d L J a \<inter> fb d L K a = {}"
proof -
  have "tb d (L i) (a i) \<inter> tb d (L j) (a j) = {}" if "i \<in> J" "j \<in> K" "a i \<noteq> 0" "a j \<noteq> 0" for i j
  proof -
    have "i \<in> I" "j \<in> I" "j \<noteq> i" using that assms(2-4) by auto
    then show ?thesis using assms(1) that(3,4) unfolding forest_def by blast
  qed
  then show ?thesis unfolding fb_def by blast
qed

lemma fb_Un: "fb d L (I \<union> J) a = fb d L I a \<union> fb d L J a" "fb d L {i} a = (if a i = 0 then {} else tb d (L i) (a i))" "fb d L {} a = {}"
  by (auto simp: fb_def)

lemma fb_cong:
  assumes "{i \<in> I. a i \<noteq> 0} = {i \<in> J. b i \<noteq> 0}" "\<And>i. i \<in> I \<Longrightarrow> a i \<noteq> 0 \<Longrightarrow> a i = b i"
  shows "fb d L I a = fb d L J b"
  unfolding fb_def
proof (rule SUP_cong [OF assms(1)])
  fix i assume "i \<in> {i \<in> J. b i \<noteq> 0}"
  then have "i \<in> {i \<in> I. a i \<noteq> 0}" unfolding assms(1) .
  then show "tb d (L i) (a i) = tb d (L i) (b i)" using assms(2) by simp
qed

lemma set_rest: "A \<inter> C = {} \<Longrightarrow> M \<inter> C = {} \<Longrightarrow> A \<inter> M = {} \<Longrightarrow> M' \<subseteq> M \<Longrightarrow> (M - M') \<union> C = (A \<union> (M \<union> C)) - (A \<union> M')"
  by blast

lemma split_at:
  fixes q :: int
  assumes "-1 \<le> q" "q < int N"
  shows "{..<N} = {i. i < N \<and> int i < q} \<union> ((if q < 0 then {} else {nat q}) \<union> {nat (q + 1)..<N})"
  using assms by auto

lemma cut_one:
  assumes P: "\<And>i s xs B. q = int i \<Longrightarrow> c i \<noteq> 0 \<Longrightarrow> vol s xs B \<Longrightarrow> tree (disk s) (L i) (c i) \<Longrightarrow> tb (disk s) (L i) (c i) \<subseteq> B \<Longrightarrow>
      tcut (L i) (c i) mm s xs B (p s)"
    and v: "vol s1 xs B" and B: "fb d L M c \<subseteq> B" and f: "forest d L M c" and s2: "s2 = (if 0 \<le> q \<and> c (nat q) \<noteq> 0 then p s1 else s1)"
    and M: "M = (if q < 0 then {} else {nat q})" and d: "\<And>x. x \<in> fb d L M c \<Longrightarrow> disk s1 x = d x"
  shows "\<exists>ws. gave s1 xs B (fb d L M c) s2 ws \<and> set ws = fb d L M c - fb (disk s2) L M c \<and>
    forest (disk s2) L M c \<and> fb (disk s2) L M c \<subseteq> fb d L M c \<and> (\<forall>i m. q = int i \<longrightarrow> c i \<noteq> 0 \<longrightarrow> 0 \<le> m \<longrightarrow> m < 256 ^ L i \<longrightarrow>
    tlook (disk s2) (L i) (c i) m = (if m \<le> mm then tlook d (L i) (c i) m else 0)) \<and>
    (\<forall>i x. q = int i \<longrightarrow> c i \<noteq> 0 \<longrightarrow> x \<in> tb (disk s2) (L i) (c i) \<longrightarrow> x \<notin> inner d (L i) (c i) \<longrightarrow> disk s2 x = d x)"
proof (cases "0 \<le> q \<and> c (nat q) \<noteq> 0")
  case True
  let ?i = "nat q"
  have e: "fb d' L M c = tb d' (L ?i) (c ?i)" for d' using True M by (auto simp: fb_def)
  have T: "tb (disk s1) (L ?i) (c ?i) = tb d (L ?i) (c ?i) \<and> tree (disk s1) (L ?i) (c ?i) = tree d (L ?i) (c ?i) \<and>
      (\<forall>n. tlook (disk s1) (L ?i) (c ?i) n = tlook d (L ?i) (c ?i) n)" by (rule tree_cong) (use d e in simp)
  have "inner (disk s1) (L ?i) (c ?i) = inner d (L ?i) (c ?i)" using inner_cong [of d "L ?i" "c ?i" "disk s1"] inner_sub [of d "L ?i" "c ?i"] d e by blast
  moreover have "x \<in> tb (disk s2) (L ?i) (c ?i) \<Longrightarrow> tb (disk s2) (L ?i) (c ?i) \<subseteq> tb d (L ?i) (c ?i) \<Longrightarrow> disk s1 x = d x" for x using d e by blast
  moreover have "tree d (L ?i) (c ?i)" using f True M by (simp add: forest_def)
  then have "tcut (L ?i) (c ?i) mm s1 xs B s2" using P [of ?i s1 B xs] True v T B e s2 by simp
  ultimately show ?thesis using T True M unfolding e tcut_def by (auto simp: forest_def)
next
  case False
  then have "fb d' L M c = {}" for d' using M by (auto simp: fb_def)
  moreover have "forest (disk s2) L M c" using False M by (auto simp: forest_def)
  moreover have "s2 = s1" using s2 unfolding if_not_P [OF False] .
  ultimately show ?thesis using gave_refl [OF v] False by (intro exI [of _ "[]"]) auto
qed

definition fcut :: "(nat \<Rightarrow> nat) \<Rightarrow> nat \<Rightarrow> (nat \<Rightarrow> int) \<Rightarrow> (nat \<Rightarrow> int) \<Rightarrow> int \<Rightarrow> int \<Rightarrow> ufs \<Rightarrow> int list \<Rightarrow> int set \<Rightarrow> ufs \<Rightarrow> bool" where
  "fcut L N c c' q mm s xs B s' \<longleftrightarrow>
     (\<exists>zs. gave s xs B (fb (disk s) L {..<N} c) s' zs \<and> set zs = fb (disk s) L {..<N} c - fb (disk s') L {..<N} c') \<and>
     forest (disk s') L {..<N} c' \<and> fb (disk s') L {..<N} c' \<subseteq> fb (disk s) L {..<N} c \<and>
     (\<forall>i x. i < N \<longrightarrow> int i \<le> q \<longrightarrow> c i \<noteq> 0 \<longrightarrow> x \<in> tb (disk s') (L i) (c i) \<longrightarrow> x \<notin> inner (disk s) (L i) (c i) \<longrightarrow> disk s' x = disk s x) \<and>
     (\<forall>i n. i < N \<longrightarrow> int i < q \<longrightarrow> c i \<noteq> 0 \<longrightarrow> tlook (disk s') (L i) (c i) n = tlook (disk s) (L i) (c i) n) \<and>
     (\<forall>i m. q = int i \<longrightarrow> c i \<noteq> 0 \<longrightarrow> 0 \<le> m \<longrightarrow> m < 256 ^ L i \<longrightarrow>
        tlook (disk s') (L i) (c i) m = (if m \<le> mm then tlook (disk s) (L i) (c i) m else 0))"

lemma cut_trees:
  assumes H: "\<And>i s xs B. i < N \<Longrightarrow> q < int i \<Longrightarrow> c i \<noteq> 0 \<Longrightarrow> vol s xs B \<Longrightarrow> tree (disk s) (L i) (c i) \<Longrightarrow> tb (disk s) (L i) (c i) \<subseteq> B \<Longrightarrow>
      \<exists>zs. gave s xs B (tb (disk s) (L i) (c i)) (h i s) zs \<and> set zs = tb (disk s) (L i) (c i) - {c i}"
    and P: "\<And>i s xs B. q = int i \<Longrightarrow> c i \<noteq> 0 \<Longrightarrow> vol s xs B \<Longrightarrow> tree (disk s) (L i) (c i) \<Longrightarrow> tb (disk s) (L i) (c i) \<subseteq> B \<Longrightarrow>
      tcut (L i) (c i) mm s xs B (p s)"
    and v: "vol s xs B" and f: "forest (disk s) L {..<N} c" and B: "fb (disk s) L {..<N} c \<subseteq> B" and q: "-1 \<le> q" "q < int N"
    and c': "\<And>i. i < N \<Longrightarrow> c' i = (if int i \<le> q then c i else 0)"
    and s1: "s1 = fold (\<lambda>i s. if c i \<noteq> 0 then free (c i) (h i s) else s) (rev [nat (q + 1)..<N]) s"
    and s2: "s2 = (if 0 \<le> q \<and> c (nat q) \<noteq> 0 then p s1 else s1)"
  shows "fcut L N c c' q mm s xs B s2"
proof -
  let ?J = "{i. i < N \<and> int i < q}" and ?M = "if q < 0 then {} else {nat q}" and ?K = "{nat (q + 1)..<N}" and ?I = "{..<N}"
  let ?d = "disk s" and ?i = "nat q"
  note I = split_at [OF q]
  have sub: "?J \<subseteq> ?I" "?M \<subseteq> ?I" "?K \<subseteq> ?I" using I by blast+
  have ap: "fb ?d L ?J c \<inter> fb ?d L ?K c = {}" "fb ?d L ?M c \<inter> fb ?d L ?K c = {}" "fb ?d L ?J c \<inter> fb ?d L ?M c = {}"
    by (rule forest_apart [OF f]; use sub q in auto)+
  have F: "fb ?d L ?I c = fb ?d L ?J c \<union> (fb ?d L ?M c \<union> fb ?d L ?K c)" unfolding I fb_Un ..
  have K: "set (rev [nat (q + 1)..<N]) = ?K" "distinct (rev [nat (q + 1)..<N])" by simp_all
  have "\<exists>zs. gave s xs B (fb ?d L (set (rev [nat (q + 1)..<N])) c) s1 zs \<and> set zs = fb ?d L (set (rev [nat (q + 1)..<N])) c"
    unfolding s1 by (rule free_trees, rule H) (use v forest_sub(1) [OF f sub(3)] B F in auto)
  then obtain zs where z: "gave s xs B (fb ?d L ?K c) s1 zs" "set zs = fb ?d L ?K c" unfolding K(1) by blast
  have v1: "vol s1 (zs @ xs) (B - set zs)" and d1: "\<And>x. x \<notin> fb ?d L ?K c \<Longrightarrow> disk s1 x = ?d x" using z(1) by (simp_all add: gave_def)
  have M1: "fb ?d L ?M c \<subseteq> B - set zs" using B F ap(2) z(2) by blast
  obtain ws where w: "gave s1 (zs @ xs) (B - set zs) (fb ?d L ?M c) s2 ws" "set ws = fb ?d L ?M c - fb (disk s2) L ?M c"
    "forest (disk s2) L ?M c" "fb (disk s2) L ?M c \<subseteq> fb ?d L ?M c"
    "\<And>i m. q = int i \<Longrightarrow> c i \<noteq> 0 \<Longrightarrow> 0 \<le> m \<Longrightarrow> m < 256 ^ L i \<Longrightarrow> tlook (disk s2) (L i) (c i) m = (if m \<le> mm then tlook ?d (L i) (c i) m else 0)"
    "\<And>i x. q = int i \<Longrightarrow> c i \<noteq> 0 \<Longrightarrow> x \<in> tb (disk s2) (L i) (c i) \<Longrightarrow> x \<notin> inner ?d (L i) (c i) \<Longrightarrow> disk s2 x = ?d x"
    using cut_one [OF P v1 M1 forest_sub(1) [OF f sub(2)] s2 refl] d1 ap(2) by blast
  have g: "gave s xs B (fb ?d L ?K c \<union> fb ?d L ?M c) s2 (ws @ zs)" by (rule gave_trans [OF z(1) w(1)])
  have d2: "disk s2 x = ?d x" if "x \<in> fb ?d L ?J c" for x using g ap that unfolding gave_def by blast
  have J: "fb (disk s2) L ?J c = fb ?d L ?J c" by (rule forest_cong(2)) (rule d2)
  have e: "fb (disk s2) L ?I c' = fb (disk s2) L ?J c \<union> fb (disk s2) L ?M c"
  proof -
    have "?J \<union> ?M = {i. i < N \<and> int i \<le> q}" using q by auto
    moreover have "fb (disk s2) L ?I c' = fb (disk s2) L {i. i < N \<and> int i \<le> q} c"
      by (rule fb_cong) (use c' in \<open>auto split: if_splits\<close>)
    ultimately show ?thesis by (simp only: fb_Un(1) [symmetric])
  qed
  have C1: "\<exists>zs. gave s xs B (fb (disk s) L {..<N} c) s2 zs \<and> set zs = fb (disk s) L {..<N} c - fb (disk s2) L {..<N} c'"
  proof (intro exI conjI)
    show "gave s xs B (fb (disk s) L {..<N} c) s2 (ws @ zs)" by (rule gave_mono [OF g]) (use F in blast)
    show "set (ws @ zs) = fb (disk s) L {..<N} c - fb (disk s2) L {..<N} c'"
      unfolding set_append w(2) z(2) e J F by (rule set_rest [OF ap w(4)])
  qed
  have C2: "fb (disk s2) L {..<N} c' \<subseteq> fb (disk s) L {..<N} c" unfolding e J F using w(4) by blast
  have C3: "forest (disk s2) L {..<N} c'"
  proof (rule forest_cut [OF f, where q = q])
    show "c' i = (if int i \<le> q then c i else 0)" if "i \<in> {..<N}" for i using c' that by simp
    show "\<forall>x\<in>tb ?d (L i) (c i). disk s2 x = ?d x" if "i \<in> {..<N}" "int i < q" "c i \<noteq> 0" for i
      using d2 that by (auto simp: fb_def)
    show "tree (disk s2) (L i) (c i) \<and> tb (disk s2) (L i) (c i) \<subseteq> tb ?d (L i) (c i)" if "i \<in> {..<N}" "int i = q" "c i \<noteq> 0" for i
      using w(3,4) that by (auto simp: forest_def fb_Un)
  qed
  have C4: "\<And>i n. i < N \<Longrightarrow> int i < q \<Longrightarrow> c i \<noteq> 0 \<Longrightarrow> tlook (disk s2) (L i) (c i) n = tlook (disk s) (L i) (c i) n"
    by (rule forest_cong(3) [where I = ?J and L = L], rule d2) simp_all
  have C5: "disk s2 x = ?d x" if "i < N" "int i \<le> q" "c i \<noteq> 0" "x \<in> tb (disk s2) (L i) (c i)" "x \<notin> inner ?d (L i) (c i)" for i x
  proof (cases "int i = q")
    case True
    then show ?thesis using w(6) that by blast
  next
    case False
    then have i: "i \<in> ?J" using that by simp
    then have "x \<in> fb (disk s2) L ?J c" using that(3,4) by (auto simp: fb_def)
    then show ?thesis using d2 unfolding J by blast
  qed
  show ?thesis unfolding fcut_def using C1 C2 C3 C4 C5 w(5) by blast
qed

lemma tlook_mod: "tlook d l b (m mod 256 ^ l) = tlook d l b m"
proof (induction l arbitrary: b m)
  case (Suc l)
  have "m mod (256 ^ l * 256) = 256 ^ l * (m div 256 ^ l mod 256) + m mod 256 ^ l" by (rule zmod_zmult2_eq) simp
  then have "m mod 256 ^ Suc l div 256 ^ l = m div 256 ^ l mod 256" by (simp add: mult.commute)
  then have i: "idx l (m mod 256 ^ Suc l) = idx l m" by (simp add: idx_def)
  have "tlook d l c (m mod 256 ^ Suc l) = tlook d l c m" for c
    using Suc.IH [of c "m mod 256 ^ Suc l"] Suc.IH [of c m] mod_mod_cancel [of "256 ^ l" "256 ^ Suc l" m] by simp
  then show ?case unfolding tlook.simps(2) i Let_def by simp
qed simp

section \<open>Cutting an indirect block\<close>

lemma div_order:
  fixes m z F :: int
  assumes "0 < F" "0 \<le> m" "-1 \<le> z" "q = (if z < 0 then -1 else z div F)"
  shows "m div F < q \<Longrightarrow> m \<le> z" "q < m div F \<Longrightarrow> \<not> m \<le> z" "m div F = q \<Longrightarrow> m \<le> z \<longleftrightarrow> m mod F \<le> z mod F"
proof -
  have p: "0 \<le> m div F" using assms(1,2) by (simp add: pos_imp_zdiv_nonneg_iff)
  show "m \<le> z" if "m div F < q"
  proof (rule ccontr)
    assume "\<not> m \<le> z"
    then have "z div F \<le> m div F" using zdiv_mono1 [of z m F] assms(1) by simp
    then show False using that p assms(4) by (auto split: if_splits)
  qed
  show "\<not> m \<le> z" if "q < m div F"
  proof
    assume "m \<le> z"
    then have "m div F \<le> z div F" "0 \<le> z" using zdiv_mono1 [of m z F] assms(1,2) by simp_all
    then show False using that assms(4) by simp
  qed
  show "m \<le> z \<longleftrightarrow> m mod F \<le> z mod F" if "m div F = q"
  proof -
    have "m div F = z div F" using that p assms(4) by (auto split: if_splits)
    then have "m = z div F * F + m mod F" "z = z div F * F + z mod F" using div_mult_mod_eq [of m F] by simp_all
    then show ?thesis by linarith
  qed
qed

lemma mod_nonneg_pow: "0 \<le> (z :: int) mod 256 ^ l" by simp

lemma div_less_pow:
  fixes z :: int
  assumes "z < 256 * 256 ^ l"
  shows "z div 256 ^ l < 256"
proof (rule ccontr)
  assume "\<not> z div 256 ^ l < 256"
  then have "256 * 256 ^ l \<le> z div 256 ^ l * 256 ^ l" by simp
  also have "\<dots> \<le> z" using div_mult_mod_eq [of z "256 ^ l"] mod_nonneg_pow [of z l] by linarith
  finally show False using assms by simp
qed

lemma node_cut:
  assumes H: "\<And>c s xs B. c \<noteq> 0 \<Longrightarrow> vol s xs B \<Longrightarrow> tree (disk s) l c \<Longrightarrow> tb (disk s) l c \<subseteq> B \<Longrightarrow>
      \<exists>zs. gave s xs B (tb (disk s) l c) (h c s) zs \<and> set zs = tb (disk s) l c - {c}"
    and P: "\<And>c s xs B. 0 \<le> z \<Longrightarrow> c \<noteq> 0 \<Longrightarrow> vol s xs B \<Longrightarrow> tree (disk s) l c \<Longrightarrow> tb (disk s) l c \<subseteq> B \<Longrightarrow> tcut l c (z mod 256 ^ l) s xs B (p c s)"
    and v: "vol s xs B" and t: "tree (disk s) (Suc l) b" and B: "tb (disk s) (Suc l) b \<subseteq> B" and z: "-1 \<le> z" "z < 256 ^ Suc l"
    and q: "q = (if z < 0 then -1 else z div 256 ^ l)" and c: "c = disk s b" and s0: "s0 = upd_blk b (clear_above q c) s"
    and s1: "s1 = fold (\<lambda>i s. if c i \<noteq> 0 then free (c i) (h (c i) s) else s) (rev [nat (q + 1)..<NINDIR]) s0"
    and s2: "s2 = (if 0 \<le> q \<and> c (nat q) \<noteq> 0 then p (c (nat q)) s1 else s1)"
  shows "tcut (Suc l) b z s xs B s2" "z = -1 \<Longrightarrow> tb (disk s2) (Suc l) b = {b}"
proof -
  let ?d = "disk s" and ?d2 = "disk s2" and ?I = "{..<NINDIR}" and ?L = "\<lambda>_::nat. l"
  define c' where "c' = clear_above q c"
  have F: "forest ?d ?L ?I c" "b \<notin> fb ?d ?L ?I c" "tb ?d (Suc l) b = insert b (fb ?d ?L ?I c)" using t by (simp_all add: tree_forest c)
  have d0: "disk s0 = ?d(b := c')" by (simp add: s0 upd_blk_def c'_def)
  have u: "disk s0 x = ?d x" if "x \<in> fb ?d ?L ?I c" for x using that F(2) d0 by auto
  have F0: "forest (disk s0) ?L ?I c" "fb (disk s0) ?L ?I c = fb ?d ?L ?I c"
    using forest_cong(1,2) [of ?d ?L ?I c "disk s0", OF u] F(1) by auto
  have v0: "vol s0 xs B" unfolding s0 by (rule vol_write [OF v]) (use B root_in_tb in blast)
  have q': "-1 \<le> q" "q < int NINDIR"
    using z(2) div_less_pow [of z l] pos_imp_zdiv_nonneg_iff [of "256 ^ l" z] unfolding q by auto
  have c': "c' i = (if int i \<le> q then c i else 0)" if "i < NINDIR" for i using that by (simp add: c'_def clear_above_def)
  have "fcut ?L NINDIR c c' q (z mod 256 ^ l) s0 xs B s2"
  proof (rule cut_trees [where h = "\<lambda>i. h (c i)" and p = "p (c (nat q))"])
    show "tcut l (c i) (z mod 256 ^ l) s xs B (p (c (nat q)) s)"
      if "q = int i" "c i \<noteq> 0" "vol s xs B" "tree (disk s) l (c i)" "tb (disk s) l (c i) \<subseteq> B" for i s xs B
      using P [of "c i" s B xs] that q by (auto split: if_splits)
    show "fb (disk s0) ?L ?I c \<subseteq> B" using F0(2) F(3) B by blast
  qed (fact s1 s2 v0 F0(1) q' c' | use H in blast)+
  then have K: "\<exists>zs. gave s0 xs B (fb ?d ?L ?I c) s2 zs \<and> set zs = fb ?d ?L ?I c - fb ?d2 ?L ?I c'" "forest ?d2 ?L ?I c'"
    "fb ?d2 ?L ?I c' \<subseteq> fb ?d ?L ?I c"
    "\<And>i n. i < NINDIR \<Longrightarrow> int i < q \<Longrightarrow> c i \<noteq> 0 \<Longrightarrow> tlook ?d2 l (c i) n = tlook (disk s0) l (c i) n"
    "\<And>i m. q = int i \<Longrightarrow> c i \<noteq> 0 \<Longrightarrow> 0 \<le> m \<Longrightarrow> m < 256 ^ l \<Longrightarrow> tlook ?d2 l (c i) m = (if m \<le> z mod 256 ^ l then tlook (disk s0) l (c i) m else 0)"
    "\<And>i x. i < NINDIR \<Longrightarrow> int i \<le> q \<Longrightarrow> c i \<noteq> 0 \<Longrightarrow> x \<in> tb ?d2 l (c i) \<Longrightarrow> x \<notin> inner (disk s0) l (c i) \<Longrightarrow> ?d2 x = disk s0 x"
    unfolding fcut_def F0(2) by blast+
  have d2: "?d2 b = c'" using K(1) F(2) d0 unfolding gave_def by auto
  have T: "tree ?d2 (Suc l) b" "tb ?d2 (Suc l) b = insert b (fb ?d2 ?L ?I c')" using K(2,3) F(2) by (auto simp: tree_forest d2)
  have look: "tlook ?d2 (Suc l) b m = (if m \<le> z then tlook ?d (Suc l) b m else 0)" if "0 \<le> m" "m < 256 ^ Suc l" for m
  proof -
    have i: "int (idx l m) = m div 256 ^ l"
      using that div_less_pow [of m l] pos_imp_zdiv_nonneg_iff [of "256 ^ l" m] by (simp add: idx_def)
    let ?i = "idx l m"
    note O = div_order [OF _ that(1) z(1) q, folded i, simplified]
    have L0: "c ?i \<noteq> 0 \<Longrightarrow> tlook (disk s0) l (c ?i) n = tlook ?d l (c ?i) n" for n
      by (rule forest_cong(3) [where I = ?I and L = ?L], rule u) simp_all
    consider "int ?i < q" | "int ?i = q" | "q < int ?i" by linarith
    then show ?thesis
    proof cases
      case 1
      then show ?thesis using O(1) K(4) [OF idx_less 1] L0 by (simp add: tlook.simps(2) Let_def d2 c' c)
    next
      case 2
      have mm: "m mod 256 ^ l < 256 ^ l" "0 \<le> m mod 256 ^ l" by simp_all
      have "tlook ?d2 l (c ?i) m = (if m mod 256 ^ l \<le> z mod 256 ^ l then tlook ?d l (c ?i) m else 0)" if "c ?i \<noteq> 0"
        using K(5) [OF 2 [symmetric] that mm(2,1)] L0 [OF that] by (simp add: tlook_mod)
      then show ?thesis using O(3) 2 by (simp add: tlook.simps(2) Let_def d2 c' c)
    next
      case 3
      then show ?thesis using O(2) by (simp add: tlook.simps(2) Let_def d2 c')
    qed
  qed
  obtain zs where zs: "gave s0 xs B (fb ?d ?L ?I c) s2 zs" "set zs = fb ?d ?L ?I c - fb ?d2 ?L ?I c'" using K(1) by blast
  have "u_er s0 = u_er s" by (simp add: s0 upd_blk_def)
  then have "gave s xs B (tb ?d (Suc l) b) s2 zs" using zs(1) unfolding gave_def F(3) by (auto simp: d0)
  moreover have "set zs = tb ?d (Suc l) b - tb ?d2 (Suc l) b" unfolding zs(2) F(3) T(2) using F(2) by blast
  moreover have "tb ?d2 (Suc l) b \<subseteq> tb ?d (Suc l) b" unfolding F(3) T(2) using K(3) by blast
  moreover have "?d2 x = ?d x" if x: "x \<in> tb ?d2 (Suc l) b" "x \<notin> inner ?d (Suc l) b" for x
  proof -
    have xb: "x \<noteq> b" using x(2) by (auto simp: inner.simps(2))
    then have "x \<in> fb ?d2 ?L ?I c'" using x(1) T(2) by blast
    then obtain i where i: "i < NINDIR" "c' i \<noteq> 0" "x \<in> tb ?d2 l (c' i)" by (auto simp: fb_def)
    then have ci: "int i \<le> q" "c i \<noteq> 0" "c' i = c i" using c' [OF i(1)] by (auto split: if_splits)
    have "inner (disk s0) l (c i) = inner ?d l (c i)"
      using inner_cong [of ?d l "c i" "disk s0"] inner_sub [of ?d l "c i"] u fb_sub [of i ?I c ?d ?L] i(1) ci(2) by blast
    moreover have "x \<notin> inner ?d l (c i)" using x(2) i(1) ci(2) by (auto simp: inner.simps(2) c)
    ultimately show ?thesis using K(6) [OF i(1) ci(1,2)] i(3) ci(3) d0 xb by simp
  qed
  ultimately show "tcut (Suc l) b z s xs B s2" unfolding tcut_def using T(1) look by blast
  show "tb (disk s2) (Suc l) b = {b}" if "z = -1"
  proof -
    have "fb ?d2 ?L ?I c' = {}" using c' that q by (auto simp: fb_def)
    then show ?thesis unfolding T(2) by simp
  qed
qed

lemma tcut_whole:
  assumes "tcut l b z s xs B s'" "tb (disk s') l b = {b}"
  shows "\<exists>zs. gave s xs B (tb (disk s) l b) s' zs \<and> set zs = tb (disk s) l b - {b}"
  using assms by (auto simp: tcut_def)

lemma indirtrunc_cut:
  assumes "vol s xs B" "tree (disk s) (Suc l) b" "tb (disk s) (Suc l) b \<subseteq> B" "-1 \<le> z" "z < 256 ^ Suc l"
  shows "tcut (Suc l) b z s xs B (indirtrunc l b z s) \<and> (z = -1 \<longrightarrow> tb (disk (indirtrunc l b z s)) (Suc l) b = {b})"
  using assms
proof (induction l arbitrary: s xs B b z)
  case 0
  have q: "z = (if z < 0 then -1 else z div 256 ^ 0)" using 0(4) by simp
  have P: "tcut 0 c (z mod 256 ^ 0) s xs B s" if "vol s xs B" for c s xs B
    using gave_refl [OF that] by (simp add: tcut_def)
  have H: "\<exists>zs. gave s xs B (tb (disk s) 0 c) s zs \<and> set zs = tb (disk s) 0 c - {c}" if "vol s xs B" for c s xs B
    using gave_refl [OF that] by (intro exI [of _ "[]"]) simp
  note N = node_cut [where h = "\<lambda>c s. s" and p = "\<lambda>c s. s", OF _ _ 0(1-5) q refl refl refl refl]
  have e: "indirtrunc 0 b z s = fold (\<lambda>i s'. if disk s b i \<noteq> 0 then free (disk s b i) s' else s') (rev [nat (z + 1)..<NINDIR]) (upd_blk b (clear_above z (disk s b)) s)"
    using vol_read [OF 0(1)] by (simp add: trsingle_def Let_def)
  show ?case unfolding e using N(1) [OF H P] N(2) [OF H P] by simp
next
  case (Suc l)
  let ?q = "if z < 0 then -1 else z div 256 ^ Suc l" and ?c = "disk s b"
  have q: "(if z > 0 then z div 256 ^ Suc l else z) = ?q" using Suc.prems(4) by auto
  have p: "(-1 :: int) < 256 ^ Suc l" "-1 \<le> z mod 256 ^ Suc l" "z mod 256 ^ Suc l < 256 ^ Suc l"
    using zero_less_power [of "256 :: int" "Suc l"] mod_nonneg_pow [of z "Suc l"] pos_mod_bound [of "256 ^ Suc l" z] by linarith+
  have H: "\<exists>zs. gave s xs B (tb (disk s) (Suc l) c) (indirtrunc l c (-1) s) zs \<and> set zs = tb (disk s) (Suc l) c - {c}"
    if "vol s xs B" "tree (disk s) (Suc l) c" "tb (disk s) (Suc l) c \<subseteq> B" for c s xs B
    using Suc.IH [OF that order_refl p(1)] tcut_whole by blast
  have P: "tcut (Suc l) c (z mod 256 ^ Suc l) s xs B (indirtrunc l c (z mod 256 ^ Suc l) s)"
    if "vol s xs B" "tree (disk s) (Suc l) c" "tb (disk s) (Suc l) c \<subseteq> B" for c s xs B
    using Suc.IH [OF that p(2,3)] by blast
  note N = node_cut [where h = "\<lambda>c. indirtrunc l c (-1)" and p = "\<lambda>c. indirtrunc l c (z mod 256 ^ Suc l)", OF _ _ Suc.prems refl refl refl refl refl]
  have g: "z \<ge> 0 \<longleftrightarrow> 0 \<le> ?q" using pos_imp_zdiv_nonneg_iff [of "256 ^ Suc l" z] by auto
  have e: "indirtrunc (Suc l) b z s = (let s1 = fold (\<lambda>i s. if ?c i \<noteq> 0 then free (?c i) (indirtrunc l (?c i) (-1) s) else s)
        (rev [nat (?q + 1)..<NINDIR]) (upd_blk b (clear_above ?q ?c) s)
      in if 0 \<le> ?q \<and> ?c (nat ?q) \<noteq> 0 then indirtrunc l (?c (nat ?q)) (z mod 256 ^ Suc l) s1 else s1)"
    unfolding indirtrunc.simps q vol_read [OF Suc.prems(1)] g by (simp only: Let_def prod.case bool.case)
  show ?case unfolding e Let_def using N(1) [OF H P] N(2) [OF H P] by blast
qed

declare indirtrunc.simps [simp del]

section \<open>Cutting a file\<close>

text \<open>The address in the inode that covers the last block to be kept, and the number of that block below it.\<close>

definition cutpos :: "int \<Rightarrow> int \<times> int" where
  "cutpos lb = (if lb < 4 then (lb, 0) else if lb < 260 then (4, lb - 4) else if lb < 65796 then (5, lb - 260) else (6, lb - 65796))"

definition cut_addr :: "int \<Rightarrow> (nat \<Rightarrow> int) \<Rightarrow> nat \<Rightarrow> int" where
  "cut_addr q a k = (if int k \<le> q \<or> NADDR \<le> k then a k else 0)"

definition cut_root :: "(nat \<Rightarrow> int) \<Rightarrow> nat \<Rightarrow> ufs \<Rightarrow> ufs" where
  "cut_root a i s = (if i < NDADDR then s else indirtrunc (i - NDADDR) (a i) (-1) s)"

definition cut_last :: "(nat \<Rightarrow> int) \<Rightarrow> int \<Rightarrow> int \<Rightarrow> ufs \<Rightarrow> ufs" where
  "cut_last a q mm s = (if q < int NDADDR then s else indirtrunc (nat q - NDADDR) (a (nat q)) mm s)"

lemma trunc_direct_fold:
  assumes "distinct is" "\<And>i. i \<in> set is \<Longrightarrow> i < NDADDR"
  shows "snd (trunc_direct is a s) = fold (\<lambda>i s. if a i \<noteq> 0 then free (a i) (cut_root a i s) else s) is s"
  using assms
proof (induction "is" arbitrary: a s)
  case (Cons i "is")
  show ?case
  proof (cases "a i = 0")
    case False
    have e: "fold (\<lambda>j s. if (a(i := 0)) j \<noteq> 0 then free ((a(i := 0)) j) (cut_root (a(i := 0)) j s) else s) is t =
        fold (\<lambda>j s. if a j \<noteq> 0 then free (a j) (cut_root a j s) else s) is t" for t
      by (rule fold_cong) (use Cons.prems in \<open>auto simp: cut_root_def fun_eq_iff\<close>)
    have "snd (trunc_direct is (a(i := 0)) (free (a i) s)) = fold (\<lambda>j s. if a j \<noteq> 0 then free (a j) (cut_root a j s) else s) is (free (a i) s)"
      unfolding e [symmetric] by (rule Cons.IH) (use Cons.prems in auto)
    moreover have "cut_root a i s = s" using Cons.prems(2) by (simp add: cut_root_def)
    ultimately show ?thesis using False by (simp del: fun_upd_apply)
  qed (use Cons in simp)
qed simp

lemma cleared_eq:
  assumes "lib 0 < 0 \<longleftrightarrow> q < (4 :: int)" "lib (Suc 0) < 0 \<longleftrightarrow> q < 5" "lib 2 < 0 \<longleftrightarrow> q < 6" "\<And>k. k < NDADDR \<Longrightarrow> lb < int k \<longleftrightarrow> q < int k"
  shows "(\<lambda>k. if NDADDR \<le> k \<and> k < NADDR \<and> lib (k - NDADDR) < (0 :: int) then 0 else if k < NDADDR \<and> lb < int k then 0 else a k) = cut_addr q a"
proof
  fix k
  consider "k < NDADDR" | "k = 4" | "k = 5" | "k = 6" | "NADDR \<le> k" by linarith
  then show "(if NDADDR \<le> k \<and> k < NADDR \<and> lib (k - NDADDR) < (0 :: int) then 0 else if k < NDADDR \<and> lb < int k then 0 else a k) = cut_addr q a k"
    by cases (auto simp: cut_addr_def assms)
qed

lemma itrunc_blocks_fold:
  assumes lb: "-1 \<le> lb" "lb < 16843012" and q: "cutpos lb = (q, mm)" and a: "a = i_addr ip"
    and s1: "s1 = fold (\<lambda>i s. if a i \<noteq> 0 then free (a i) (cut_root a i s) else s) (rev [nat (q + 1)..<NADDR]) s"
  shows "itrunc_blocks lb ip s = (ip\<lparr>i_addr := cut_addr q a\<rparr>, if 0 \<le> q \<and> a (nat q) \<noteq> 0 then cut_last a q mm s1 else s1)"
proof -
  consider (d) "lb < 4" | (s) "4 \<le> lb" "lb < 260" | (w) "260 \<le> lb" "lb < 65796" | (t) "65796 \<le> lb" by linarith
  then show ?thesis
  proof cases
    case d
    have l: "lastiblock lb l = -1" for l using d by (simp add: lastiblock_def Let_def)
    have q': "q = lb" using q d by (simp add: cutpos_def)
    have "[nat (lb + 1)..<4 + 3] = [nat (lb + 1)..<4] @ [4..<4 + 3]" by (rule upt_add_eq_append) (use d in simp)
    moreover have "[4..<4 + 3] = [4, 5, 6 :: nat]" by (simp add: upt_rec)
    ultimately have r: "rev [nat (lb + 1)..<NADDR] = [6, 5, 4] @ rev [nat (lb + 1)..<NDADDR]" by simp
    let ?f = "\<lambda>a i s. if a i \<noteq> 0 then free (a i) (cut_root a i s) else s" and ?D = "rev [nat (lb + 1)..<NDADDR]"
    define t0 where "t0 = fold (?f a) [6, 5, 4] s"
    obtain a' where a': "trunc_levels (lastiblock lb) [2, 1, 0] a s = (False, a', t0)" "\<forall>i<NDADDR. a' i = a i"
      unfolding t0_def by (cases "a 6 = 0"; cases "a 5 = 0"; cases "a 4 = 0") (auto simp: l cut_root_def Let_def)
    have "snd (trunc_direct ?D a' t0) = fold (?f a) ?D t0"
      by (subst trunc_direct_fold) (auto intro!: fold_cong simp: a'(2) cut_root_def fun_eq_iff)
    also have "\<dots> = s1" unfolding s1 q' r t0_def by simp
    finally obtain b' where b': "trunc_direct ?D a' t0 = (b', s1)" by (metis prod.collapse)
    have cl: "(\<lambda>k. if NDADDR \<le> k \<and> k < NADDR \<and> (-1 :: int) < 0 then 0 else if k < NDADDR \<and> lb < int k then 0 else a k) = cut_addr lb a"
      by (rule cleared_eq) (use d in auto)
    have "itrunc_blocks lb ip s = (ip\<lparr>i_addr := cut_addr q a\<rparr>, s1)"
      unfolding itrunc_blocks_def Let_def a [symmetric] a'(1) prod.case b' l q' cl [symmetric] by (simp add: b')
    moreover have "cut_last a q mm s1 = s1" using d q' by (simp add: cut_last_def)
    ultimately show ?thesis by simp
  next
    case s
    have l: "lastiblock lb 0 = lb - 4" "lastiblock lb (Suc 0) = -1" "lastiblock lb 2 = -1" using s by (simp_all add: lastiblock_def Let_def)
    have q': "q = 4" "mm = lb - 4" "\<not> lb - 4 < 0" "rev [nat (4 + 1)..<NADDR] = [6, 5]" using q s by (simp_all add: cutpos_def upt_rec)
    have cl: "(\<lambda>k. if NDADDR \<le> k \<and> k < NADDR \<and> lastiblock lb (k - NDADDR) < 0 then 0 else if k < NDADDR \<and> lb < int k then 0 else a k) = cut_addr 4 a"
      by (rule cleared_eq) (use s l in auto)
    show ?thesis using s unfolding s1 q'(1,2,4) itrunc_blocks_def a [symmetric] Let_def cl
      by (cases "a 6 = 0"; cases "a 5 = 0"; cases "a 4 = 0") (simp_all add: l q'(3) Let_def cut_last_def cut_root_def)
  next
    case w
    have l: "lastiblock lb 0 = lb - 4" "lastiblock lb (Suc 0) = lb - 260" "lastiblock lb 2 = -1" using w by (simp_all add: lastiblock_def Let_def)
    have q': "q = 5" "mm = lb - 260" "\<not> lb - 260 < 0" "rev [nat (5 + 1)..<NADDR] = [6]" using q w by (simp_all add: cutpos_def upt_rec)
    have cl: "(\<lambda>k. if NDADDR \<le> k \<and> k < NADDR \<and> lastiblock lb (k - NDADDR) < 0 then 0 else if k < NDADDR \<and> lb < int k then 0 else a k) = cut_addr 5 a"
      by (rule cleared_eq) (use w l in auto)
    show ?thesis using w unfolding s1 q'(1,2,4) itrunc_blocks_def a [symmetric] Let_def cl
      by (cases "a 6 = 0"; cases "a 5 = 0") (simp_all add: l q'(3) Let_def cut_last_def cut_root_def)
  next
    case t
    have l: "lastiblock lb 0 = lb - 4" "lastiblock lb (Suc 0) = lb - 260" "lastiblock lb 2 = lb - 65796" using t by (simp_all add: lastiblock_def Let_def)
    have q': "q = 6" "mm = lb - 65796" "\<not> lb - 65796 < 0" "rev [nat (6 + 1)..<NADDR] = []" using q t by (simp_all add: cutpos_def)
    have cl: "(\<lambda>k. if NDADDR \<le> k \<and> k < NADDR \<and> lastiblock lb (k - NDADDR) < 0 then 0 else if k < NDADDR \<and> lb < int k then 0 else a k) = cut_addr 6 a"
      by (rule cleared_eq) (use t l in auto)
    show ?thesis using t unfolding s1 q'(1,2,4) itrunc_blocks_def a [symmetric] Let_def cl
      by (cases "a 6 = 0") (simp_all add: l q'(3) Let_def cut_last_def)
  qed
qed

end
