(* ===== verification/Ufs_Itrunc.thy ===== *)
theory Ufs_Itrunc
  imports Ufs_Trunc
begin

text \<open>
  \<^verbatim>\<open>itrunc\<close> (\<^verbatim>\<open>src/sys/kernel/ufs_inode.c\<close>) on a whole file: after a file is made shorter exactly its blocks before the new end are
  mapped, with their data, and every other block of the file is free.
\<close>

section \<open>The addresses of the inode\<close>

lemma lev_indirect: "\<not> i < NDADDR \<Longrightarrow> lev i = Suc (i - NDADDR)"
  by (simp add: lev_def)

lemma cut_root_whole:
  assumes "i < NADDR" "vol s xs B" "tree (disk s) (lev i) (a i)" "tb (disk s) (lev i) (a i) \<subseteq> B"
  shows "\<exists>zs. gave s xs B (tb (disk s) (lev i) (a i)) (cut_root a i s) zs \<and> set zs = tb (disk s) (lev i) (a i) - {a i}"
proof (cases "i < NDADDR")
  case True
  then show ?thesis using gave_refl [OF assms(2)] by (intro exI [of _ "[]"]) (simp add: cut_root_def lev_def)
next
  case False
  have "(-1 :: int) < 256 ^ Suc (i - NDADDR)" using zero_less_power [of "256 :: int" "Suc (i - NDADDR)"] by linarith
  then have "tcut (Suc (i - NDADDR)) (a i) (-1) s xs B (cut_root a i s) \<and> tb (disk (cut_root a i s)) (Suc (i - NDADDR)) (a i) = {a i}"
    using indirtrunc_cut [of s B xs "i - NDADDR" "a i" "-1"] assms False by (simp add: cut_root_def lev_indirect)
  then show ?thesis unfolding lev_indirect [OF False] using tcut_whole by blast
qed

lemma cutpos_bounds:
  assumes "-1 \<le> lb" "lb < 16843012" "cutpos lb = (q, mm)"
  shows "-1 \<le> q" "q < int NADDR" "0 \<le> mm" "0 \<le> q \<Longrightarrow> mm < 256 ^ lev (nat q)"
  using assms by (auto simp: cutpos_def lev_def split: if_splits)

lemma cutpos_slot:
  assumes "cutpos lb = (q, mm)" "slot m = Some (k, n)" "-1 \<le> lb" "lb < 16843012"
  shows "int k < q \<Longrightarrow> m \<le> lb" "q < int k \<Longrightarrow> \<not> m \<le> lb" "q = int k \<Longrightarrow> m \<le> lb \<longleftrightarrow> n \<le> mm"
  using assms by (auto simp: cutpos_def slot_def split: if_splits)

lemma cut_last_part:
  assumes q: "q = int i" "-1 \<le> lb" "lb < 16843012" "cutpos lb = (q, mm)" and "vol s xs B" "tree (disk s) (lev i) (a i)" "tb (disk s) (lev i) (a i) \<subseteq> B"
  shows "tcut (lev i) (a i) mm s xs B (cut_last a q mm s)"
proof (cases "i < NDADDR")
  case True
  then show ?thesis using gave_refl [OF assms(5)] cutpos_bounds(3) [OF q(2-4)] by (simp add: cut_last_def lev_def q(1) tcut_def)
next
  case False
  then show ?thesis using indirtrunc_cut [of s B xs "i - NDADDR" "a i" mm] cutpos_bounds [OF q(2-4)] assms(5-7)
    by (simp add: cut_last_def q(1) lev_indirect)
qed

lemma itrunc_blocks_cut:
  assumes v: "vol s xs B" and f: "file_ok (disk s) (i_addr ip)" and B: "fblocks (disk s) (i_addr ip) \<subseteq> B"
    and lb: "-1 \<le> lb" "lb < 16843012" "cutpos lb = (q, mm)"
  shows "\<exists>s'. itrunc_blocks lb ip s = (ip\<lparr>i_addr := cut_addr q (i_addr ip)\<rparr>, s') \<and>
    fcut lev NADDR (i_addr ip) (cut_addr q (i_addr ip)) q mm s xs B s'"
proof -
  let ?a = "i_addr ip"
  define s1 where "s1 = fold (\<lambda>i s. if ?a i \<noteq> 0 then free (?a i) (cut_root ?a i s) else s) (rev [nat (q + 1)..<NADDR]) s"
  define s2 where "s2 = (if 0 \<le> q \<and> ?a (nat q) \<noteq> 0 then cut_last ?a q mm s1 else s1)"
  have "fcut lev NADDR ?a (cut_addr q ?a) q mm s xs B s2"
  proof (rule cut_trees [where h = "cut_root ?a" and p = "cut_last ?a q mm"])
    show "cut_addr q ?a i = (if int i \<le> q then ?a i else 0)" if "i < NADDR" for i using that by (simp add: cut_addr_def)
    show "tcut (lev i) (?a i) mm s xs B (cut_last ?a q mm s)"
      if "q = int i" "vol s xs B" "tree (disk s) (lev i) (?a i)" "tb (disk s) (lev i) (?a i) \<subseteq> B" for i s xs B
      using cut_last_part [of q i lb mm s B xs ?a] lb that by blast
  qed (use cut_root_whole v f B cutpos_bounds [OF lb] s1_def s2_def in \<open>simp_all add: file_forest\<close>)
  then show ?thesis using itrunc_blocks_fold [OF lb refl s1_def] unfolding s2_def by blast
qed

section \<open>The map of a file after a cut\<close>

lemma cut_flook:
  assumes c: "fcut lev NADDR a (cut_addr q a) q mm s xs B s'" and lb: "-1 \<le> lb" "lb < 16843012" "cutpos lb = (q, mm)"
  shows "flook (disk s') (cut_addr q a) m = (if m \<le> lb then flook (disk s) a m else 0)"
proof (cases "slot m")
  case (Some z)
  then obtain k n where sl: "slot m = Some (k, n)" by (cases z) auto
  note S = cutpos_slot [OF lb(3) sl lb(1,2)] and R = slot_ranges [OF sl]
  have "int k < q \<Longrightarrow> a k \<noteq> 0 \<Longrightarrow> tlook (disk s') (lev k) (a k) n = tlook (disk s) (lev k) (a k) n"
    and "q = int k \<Longrightarrow> a k \<noteq> 0 \<Longrightarrow> tlook (disk s') (lev k) (a k) n = (if n \<le> mm then tlook (disk s) (lev k) (a k) n else 0)"
    using c R unfolding fcut_def by blast+
  then show ?thesis using S R(1) by (cases "int k" q rule: linorder_cases) (auto simp: flook_def sl cut_addr_def)
qed (simp add: flook_def)

lemma cut_data:
  assumes c: "fcut lev NADDR a (cut_addr q a) q mm s xs B s'" and lb: "-1 \<le> lb" "lb < 16843012" "cutpos lb = (q, mm)"
    and f: "file_ok (disk s) a" and m: "m \<le> lb" "flook (disk s) a m \<noteq> 0"
  shows "disk s' (flook (disk s) a m) = disk s (flook (disk s) a m)"
proof -
  obtain k n where sl: "slot m = Some (k, n)" using m(2) by (auto simp: flook_def split: option.splits)
  have k: "k < NADDR" "int k \<le> q" using slot_ranges(1) [OF sl] cutpos_slot(2) [OF lb(3) sl lb(1,2)] m(1) by (simp, meson not_less)
  have a: "a k \<noteq> 0" "flook (disk s) a m = tlook (disk s) (lev k) (a k) n" using m(2) by (auto simp: flook_def sl split: if_splits)
  have "flook (disk s') (cut_addr q a) m = flook (disk s) a m" using cut_flook [OF c lb, of m] m(1) by simp
  then have "tlook (disk s') (lev k) (a k) n = flook (disk s) a m" using a(1) k by (simp add: flook_def sl cut_addr_def)
  then have "flook (disk s) a m \<in> tb (disk s') (lev k) (a k)" using leaf_in [of "disk s'" "lev k" "a k" n] m(2) by simp
  moreover have "flook (disk s) a m \<notin> inner (disk s) (lev k) (a k)"
    using leaf_not_inner [of "disk s" "lev k" "a k" n] f k(1) a m(2) by (simp add: file_ok_def)
  ultimately show ?thesis using c k a(1) unfolding fcut_def by blast
qed

text \<open>Writing a data block leaves the shape of the file alone.\<close>

lemma leaf_write:
  assumes f: "file_ok d a" and r: "flook d a m \<noteq> 0"
  shows "file_ok (d(flook d a m := v)) a" "fblocks (d(flook d a m := v)) a = fblocks d a" "\<And>i. flook (d(flook d a m := v)) a i = flook d a i"
proof -
  let ?r = "flook d a m" and ?d = "d(flook d a m := v)"
  obtain k n where sl: "slot m = Some (k, n)" using r by (auto simp: flook_def split: option.splits)
  have k: "k < NADDR" "a k \<noteq> 0" "?r = tlook d (lev k) (a k) n" using slot_ranges [OF sl] r by (auto simp: flook_def sl split: if_splits)
  have lf: "tlook d (lev k) (a k) n \<noteq> 0" "tree d (lev k) (a k)" using r k f by (simp_all add: file_ok_def)
  have ni: "?r \<notin> inner d (lev i) (a i)" if "i < NADDR" "a i \<noteq> 0" for i
  proof (cases "i = k")
    case True
    then show ?thesis using leaf_not_inner [OF lf(2,1)] k(3) by simp
  next
    case False
    then have "tb d (lev k) (a k) \<inter> tb d (lev i) (a i) = {}" using f that k(1,2) unfolding file_ok_def by blast
    then show ?thesis using inner_sub [of d "lev i" "a i"] leaf_in [OF lf(1)] k(3) by auto
  qed
  have T: "tb ?d (lev i) (a i) = tb d (lev i) (a i) \<and> tree ?d (lev i) (a i) = tree d (lev i) (a i) \<and>
      (\<forall>n. tlook ?d (lev i) (a i) n = tlook d (lev i) (a i) n)" if "i < NADDR" "a i \<noteq> 0" for i
    by (rule conjunct2 [OF inner_cong]) (use ni that in auto)
  show "file_ok ?d a" using f T unfolding file_ok_def by (metis (no_types, lifting))
  show "fblocks ?d a = fblocks d a" using T by (auto simp: fblocks_def)
  show "flook ?d a i = flook d a i" for i
  proof (cases "slot i")
    case (Some z)
    then obtain k n where "slot i = Some (k, n)" by (cases z) auto
    then show ?thesis using T [of k] slot_ranges(1) by (auto simp: flook_def)
  qed (simp add: flook_def)
qed

section \<open>itrunc\<close>

lemma finite_fblocks: "finite (fblocks d a)"
  by (simp add: fblocks_def finite_tb)

lemma fgrown_vol:
  assumes v: "vol s xs (fblocks (disk s) (i_addr ip))" and g: "fgrown bn ip s xs r ip' s' j"
  shows "vol s' (drop j xs) (fblocks (disk s') (i_addr ip'))"
proof -
  let ?F = "fblocks (disk s) (i_addr ip)"
  have V: "fl s xs" "set xs \<inter> ?F = {}" "\<forall>b\<in>?F. good (fsb s) b" "\<forall>b. rderr s b = E_OK" "length xs + card ?F < 4294967296"
    using v by (simp_all add: vol_def)
  have G: "j \<le> length xs" "fl s' (drop j xs)" "same_vol s s'" "fblocks (disk s') (i_addr ip') = ?F \<union> set (take j xs)"
    using g by (simp_all add: fgrown_def)
  have "set (take j xs) \<inter> set (drop j xs) = {}" by (rule set_take_disj_set_drop_if_distinct [OF fl_distinct [OF V(1)]]) simp
  then have dis: "set (drop j xs) \<inter> (?F \<union> set (take j xs)) = {}" using V(2) set_drop_subset [of j xs] by blast
  have "card (?F \<union> set (take j xs)) \<le> card ?F + card (set (take j xs))" by (rule card_Un_le)
  also have "card (set (take j xs)) \<le> j" using card_length [of "take j xs"] by simp
  finally have "length (drop j xs) + card (?F \<union> set (take j xs)) < 4294967296" using V(5) G(1) by simp
  moreover have "\<forall>b\<in>?F \<union> set (take j xs). good (fsb s') b"
    using V(3) fl_good [OF V(1)] set_take_subset [of j xs] same_vol_good [OF G(3)] by auto
  moreover have "\<forall>b. rderr s' b = E_OK" using V(4) G(3) by (simp add: same_vol_def)
  ultimately show ?thesis unfolding vol_def G(4) using G(2) dis finite_fblocks [of "disk s" "i_addr ip"] by blast
qed

text \<open>What a file that is cut after the block \<open>lb\<close> has; \<open>d\<close> and \<open>a\<close> are the volume and the addresses before.\<close>

definition kept :: "int \<Rightarrow> (int \<Rightarrow> blk) \<Rightarrow> (nat \<Rightarrow> int) \<Rightarrow> (int \<Rightarrow> blk) \<Rightarrow> (nat \<Rightarrow> int) \<Rightarrow> bool" where
  "kept lb d a d' a' \<longleftrightarrow> (\<forall>m. flook d' a' m = (if m \<le> lb then flook d a m else 0)) \<and>
     (\<forall>m. m \<le> lb \<longrightarrow> flook d a m \<noteq> 0 \<longrightarrow> d' (flook d a m) = d (flook d a m))"

lemma itrunc_blocks_correct:
  assumes v: "vol s xs (fblocks (disk s) (i_addr ip))" and f: "file_ok (disk s) (i_addr ip)" and lb: "-1 \<le> lb" "lb < 16843012"
  shows "\<exists>ip' s' xs'. itrunc_blocks lb ip s = (ip', s') \<and> vol s' xs' (fblocks (disk s') (i_addr ip')) \<and> file_ok (disk s') (i_addr ip') \<and>
    set xs' \<union> fblocks (disk s') (i_addr ip') = set xs \<union> fblocks (disk s) (i_addr ip) \<and>
    i_size ip' = i_size ip \<and> u_er s' = u_er s \<and> kept lb (disk s) (i_addr ip) (disk s') (i_addr ip')"
proof -
  let ?F = "fblocks (disk s) (i_addr ip)" and ?a = "i_addr ip"
  obtain q mm where q: "cutpos lb = (q, mm)" by (cases "cutpos lb")
  obtain s' where s': "itrunc_blocks lb ip s = (ip\<lparr>i_addr := cut_addr q ?a\<rparr>, s')" "fcut lev NADDR ?a (cut_addr q ?a) q mm s xs ?F s'"
    using itrunc_blocks_cut [OF v f order_refl lb q] by blast
  let ?F' = "fblocks (disk s') (cut_addr q ?a)"
  obtain zs where z: "gave s xs ?F ?F s' zs" "set zs = ?F - ?F'" "file_ok (disk s') (cut_addr q ?a)" "?F' \<subseteq> ?F"
    using s'(2) unfolding fcut_def file_forest by blast
  have "?F - set zs = ?F'" using z(2,4) by blast
  then have "vol s' (zs @ xs) ?F'" "u_er s' = u_er s" using z(1) unfolding gave_def by simp_all
  moreover have "set (zs @ xs) \<union> ?F' = set xs \<union> ?F" using z(2,4) by auto
  moreover have "kept lb (disk s) ?a (disk s') (cut_addr q ?a)"
    unfolding kept_def using cut_flook [OF s'(2) lb q] cut_data [OF s'(2) lb q f] by blast
  ultimately show ?thesis using s'(1) z(3) by (intro exI [of _ "ip\<lparr>i_addr := cut_addr q ?a\<rparr>"] exI [of _ s'] exI [of _ "zs @ xs"]) simp
qed

lemma last_block:
  fixes len :: nat
  assumes "len < 2 ^ 31"
  shows "int (u32 (len + (DEV_BSIZE - 1)) div DEV_BSIZE) - 1 = (int len - 1) div 1024" "len div 1024 < 2097152"
  using assms by (simp_all add: u32_def)

lemma le_last: "m \<le> (int len - 1) div 1024 \<longleftrightarrow> m * 1024 < int len"
proof -
  let ?q = "(int len - 1) div 1024"
  have d: "int len - 1 = ?q * 1024 + (int len - 1) mod 1024" "0 \<le> (int len - 1) mod 1024" "(int len - 1) mod 1024 < 1024" by simp_all
  show ?thesis
  proof
    assume "m \<le> ?q"
    then show "m * 1024 < int len" using d(1,2) by linarith
  next
    assume "m * 1024 < int len"
    then show "m \<le> ?q" using d(1,3) by linarith
  qed
qed

lemma next_arith:
  fixes m q r n :: int
  assumes "n = q * 1024 + r" "0 \<le> r" "r < 1024" "m * 1024 < n"
  shows "(m + 1) * 1024 \<le> n \<longleftrightarrow> r = 0 \<or> m \<noteq> q"
proof
  assume "(m + 1) * 1024 \<le> n"
  then have "m * 1024 + 1024 \<le> n" by simp
  then have "m < q" using assms by linarith
  then show "r = 0 \<or> m \<noteq> q" by simp
next
  assume "r = 0 \<or> m \<noteq> q"
  moreover have "m \<le> q" using assms by linarith
  ultimately have "m + 1 \<le> q" using assms by (elim disjE) linarith+
  then have "m * 1024 + 1024 \<le> n" using assms by linarith
  then show "(m + 1) * 1024 \<le> n" by simp
qed

lemma next_block:
  assumes "m * 1024 < int len"
  shows "(m + 1) * 1024 \<le> int len \<longleftrightarrow> len mod 1024 = 0 \<or> m \<noteq> int (len div 1024)"
proof -
  have e: "int len = int (len div 1024) * 1024 + int (len mod 1024)" by (simp add: zdiv_int zmod_int)
  have "(m + 1) * 1024 \<le> int len \<longleftrightarrow> int (len mod 1024) = 0 \<or> m \<noteq> int (len div 1024)"
    by (rule next_arith [OF e _ _ assms]) simp_all
  then show ?thesis unfolding of_nat_eq_0_iff .
qed

text \<open>
  The blocks of a file before and after it is made \<open>len\<close> bytes long: none after the end, those before it with their data, and the block
  that holds the end cleared from there on, or a new one where there was none.
\<close>

definition shrunk :: "nat \<Rightarrow> (int \<Rightarrow> blk) \<Rightarrow> (nat \<Rightarrow> int) \<Rightarrow> (int \<Rightarrow> blk) \<Rightarrow> (nat \<Rightarrow> int) \<Rightarrow> bool" where
  "shrunk len d a d' a' \<longleftrightarrow> (\<forall>m. int len \<le> m * 1024 \<longrightarrow> flook d' a' m = 0) \<and>
     (\<forall>m. m * 1024 < int len \<longrightarrow> flook d a m \<noteq> 0 \<longrightarrow> flook d' a' m = flook d a m \<and>
        d' (flook d a m) = (if (m + 1) * 1024 \<le> int len then d (flook d a m) else bzero_tail (len mod 1024) (d (flook d a m)))) \<and>
     (\<forall>m. m * 1024 < int len \<longrightarrow> flook d a m = 0 \<longrightarrow> (flook d' a' m = 0 \<longleftrightarrow> (m + 1) * 1024 \<le> int len))"

lemma shrunk_aligned:
  assumes "kept ((int len - 1) div 1024) d a d' a'" "len mod 1024 = 0"
  shows "shrunk len d a d' a'"
proof -
  have "(m + 1) * 1024 \<le> int len" if "m * 1024 < int len" for m using next_block [OF that] assms(2) by simp
  then show ?thesis using assms(1) unfolding kept_def shrunk_def le_last by auto
qed

text \<open>The map of a file determines its data blocks: no block is mapped twice.\<close>

lemma tlook_inj:
  assumes "tree d l b" "tlook d l b m = tlook d l b n" "tlook d l b m \<noteq> 0"
  shows "m mod 256 ^ l = n mod 256 ^ l"
  using assms
proof (induction l arbitrary: b)
  case (Suc l)
  let ?c = "d b (idx l m)" and ?e = "d b (idx l n)"
  have c: "?c \<noteq> 0" "?e \<noteq> 0" "tlook d l ?c m = tlook d l ?e n" "tlook d l ?c m \<noteq> 0"
    using Suc.prems(2,3) by (auto simp: tlook.simps(2) Let_def split: if_splits)
  have i: "idx l m = idx l n"
  proof (rule ccontr)
    assume ne: "idx l m \<noteq> idx l n"
    have "tb d l ?c \<inter> tb d l ?e = {}" using Suc.prems(1) c(1,2) ne idx_less [of l m] idx_less [of l n] unfolding tree.simps(2) by metis
    then show False using leaf_in [of d l ?c m] leaf_in [of d l ?e n] c by auto
  qed
  have "tree d l ?c" using Suc.prems(1) c(1) idx_less [of l m] unfolding tree.simps(2) by blast
  then have "m mod 256 ^ l = n mod 256 ^ l" using Suc.IH c i by simp
  then show ?case using mod_split [OF i] by simp
qed simp

lemma flook_inj:
  assumes f: "file_ok d a" and e: "flook d a m = flook d a n" "flook d a m \<noteq> 0"
  shows "m = n"
proof -
  obtain k x where x: "slot m = Some (k, x)" "a k \<noteq> 0" "flook d a m = tlook d (lev k) (a k) x"
    using e by (auto simp: flook_def split: option.splits if_splits)
  obtain h y where y: "slot n = Some (h, y)" "a h \<noteq> 0" "flook d a n = tlook d (lev h) (a h) y"
    using e by (auto simp: flook_def split: option.splits if_splits)
  have K: "k < NADDR" "h < NADDR" using slot_ranges(1) [OF x(1)] slot_ranges(1) [OF y(1)] .
  have L: "flook d a m \<in> tb d (lev k) (a k)" "flook d a m \<in> tb d (lev h) (a h)"
    using leaf_in [of d "lev k" "a k" x] leaf_in [of d "lev h" "a h" y] x y e by auto
  have kh: "k = h" using f K x(2) y(2) L unfolding file_ok_def by blast
  have "x mod 256 ^ lev k = y mod 256 ^ lev k" using tlook_inj [of d "lev k" "a k" x y] f K(1) x y e kh by (simp add: file_ok_def)
  then show ?thesis using slot_inj [OF x(1), of n y] y(1) kh by auto
qed

lemma shrunk_partial:
  assumes g: "fgrown bn ip s xs r ip1 s1 j" and r: "r = flook (disk s1) (i_addr ip1) bn" "r \<noteq> 0" and bn: "bn = int (len div 1024)" "len mod 1024 \<noteq> 0"
    and d2: "d2 = (disk s1)(r := bzero_tail (len mod 1024) (disk s1 r))" and k: "kept ((int len - 1) div 1024) d2 (i_addr ip1) d' a'"
  shows "shrunk len (disk s) (i_addr ip) d' a'"
proof -
  let ?d = "disk s" and ?a = "i_addr ip" and ?a1 = "i_addr ip1"
  have f1: "file_ok (disk s1) ?a1" using g by (simp add: fgrown_def)
  have L2: "flook d2 ?a1 m = flook (disk s1) ?a1 m" for m unfolding d2 r(1) by (rule leaf_write(3) [OF f1]) (use r in simp)
  have o: "flook (disk s1) ?a1 m = flook ?d ?a m" if "m \<noteq> bn" for m using g that by (simp add: fgrown_def)
  have b: "flook ?d ?a bn \<noteq> 0 \<Longrightarrow> r = flook ?d ?a bn" using g r unfolding fgrown_def by auto
  have data: "flook ?d ?a m \<noteq> 0 \<Longrightarrow> disk s1 (flook ?d ?a m) = ?d (flook ?d ?a m)" for m using g by (simp add: fgrown_def)
  have K: "flook d' a' m = (if m * 1024 < int len then flook (disk s1) ?a1 m else 0)"
    "m * 1024 < int len \<Longrightarrow> flook (disk s1) ?a1 m \<noteq> 0 \<Longrightarrow> d' (flook (disk s1) ?a1 m) = d2 (flook (disk s1) ?a1 m)" for m
    using k unfolding kept_def le_last L2 by blast+
  have e: "(m + 1) * 1024 \<le> int len \<longleftrightarrow> m \<noteq> bn" if "m * 1024 < int len" for m using next_block [OF that] bn by simp
  have nr: "flook (disk s1) ?a1 m \<noteq> r" if "m \<noteq> bn" for m using flook_inj [OF f1, of bn m] r that by auto
  show ?thesis unfolding shrunk_def
  proof (intro conjI allI impI)
    fix m assume m: "m * 1024 < int len" "flook ?d ?a m \<noteq> 0"
    show "flook d' a' m = flook ?d ?a m" using K(1) o b r m by (cases "m = bn") auto
    show "d' (flook ?d ?a m) = (if (m + 1) * 1024 \<le> int len then ?d (flook ?d ?a m) else bzero_tail (len mod 1024) (?d (flook ?d ?a m)))"
    proof (cases "m = bn")
      case True
      then show ?thesis using K(2) [OF m(1)] m b r data [OF m(2)] e [OF m(1)] by (simp add: d2)
    next
      case False
      then show ?thesis using K(2) [OF m(1)] m o [OF False] nr [OF False] data [OF m(2)] e [OF m(1)] by (simp add: d2)
    qed
  next
    fix m assume m: "m * 1024 < int len" "flook ?d ?a m = 0"
    show "flook d' a' m = 0 \<longleftrightarrow> (m + 1) * 1024 \<le> int len" using K(1) [of m] o [of m] r m e [OF m(1)] by (cases "m = bn") auto
  qed (use K(1) in simp)
qed

text \<open>The state after \<^verbatim>\<open>itrunc\<close> of a file to \<open>len\<close> bytes, with the free blocks \<open>xs\<close> before and \<open>xs'\<close> after it.\<close>

definition truncated :: "nat \<Rightarrow> inode \<Rightarrow> ufs \<Rightarrow> int list \<Rightarrow> inode \<Rightarrow> ufs \<Rightarrow> int list \<Rightarrow> bool" where
  "truncated len ip s xs ip' s' xs' \<longleftrightarrow> vol s' xs' (fblocks (disk s') (i_addr ip')) \<and> file_ok (disk s') (i_addr ip') \<and>
     set xs' \<union> fblocks (disk s') (i_addr ip') = set xs \<union> fblocks (disk s) (i_addr ip) \<and>
     (if u_er s' = E_OK then i_size ip' = len \<and> shrunk len (disk s) (i_addr ip) (disk s') (i_addr ip')
      else u_er s' = ENOSPC \<and> len mod 1024 \<noteq> 0 \<and> flook (disk s) (i_addr ip) (int (len div 1024)) = 0 \<and> i_size ip' = i_size ip \<and>
        (\<forall>m. flook (disk s') (i_addr ip') m = flook (disk s) (i_addr ip) m))"

lemma itrunc_shorter:
  assumes "\<not> i_pipe ip" "len < i_size ip" "len < 2 ^ 31"
  shows "itrunc len ip s = (let off = len mod DEV_BSIZE; (ok, ip, s) = (if off \<noteq> 0 then
        let (bn, ip, s) = bmap True True (int (len div 1024)) ip s in if u_er s \<noteq> E_OK \<or> bn < 0 then (False, ip, s)
          else (case bread bn s of (False, s) \<Rightarrow> (False, ip, s\<lparr>u_er := EIO\<rparr>) | (True, s) \<Rightarrow> (True, ip, upd_blk bn (bzero_tail off (disk s bn)) s))
      else (True, ip, s)) in if \<not> ok then (ip, s)
        else let (ip, s) = itrunc_blocks ((int len - 1) div 1024) (ip\<lparr>i_size := len\<rparr>) s in (ip\<lparr>i_chg := True\<rparr>, s))"
  using assms(1,2) unfolding itrunc_def Let_def last_block(1) [OF assms(3)] by simp

lemma itrunc_aligned:
  assumes "vol s xs (fblocks (disk s) (i_addr ip))" "file_ok (disk s) (i_addr ip)" "\<not> i_pipe ip" "len < i_size ip" "len < 2 ^ 31" "u_er s = E_OK"
    and off: "len mod 1024 = 0"
  shows "\<exists>ip' s' xs'. itrunc len ip s = (ip', s') \<and> truncated len ip s xs ip' s' xs'"
proof -
  let ?lb = "(int len - 1) div 1024" and ?F = "fblocks (disk s) (i_addr ip)"
  have lb: "-1 \<le> ?lb" "?lb < 16843012" using assms(5) by simp_all
  obtain ip' s' xs' where b: "itrunc_blocks ?lb (ip\<lparr>i_size := len\<rparr>) s = (ip', s')" "vol s' xs' (fblocks (disk s') (i_addr ip'))"
    "file_ok (disk s') (i_addr ip')" "set xs' \<union> fblocks (disk s') (i_addr ip') = set xs \<union> ?F" "i_size ip' = len" "u_er s' = u_er s"
    "kept ?lb (disk s) (i_addr ip) (disk s') (i_addr ip')"
    using itrunc_blocks_correct [of s "ip\<lparr>i_size := len\<rparr>" xs ?lb] assms(1,2) lb by auto
  show ?thesis using b(1-6) shrunk_aligned [OF b(7) off] assms(6) unfolding itrunc_shorter [OF assms(3-5)] truncated_def
    by (intro exI [of _ "ip'\<lparr>i_chg := True\<rparr>"] exI [of _ s'] exI [of _ xs']) (simp add: off)
qed

lemma itrunc_partial:
  assumes "vol s xs (fblocks (disk s) (i_addr ip))" "file_ok (disk s) (i_addr ip)" "\<forall>b\<in>set xs \<union> fblocks (disk s) (i_addr ip). 0 \<le> b"
    "\<not> i_pipe ip" "len < i_size ip" "len < 2 ^ 31" "u_er s = E_OK" and off: "len mod 1024 \<noteq> 0"
  shows "\<exists>ip' s' xs'. itrunc len ip s = (ip', s') \<and> truncated len ip s xs ip' s' xs'"
proof -
  let ?lb = "(int len - 1) div 1024" and ?F = "fblocks (disk s) (i_addr ip)" and ?bn = "int (len div 1024)"
  note step = itrunc_shorter [OF assms(4-6)]
  have lb: "-1 \<le> ?lb" "?lb < 16843012" "0 \<le> ?bn" "?bn < 16843012" using assms(6) last_block(2) [OF assms(6)] by simp_all
  have V: "fl s xs" "?F \<inter> set xs = {}" "\<And>x. rderr s x = E_OK" "length xs < 4294967296" using assms(1) unfolding vol_def by auto
  obtain r ip1 s1 j where bm: "bmap True True ?bn ip s = (r, ip1, s1)" and g: "fgrown ?bn ip s xs r ip1 s1 j"
    using bmap_grown [OF V(1) assms(2) V(2-4) lb(3,4)] by blast
  note v1 = fgrown_vol [OF assms(1) g]
  have f1: "file_ok (disk s1) (i_addr ip1)" "i_size ip1 = i_size ip" and F1: "fblocks (disk s1) (i_addr ip1) = ?F \<union> set (take j xs)" using g by (simp_all add: fgrown_def)
  have un: "set (drop j xs) \<union> fblocks (disk s1) (i_addr ip1) = set xs \<union> ?F" unfolding F1 using set_append [of "take j xs" "drop j xs"] by auto
  show ?thesis
  proof (cases "u_er s1 = E_OK")
    case False
    then have n: "u_er s1 = ENOSPC" "flook (disk s) (i_addr ip) ?bn = 0" "flook (disk s1) (i_addr ip1) ?bn = 0" using g assms(7) unfolding fgrown_def by auto
    have "flook (disk s1) (i_addr ip1) m = flook (disk s) (i_addr ip) m" for m using g n by (cases "m = ?bn") (auto simp: fgrown_def)
    then show ?thesis using v1 f1 un n off unfolding step bm truncated_def by (intro exI [of _ ip1] exI [of _ s1] exI [of _ "drop j xs"]) simp
  next
    case ok: True
    have r: "r = flook (disk s1) (i_addr ip1) ?bn" "r \<noteq> 0" using g ok unfolding fgrown_def by auto
    have rF: "r \<in> fblocks (disk s1) (i_addr ip1)" using leaf_fblocks r by metis
    then have r0: "\<not> r < 0" using assms(3) set_take_subset [of j xs] unfolding F1 by force
    define s2 where "s2 = upd_blk r (bzero_tail (len mod 1024) (disk s1 r)) s1"
    have d2: "disk s2 = (disk s1)(r := bzero_tail (len mod 1024) (disk s1 r))" "u_er s2 = E_OK" using ok by (simp_all add: s2_def upd_blk_def)
    have W: "file_ok (disk s2) (i_addr ip1)" "fblocks (disk s2) (i_addr ip1) = fblocks (disk s1) (i_addr ip1)"
      using leaf_write(1,2) [OF f1(1), of ?bn] r unfolding d2(1) by auto
    have v2: "vol s2 (drop j xs) (fblocks (disk s2) (i_addr ip1))" unfolding W(2) unfolding s2_def by (rule vol_write [OF v1 rF])
    obtain ip' s' xs' where b: "itrunc_blocks ?lb (ip1\<lparr>i_size := len\<rparr>) s2 = (ip', s')" "vol s' xs' (fblocks (disk s') (i_addr ip'))"
      "file_ok (disk s') (i_addr ip')" "set xs' \<union> fblocks (disk s') (i_addr ip') = set xs \<union> ?F" "i_size ip' = len" "u_er s' = u_er s2"
      "kept ?lb (disk s2) (i_addr ip1) (disk s') (i_addr ip')"
      using itrunc_blocks_correct [of s2 "ip1\<lparr>i_size := len\<rparr>" "drop j xs" ?lb] v2 W un lb by auto
    show ?thesis using b(1-6) shrunk_partial [OF g r refl off d2(1) b(7)] ok off r0 d2(2) vol_read [OF v1] unfolding step bm truncated_def
      by (intro exI [of _ "ip'\<lparr>i_chg := True\<rparr>"] exI [of _ s'] exI [of _ xs']) (simp add: s2_def [symmetric])
  qed
qed

text \<open>
  C5. \<^verbatim>\<open>itrunc\<close> to a length below the size of a file whose blocks form a tree, on a volume whose free list holds the blocks not in use.
  After it the blocks of the file form a tree again and every block is still either in use by the file or on the free list, once. If it succeeds, the
  size is the new length, no block after the end is mapped, every block before it is mapped as it was and has its data, and the
  block that holds the end is cleared from there on. It fails only with \<^verbatim>\<open>ENOSPC\<close>, when the end falls into a hole of the file for
  which no block is free, and then size and map are as before.
\<close>

theorem itrunc_shrinks:
  assumes "vol s xs (fblocks (disk s) (i_addr ip))" "file_ok (disk s) (i_addr ip)" "\<forall>b\<in>set xs \<union> fblocks (disk s) (i_addr ip). 0 \<le> b"
    "\<not> i_pipe ip" "len < i_size ip" "i_size ip < 2 ^ 31" "u_er s = E_OK"
  shows "\<exists>ip' s' xs'. itrunc len ip s = (ip', s') \<and> truncated len ip s xs ip' s' xs'"
proof -
  have "len < 2 ^ 31" using assms(5,6) by simp
  then show ?thesis using itrunc_aligned [OF assms(1,2,4,5)] itrunc_partial [OF assms(1-5)] assms(7) by blast
qed

definition demo_file :: inode where
  "demo_file = \<lparr>i_addr = (\<lambda>k. if k = 0 then 40 else if k = 1 then 41 else 0), i_size = 2000, i_pipe = False, i_chg = False\<rparr>"

lemma demo_file_ok: "fblocks (disk demo_vol) (i_addr demo_file) = {40, 41}" "file_ok (disk demo_vol) (i_addr demo_file)"
proof -
  have "{k. k < NADDR \<and> i_addr demo_file k \<noteq> 0} = {0, 1}" by (auto simp: demo_file_def)
  then show "fblocks (disk demo_vol) (i_addr demo_file) = {40, 41}" unfolding fblocks_def by (simp add: lev_def) (simp add: demo_file_def insert_commute)
  show "file_ok (disk demo_vol) (i_addr demo_file)" by (auto simp: file_ok_def demo_file_def lev_def)
qed

theorem itrunc_shrinks_witness:
  "\<exists>ip' s' xs'. itrunc 100 demo_file demo_vol = (ip', s') \<and> truncated 100 demo_file demo_vol [30, 20] ip' s' xs'"
proof (rule itrunc_shrinks)
  show "vol demo_vol [30, 20] (fblocks (disk demo_vol) (i_addr demo_file))"
    unfolding demo_file_ok vol_def using demo_vol_fl by (simp add: good_def badblock_def demo_vol_def)
qed (simp_all add: demo_file_ok, simp_all add: demo_file_def demo_vol_def)

end
