(* ===== verification/Cred.thy ===== *)
theory Cred
  imports Ufs
begin

text \<open>
  The identity of a process and what it permits (\<^verbatim>\<open>src/sys/kernel/kern_prot.c\<close>, \<^verbatim>\<open>kern_prot2.c\<close>): the real, effective and saved user and
  group ids, the group set, the ids that \<^verbatim>\<open>exec\<close> gives to a program (\<^verbatim>\<open>kern_exec.c\<close>, \<^verbatim>\<open>exec_subr.c\<close>), the check of
  permissions (\<^verbatim>\<open>ufs_fio.c\<close>) and the change of the attributes of a file (\<^verbatim>\<open>ufs_fio.c\<close>, \<^verbatim>\<open>ufs_syscalls.c\<close>,
  \<^verbatim>\<open>ufs_syscalls2.c\<close>). Ids are unsigned 32-bit numbers, modes and flags 32-bit words. The system calls on a file take the file that
  \<^verbatim>\<open>namei\<close> finds as an argument, and those that copy a group set the outcome of the copy.
\<close>

unbundle bit_operations_syntax

section \<open>Credentials\<close>

abbreviation (input) NGROUPS :: nat where "NGROUPS \<equiv> 16"
abbreviation (input) NOGROUP :: nat where "NOGROUP \<equiv> 65535"

record cred =
  u_uid :: nat
  u_svuid :: nat
  u_ruid :: nat
  u_svgid :: nat
  u_rgid :: nat
  u_groups :: "nat list" \<comment> \<open>\<^verbatim>\<open>NGROUPS\<close> entries; the first is the effective group id\<close>
  p_uid :: int \<comment> \<open>in the process table, a \<^verbatim>\<open>short\<close>\<close>
  u_err :: errno
  u_rval :: nat

definition suser :: "cred \<Rightarrow> bool \<times> cred" where
  "suser c = (if u_uid c = 0 then (True, c) else (False, c\<lparr>u_err := EPERM\<rparr>))"

fun group_scan :: "nat \<Rightarrow> nat list \<Rightarrow> bool" where
  "group_scan gid [] \<longleftrightarrow> False"
| "group_scan gid (g # gs) \<longleftrightarrow> (if g = NOGROUP then False else if g = gid then True else group_scan gid gs)"

definition groupmember :: "nat \<Rightarrow> cred \<Rightarrow> bool" where
  "groupmember gid c = group_scan gid (take NGROUPS (u_groups c))"

definition setuid :: "nat \<Rightarrow> cred \<Rightarrow> cred" where
  "setuid uid c =
     (if uid \<noteq> u_ruid c \<and> \<not> fst (suser c) then snd (suser c)
      else c\<lparr>p_uid := s16 (int uid), u_uid := uid, u_ruid := uid, u_svuid := uid, u_err := E_OK\<rparr>)"

definition seteuid :: "nat \<Rightarrow> cred \<Rightarrow> cred" where
  "seteuid euid c =
     (if euid \<noteq> u_ruid c \<and> euid \<noteq> u_svuid c \<and> \<not> fst (suser c) then snd (suser c)
      else c\<lparr>u_uid := euid, u_err := E_OK\<rparr>)"

definition setgid :: "nat \<Rightarrow> cred \<Rightarrow> cred" where
  "setgid gid c =
     (if gid \<noteq> u_rgid c \<and> \<not> fst (suser c) then snd (suser c)
      else c\<lparr>u_groups := (u_groups c)[0 := gid], u_rgid := gid, u_svgid := gid, u_err := E_OK\<rparr>)"

definition setegid :: "nat \<Rightarrow> cred \<Rightarrow> cred" where
  "setegid egid c =
     (if egid \<noteq> u_rgid c \<and> egid \<noteq> u_svgid c \<and> \<not> fst (suser c) then snd (suser c)
      else c\<lparr>u_groups := (u_groups c)[0 := egid], u_err := E_OK\<rparr>)"

text \<open>\<open>e\<close> is what \<^verbatim>\<open>copyin\<close> or \<^verbatim>\<open>copyout\<close> returns, \<open>gs\<close> the groups that \<^verbatim>\<open>copyin\<close> reads.\<close>

fun group_count :: "nat list \<Rightarrow> nat" where
  "group_count gs = length (dropWhile (\<lambda>g. g = NOGROUP) (rev gs))"

definition getgroups :: "nat \<Rightarrow> errno \<Rightarrow> cred \<Rightarrow> cred" where
  "getgroups gidsetsize e c =
     (let n = group_count (u_groups c) in
      if gidsetsize < n then c\<lparr>u_err := EINVAL\<rparr>
      else if e \<noteq> E_OK then c\<lparr>u_err := e\<rparr>
      else c\<lparr>u_err := E_OK, u_rval := n\<rparr>)"

definition setgroups :: "nat \<Rightarrow> errno \<Rightarrow> nat list \<Rightarrow> cred \<Rightarrow> cred" where
  "setgroups gidsetsize e gs c =
     (if \<not> fst (suser c) then snd (suser c)
      else if gidsetsize > NGROUPS then c\<lparr>u_err := EINVAL\<rparr>
      else if e \<noteq> E_OK then c\<lparr>u_err := e\<rparr>
      else c\<lparr>u_groups := take gidsetsize gs @ replicate (NGROUPS - gidsetsize) NOGROUP, u_err := E_OK\<rparr>)"

section \<open>Files\<close>

definition IFMT :: "32 word" where "IFMT = 0xF000"
definition IFCHR :: "32 word" where "IFCHR = 0x2000"
definition IFDIR :: "32 word" where "IFDIR = 0x4000"
definition IFBLK :: "32 word" where "IFBLK = 0x6000"
definition ISUID :: "32 word" where "ISUID = 0x800"
definition ISGID :: "32 word" where "ISGID = 0x400"
definition ISVTX :: "32 word" where "ISVTX = 0x200"
definition IREAD :: "32 word" where "IREAD = 0x100"
definition IWRITE :: "32 word" where "IWRITE = 0x80"
definition IEXEC :: "32 word" where "IEXEC = 0x40"
definition UF_SETTABLE :: "32 word" where "UF_SETTABLE = 0x00FF"
definition SF_SETTABLE :: "32 word" where "SF_SETTABLE = 0xFF00"
definition SF_LOCKED :: "32 word" where "SF_LOCKED = 0x0600" \<comment> \<open>\<^verbatim>\<open>SF_IMMUTABLE|SF_APPEND\<close>\<close>
definition IMMUTABLE :: "32 word" where "IMMUTABLE = 0x0202"
definition APPEND :: "32 word" where "APPEND = 0x0404"
definition VA_UTIMES_NULL :: "32 word" where "VA_UTIMES_NULL = 1"

abbreviation VNOVAL :: nat where "VNOVAL \<equiv> 4294967295"

record finode =
  i_mode :: "32 word"
  i_uid :: nat
  i_gid :: nat
  i_flags :: "32 word"
  fs_ronly :: bool
  mnt_noatime :: bool
  i_IACC :: bool
  i_IUPD :: bool
  i_ICHG :: bool
  i_atime :: nat
  i_mtime :: nat
  i_ctime :: nat
  ino :: inode

record vattr =
  va_mode :: nat
  va_uid :: nat
  va_gid :: nat
  va_size :: nat
  va_atime :: nat
  va_mtime :: nat
  va_flags :: nat
  va_vaflags :: nat

definition VATTR_NULL :: vattr where
  "VATTR_NULL = \<lparr>va_mode = VNOVAL, va_uid = VNOVAL, va_gid = VNOVAL, va_size = VNOVAL, va_atime = VNOVAL, va_mtime = VNOVAL,
     va_flags = VNOVAL, va_vaflags = VNOVAL\<rparr>"

text \<open>\<^verbatim>\<open>access\<close>: \<open>True\<close> when access is denied. A mode is shifted to the bits of the group and of the others.\<close>

definition access :: "finode \<Rightarrow> 32 word \<Rightarrow> cred \<Rightarrow> bool \<times> cred" where
  "access ip mode c =
     (if mode = IWRITE \<and> i_flags ip AND IMMUTABLE \<noteq> 0 then (True, c\<lparr>u_err := EPERM\<rparr>)
      else if mode = IWRITE \<and> fs_ronly ip \<and> i_mode ip AND IFMT \<noteq> IFCHR \<and> i_mode ip AND IFMT \<noteq> IFBLK then (True, c\<lparr>u_err := EROFS\<rparr>)
      else if u_uid c = 0 then (False, c)
      else
        let m = (if u_uid c \<noteq> i_uid ip then
                   if group_scan (i_gid ip) (take NGROUPS (u_groups c)) then drop_bit 3 mode else drop_bit 3 (drop_bit 3 mode)
                 else mode)
        in if i_mode ip AND m \<noteq> 0 then (False, c) else (True, c\<lparr>u_err := EACCES\<rparr>))"

text \<open>\<^verbatim>\<open>saccess\<close>: \<open>ip\<close> is the file that \<^verbatim>\<open>namei\<close> finds for the real ids, or the error that it sets.\<close>

definition saccess :: "errno + finode \<Rightarrow> nat \<Rightarrow> cred \<Rightarrow> cred" where
  "saccess r fmode c =
     (let t = c\<lparr>u_uid := u_ruid c, u_groups := (u_groups c)[0 := u_rgid c]\<rparr>;
          t = (case r of
                 Inl e \<Rightarrow> t\<lparr>u_err := e\<rparr>
               | Inr ip \<Rightarrow>
                   let (no, t) = (if odd (fmode div 4) then access ip IREAD t else (False, t));
                       (no, t) = (if no then (no, t) else if odd (fmode div 2) then access ip IWRITE t else (no, t));
                       (no, t) = (if no then (no, t) else if odd fmode then access ip IEXEC t else (no, t))
                   in t)
      in t\<lparr>u_uid := u_uid c, u_groups := (u_groups t)[0 := u_groups c ! 0]\<rparr>)"

definition chmod1 :: "finode \<Rightarrow> 32 word \<Rightarrow> cred \<Rightarrow> errno \<times> finode \<times> cred" where
  "chmod1 ip mode c =
     (if u_uid c \<noteq> i_uid ip \<and> \<not> fst (suser c) then (u_err (snd (suser c)), ip, snd (suser c))
      else if u_uid c \<noteq> 0 \<and> i_mode ip AND IFMT \<noteq> IFDIR \<and> mode AND ISVTX \<noteq> 0 then (EFTYPE, ip, c)
      else if u_uid c \<noteq> 0 \<and> \<not> groupmember (i_gid ip) c \<and> mode AND ISGID \<noteq> 0 then (EPERM, ip, c)
      else (E_OK, ip\<lparr>i_mode := (i_mode ip AND NOT 0xFFF) OR (mode AND 0xFFF), i_ICHG := True\<rparr>, c))"

definition chown1 :: "finode \<Rightarrow> nat \<Rightarrow> nat \<Rightarrow> cred \<Rightarrow> errno \<times> finode \<times> cred" where
  "chown1 ip uid gid c =
     (let uid = (if uid = VNOVAL then i_uid ip else uid); gid = (if gid = VNOVAL then i_gid ip else gid) in
      if (u_uid c \<noteq> i_uid ip \<or> uid \<noteq> i_uid ip \<or> \<not> groupmember gid c) \<and> \<not> fst (suser c) then (u_err (snd (suser c)), ip, snd (suser c))
      else
        let ip' = ip\<lparr>i_uid := uid, i_gid := gid, i_ICHG := (i_ICHG ip \<or> i_uid ip \<noteq> uid \<or> i_gid ip \<noteq> gid)\<rparr>;
            ip' = (if i_uid ip \<noteq> uid \<and> u_uid c \<noteq> 0 then ip'\<lparr>i_mode := i_mode ip' AND NOT ISUID\<rparr> else ip');
            ip' = (if i_gid ip \<noteq> gid \<and> u_uid c \<noteq> 0 then ip'\<lparr>i_mode := i_mode ip' AND NOT ISGID\<rparr> else ip')
        in (E_OK, ip', c))"

text \<open>
  \<^verbatim>\<open>iupdat\<close> on the inode in core, at \<open>now\<close>; the copy to the inode list is not part of the model. The mark \<open>i_chg\<close> that \<^verbatim>\<open>bmap\<close> and \<^verbatim>\<open>itrunc\<close> leave
  stands for both \<^verbatim>\<open>IUPD\<close> and \<^verbatim>\<open>ICHG\<close>.
\<close>

definition iupdat :: "nat \<Rightarrow> nat \<Rightarrow> nat \<Rightarrow> finode \<Rightarrow> finode" where
  "iupdat now ta tm ip =
     (if fs_ronly ip then ip
      else ip\<lparr>i_atime := (if i_IACC ip then ta else i_atime ip), i_mtime := (if i_IUPD ip \<or> i_chg (ino ip) then tm else i_mtime ip),
              i_ctime := (if i_ICHG ip \<or> i_chg (ino ip) then now else i_ctime ip), i_IACC := False, i_IUPD := False, i_ICHG := False,
              ino := (ino ip)\<lparr>i_chg := False\<rparr>\<rparr>)"

record attr_state =
  fi :: finode
  fcr :: cred
  fvol :: ufs

text \<open>The call of \<^verbatim>\<open>itrunc\<close>, which ends with \<^verbatim>\<open>iupdat\<close> unless it has returned before it set the size.\<close>

definition upd_size :: "nat \<Rightarrow> nat \<Rightarrow> attr_state \<Rightarrow> attr_state" where
  "upd_size now n t = (let (ip, s) = itrunc n (ino (fi t)) ((fvol t)\<lparr>u_er := u_err (fcr t)\<rparr>);
                           f = (fi t)\<lparr>ino := ip\<rparr>
                       in t\<lparr>fi := (if i_size ip = n then iupdat now now now f else f), fcr := (fcr t)\<lparr>u_err := u_er s\<rparr>, fvol := s\<rparr>)"

text \<open>The parts of \<^verbatim>\<open>ufs_setattr\<close> in their order; a part returns the value that the function returns, if it does.\<close>

definition setattr_flags :: "int \<Rightarrow> vattr \<Rightarrow> attr_state \<Rightarrow> errno option \<times> attr_state" where
  "setattr_flags securelevel vap t =
     (let ip = fi t; c = fcr t in
      if va_flags vap = VNOVAL then (None, t)
      else if u_uid c \<noteq> i_uid ip \<and> \<not> fst (suser c) then (Some (u_err (snd (suser c))), t\<lparr>fcr := snd (suser c)\<rparr>)
      else if u_uid c = 0 \<and> i_flags ip AND SF_LOCKED \<noteq> 0 \<and> securelevel > 0 then (Some EPERM, t)
      else if u_uid c \<noteq> 0 \<and> i_flags ip AND SF_LOCKED \<noteq> 0 then (Some EPERM, t)
      else
        let f = (if u_uid c = 0 then of_nat (va_flags vap) else (i_flags ip AND SF_SETTABLE) OR (of_nat (va_flags vap) AND UF_SETTABLE));
            t = t\<lparr>fi := ip\<lparr>i_flags := f, i_ICHG := True\<rparr>\<rparr>
        in if of_nat (va_flags vap) AND (IMMUTABLE OR APPEND) \<noteq> 0 then (Some E_OK, t) else (None, t))"

definition setattr_owner :: "vattr \<Rightarrow> attr_state \<Rightarrow> errno option \<times> attr_state" where
  "setattr_owner vap t =
     (if va_uid vap \<noteq> VNOVAL \<or> va_gid vap \<noteq> VNOVAL then
        let (e, ip, c) = chown1 (fi t) (va_uid vap) (va_gid vap) (fcr t)
        in (if e \<noteq> E_OK then Some e else None, t\<lparr>fi := ip, fcr := c\<rparr>)
      else (None, t))"

definition setattr_size :: "nat \<Rightarrow> vattr \<Rightarrow> attr_state \<Rightarrow> errno option \<times> attr_state" where
  "setattr_size now vap t =
     (if va_size vap \<noteq> VNOVAL then
        if i_mode (fi t) AND IFMT = IFDIR then (Some EISDIR, t)
        else let t = upd_size now (va_size vap) t in (if u_err (fcr t) \<noteq> E_OK then Some (u_err (fcr t)) else None, t)
      else (None, t))"

definition setattr_times :: "nat \<Rightarrow> vattr \<Rightarrow> attr_state \<Rightarrow> errno option \<times> attr_state" where
  "setattr_times now vap t =
     (if va_atime vap \<noteq> VNOVAL \<or> va_mtime vap \<noteq> VNOVAL then
        let ip = fi t; c = fcr t;
            (no, c) = (if u_uid c \<noteq> i_uid ip then
                         let (su, c) = suser c
                         in if su then (False, c)
                            else if of_nat (va_vaflags vap) AND VA_UTIMES_NULL = 0 then (True, c)
                            else access ip IWRITE c
                       else (False, c));
            t = t\<lparr>fcr := c\<rparr>
        in if no then (Some (u_err c), t)
           else
             let ip = (if va_atime vap \<noteq> VNOVAL \<and> \<not> mnt_noatime ip then ip\<lparr>i_IACC := True\<rparr> else ip);
                 ip = (if va_mtime vap \<noteq> VNOVAL then ip\<lparr>i_IUPD := True, i_ICHG := True\<rparr> else ip)
             in (None, t\<lparr>fi := iupdat now (va_atime vap) (va_mtime vap) ip\<rparr>)
      else (None, t))"

definition setattr_mode :: "vattr \<Rightarrow> attr_state \<Rightarrow> errno option \<times> attr_state" where
  "setattr_mode vap t =
     (if va_mode vap \<noteq> VNOVAL then let (e, ip, c) = chmod1 (fi t) (of_nat (va_mode vap)) (fcr t) in (Some e, t\<lparr>fi := ip, fcr := c\<rparr>)
      else (Some E_OK, t))"

definition and_then :: "errno option \<times> attr_state \<Rightarrow> (attr_state \<Rightarrow> errno option \<times> attr_state) \<Rightarrow> errno option \<times> attr_state" where
  "and_then r f = (case r of (Some e, t) \<Rightarrow> (Some e, t) | (None, t) \<Rightarrow> f t)"

definition setattr_locked :: "attr_state \<Rightarrow> errno option \<times> attr_state" where
  "setattr_locked t = (if i_flags (fi t) AND (IMMUTABLE OR APPEND) \<noteq> 0 then (Some EPERM, t) else (None, t))"

definition ufs_setattr :: "int \<Rightarrow> nat \<Rightarrow> vattr \<Rightarrow> attr_state \<Rightarrow> errno \<times> attr_state" where
  "ufs_setattr securelevel now vap t =
     (if fs_ronly (fi t) then (EROFS, t)
      else
        let (r, t) = and_then (and_then (and_then (and_then (and_then (setattr_flags securelevel vap t) setattr_locked)
                       (setattr_owner vap)) (setattr_size now vap)) (setattr_times now vap)) (setattr_mode vap)
        in (case r of Some e \<Rightarrow> e | None \<Rightarrow> E_OK, t))"

section \<open>System calls on a file\<close>

text \<open>\<^verbatim>\<open>chmod\<close>, \<^verbatim>\<open>chown\<close>, \<^verbatim>\<open>truncate\<close> and \<^verbatim>\<open>utimes\<close> on the file that \<^verbatim>\<open>namei\<close> finds; \<open>tv\<close> is \<open>None\<close> for a null pointer.\<close>

definition set_err :: "errno \<times> attr_state \<Rightarrow> attr_state" where
  "set_err r = (snd r)\<lparr>fcr := (fcr (snd r))\<lparr>u_err := fst r\<rparr>\<rparr>"

definition chmod :: "int \<Rightarrow> nat \<Rightarrow> nat \<Rightarrow> attr_state \<Rightarrow> attr_state" where
  "chmod securelevel now fmode t = set_err (ufs_setattr securelevel now (VATTR_NULL\<lparr>va_mode := fmode mod 4096\<rparr>) t)"

definition chown :: "int \<Rightarrow> nat \<Rightarrow> nat \<Rightarrow> nat \<Rightarrow> attr_state \<Rightarrow> attr_state" where
  "chown securelevel now uid gid t = set_err (ufs_setattr securelevel now (VATTR_NULL\<lparr>va_uid := uid, va_gid := gid\<rparr>) t)"

definition truncate :: "int \<Rightarrow> nat \<Rightarrow> nat \<Rightarrow> attr_state \<Rightarrow> attr_state" where
  "truncate securelevel now len t =
     (let (no, c) = access (fi t) IWRITE (fcr t); t = t\<lparr>fcr := c\<rparr>
      in if no then t else set_err (ufs_setattr securelevel now (VATTR_NULL\<lparr>va_size := len\<rparr>) t))"

definition utimes :: "int \<Rightarrow> nat \<Rightarrow> (nat \<times> nat) option \<Rightarrow> attr_state \<Rightarrow> attr_state" where
  "utimes securelevel now tv t =
     (let (a, m, f) = (case tv of None \<Rightarrow> (now, now, 1 :: 32 word) | Some (a, m) \<Rightarrow> (a, m, 0))
      in set_err (ufs_setattr securelevel now
           (VATTR_NULL\<lparr>va_vaflags := unat (of_nat (va_vaflags VATTR_NULL) OR f), va_atime := a, va_mtime := m\<rparr>) t))"

section \<open>The ids of a program\<close>

text \<open>The ids of \<^verbatim>\<open>execve\<close> for a file, and their use once the new image is there.\<close>

definition exec_ids :: "bool \<Rightarrow> finode \<Rightarrow> cred \<Rightarrow> nat \<times> nat" where
  "exec_ids nosuid ip c =
     (let uid = (if \<not> nosuid \<and> i_mode ip AND ISUID \<noteq> 0 then i_uid ip else u_uid c);
          gid = (if \<not> nosuid \<and> i_mode ip AND ISGID \<noteq> 0 then i_gid ip else u_groups c ! 0)
      in (uid, gid))"

definition exec_setid :: "bool \<Rightarrow> bool \<Rightarrow> finode \<Rightarrow> cred \<Rightarrow> cred" where
  "exec_setid traced nosuid ip c =
     (let (uid, gid) = exec_ids nosuid ip c;
          c = (if \<not> traced then c\<lparr>u_uid := uid, p_uid := s16 (int uid), u_groups := (u_groups c)[0 := gid]\<rparr> else c)
      in c\<lparr>u_svuid := u_uid c, u_svgid := u_groups c ! 0\<rparr>)"

datatype cred_op = Setuid nat | Seteuid nat | Setgid nat | Setegid nat | Setgroups nat errno "nat list" | Exec bool bool finode

fun cred_step :: "cred_op \<Rightarrow> cred \<Rightarrow> cred" where
  "cred_step (Setuid n) c = setuid n c"
| "cred_step (Seteuid n) c = seteuid n c"
| "cred_step (Setgid n) c = setgid n c"
| "cred_step (Setegid n) c = setegid n c"
| "cred_step (Setgroups n e gs) c = setgroups n e gs c"
| "cred_step (Exec traced nosuid ip) c = exec_setid traced nosuid ip c"

end
