(* ===== verification/Cred_Spec.thy ===== *)
theory Cred_Spec
  imports Cred
begin

text \<open>
  What credentials permit: a process without privilege never gets an id that it was not given, and changes of the attributes of files are
  confined to their owners.
\<close>

section \<open>Ids\<close>

definition uids :: "cred \<Rightarrow> nat set" where
  "uids c = {u_uid c, u_ruid c, u_svuid c}"

definition gids :: "cred \<Rightarrow> nat set" where
  "gids c = {u_rgid c, u_svgid c} \<union> set (u_groups c)"

text \<open>The files that a process may execute: a set-id file gives an id of \<open>S\<close> or \<open>G\<close>.\<close>

fun op_within :: "nat set \<Rightarrow> nat set \<Rightarrow> cred_op \<Rightarrow> bool" where
  "op_within S G (Exec traced nosuid ip) \<longleftrightarrow>
     (\<not> nosuid \<longrightarrow> (i_mode ip AND ISUID \<noteq> 0 \<longrightarrow> i_uid ip \<in> S) \<and> (i_mode ip AND ISGID \<noteq> 0 \<longrightarrow> i_gid ip \<in> G))"
| "op_within S G op \<longleftrightarrow> True"

definition confined :: "nat set \<Rightarrow> nat set \<Rightarrow> cred \<Rightarrow> bool" where
  "confined S G c \<longleftrightarrow> uids c \<subseteq> S \<and> gids c \<subseteq> G \<and> length (u_groups c) = NGROUPS"

lemma set_first: "g \<in> G \<Longrightarrow> set gs \<subseteq> G \<Longrightarrow> set (gs[0 := g]) \<subseteq> G"
  using set_update_subset_insert [of gs 0 g] by blast

lemma suser_no: "u_uid c \<noteq> 0 \<Longrightarrow> suser c = (False, c\<lparr>u_err := EPERM\<rparr>)"
  by (simp add: suser_def)

lemma step_confined:
  assumes c: "confined S G c" and S: "0 \<notin> S" and o: "op_within S G op"
  shows "confined S G (cred_step op c)"
proof -
  have C: "u_uid c \<in> S" "u_ruid c \<in> S" "u_svuid c \<in> S" "u_rgid c \<in> G" "u_svgid c \<in> G" "set (u_groups c) \<subseteq> G" "length (u_groups c) = NGROUPS"
    using c by (simp_all add: confined_def uids_def gids_def)
  have "u_uid c \<noteq> 0" using C(1) S by metis
  then have su: "suser c = (False, c\<lparr>u_err := EPERM\<rparr>)" by (rule suser_no)
  have g0: "u_groups c ! 0 \<in> G" using C(6,7) nth_mem [of 0 "u_groups c"] by auto
  show ?thesis
  proof (cases op)
    case (Exec traced nosuid ip)
    define x where "x = exec_ids nosuid ip c"
    have x: "fst x \<in> S" "snd x \<in> G" using o Exec C(1) g0 by (auto simp: x_def exec_ids_def)
    have "(u_groups c)[0 := snd x] ! 0 = snd x" using C(7) by simp
    then show ?thesis using x C g0 set_first [OF x(2) C(6)]
      by (simp add: Exec exec_setid_def x_def [symmetric] split_def Let_def confined_def uids_def gids_def)
  qed (use C su set_first [OF C(4,6)] set_first [OF C(5,6)] in
    \<open>auto simp: confined_def uids_def gids_def setuid_def seteuid_def setgid_def setegid_def setgroups_def\<close>)
qed

text \<open>
  C11. Without privilege there is no way to privilege. If none of the real, effective and saved user ids of a process is 0 and they lie in \<open>S\<close>,
  its group ids in \<open>G\<close>, and the set-id programs that it executes belong to users of \<open>S\<close> and groups of \<open>G\<close>, then after any sequence of
  \<^verbatim>\<open>setuid\<close>, \<^verbatim>\<open>seteuid\<close>, \<^verbatim>\<open>setgid\<close>, \<^verbatim>\<open>setegid\<close>, \<^verbatim>\<open>setgroups\<close> and \<^verbatim>\<open>exec\<close> its ids still do.
\<close>

theorem cred_confined:
  assumes "uids c \<subseteq> S" "gids c \<subseteq> G" "length (u_groups c) = NGROUPS" "0 \<notin> S" "\<forall>op\<in>set ops. op_within S G op"
  shows "uids (fold cred_step ops c) \<subseteq> S \<and> gids (fold cred_step ops c) \<subseteq> G \<and> length (u_groups (fold cred_step ops c)) = NGROUPS"
proof -
  have "confined S G (fold cred_step ops c)" if "confined S G c" "\<forall>op\<in>set ops. op_within S G op" for c
    using that step_confined [OF _ assms(4)] by (induction ops arbitrary: c) auto
  then show ?thesis using assms by (simp add: confined_def)
qed

definition demo_cred :: cred where
  "demo_cred = \<lparr>u_uid = 7, u_svuid = 9, u_ruid = 7, u_svgid = 1, u_rgid = 1, u_groups = 1 # 5 # replicate 14 NOGROUP, p_uid = 7,
     u_err = E_OK, u_rval = 0\<rparr>"

theorem cred_confined_witness:
  "uids (fold cred_step [Seteuid 9, Setuid 0, Setgroups 1 E_OK [0], Setuid 7] demo_cred) \<subseteq> {7, 9} \<and>
   gids (fold cred_step [Seteuid 9, Setuid 0, Setgroups 1 E_OK [0], Setuid 7] demo_cred) \<subseteq> {1, 5, NOGROUP} \<and>
   length (u_groups (fold cred_step [Seteuid 9, Setuid 0, Setgroups 1 E_OK [0], Setuid 7] demo_cred)) = NGROUPS"
  by (rule cred_confined) (auto simp: demo_cred_def uids_def gids_def)

section \<open>Attributes\<close>

text \<open>What a part of \<^verbatim>\<open>ufs_setattr\<close> may do for a process without privilege.\<close>

definition tame :: "attr_state \<Rightarrow> attr_state \<Rightarrow> bool" where
  "tame t t' \<longleftrightarrow> fcr t' = (fcr t)\<lparr>u_err := u_err (fcr t')\<rparr> \<and> i_uid (fi t') = i_uid (fi t) \<and>
     i_flags (fi t') AND SF_SETTABLE = i_flags (fi t) AND SF_SETTABLE \<and>
     (i_gid (fi t') = i_gid (fi t) \<or> groupmember (i_gid (fi t')) (fcr t)) \<and>
     (u_uid (fcr t) \<noteq> i_uid (fi t) \<longrightarrow> i_mode (fi t') = i_mode (fi t) \<and> i_gid (fi t') = i_gid (fi t) \<and> i_flags (fi t') = i_flags (fi t))"

lemma groupmember_err [simp]: "groupmember g (c\<lparr>u_err := e\<rparr>) = groupmember g c"
  by (simp add: groupmember_def)

lemma tame_refl [simp]: "tame t t"
  by (simp add: tame_def)

lemma tame_trans:
  assumes "tame t t1" "tame t1 t2"
  shows "tame t t2"
proof -
  note T = assms [unfolded tame_def]
  have "fcr t2 = (fcr t)\<lparr>u_err := u_err (fcr t2)\<rparr>" using T by (metis cred.update_convs(8) cred.surjective)
  moreover have g: "groupmember g (fcr t1) = groupmember g (fcr t)" "u_uid (fcr t1) = u_uid (fcr t)" for g
    using T(1) by (metis groupmember_err, metis cred.select_convs(1) cred.surjective cred.update_convs(8))
  moreover note conjunct2 [OF T(1)] conjunct2 [OF T(2)]
  ultimately show ?thesis unfolding tame_def g by metis
qed

lemma sf_kept: "((f AND SF_SETTABLE) OR (v AND UF_SETTABLE)) AND SF_SETTABLE = f AND SF_SETTABLE"
proof -
  have "UF_SETTABLE AND SF_SETTABLE = 0" by (simp add: UF_SETTABLE_def SF_SETTABLE_def)
  then show ?thesis by (simp add: bit.conj_disj_distrib2 and.assoc)
qed

lemma access_err: "snd (access ip m c) = c\<lparr>u_err := u_err (snd (access ip m c))\<rparr>"
  by (simp add: access_def Let_def)

lemma tame_flags: "u_uid (fcr t) \<noteq> 0 \<Longrightarrow> tame t (snd (setattr_flags sl vap t))"
  by (simp add: setattr_flags_def Let_def suser_no tame_def sf_kept)

lemma tame_locked: "tame t (snd (setattr_locked t))"
  by (simp add: setattr_locked_def)

lemma chown1_user:
  assumes "u_uid c \<noteq> 0" "chown1 ip uid gid c = (e, ip', c')"
  shows "c' = c\<lparr>u_err := u_err c'\<rparr> \<and> (ip' = ip \<or> u_uid c = i_uid ip \<and> i_uid ip' = i_uid ip \<and> i_flags ip' = i_flags ip \<and> groupmember (i_gid ip') c)"
  using assms by (simp add: chown1_def Let_def suser_no split: if_splits) auto

lemma tame_owner:
  assumes "u_uid (fcr t) \<noteq> 0"
  shows "tame t (snd (setattr_owner vap t))"
proof -
  obtain e ip' c' where x: "chown1 (fi t) (va_uid vap) (va_gid vap) (fcr t) = (e, ip', c')" using prod_cases3 by blast
  show ?thesis using chown1_user [OF assms x] by (auto simp: setattr_owner_def x tame_def)
qed

lemma tame_size: "tame t (snd (setattr_size now vap t))"
  by (simp add: setattr_size_def upd_size_def Let_def split_def tame_def iupdat_def)

lemma tame_times:
  assumes "u_uid (fcr t) \<noteq> 0"
  shows "tame t (snd (setattr_times now vap t))"
  using access_err [of "fi t" IWRITE "(fcr t)\<lparr>u_err := EPERM\<rparr>"] assms
  by (simp add: setattr_times_def Let_def split_def suser_no tame_def iupdat_def)

lemma tame_mode: "u_uid (fcr t) \<noteq> 0 \<Longrightarrow> tame t (snd (setattr_mode vap t))"
  by (simp add: setattr_mode_def chmod1_def Let_def suser_no tame_def)

lemma tame_uid: "tame t t' \<Longrightarrow> u_uid (fcr t') = u_uid (fcr t)"
  unfolding tame_def by (metis cred.select_convs(1) cred.surjective cred.update_convs(8))

lemma tame_then:
  assumes "u_uid (fcr t) \<noteq> 0" "tame t (snd r)" "\<And>t. u_uid (fcr t) \<noteq> 0 \<Longrightarrow> tame t (snd (f t))"
  shows "tame t (snd (and_then r f))"
  using assms tame_trans [OF assms(2) assms(3)] tame_uid [OF assms(2)] by (cases r) (auto simp: and_then_def split: option.splits)

lemma locked_flags: "f AND SF_LOCKED \<noteq> 0 \<Longrightarrow> f AND (IMMUTABLE OR APPEND) \<noteq> 0"
proof
  assume *: "f AND SF_LOCKED \<noteq> 0" "f AND (IMMUTABLE OR APPEND) = 0"
  have "SF_LOCKED = (IMMUTABLE OR APPEND) AND SF_LOCKED" by (simp add: SF_LOCKED_def IMMUTABLE_def APPEND_def)
  then have "f AND SF_LOCKED = (f AND (IMMUTABLE OR APPEND)) AND SF_LOCKED" by (metis and.assoc)
  then show False using * by simp
qed

text \<open>
  C18. \<^verbatim>\<open>ufs_setattr\<close> for a process that is not the super-user, whatever attributes are asked for: the owner of the file and the flags that only the
  super-user may set never change; the group changes only to one that the process is a member of; if the process is not the owner, mode, group and flags
  stay; and a file with a flag of the super-user against changes is left as it is, with its blocks.
\<close>

theorem setattr_confined:
  assumes "u_uid (fcr t) \<noteq> 0" "ufs_setattr sl now vap t = (e, t')"
  shows "i_uid (fi t') = i_uid (fi t) \<and> i_flags (fi t') AND SF_SETTABLE = i_flags (fi t) AND SF_SETTABLE \<and>
    (i_gid (fi t') = i_gid (fi t) \<or> groupmember (i_gid (fi t')) (fcr t)) \<and>
    (u_uid (fcr t) \<noteq> i_uid (fi t) \<longrightarrow> i_mode (fi t') = i_mode (fi t) \<and> i_gid (fi t') = i_gid (fi t) \<and> i_flags (fi t') = i_flags (fi t)) \<and>
    (i_flags (fi t) AND SF_LOCKED \<noteq> 0 \<longrightarrow> e \<noteq> E_OK \<and> fi t' = fi t \<and> fvol t' = fvol t)"
proof -
  define r where "r = and_then (and_then (and_then (and_then (and_then (setattr_flags sl vap t) setattr_locked)
                       (setattr_owner vap)) (setattr_size now vap)) (setattr_times now vap)) (setattr_mode vap)"
  have "tame t (snd r)" unfolding r_def
    by (intro tame_then assms(1) tame_flags tame_locked tame_owner tame_size tame_times tame_mode)
  moreover have "t' = t \<or> t' = snd r" using assms(2) by (auto simp: ufs_setattr_def r_def [symmetric] split_def split: if_splits)
  ultimately have T: "tame t t'" by auto
  have "e \<noteq> E_OK \<and> fi t' = fi t \<and> fvol t' = fvol t" if l: "i_flags (fi t) AND SF_LOCKED \<noteq> 0"
  proof -
    have "setattr_flags sl vap t = (None, t) \<or> (\<exists>c. setattr_flags sl vap t = (Some EPERM, t\<lparr>fcr := c\<rparr>))"
      using assms(1) l by (auto simp: setattr_flags_def Let_def suser_no) (metis attr_state.surjective attr_state.update_convs(2))
    then have "(\<exists>c. r = (Some EPERM, t\<lparr>fcr := c\<rparr>)) \<or> r = (Some EPERM, t)"
      using locked_flags [OF l] unfolding r_def by (auto simp: and_then_def setattr_locked_def)
    then show ?thesis using assms(2) by (auto simp: ufs_setattr_def r_def [symmetric] split_def split: if_splits)
  qed
  then show ?thesis using T unfolding tame_def by blast
qed

definition demo_attr :: attr_state where
  "demo_attr = \<lparr>fi = \<lparr>i_mode = 0x81B6, i_uid = 8, i_gid = 5, i_flags = 0, fs_ronly = False, mnt_noatime = False, i_IACC = False, i_IUPD = False,
       i_ICHG = False, i_atime = 1, i_mtime = 2, i_ctime = 3, ino = \<lparr>i_addr = (\<lambda>_. 0), i_size = 0, i_pipe = False, i_chg = False\<rparr>\<rparr>,
     fcr = demo_cred,
     fvol = \<lparr>fsb = \<lparr>fs_isize = 10, fs_fsize = 100, fs_nfree = 0, fs_free = (\<lambda>_. 0), fs_ninode = 0, fs_inode = (\<lambda>_. 0), fs_fmod = False,
         fs_tfree = 0, fs_tinode = 0, fs_lasti = 1, fs_nbehind = 0\<rparr>,
       superb = \<lparr>fs_isize = 10, fs_fsize = 100, fs_nfree = 0, fs_free = (\<lambda>_. 0), fs_ninode = 0, fs_inode = (\<lambda>_. 0), fs_fmod = False,
         fs_tfree = 0, fs_tinode = 0, fs_lasti = 1, fs_nbehind = 0\<rparr>,
       disk = (\<lambda>_ _. 0), rderr = (\<lambda>_. E_OK), rablock = 0, u_er = E_OK\<rparr>\<rparr>"

theorem setattr_confined_witness:
  "i_uid (fi (snd (ufs_setattr 0 100 (VATTR_NULL\<lparr>va_mode := 511, va_uid := 7\<rparr>) demo_attr))) = 8 \<and>
    i_gid (fi (snd (ufs_setattr 0 100 (VATTR_NULL\<lparr>va_mode := 511, va_uid := 7\<rparr>) demo_attr))) = 5 \<and>
    i_mode (fi (snd (ufs_setattr 0 100 (VATTR_NULL\<lparr>va_mode := 511, va_uid := 7\<rparr>) demo_attr))) = 0x81B6"
proof -
  have "u_uid (fcr demo_attr) \<noteq> 0" "u_uid (fcr demo_attr) \<noteq> i_uid (fi demo_attr)" "i_uid (fi demo_attr) = 8" "i_gid (fi demo_attr) = 5"
    "i_mode (fi demo_attr) = 0x81B6" by (simp_all add: demo_attr_def demo_cred_def)
  then show ?thesis using setattr_confined [of demo_attr, OF _ surjective_pairing] by metis
qed

section \<open>utimes\<close>

text \<open>
  C34. \<^verbatim>\<open>utimes\<close> with times of the caller's choice succeeds for a process that is neither the owner of the file nor the super-user, whenever it may
  write the file. \<^verbatim>\<open>VATTR_NULL\<close> sets every bit of \<^verbatim>\<open>va_vaflags\<close>, so \<^verbatim>\<open>ufs_setattr\<close> takes every call for one with a null pointer, for which write
  permission is enough.
\<close>

theorem utimes_not_owner:
  assumes "u_uid (fcr t) \<noteq> 0" "u_uid (fcr t) \<noteq> i_uid (fi t)" "\<not> fs_ronly (fi t)" "i_flags (fi t) AND (IMMUTABLE OR APPEND) = 0"
    "\<not> fst (access (fi t) IWRITE (fcr t))" "a \<noteq> VNOVAL" "m \<noteq> VNOVAL" "\<not> mnt_noatime (fi t)"
  shows "u_err (fcr (utimes sl now (Some (a, m)) t)) = E_OK \<and> i_atime (fi (utimes sl now (Some (a, m)) t)) = a \<and>
    i_mtime (fi (utimes sl now (Some (a, m)) t)) = m"
proof -
  have ac: "\<not> fst (access (fi t) IWRITE ((fcr t)\<lparr>u_err := e\<rparr>))" for e using assms(5) by (simp add: access_def Let_def split: if_splits)
  have v: "of_nat (unat (of_nat VNOVAL OR (0 :: 32 word))) AND VA_UTIMES_NULL \<noteq> 0" by (simp add: VA_UTIMES_NULL_def)
  let ?v = "VATTR_NULL\<lparr>va_vaflags := unat (of_nat (va_vaflags VATTR_NULL) OR (0 :: 32 word)), va_atime := a, va_mtime := m\<rparr>"
  have V: "va_mode ?v = VNOVAL" "va_uid ?v = VNOVAL" "va_gid ?v = VNOVAL" "va_size ?v = VNOVAL" "va_flags ?v = VNOVAL" "va_atime ?v = a" "va_mtime ?v = m"
    "of_nat (va_vaflags ?v) AND VA_UTIMES_NULL \<noteq> 0" using v by (simp_all add: VATTR_NULL_def)
  have "setattr_times now ?v t = (None, t\<lparr>fcr := snd (access (fi t) IWRITE ((fcr t)\<lparr>u_err := EPERM\<rparr>)),
      fi := iupdat now a m ((fi t)\<lparr>i_IACC := True, i_IUPD := True, i_ICHG := True\<rparr>)\<rparr>)"
    using assms(1,2,6-8) ac [of EPERM] V(8) unfolding setattr_times_def V(6,7) by (simp add: Let_def suser_no split_def)
  then have "ufs_setattr sl now ?v t = (E_OK, t\<lparr>fcr := snd (access (fi t) IWRITE ((fcr t)\<lparr>u_err := EPERM\<rparr>)),
      fi := iupdat now a m ((fi t)\<lparr>i_IACC := True, i_IUPD := True, i_ICHG := True\<rparr>)\<rparr>)"
    using assms(3,4) unfolding ufs_setattr_def and_then_def setattr_flags_def setattr_locked_def setattr_owner_def setattr_size_def setattr_mode_def V(1-5) by simp
  then show ?thesis using assms(3) by (simp add: utimes_def set_err_def iupdat_def)
qed

theorem utimes_not_owner_witness:
  "u_err (fcr (utimes 0 100 (Some (5, 6)) demo_attr)) = E_OK \<and> i_atime (fi (utimes 0 100 (Some (5, 6)) demo_attr)) = 5 \<and>
    i_mtime (fi (utimes 0 100 (Some (5, 6)) demo_attr)) = 6"
  by (rule utimes_not_owner) (simp_all add: demo_attr_def demo_cred_def access_def IWRITE_def)

end
