(* ===== verification/Uio.thy ===== *)
theory Uio
  imports Memory_Spec
begin

text \<open>
  The transfer of bytes between the kernel and the buffers of a system call (\<^verbatim>\<open>src/sys/kernel/kern_subr.c\<close>, \<^verbatim>\<open>sys_generic.c\<close>).
  A \<^verbatim>\<open>struct uio\<close> keeps the list of the buffers from \<^verbatim>\<open>uio_iov\<close> on; what lies in memory after the last of them is not known, and
  reading there is \<open>Fault\<close>. Lengths and \<^verbatim>\<open>uio_resid\<close> are unsigned, the offset is a 32-bit signed number.
\<close>

section \<open>Operations\<close>

datatype uio_rw = UIO_READ | UIO_WRITE

record iovec =
  iov_base :: addr
  iov_len :: nat

record uio =
  uio_iov :: "iovec list"
  uio_iovcnt :: int
  uio_offset :: int
  uio_resid :: nat
  uio_rw :: uio_rw

text \<open>The next buffer, and \<open>cnt\<close> bytes moved through the present one.\<close>

definition uio_next :: "uio \<Rightarrow> uio" where
  "uio_next io = io\<lparr>uio_iov := tl (uio_iov io), uio_iovcnt := uio_iovcnt io - 1\<rparr>"

definition uio_advance :: "nat \<Rightarrow> uio \<Rightarrow> uio" where
  "uio_advance cnt io =
     (let v = hd (uio_iov io)
      in io\<lparr>uio_iov := v\<lparr>iov_base := iov_base v + of_nat cnt, iov_len := iov_len v - cnt\<rparr> # tl (uio_iov io),
           uio_resid := u32 (uio_resid io + 4294967296 - cnt), uio_offset := s32 (uio_offset io + int cnt)\<rparr>)"

definition uiofmove :: "addr \<Rightarrow> nat \<Rightarrow> uio_rw \<Rightarrow> iovec \<Rightarrow> mem \<Rightarrow> mem" where
  "uiofmove cp n rw v m = (if rw = UIO_READ then bcopy m cp (iov_base v) n else bcopy m (iov_base v) cp n)"

function uiomove :: "addr \<Rightarrow> nat \<Rightarrow> uio \<Rightarrow> mem \<Rightarrow> (uio \<times> mem) outcome" where
  "uiomove cp n io m =
     (if 0 < n \<and> uio_resid io \<noteq> 0 then
        (case uio_iov io of
           [] \<Rightarrow> Fault
         | v # _ \<Rightarrow>
             if iov_len v = 0 then uiomove cp n (uio_next io) m
             else
               let cnt = (if iov_len v > n then n else iov_len v)
               in uiomove (cp + of_nat cnt) (n - cnt) (uio_advance cnt io) (uiofmove cp cnt (uio_rw io) v m))
      else Ret (io, m))"
  by pat_completeness auto
termination
  by (relation "measure (\<lambda>(cp, n, io, m). n + length (uio_iov io))") (auto simp: uio_next_def uio_advance_def)

declare uiomove.simps [simp del]

function ureadc :: "byte \<Rightarrow> uio \<Rightarrow> mem \<Rightarrow> (uio \<times> mem) outcome" where
  "ureadc c io m =
     (if uio_iovcnt io = 0 then Panic ''ureadc''
      else case uio_iov io of
             [] \<Rightarrow> Fault
           | v # _ \<Rightarrow>
               if iov_len v = 0 \<or> uio_resid io = 0 then ureadc c (uio_next io) m
               else Ret (uio_advance 1 io, m(iov_base v := c)))"
  by pat_completeness auto
termination
  by (relation "measure (\<lambda>(c, io, m). length (uio_iov io))") (auto simp: uio_next_def)

declare ureadc.simps [simp del]

text \<open>\<^verbatim>\<open>uwritec\<close> after its first test; the result -1 is \<open>None\<close>.\<close>

function uwritec_again :: "uio \<Rightarrow> mem \<Rightarrow> (byte option \<times> uio) outcome" where
  "uwritec_again io m =
     (if uio_iovcnt io \<le> 0 then Panic ''uwritec''
      else case uio_iov io of
             [] \<Rightarrow> Fault
           | v # _ \<Rightarrow>
               if iov_len v = 0 then
                 if uio_iovcnt io - 1 = 0 then Ret (None, uio_next io) else uwritec_again (uio_next io) m
               else Ret (Some (m (iov_base v)), uio_advance 1 io))"
  by pat_completeness auto
termination
  by (relation "measure (\<lambda>(io, m). length (uio_iov io))") (auto simp: uio_next_def)

declare uwritec_again.simps [simp del]

definition uwritec :: "uio \<Rightarrow> mem \<Rightarrow> (byte option \<times> uio) outcome" where
  "uwritec io m = (if uio_resid io = 0 then Ret (None, io) else uwritec_again io m)"

text \<open>
  The start of \<^verbatim>\<open>rwuio\<close>: \<open>fflag\<close> is the flags of the open file. \<^verbatim>\<open>total\<close> is a signed 32-bit sum; converted to \<^verbatim>\<open>u_int\<close> for the
  comparison it always equals \<^verbatim>\<open>uio_resid\<close>.
\<close>

definition iov_total :: "uio \<Rightarrow> int" where
  "iov_total io = foldl (\<lambda>total v. s32 (total + int (iov_len v))) 0 (take (nat (uio_iovcnt io)) (uio_iov io))"

definition rwuio_start :: "bool \<Rightarrow> bool \<Rightarrow> uio \<Rightarrow> errno + uio" where
  "rwuio_start fread fwrite io =
     (if \<not> (if uio_rw io = UIO_READ then fread else fwrite) then Inl EBADF
      else
        let total = iov_total io; io = io\<lparr>uio_resid := u32 (nat (total mod 4294967296))\<rparr>
        in if int (uio_resid io) \<noteq> total mod 4294967296 then Inl EINVAL else Inr io)"

text \<open>The \<^verbatim>\<open>struct uio\<close> of \<^verbatim>\<open>read\<close> and \<^verbatim>\<open>write\<close>; \<^verbatim>\<open>uio_offset\<close> has no value yet.\<close>

definition read_uio :: "addr \<Rightarrow> nat \<Rightarrow> int \<Rightarrow> uio" where
  "read_uio cbuf cnt off =
     \<lparr>uio_iov = [\<lparr>iov_base = cbuf, iov_len = cnt\<rparr>], uio_iovcnt = 1, uio_offset = off, uio_resid = 0, uio_rw = UIO_READ\<rparr>"

definition write_uio :: "addr \<Rightarrow> nat \<Rightarrow> int \<Rightarrow> uio" where
  "write_uio cbuf cnt off =
     \<lparr>uio_iov = [\<lparr>iov_base = cbuf, iov_len = cnt\<rparr>], uio_iovcnt = 1, uio_offset = off, uio_resid = 0, uio_rw = UIO_WRITE\<rparr>"

text \<open>\<^verbatim>\<open>readv\<close> and \<^verbatim>\<open>writev\<close> copy at most 16 entries of 8 bytes to \<open>aiov\<close> on the kernel stack.\<close>

definition iovec_at :: "mem \<Rightarrow> addr \<Rightarrow> iovec" where
  "iovec_at m a = \<lparr>iov_base = word_rcat (rev (load32 m a)), iov_len = unat (word_rcat (rev (load32 m (a + 4))) :: 32 word)\<rparr>"

definition vector_uio :: "uio_rw \<Rightarrow> umem \<Rightarrow> addr \<Rightarrow> addr \<Rightarrow> nat \<Rightarrow> int \<Rightarrow> mem \<Rightarrow> (errno + uio) \<times> mem" where
  "vector_uio rw um aiov iovp iovcnt off m =
     (if iovcnt > 16 then (Inl EINVAL, m)
      else
        let (e, m) = copyin um m iovp aiov (iovcnt * 8)
        in if e \<noteq> E_OK then (Inl e, m)
           else (Inr \<lparr>uio_iov = map (\<lambda>i. iovec_at m (aiov + of_nat (8 * i))) [0..<iovcnt], uio_iovcnt = int iovcnt,
                      uio_offset = off, uio_resid = 0, uio_rw = rw\<rparr>, m))"

definition readv_uio :: "umem \<Rightarrow> addr \<Rightarrow> addr \<Rightarrow> nat \<Rightarrow> int \<Rightarrow> mem \<Rightarrow> (errno + uio) \<times> mem" where
  "readv_uio = vector_uio UIO_READ"

definition writev_uio :: "umem \<Rightarrow> addr \<Rightarrow> addr \<Rightarrow> nat \<Rightarrow> int \<Rightarrow> mem \<Rightarrow> (errno + uio) \<times> mem" where
  "writev_uio = vector_uio UIO_WRITE"

end
