(* ===== verification/File_Io.thy ===== *)
theory File_Io
  imports Uio Cred
begin

text \<open>
  Reading and writing files (\<^verbatim>\<open>src/sys/kernel/sys_inode.c\<close>): \<open>rwip\<close>, with \<open>ino_rw\<close> for an open file and \<open>rdwri\<close> for the kernel itself.
  The transfer goes block by block through a buffer: \<open>ba bn\<close> is the address of the buffer of block \<open>bn\<close> and \<open>eb\<close> that of the empty
  buffer for a hole. A buffer read from the device holds the bytes of the block, the low byte of a word first; a buffer that
  is written goes back to the block, at once (\<^verbatim>\<open>bwrite\<close>, \<^verbatim>\<open>bawrite\<close>) or later (\<^verbatim>\<open>bdwrite\<close>), which is the same for a transparent
  cache, so \<^verbatim>\<open>IO_SYNC\<close> has no part here; \<^verbatim>\<open>b_resid\<close> of a block without error is 0. \<open>rw_vol\<close> is the device of the transfer: the volume of a file, the disk itself for a block device.
  The driver of a character device is the argument \<open>cdev\<close>. The lock of the inode is held throughout.
\<close>

section \<open>Blocks and buffers\<close>

definition lblkno :: "int \<Rightarrow> nat" where
  "lblkno loc = nat (loc mod 4294967296) div DEV_BSIZE"

definition blkoff :: "int \<Rightarrow> nat" where
  "blkoff loc = nat (loc mod int DEV_BSIZE)"

definition byte_of :: "blk \<Rightarrow> nat \<Rightarrow> byte" where
  "byte_of v j = ucast (drop_bit (8 * (j mod 4)) (word_of_int (v (j div 4)) :: 32 word))"

definition fill_buf :: "blk \<Rightarrow> addr \<Rightarrow> mem \<Rightarrow> mem" where
  "fill_buf v a m = (\<lambda>x. if unat (x - a) < DEV_BSIZE then byte_of v (unat (x - a)) else m x)"

definition buf_blk :: "addr \<Rightarrow> mem \<Rightarrow> blk \<Rightarrow> blk" where
  "buf_blk a m v = (\<lambda>i. if i < NINDIR then sint (word_rcat (rev (load32 m (a + of_nat (4 * i)))) :: 32 word) else v i)"

section \<open>The loop of rwip\<close>

record rw =
  rw_ip :: finode
  rw_vol :: ufs
  rw_mem :: mem
  rw_io :: uio
  rw_xfsz :: bool \<comment> \<open>\<^verbatim>\<open>SIGXFSZ\<close> was sent\<close>

definition IFREG :: "32 word" where "IFREG = 0x8000"
definition IFLNK :: "32 word" where "IFLNK = 0xA000"
definition IO_UNIT :: "32 word" where "IO_UNIT = 1"
definition IO_APPEND :: "32 word" where "IO_APPEND = 2"

abbreviation ftype :: "rw \<Rightarrow> 32 word" where
  "ftype t \<equiv> i_mode (rw_ip t) AND IFMT"

definition upd_ip :: "(finode \<Rightarrow> finode) \<Rightarrow> rw \<Rightarrow> rw" where
  "upd_ip g t = t\<lparr>rw_ip := g (rw_ip t)\<rparr>"

text \<open>A pass returns from \<open>rwip\<close>, leaves the loop with an error or without, or asks for the next pass.\<close>

datatype rw_next = Return errno | Leave errno | Again

definition rw_bmap :: "bool \<Rightarrow> bool \<Rightarrow> rw \<Rightarrow> int \<times> rw" where
  "rw_bmap wr clr t =
     (let lbn = int (lblkno (uio_offset (rw_io t))) in
      if ftype t = IFBLK then (lbn, t\<lparr>rw_vol := (rw_vol t)\<lparr>rablock := lbn + 1\<rparr>\<rparr>)
      else let (bn, ip, s) = bmap wr clr lbn (ino (rw_ip t)) (rw_vol t)
           in (bn, t\<lparr>rw_ip := (rw_ip t)\<lparr>ino := ip\<rparr>, rw_vol := s\<rparr>))"

text \<open>The end of a pass: \<^verbatim>\<open>u.u_error\<close> is the result of \<^verbatim>\<open>uiomove\<close>, which is 0.\<close>

definition pass_end :: "nat \<Rightarrow> rw \<Rightarrow> rw_next" where
  "pass_end n t = (if uio_resid (rw_io t) \<noteq> 0 \<and> n \<noteq> 0 then Again else Leave E_OK)"

definition rw_uiomove :: "addr \<Rightarrow> nat \<Rightarrow> rw \<Rightarrow> rw outcome" where
  "rw_uiomove a n t = bind_outcome (uiomove a n (rw_io t) (rw_mem t))
     (\<lambda>(io, m). Ret (t\<lparr>rw_io := io, rw_mem := m, rw_vol := (rw_vol t)\<lparr>u_er := E_OK\<rparr>\<rparr>))"

definition rw_load :: "(int \<Rightarrow> addr) \<Rightarrow> int \<Rightarrow> rw \<Rightarrow> bool \<times> rw" where
  "rw_load ba bn t =
     (let (ok, s) = bread bn (rw_vol t)
      in (ok, t\<lparr>rw_vol := s, rw_mem := (if ok then fill_buf (disk s bn) (ba bn) (rw_mem t) else rw_mem t)\<rparr>))"

text \<open>The buffer from which a pass reads: that of the block, or an empty one for a hole.\<close>

definition rw_fetch :: "(int \<Rightarrow> addr) \<Rightarrow> addr \<Rightarrow> int \<Rightarrow> rw \<Rightarrow> bool \<times> addr \<times> rw" where
  "rw_fetch ba eb bn t =
     (if bn < 0 then (True, eb, t\<lparr>rw_mem := bzero (rw_mem t) eb DEV_BSIZE\<rparr>)
      else let (ok, t) = rw_load ba bn t in (ok, ba bn, t))"

definition rw_read :: "(int \<Rightarrow> addr) \<Rightarrow> addr \<Rightarrow> rw \<Rightarrow> (rw_next \<times> rw) outcome" where
  "rw_read ba eb t =
     (let io = rw_io t; on = blkoff (uio_offset io); n = min (DEV_BSIZE - on) (uio_resid io);
          diff = s32 (int (i_size (ino (rw_ip t))) - uio_offset io)
      in if ftype t \<noteq> IFBLK \<and> diff \<le> 0 then Ret (Return E_OK, t)
         else
           let n = (if ftype t \<noteq> IFBLK \<and> diff < int n then nat diff else n);
               (bn, t) = rw_bmap False False t
           in if ftype t \<noteq> IFBLK \<and> u_er (rw_vol t) \<noteq> E_OK then Ret (Return (u_er (rw_vol t)), t)
              else
                let (ok, a, t) = rw_fetch ba eb bn t
                in if \<not> ok then Ret (Leave EIO, t)
                   else bind_outcome (rw_uiomove (a + of_nat on) n t) (\<lambda>t. Ret (pass_end n t, t)))"

text \<open>A write sets the size when it ends after the end of the file, then fills the buffer and gives it back.\<close>

definition rw_extend :: "int \<Rightarrow> rw \<Rightarrow> rw" where
  "rw_extend fin t =
     (if ftype t \<noteq> IFBLK \<and> fin > int (i_size (ino (rw_ip t))) \<and> ftype t \<in> {IFDIR, IFREG, IFLNK}
      then upd_ip (\<lambda>ip. ip\<lparr>ino := (ino ip)\<lparr>i_size := nat fin\<rparr>\<rparr>) t else t)"

definition rw_store :: "nat \<Rightarrow> (int \<Rightarrow> addr) \<Rightarrow> int \<Rightarrow> nat \<Rightarrow> nat \<Rightarrow> rw \<Rightarrow> (rw_next \<times> rw) outcome" where
  "rw_store ruid ba bn on n t =
     (let (ok, t) = (if n = DEV_BSIZE then (True, t) else rw_load ba bn t)
      in if \<not> ok then Ret (Leave EIO, t)
         else bind_outcome (rw_uiomove (ba bn + of_nat on) n t) (\<lambda>t.
           let t = t\<lparr>rw_vol := upd_blk bn (buf_blk (ba bn) (rw_mem t) (disk (rw_vol t) bn)) (rw_vol t)\<rparr>;
               t = upd_ip (\<lambda>ip. ip\<lparr>i_IUPD := True, i_ICHG := True\<rparr>) t;
               t = (if ruid \<noteq> 0 then upd_ip (\<lambda>ip. ip\<lparr>i_mode := i_mode ip AND NOT (ISUID OR ISGID)\<rparr>) t else t)
           in Ret (pass_end n t, t)))"

definition rw_write :: "nat \<Rightarrow> (int \<Rightarrow> addr) \<Rightarrow> rw \<Rightarrow> (rw_next \<times> rw) outcome" where
  "rw_write ruid ba t =
     (let off = uio_offset (rw_io t); on = blkoff off; n = min (DEV_BSIZE - on) (uio_resid (rw_io t));
          (bn, t) = rw_bmap True (n \<noteq> DEV_BSIZE) t
      in if ftype t \<noteq> IFBLK \<and> (u_er (rw_vol t) \<noteq> E_OK \<or> bn < 0) then Ret (Return (u_er (rw_vol t)), t)
         else rw_store ruid ba bn on n (rw_extend (s32 (off + int n)) t))"

text \<open>Every pass that asks for another has moved a byte, so as many passes as there are bytes are enough.\<close>

fun rw_loop :: "(rw \<Rightarrow> (rw_next \<times> rw) outcome) \<Rightarrow> nat \<Rightarrow> rw \<Rightarrow> (rw_next \<times> rw) outcome" where
  "rw_loop pass 0 t = Diverge"
| "rw_loop pass (Suc k) t = bind_outcome (pass t) (\<lambda>(r, t). if r = Again then rw_loop pass k t else Ret (r, t))"

section \<open>rwip\<close>

text \<open>The checks before a write, and the undoing of a write that failed.\<close>

definition rw_start :: "32 word \<Rightarrow> rw \<Rightarrow> errno \<times> rw" where
  "rw_start ioflag t =
     (if ftype t = IFREG then
        let t = (if ioflag AND IO_APPEND \<noteq> 0 then t\<lparr>rw_io := (rw_io t)\<lparr>uio_offset := int (i_size (ino (rw_ip t)))\<rparr>\<rparr> else t)
        in (if i_flags (rw_ip t) AND APPEND \<noteq> 0 \<and> uio_offset (rw_io t) \<noteq> int (i_size (ino (rw_ip t))) then EPERM else E_OK, t)
      else if ftype t \<in> {IFDIR, IFLNK, IFBLK, IFCHR} then (E_OK, t) else (EFTYPE, t))"

definition rw_undo :: "32 word \<Rightarrow> nat \<Rightarrow> nat \<Rightarrow> errno \<Rightarrow> rw \<Rightarrow> rw" where
  "rw_undo ioflag resid osize e t =
     (if e \<noteq> E_OK \<and> uio_rw (rw_io t) = UIO_WRITE \<and> ioflag AND IO_UNIT \<noteq> 0 \<and> ftype t \<noteq> IFBLK then
        let (ip, s) = itrunc osize (ino (rw_ip t)) (rw_vol t); io = rw_io t
        in t\<lparr>rw_ip := (rw_ip t)\<lparr>ino := ip\<rparr>, rw_vol := s,
             rw_io := io\<lparr>uio_offset := s32 (uio_offset io - (int resid - int (uio_resid io))), uio_resid := resid\<rparr>\<rparr>
      else t)"

definition rwip :: "nat \<Rightarrow> nat \<Rightarrow> (rw \<Rightarrow> (errno \<times> rw) outcome) \<Rightarrow> (int \<Rightarrow> addr) \<Rightarrow> addr \<Rightarrow> 32 word \<Rightarrow> rw \<Rightarrow> (errno \<times> rw) outcome" where
  "rwip ruid rlim cdev ba eb ioflag t =
     (let rd = (uio_rw (rw_io t) = UIO_READ);
          (e, t) = (if rd then (E_OK, if mnt_noatime (rw_ip t) then t else upd_ip (\<lambda>ip. ip\<lparr>i_IACC := True\<rparr>) t) else rw_start ioflag t)
      in if e \<noteq> E_OK then Ret (e, t)
         else if ftype t = IFCHR then cdev (if rd then t else upd_ip (\<lambda>ip. ip\<lparr>i_IUPD := True, i_ICHG := True\<rparr>) t)
         else if uio_resid (rw_io t) = 0 then Ret (E_OK, t)
         else if \<not> rd \<and> ftype t = IFREG \<and> u32 (nat (uio_offset (rw_io t) mod 4294967296) + uio_resid (rw_io t)) > rlim
         then Ret (EFBIG, t\<lparr>rw_xfsz := True\<rparr>)
         else
           let resid = uio_resid (rw_io t); osize = i_size (ino (rw_ip t))
           in bind_outcome (rw_loop (if rd then rw_read ba eb else rw_write ruid ba) resid t)
                (\<lambda>(r, t). case r of
                            Return e \<Rightarrow> Ret (e, t)
                          | Leave e \<Rightarrow> Ret (e, rw_undo ioflag resid osize e t)
                          | Again \<Rightarrow> Diverge))"

text \<open>\<open>rdwri\<close>: a transfer of the kernel, \<^verbatim>\<open>aresid\<close> given or not.\<close>

definition rdwri :: "nat \<Rightarrow> nat \<Rightarrow> (rw \<Rightarrow> (errno \<times> rw) outcome) \<Rightarrow> (int \<Rightarrow> addr) \<Rightarrow> addr \<Rightarrow> uio_rw \<Rightarrow> addr \<Rightarrow> nat \<Rightarrow> int \<Rightarrow>
    32 word \<Rightarrow> bool \<Rightarrow> rw \<Rightarrow> (errno \<times> rw) outcome" where
  "rdwri ruid rlim cdev ba eb rw base len offset ioflg aresid t =
     (let io = \<lparr>uio_iov = [\<lparr>iov_base = base, iov_len = len\<rparr>], uio_iovcnt = 1, uio_offset = offset, uio_resid = len, uio_rw = rw\<rparr>
      in bind_outcome (rwip ruid rlim cdev ba eb ioflg (t\<lparr>rw_io := io\<rparr>))
           (\<lambda>(e, t). Ret (if \<not> aresid \<and> uio_resid (rw_io t) \<noteq> 0 then EIO else e, t)))"

text \<open>\<open>ino_rw\<close>: a transfer through an open file, with its offset and whether it was opened for appending.\<close>

definition ino_rw :: "nat \<Rightarrow> nat \<Rightarrow> (rw \<Rightarrow> (errno \<times> rw) outcome) \<Rightarrow> (int \<Rightarrow> addr) \<Rightarrow> addr \<Rightarrow> bool \<Rightarrow> int \<Rightarrow> rw \<Rightarrow>
    (errno \<times> int \<times> rw) outcome" where
  "ino_rw ruid rlim cdev ba eb fappend f_offset t =
     (let t = t\<lparr>rw_io := (rw_io t)\<lparr>uio_offset := f_offset\<rparr>\<rparr>; cnt = uio_resid (rw_io t);
          app = (uio_rw (rw_io t) = UIO_WRITE \<and> ftype t = IFREG \<and> fappend)
      in bind_outcome (rwip ruid rlim cdev ba eb (if app then IO_APPEND else 0) t)
           (\<lambda>(e, t). Ret (e, if app then uio_offset (rw_io t) else s32 (f_offset + (int cnt - int (uio_resid (rw_io t)))), t)))"

end
