(* ===== verification/Uio_Spec.thy ===== *)
theory Uio_Spec
  imports Uio
begin

text \<open>
  What the transfers of \<open>Uio\<close> do: the buffers of a system call are one sequence of bytes, a transfer moves the next of them between
  the kernel and that sequence, and the \<^verbatim>\<open>struct uio\<close> afterwards stands for the rest.
\<close>

section \<open>The bytes of the buffers\<close>

fun uaddr :: "iovec list \<Rightarrow> nat \<Rightarrow> addr" where
  "uaddr [] i = 0"
| "uaddr (v # vs) i = (if i < iov_len v then iov_base v + of_nat i else uaddr vs (i - iov_len v))"

definition ulen :: "iovec list \<Rightarrow> nat" where
  "ulen vs = sum_list (map iov_len vs)"

lemma ulen_simps [simp]: "ulen [] = 0" "ulen (v # vs) = iov_len v + ulen vs"
  by (simp_all add: ulen_def)

definition uio_ok :: "uio \<Rightarrow> bool" where
  "uio_ok io \<longleftrightarrow> uio_iovcnt io = int (length (uio_iov io)) \<and> uio_resid io = ulen (uio_iov io) \<and> uio_resid io < 4294967296 \<and>
     0 \<le> uio_offset io \<and> uio_offset io + int (uio_resid io) < 2147483648"

definition uio_moved :: "nat \<Rightarrow> uio \<Rightarrow> uio \<Rightarrow> bool" where
  "uio_moved k io io' \<longleftrightarrow> uio_ok io' \<and> uio_rw io' = uio_rw io \<and> uio_resid io = uio_resid io' + k \<and>
     uio_offset io' = uio_offset io + int k \<and> (\<forall>i<uio_resid io'. uaddr (uio_iov io') i = uaddr (uio_iov io) (k + i))"

lemma uio_moved_0: "uio_ok io \<Longrightarrow> uio_moved 0 io io"
  by (simp add: uio_moved_def)

lemma uio_moved_trans: "uio_moved a io io1 \<Longrightarrow> uio_moved b io1 io2 \<Longrightarrow> uio_moved (a + b) io io2"
  by (simp add: uio_moved_def add.assoc)

lemma uio_moved_next:
  assumes "uio_ok io" "uio_iov io = v # vs" "iov_len v = 0"
  shows "uio_moved 0 io (uio_next io)"
  using assms by (simp add: uio_moved_def uio_ok_def uio_next_def)

lemma uio_moved_advance:
  assumes "uio_ok io" "uio_iov io = v # vs" "cnt \<le> iov_len v"
  shows "uio_moved cnt io (uio_advance cnt io)"
proof -
  have r: "uio_resid io = iov_len v + ulen vs" "uio_resid io < 4294967296" using assms by (simp_all add: uio_ok_def)
  then have "u32 (uio_resid io + 4294967296 - cnt) = uio_resid io - cnt" using assms(3) by (simp add: u32_def mod_if)
  moreover have "s32 (uio_offset io + int cnt) = uio_offset io + int cnt" using assms r by (intro s32_id) (auto simp: uio_ok_def)
  ultimately show ?thesis using assms r by (auto simp: uio_moved_def uio_ok_def uio_advance_def Let_def add.commute)
qed

section \<open>Moving bytes\<close>

definition moves :: "nat \<Rightarrow> (nat \<Rightarrow> addr) \<Rightarrow> (nat \<Rightarrow> addr) \<Rightarrow> mem \<Rightarrow> mem \<Rightarrow> bool" where
  "moves k dst src m m' \<longleftrightarrow> (\<forall>i<k. m' (dst i) = m (src i)) \<and> (\<forall>a. a \<notin> dst ` {..<k} \<longrightarrow> m' a = m a)"

lemma moves_0 [simp]: "moves 0 dst src m m' \<longleftrightarrow> m' = m"
  by (auto simp: moves_def)

lemma moves_cong:
  assumes "\<And>i. i < k \<Longrightarrow> dst i = dst' i" "\<And>i. i < k \<Longrightarrow> src i = src' i"
  shows "moves k dst src m m' = moves k dst' src' m m'"
proof -
  have "dst ` {..<k} = dst' ` {..<k}" using assms(1) by (intro image_cong) auto
  then show ?thesis using assms by (simp add: moves_def)
qed

lemma image_shift: "(\<lambda>i. f (a + i)) ` {..<b} = f ` {a..<a + b}" for f :: "nat \<Rightarrow> 'a"
proof -
  have "(+) a ` {..<b} = {a..<a + b}" unfolding lessThan_atLeast0 image_add_atLeastLessThan by (simp add: add.commute)
  then show ?thesis by (simp only: image_image [symmetric, of f "(+) a"])
qed

lemma moves_add:
  assumes m1: "moves a dst src m m1" and m2: "moves b (\<lambda>i. dst (a + i)) (\<lambda>i. src (a + i)) m1 m2"
    and inj: "inj_on dst {..<a + b}" and d: "dst ` {..<a + b} \<inter> src ` {..<a + b} = {}"
  shows "moves (a + b) dst src m m2"
proof -
  note im = image_shift [of dst a b]
  have "m2 (dst i) = m (src i)" if i: "i < a + b" for i
  proof (cases "i < a")
    case True
    have "dst i \<notin> dst ` {a..<a + b}" using inj_onD [OF inj, of i] i True by fastforce
    then show ?thesis using m1 m2 True by (simp add: moves_def im)
  next
    case False
    then obtain j where j: "i = a + j" using le_Suc_ex [of a i] by auto
    have "src i \<in> src ` {..<a + b}" "dst ` {..<a} \<subseteq> dst ` {..<a + b}" using i by auto
    then have "src i \<notin> dst ` {..<a}" using d by blast
    then show ?thesis using m1 m2 i by (simp add: moves_def j)
  qed
  moreover have "m2 x = m x" if "x \<notin> dst ` {..<a + b}" for x
  proof -
    have "x \<notin> dst ` {..<a}" "x \<notin> dst ` {a..<a + b}" using that by auto
    then show ?thesis using m1 m2 by (simp add: moves_def im)
  qed
  ultimately show ?thesis by (simp add: moves_def)
qed

lemma moves_bcopy:
  assumes "k < 4294967296" "(\<lambda>i. dst + of_nat i) ` {..<k} \<inter> (\<lambda>i. src + of_nat i) ` {..<k} = {}"
  shows "moves k (\<lambda>i. dst + of_nat i) (\<lambda>i. src + of_nat i) m (bcopy m src dst k)"
proof -
  have "apart src dst k" using assms(2) by (intro apartI) (force simp: image_iff)
  then have b: "bcopy m src dst k = copied k m src dst" by (rule bcopy_copied [OF assms(1)])
  have "unat (x - dst) < k \<Longrightarrow> x \<in> (\<lambda>i. dst + of_nat i) ` {..<k}" for x by (rule image_eqI [of _ _ "unat (x - dst)"]) simp_all
  then show ?thesis using assms(1) by (auto simp: moves_def b copied_def unat_of_nat)
qed

section \<open>Transfers\<close>

definition udst :: "uio_rw \<Rightarrow> addr \<Rightarrow> iovec list \<Rightarrow> nat \<Rightarrow> addr" where
  "udst rw cp vs = (if rw = UIO_READ then uaddr vs else (\<lambda>i. cp + of_nat i))"

definition usrc :: "uio_rw \<Rightarrow> addr \<Rightarrow> iovec list \<Rightarrow> nat \<Rightarrow> addr" where
  "usrc rw cp vs = (if rw = UIO_READ then (\<lambda>i. cp + of_nat i) else uaddr vs)"

text \<open>The bytes to move are stored at different places, none of which is read.\<close>

definition transferable :: "uio_rw \<Rightarrow> addr \<Rightarrow> iovec list \<Rightarrow> nat \<Rightarrow> bool" where
  "transferable rw cp vs k \<longleftrightarrow> inj_on (udst rw cp vs) {..<k} \<and> udst rw cp vs ` {..<k} \<inter> usrc rw cp vs ` {..<k} = {}"

lemma transferable_mono:
  assumes "transferable rw cp vs k" "j \<le> k"
  shows "transferable rw cp vs j"
proof -
  have "{..<j} \<subseteq> {..<k}" using assms(2) by auto
  then have "udst rw cp vs ` {..<j} \<subseteq> udst rw cp vs ` {..<k}" "usrc rw cp vs ` {..<j} \<subseteq> usrc rw cp vs ` {..<k}"
    "inj_on (udst rw cp vs) {..<j}" using assms(1) by (auto simp: transferable_def intro: inj_on_subset)
  then show ?thesis using assms(1) unfolding transferable_def by blast
qed

lemma shifted_addr:
  assumes "uaddr vs' i = uaddr vs (a + i)"
  shows "udst rw (cp + of_nat a) vs' i = udst rw cp vs (a + i)" "usrc rw (cp + of_nat a) vs' i = usrc rw cp vs (a + i)"
  using assms by (simp_all add: udst_def usrc_def add.assoc)

lemma transferable_shift:
  assumes t: "transferable rw cp vs (a + b)" and s: "\<And>i. i < b \<Longrightarrow> uaddr vs' i = uaddr vs (a + i)"
  shows "transferable rw (cp + of_nat a) vs' b"
proof -
  let ?d = "udst rw cp vs" and ?s = "usrc rw cp vs"
  have i: "inj_on ?d {..<a + b}" "?d ` {..<a + b} \<inter> ?s ` {..<a + b} = {}" using t by (simp_all add: transferable_def)
  have "inj_on (udst rw (cp + of_nat a) vs') {..<b}"
    by (rule inj_onI) (use inj_onD [OF i(1)] shifted_addr(1) [OF s] in force)
  moreover have "udst rw (cp + of_nat a) vs' ` {..<b} \<subseteq> ?d ` {..<a + b}" "usrc rw (cp + of_nat a) vs' ` {..<b} \<subseteq> ?s ` {..<a + b}"
    using shifted_addr [OF s] by auto
  ultimately show ?thesis unfolding transferable_def using i(2) by blast
qed

lemma uiofmove_moves:
  assumes t: "transferable rw cp (v # vs) k" and k: "k \<le> iov_len v" "k < 4294967296"
  shows "moves k (udst rw cp (v # vs)) (usrc rw cp (v # vs)) m (uiofmove cp k rw v m)"
proof -
  let ?b = "\<lambda>i. iov_base v + of_nat i" and ?c = "\<lambda>i. cp + of_nat i"
  have e: "\<And>i. i < k \<Longrightarrow> uaddr (v # vs) i = ?b i" using k(1) by simp
  then have im: "uaddr (v # vs) ` {..<k} = ?b ` {..<k}" by (intro image_cong) simp_all
  show ?thesis
  proof (cases rw)
    case UIO_READ
    then have "moves k ?b ?c m (uiofmove cp k rw v m)"
      using t im by (simp add: uiofmove_def moves_bcopy [OF k(2)] transferable_def udst_def usrc_def)
    then show ?thesis using UIO_READ e by (simp add: udst_def usrc_def cong: moves_cong)
  next
    case UIO_WRITE
    then have "moves k ?c ?b m (uiofmove cp k rw v m)"
      using t im by (simp add: uiofmove_def moves_bcopy [OF k(2)] transferable_def udst_def usrc_def)
    then show ?thesis using UIO_WRITE e by (simp add: udst_def usrc_def cong: moves_cong)
  qed
qed

lemma uiomove_spec:
  assumes "uio_ok io" "k = min n (uio_resid io)" "transferable (uio_rw io) cp (uio_iov io) k"
  shows "\<exists>io' m'. uiomove cp n io m = Ret (io', m') \<and> uio_moved k io io' \<and>
    moves k (udst (uio_rw io) cp (uio_iov io)) (usrc (uio_rw io) cp (uio_iov io)) m m'"
  using assms
proof (induction cp n io m arbitrary: k rule: uiomove.induct)
  case (1 cp n io m)
  let ?rw = "uio_rw io" and ?iov = "uio_iov io"
  show ?case
  proof (cases "0 < n \<and> uio_resid io \<noteq> 0")
    case False
    then have "k = 0" "uiomove cp n io m = Ret (io, m)" using 1(4) by (auto simp: uiomove.simps)
    then show ?thesis using uio_moved_0 [OF 1(3)] by simp
  next
    case True
    then obtain v vs where v: "?iov = v # vs" using 1(3) by (cases ?iov) (auto simp: uio_ok_def)
    show ?thesis
    proof (cases "iov_len v = 0")
      case z: True
      note mv = uio_moved_next [OF 1(3) v z]
      have N: "uio_rw (uio_next io) = ?rw" "uio_resid (uio_next io) = uio_resid io" "uio_iov (uio_next io) = vs" by (simp_all add: uio_next_def v)
      have u: "uaddr ?iov = uaddr vs" by (rule ext) (simp add: v z)
      have ds: "udst rw cp vs = udst rw cp ?iov" "usrc rw cp vs = usrc rw cp ?iov" for rw cp by (simp_all add: udst_def usrc_def u)
      have "uiomove cp n io m = uiomove cp n (uio_next io) m" using True v z by (subst uiomove.simps) simp
      moreover have "\<exists>io' m'. uiomove cp n (uio_next io) m = Ret (io', m') \<and> uio_moved k (uio_next io) io' \<and>
          moves k (udst ?rw cp ?iov) (usrc ?rw cp ?iov) m m'"
        using 1(1) [OF True v z, of k] mv 1(4,5) by (simp add: N ds transferable_def uio_moved_def)
      ultimately show ?thesis using uio_moved_trans [OF mv, of k] by auto
    next
      case z: False
      define cnt where "cnt = (if iov_len v > n then n else iov_len v)"
      let ?io = "uio_advance cnt io" and ?m = "uiofmove cp cnt ?rw v m" and ?b = "min (n - cnt) (uio_resid (uio_advance cnt io))"
      have cl: "cnt \<le> iov_len v" "cnt \<le> n" by (simp_all add: cnt_def)
      note mv = uio_moved_advance [OF 1(3) v cl(1)]
      then have r: "uio_resid io = uio_resid ?io + cnt" "uio_ok ?io" "uio_rw ?io = ?rw" "\<And>i. i < uio_resid ?io \<Longrightarrow> uaddr (uio_iov ?io) i = uaddr ?iov (cnt + i)"
        by (simp_all add: uio_moved_def)
      have k: "k = cnt + ?b" using 1(4) r(1) cl(2) by simp
      have c32: "cnt < 4294967296" using r(1) 1(3) by (simp add: uio_ok_def)
      have t: "transferable ?rw (cp + of_nat cnt) (uio_iov ?io) ?b" using transferable_shift [of ?rw cp ?iov cnt ?b] 1(5) r(4) k by simp
      have step: "uiomove cp n io m = uiomove (cp + of_nat cnt) (n - cnt) ?io ?m"
        using True v z by (subst uiomove.simps) (simp add: cnt_def Let_def)
      obtain io' m' where i: "uiomove (cp + of_nat cnt) (n - cnt) ?io ?m = Ret (io', m')" "uio_moved ?b ?io io'"
        "moves ?b (udst ?rw (cp + of_nat cnt) (uio_iov ?io)) (usrc ?rw (cp + of_nat cnt) (uio_iov ?io)) ?m m'"
        using 1(2) [OF True v z cnt_def, of ?b] r(2,3) t by auto
      have "moves ?b (\<lambda>i. udst ?rw cp ?iov (cnt + i)) (\<lambda>i. usrc ?rw cp ?iov (cnt + i)) ?m m'"
        using i(3) shifted_addr [OF r(4), where rw = ?rw and cp = cp] by (simp cong: moves_cong)
      moreover have "moves cnt (udst ?rw cp ?iov) (usrc ?rw cp ?iov) m ?m"
        unfolding v by (rule uiofmove_moves [OF _ cl(1) c32]) (rule transferable_mono [OF 1(5) [unfolded v]], simp add: k)
      ultimately have "moves k (udst ?rw cp ?iov) (usrc ?rw cp ?iov) m m'"
        using 1(5) unfolding k by (intro moves_add) (simp_all add: transferable_def)
      then show ?thesis using step i(1) uio_moved_trans [OF mv i(2)] k by auto
    qed
  qed
qed

section \<open>Single characters\<close>




section \<open>Well-formed transfers\<close>











section \<open>Properties\<close>

text \<open>
  C21. \<open>uiomove\<close> on a well-formed \<^verbatim>\<open>struct uio\<close>, when the bytes to store go to different places and none of those is read: it returns, has moved as
  many bytes as asked for or as are left, between the kernel buffer and the buffers of the process in their order, and no other byte of
  memory changes. The \<^verbatim>\<open>struct uio\<close> is well-formed again and stands for the rest: count and offset moved by that number, and the
  next byte is the one after the last that was moved.
\<close>

theorem uiomove_moves:
  assumes "uio_ok io" "k = min n (uio_resid io)" "transferable (uio_rw io) cp (uio_iov io) k"
  shows "\<exists>io' m'. uiomove cp n io m = Ret (io', m') \<and> uio_moved k io io' \<and>
    moves k (udst (uio_rw io) cp (uio_iov io)) (usrc (uio_rw io) cp (uio_iov io)) m m'"
  by (rule uiomove_spec [OF assms])

definition demo_uio :: uio where
  "demo_uio = \<lparr>uio_iov = [\<lparr>iov_base = 100, iov_len = 2\<rparr>, \<lparr>iov_base = 300, iov_len = 0\<rparr>, \<lparr>iov_base = 200, iov_len = 3\<rparr>],
     uio_iovcnt = 3, uio_offset = 7, uio_resid = 5, uio_rw = UIO_READ\<rparr>"

theorem uiomove_moves_witness:
  "\<exists>io' m'. uiomove 1000 4 demo_uio (\<lambda>a. ucast a) = Ret (io', m') \<and> m' 101 = 0xE9 \<and> m' 201 = 0xEB \<and> m' 202 = 202 \<and> uio_resid io' = 1"
proof -
  have four: "{..<4 :: nat} = {0, 1, 2, 3}" by auto
  have ok: "uio_ok demo_uio" by (simp add: uio_ok_def demo_uio_def)
  have d: "uio_rw demo_uio = UIO_READ" "uio_resid demo_uio = 5" by (simp_all add: demo_uio_def)
  have u: "udst UIO_READ 1000 (uio_iov demo_uio) = uaddr (uio_iov demo_uio)" "usrc UIO_READ 1000 (uio_iov demo_uio) = (\<lambda>i. 1000 + of_nat i)"
    by (simp_all add: udst_def usrc_def)
  have a: "uaddr (uio_iov demo_uio) 0 = 100" "uaddr (uio_iov demo_uio) 1 = 101" "uaddr (uio_iov demo_uio) 2 = 200" "uaddr (uio_iov demo_uio) 3 = 201"
    by (simp_all add: demo_uio_def)
  have "transferable UIO_READ 1000 (uio_iov demo_uio) 4" unfolding transferable_def u four using a by simp
  then obtain io' m' where r: "uiomove 1000 4 demo_uio (\<lambda>a. ucast a) = Ret (io', m')" "uio_moved 4 demo_uio io'"
    "moves 4 (uaddr (uio_iov demo_uio)) (\<lambda>i. 1000 + of_nat i) (\<lambda>a. ucast a) m'"
    using uiomove_moves [OF ok, of 4 4 1000 "\<lambda>a. ucast a"] d u by auto
  have "m' (uaddr (uio_iov demo_uio) i) = ucast (1000 + of_nat i :: addr)" if "i < 4" for i using r(3) that by (simp add: moves_def)
  from this [of 1] this [of 3] have "m' 101 = 0xE9" "m' 201 = 0xEB" unfolding a by simp_all
  moreover have "m' 202 = 202" using r(3) a unfolding moves_def four by simp
  moreover have "uio_resid io' = 1" using r(2) d by (simp add: uio_moved_def)
  ultimately show ?thesis using r(1) by blast
qed



end
