(* ===== verification/File_Spec.thy ===== *)
theory File_Spec
  imports File_Io Uio_Spec Ufs_Itrunc
begin

text \<open>
  What reading and writing a file does: a file is a sequence of bytes, the holes of which are 0; a read delivers the bytes from the offset
  on, up to the end of the file; a write stores bytes and changes no other byte, taking blocks from the free list.
\<close>

section \<open>Bytes of blocks\<close>

lemma byte_div_mod:
  assumes "0 \<le> b" "b < 256"
  shows "((b :: int) + 256 * x) div 256 = x" "(b + 256 * x) mod 256 = b"
  using assms by simp_all

lemma uint_byte: "0 \<le> uint (b :: byte)" "uint (b :: byte) < 256"
  using unsigned_less [of b, where ?'a = int] by simp_all

lemma word_bytes:
  assumes "k < 4"
  shows "ucast (drop_bit (8 * k) (word_rcat (rev [b0, b1, b2, b3]) :: 32 word)) = [b0, b1, b2, b3 :: byte] ! k"
proof -
  define n where "n = uint b0 + 256 * (uint b1 + 256 * (uint b2 + 256 * uint b3))"
  have w: "(word_rcat (rev [b0, b1, b2, b3]) :: 32 word) = word_of_int n" by (simp add: word_rcat_def n_def)
  have "0 \<le> n" "n < 4294967296" using uint_byte [of b0] uint_byte [of b1] uint_byte [of b2] uint_byte [of b3] by (simp_all add: n_def)
  then have u: "uint (word_of_int n :: 32 word) = n" and t: "take_bit LENGTH(32) n = n"
    by (simp_all add: uint_word_of_int take_bit_int_eq_self_iff)
  have d: "n div 256 = uint b1 + 256 * (uint b2 + 256 * uint b3)" "n div 256 div 256 = uint b2 + 256 * uint b3" "n div 256 div 256 div 256 = uint b3"
    by (simp_all add: n_def byte_div_mod uint_byte del: distrib_left_numeral)
  have "uint (drop_bit (8 * k) (word_of_int n :: 32 word)) = n div 2 ^ (8 * k)" 
    by (simp only: unsigned_drop_bit_eq u t drop_bit_eq_div [where ?'a = int])
  then have "uint (ucast (drop_bit (8 * k) (word_of_int n :: 32 word)) :: byte) = n div 256 ^ k mod 256"
    by (simp add: unsigned_ucast_eq take_bit_eq_mod power_mult)
  also have "\<dots> = uint ([b0, b1, b2, b3] ! k)"
  proof -
    consider "k = 0" | "k = 1" | "k = 2" | "k = 3" using assms by linarith
    then show ?thesis
    proof cases
      case 1
      then show ?thesis by (simp add: n_def byte_div_mod uint_byte del: distrib_left_numeral)
    next
      case 2
      then show ?thesis using byte_div_mod(2) [OF uint_byte, of b1] by (simp add: d del: distrib_left_numeral)
    next
      case 3
      have "n div 256 ^ 2 = n div 256 div 256" by (simp add: zdiv_zmult2_eq [symmetric])
      then show ?thesis using 3 byte_div_mod(2) [OF uint_byte, of b2] unfolding d(2) by simp
    next
      case 4
      have "n div 256 ^ 3 = n div 256 div 256 div 256" by (simp add: zdiv_zmult2_eq [symmetric])
      then show ?thesis using 4 uint_byte [of b3] unfolding d(3) by simp
    qed
  qed
  finally show ?thesis unfolding w by (simp add: word_uint_eq_iff)
qed

lemma byte_of_buf:
  assumes "j < 1024"
  shows "byte_of (buf_blk a m v) j = m (a + of_nat j)"
proof -
  have i: "j div 4 < 256" "j mod 4 < 4" using assms by simp_all
  let ?a = "a + of_nat (4 * (j div 4))"
  have "byte_of (buf_blk a m v) j = [m ?a, m (?a + 1), m (?a + 2), m (?a + 3)] ! (j mod 4)"
    unfolding byte_of_def buf_blk_def load32_def using word_bytes [OF i(2)] i(1) by simp
  also have "\<dots> = m (?a + of_nat (j mod 4))"
  proof -
    consider "j mod 4 = 0" | "j mod 4 = 1" | "j mod 4 = 2" | "j mod 4 = 3" using i(2) by linarith
    then show ?thesis by cases simp_all
  qed
  also have "?a + of_nat (j mod 4) = a + of_nat (4 * (j div 4) + j mod 4)" by (simp only: of_nat_add add.assoc)
  also have "4 * (j div 4) + j mod 4 = j" by simp
  finally show ?thesis .
qed

lemma byte_of_0 [simp]: "byte_of (\<lambda>_. 0) j = 0"
  by (simp add: byte_of_def)

definition bspan :: "addr \<Rightarrow> addr set" where
  "bspan a = (\<lambda>i. a + of_nat i) ` {..<DEV_BSIZE}"

definition bufs :: "(int \<Rightarrow> addr) \<Rightarrow> addr \<Rightarrow> addr set" where
  "bufs ba eb = (\<Union>b. bspan (ba b)) \<union> bspan eb"

lemma bspan_iff: "x \<in> bspan a \<longleftrightarrow> unat (x - a) < 1024"
proof
  assume "unat (x - a) < 1024"
  then show "x \<in> bspan a" unfolding bspan_def by (intro image_eqI [of _ _ "unat (x - a)"]) simp_all
qed (auto simp: bspan_def unat_of_nat)

lemma in_bspan: "j + i < 1024 \<Longrightarrow> a + of_nat j + of_nat i \<in> bspan a"
  using imageI [of "j + i" "{..<1024}" "\<lambda>i. a + of_nat i"] by (simp add: bspan_def add.assoc)

lemma fill_buf_in: "j < 1024 \<Longrightarrow> fill_buf v a m (a + of_nat j) = byte_of v j"
  by (simp add: fill_buf_def unat_of_nat)

lemma fill_buf_out: "x \<notin> bspan a \<Longrightarrow> fill_buf v a m x = m x"
  by (simp add: fill_buf_def bspan_iff)

section \<open>Bytes of files\<close>

definition fbyte :: "(int \<Rightarrow> blk) \<Rightarrow> (nat \<Rightarrow> int) \<Rightarrow> nat \<Rightarrow> byte" where
  "fbyte d a i = (let b = flook d a (int (i div 1024)) in if b = 0 then 0 else byte_of (d b) (i mod 1024))"

abbreviation fpos :: "rw \<Rightarrow> nat" where "fpos t \<equiv> nat (uio_offset (rw_io t))"
abbreviation fsize :: "rw \<Rightarrow> nat" where "fsize t \<equiv> i_size (ino (rw_ip t))"
abbreviation faddr :: "rw \<Rightarrow> nat \<Rightarrow> int" where "faddr t \<equiv> i_addr (ino (rw_ip t))"
abbreviation fdisk :: "rw \<Rightarrow> int \<Rightarrow> blk" where "fdisk t \<equiv> disk (rw_vol t)"
abbreviation uat :: "rw \<Rightarrow> nat \<Rightarrow> addr" where "uat t \<equiv> uaddr (uio_iov (rw_io t))"
abbreviation resid :: "rw \<Rightarrow> nat" where "resid t \<equiv> uio_resid (rw_io t)"

text \<open>A transfer between a file on a volume without errors and buffers of a process that are none of the buffers of the cache.\<close>

definition transfer :: "(int \<Rightarrow> addr) \<Rightarrow> addr \<Rightarrow> rw \<Rightarrow> bool" where
  "transfer ba eb t \<longleftrightarrow> uio_ok (rw_io t) \<and> ftype t \<noteq> IFBLK \<and> ftype t \<noteq> IFCHR \<and> (\<forall>x. rderr (rw_vol t) x = E_OK) \<and>
     u_er (rw_vol t) = E_OK \<and> fsize t < 2147483648 \<and> uat t ` {..<resid t} \<inter> bufs ba eb = {}"

lemma transferD:
  assumes "transfer ba eb t"
  shows "uio_ok (rw_io t)" "ftype t \<noteq> IFBLK" "\<And>x. rderr (rw_vol t) x = E_OK" "u_er (rw_vol t) = E_OK" "fsize t < 2147483648"
    "uat t ` {..<resid t} \<inter> bufs ba eb = {}" "uio_offset (rw_io t) = int (fpos t)" "fpos t + resid t < 2147483648" "ftype t \<noteq> IFCHR"
proof -
  have u: "0 \<le> uio_offset (rw_io t)" "uio_offset (rw_io t) + int (resid t) < 2147483648" using assms unfolding transfer_def uio_ok_def by blast+
  then show "uio_offset (rw_io t) = int (fpos t)" "fpos t + resid t < 2147483648" by linarith+
qed (use assms in \<open>unfold transfer_def, blast+\<close>)

lemma block_of:
  assumes "p < 2147483648"
  shows "lblkno (int p) = p div 1024" "blkoff (int p) = p mod 1024"
  using assms by (simp_all add: lblkno_def blkoff_def nat_mod_distrib)

text \<open>The state of a transfer that has read \<open>k\<close> bytes.\<close>

definition read_done :: "(int \<Rightarrow> addr) \<Rightarrow> addr \<Rightarrow> nat \<Rightarrow> rw \<Rightarrow> rw \<Rightarrow> bool" where
  "read_done ba eb k t t' \<longleftrightarrow> uio_moved k (rw_io t) (rw_io t') \<and> (\<forall>i<k. rw_mem t' (uat t i) = fbyte (fdisk t) (faddr t) (fpos t + i)) \<and>
     (\<forall>a. a \<notin> uat t ` {..<k} \<union> bufs ba eb \<longrightarrow> rw_mem t' a = rw_mem t a) \<and> rw_ip t' = rw_ip t \<and> (\<exists>ra. rw_vol t' = (rw_vol t)\<lparr>rablock := ra\<rparr>)"

lemma uat_not_buf:
  assumes "transfer ba eb t" "i < resid t"
  shows "uat t i \<notin> bufs ba eb"
proof -
  have "uat t i \<in> uat t ` {..<resid t}" using assms(2) by simp
  then show ?thesis using transferD(6) [OF assms(1)] by blast
qed

lemma moved_pos:
  assumes T: "transfer ba eb t" and m: "uio_moved a (rw_io t) (rw_io t')"
  shows "fpos t' = fpos t + a" "resid t = resid t' + a" "\<And>i. i < resid t' \<Longrightarrow> uat t' i = uat t (a + i)"
proof -
  have "uio_offset (rw_io t') = int (fpos t + a)" using transferD(7) [OF T] m unfolding uio_moved_def of_nat_add by presburger
  then show "fpos t' = fpos t + a" by (simp only: nat_int)
qed (use m in \<open>unfold uio_moved_def, blast+\<close>)

lemma read_done_trans:
  assumes A: "read_done ba eb a t t1" and B: "read_done ba eb b t1 t2" and T: "transfer ba eb t" and inj: "inj_on (uat t) {..<resid t}"
  shows "read_done ba eb (a + b) t t2"
proof -
  have m: "uio_moved a (rw_io t) (rw_io t1)" "uio_moved b (rw_io t1) (rw_io t2)" using A B by (simp_all add: read_done_def)
  note P = moved_pos [OF T m(1)]
  have le: "a + b \<le> resid t" "b \<le> resid t1" using P(2) m(2) by (simp_all add: uio_moved_def)
  note off = P(1) and ad = P(3)
  have "uat t1 ` {..<b} = (\<lambda>i. uat t (a + i)) ` {..<b}" using ad le(2) by (intro image_cong) simp_all
  then have im: "uat t1 ` {..<b} = uat t ` {a..<a + b}" unfolding image_shift .
  have v: "fdisk t1 = fdisk t" "faddr t1 = faddr t" "rw_ip t2 = rw_ip t" "\<exists>ra. rw_vol t2 = (rw_vol t)\<lparr>rablock := ra\<rparr>"
    using A B by (auto simp: read_done_def)
  have "rw_mem t2 (uat t i) = fbyte (fdisk t) (faddr t) (fpos t + i)" if i: "i < a + b" for i
  proof (cases "i < a")
    case True
    have "uat t i \<notin> uat t ` {a..<a + b}" using inj_onD [OF inj, of i] i le(1) True by fastforce
    moreover have "uat t i \<notin> bufs ba eb" using uat_not_buf [OF T] i le(1) by simp
    ultimately show ?thesis using A B True by (simp add: read_done_def im)
  next
    case False
    then obtain j where j: "i = a + j" "j < b" using i le_Suc_ex [of a i] by auto
    then have "rw_mem t2 (uat t1 j) = fbyte (fdisk t1) (faddr t1) (fpos t1 + j)" using B unfolding read_done_def by blast
    then show ?thesis using ad [of j] le(2) j unfolding v(1,2) off by (simp add: add.assoc)
  qed
  moreover have "rw_mem t2 x = rw_mem t x" if "x \<notin> uat t ` {..<a + b} \<union> bufs ba eb" for x
  proof -
    have "x \<notin> uat t ` {..<a}" "x \<notin> uat t ` {a..<a + b}" "x \<notin> bufs ba eb" using that by auto
    then show ?thesis using A B by (simp add: read_done_def im)
  qed
  ultimately show ?thesis using uio_moved_trans [OF m] v by (simp add: read_done_def)
qed

section \<open>Reading\<close>

lemma rw_uiomove_spec:
  assumes "uio_ok (rw_io t)" "n \<le> resid t" "transferable (uio_rw (rw_io t)) a (uio_iov (rw_io t)) n" "u_er (rw_vol t) = E_OK"
  shows "\<exists>io' m'. rw_uiomove a n t = Ret (t\<lparr>rw_io := io', rw_mem := m'\<rparr>) \<and> uio_moved n (rw_io t) io' \<and>
    moves n (udst (uio_rw (rw_io t)) a (uio_iov (rw_io t))) (usrc (uio_rw (rw_io t)) a (uio_iov (rw_io t))) (rw_mem t) m'"
proof -
  have k: "n = min n (resid t)" using assms(2) by simp
  obtain io' m' where "uiomove a n (rw_io t) (rw_mem t) = Ret (io', m')" "uio_moved n (rw_io t) io'"
    "moves n (udst (uio_rw (rw_io t)) a (uio_iov (rw_io t))) (usrc (uio_rw (rw_io t)) a (uio_iov (rw_io t))) (rw_mem t) m'"
    using uiomove_spec [OF assms(1) k assms(3)] by blast
  moreover have "(rw_vol t)\<lparr>u_er := E_OK\<rparr> = rw_vol t" using assms(4) by simp
  ultimately show ?thesis by (intro exI [of _ io'] exI [of _ m']) (simp add: rw_uiomove_def)
qed

lemma rw_bmap_read:
  assumes T: "transfer ba eb t"
  shows "\<exists>ra. rw_bmap False False t = (let b = flook (fdisk t) (faddr t) (int (fpos t div 1024)) in if b = 0 then -1 else b, t\<lparr>rw_vol := (rw_vol t)\<lparr>rablock := ra\<rparr>\<rparr>)"
proof -
  note D = transferD [OF T]
  have p: "fpos t < 2147483648" using D(8) by simp
  then have l: "lblkno (uio_offset (rw_io t)) = fpos t div 1024" using block_of(1) [OF p] D(7) by simp
  have "0 \<le> int (fpos t div 1024)" "int (fpos t div 1024) < 16843012" using p by auto
  from bmap_reads [OF D(3) this, of False "ino (rw_ip t)"] show ?thesis using D(2) unfolding rw_bmap_def l Let_def by auto
qed

text \<open>The buffer of the block that a pass reads, or an empty one.\<close>

lemma rw_fetch_spec:
  assumes T: "transfer ba eb t" and b: "b = flook (fdisk t) (faddr t) (int (fpos t div 1024))" "0 \<le> b"
    and t1: "t1 = t\<lparr>rw_vol := (rw_vol t)\<lparr>rablock := ra\<rparr>\<rparr>" and bn: "bn = (if b = 0 then -1 else b)"
  shows "\<exists>a m. rw_fetch ba eb bn t1 = (True, a, t1\<lparr>rw_mem := m\<rparr>) \<and> bspan a \<subseteq> bufs ba eb \<and> (\<forall>x. x \<notin> bspan a \<longrightarrow> m x = rw_mem t x) \<and>
      (\<forall>j<1024. m (a + of_nat j) = (if b = 0 then 0 else byte_of (fdisk t b) j))"
proof (cases "b = 0")
  case True
  have z: "bzero (rw_mem t) eb 1024 = zeroed 1024 (rw_mem t) eb" by (rule bzero_zeroed) simp_all
  then show ?thesis using True bn t1
    by (intro exI [of _ eb] exI [of _ "zeroed 1024 (rw_mem t) eb"]) (auto simp: rw_fetch_def bufs_def zeroed_def bspan_iff unat_of_nat)
next
  case False
  have "rderr (rw_vol t1) b = E_OK" using transferD(3) [OF T] by (simp add: t1)
  then have "rw_load ba b t1 = (True, t1\<lparr>rw_mem := fill_buf (fdisk t b) (ba b) (rw_mem t)\<rparr>)" by (simp add: rw_load_def bread_ok t1)
  then show ?thesis using False bn b(2) fill_buf_in fill_buf_out
    by (intro exI [of _ "ba b"] exI [of _ "fill_buf (fdisk t b) (ba b) (rw_mem t)"]) (auto simp: rw_fetch_def bufs_def)
qed

lemma in_block:
  assumes "p mod 1024 + i < (1024 :: nat)"
  shows "(p + i) div 1024 = p div 1024 \<and> (p + i) mod 1024 = p mod 1024 + i"
proof -
  define q r where "q = p div 1024" and "r = p mod 1024"
  have e: "p + i = (r + i) + 1024 * q" by (simp add: q_def r_def)
  have "r + i < 1024" using assms by (simp add: r_def)
  then have "((r + i) + 1024 * q) div 1024 = q" "((r + i) + 1024 * q) mod 1024 = r + i" by simp_all
  then show ?thesis unfolding e q_def [symmetric] r_def [symmetric] by simp
qed

lemma fbyte_in_block:
  assumes "p mod 1024 + i < 1024" "b = flook d a (int (p div 1024))"
  shows "fbyte d a (p + i) = (if b = 0 then 0 else byte_of (d b) (p mod 1024 + i))"
  unfolding fbyte_def Let_def using in_block [OF assms(1)] assms(2) by simp

lemma transferable_read:
  assumes T: "transfer ba eb t" and inj: "inj_on (uat t) {..<resid t}" and n: "n \<le> resid t" "j + n \<le> 1024" and a: "bspan a \<subseteq> bufs ba eb"
  shows "transferable UIO_READ (a + of_nat j) (uio_iov (rw_io t)) n"
proof -
  have "a + of_nat j + of_nat i \<in> bufs ba eb" if "i < n" for i
    using in_bspan [of j i a] that n(2) a by auto
  moreover have "uat t i \<notin> bufs ba eb" if "i < n" for i using uat_not_buf [OF T, of i] that n(1) by simp
  ultimately have "uat t ` {..<n} \<inter> (\<lambda>i. a + of_nat j + of_nat i) ` {..<n} = {}" by fastforce
  moreover have "inj_on (uat t) {..<n}" using inj n(1) by (auto intro: inj_on_subset)
  ultimately show ?thesis by (simp add: transferable_def udst_def usrc_def)
qed

lemma diff_wrap:
  assumes T: "transfer ba eb t"
  shows "s32 (int (fsize t) - uio_offset (rw_io t)) = int (fsize t) - int (fpos t)"
proof -
  obtain p where p: "uio_offset (rw_io t) = int p" using transferD(7) [OF T] by blast
  show ?thesis unfolding p nat_int by (rule s32_id) (use transferD(5,8) [OF T] p in \<open>simp_all\<close>)
qed

lemma rw_read_end:
  assumes T: "transfer ba eb t" and "fsize t \<le> fpos t"
  shows "rw_read ba eb t = Ret (Return E_OK, t)"
proof -
  have "int (fsize t) - int (fpos t) \<le> 0" using assms(2) by linarith
  then show ?thesis using transferD(2) [OF T] unfolding rw_read_def Let_def diff_wrap [OF T] by (simp only: simp_thms if_True)
qed

lemma read_count:
  fixes n on r sz p :: nat
  assumes "n = min (min (1024 - on) r) (sz - p)" "on < 1024" "p < sz"
  shows "n \<le> r" "on + n \<le> 1024" "(if int sz - int p < int (min (1024 - on) r) then nat (int sz - int p) else min (1024 - on) r) = n"
  using assms by (auto simp: min_def nat_diff_distrib of_nat_diff split: if_splits)

lemma rw_read_pass:
  assumes T: "transfer ba eb t" and rd: "uio_rw (rw_io t) = UIO_READ" and inj: "inj_on (uat t) {..<resid t}" and r: "resid t \<noteq> 0"
    and lt: "fpos t < fsize t" and ge: "\<And>m. 0 \<le> flook (fdisk t) (faddr t) m" and n: "n = min (min (1024 - fpos t mod 1024) (resid t)) (fsize t - fpos t)"
  shows "\<exists>t'. rw_read ba eb t = Ret (pass_end n t', t') \<and> read_done ba eb n t t'"
proof -
  note D = transferD [OF T]
  let ?on = "fpos t mod 1024" and ?b = "flook (fdisk t) (faddr t) (int (fpos t div 1024))"
  have p: "fpos t < 2147483648" using D(8) by simp
  have on: "blkoff (uio_offset (rw_io t)) = ?on" using block_of(2) [OF p] D(7) by metis
  have onl: "?on < 1024" by simp
  note n1 = read_count(1,2) [OF n onl lt] and n2 = read_count(3) [OF n onl lt]
  define bn where "bn = (if ?b = 0 then -1 else ?b)"
  obtain ra where "rw_bmap False False t = (bn, t\<lparr>rw_vol := (rw_vol t)\<lparr>rablock := ra\<rparr>\<rparr>)"
    using rw_bmap_read [OF T] unfolding Let_def bn_def by blast
  then obtain t1 where t1: "t1 = t\<lparr>rw_vol := (rw_vol t)\<lparr>rablock := ra\<rparr>\<rparr>" and bm: "rw_bmap False False t = (bn, t1)" by blast
  obtain a m where f: "rw_fetch ba eb bn t1 = (True, a, t1\<lparr>rw_mem := m\<rparr>)"
    and a: "bspan a \<subseteq> bufs ba eb" and m: "\<And>x. x \<notin> bspan a \<Longrightarrow> m x = rw_mem t x" "\<And>j. j < 1024 \<Longrightarrow> m (a + of_nat j) = (if ?b = 0 then 0 else byte_of (fdisk t ?b) j)"
    using rw_fetch_spec [OF T refl ge t1 bn_def] by blast
  define t2 where "t2 = t1\<lparr>rw_mem := m\<rparr>"
  have t2: "rw_io t2 = rw_io t" "rw_mem t2 = m" "u_er (rw_vol t2) = E_OK" "rw_ip t2 = rw_ip t" "rw_vol t2 = (rw_vol t)\<lparr>rablock := ra\<rparr>" using D(4) by (simp_all add: t2_def t1)
  obtain io' m' where u: "rw_uiomove (a + of_nat ?on) n t2 = Ret (t2\<lparr>rw_io := io', rw_mem := m'\<rparr>)" "uio_moved n (rw_io t) io'"
    "moves n (uat t) (\<lambda>i. a + of_nat ?on + of_nat i) m m'"
    using rw_uiomove_spec [of t2 n "a + of_nat ?on"] transferable_read [OF T inj n1(1,2) a] D(1,4) n1(1) unfolding t2 rd by (auto simp: udst_def usrc_def)
  let ?t = "t2\<lparr>rw_io := io', rw_mem := m'\<rparr>"
  have "\<not> int (fsize t) - int (fpos t) \<le> 0" using lt by linarith
  moreover have "ftype t1 \<noteq> IFBLK" "u_er (rw_vol t1) = E_OK" using D(2,4) by (simp_all add: t1)
  ultimately have "rw_read ba eb t = Ret (pass_end n ?t, ?t)"
    using D(2) f u(1) unfolding rw_read_def Let_def on diff_wrap [OF T] t2_def [symmetric]
    by (simp only: n2 bm prod.case simp_thms if_False if_True bind_outcome.simps)
  moreover have "m' (uat t i) = fbyte (fdisk t) (faddr t) (fpos t + i)" if "i < n" for i
    using u(3) m(2) [of "?on + i"] fbyte_in_block [of "fpos t" i, OF _ refl] that n1(2) by (simp add: moves_def add.assoc)
  moreover have "m' x = rw_mem t x" if "x \<notin> uat t ` {..<n} \<union> bufs ba eb" for x using u(3) m(1) [of x] a that by (auto simp: moves_def)
  ultimately show ?thesis using u(2) t2 by (intro exI [of _ ?t]) (auto simp: read_done_def)
qed

lemma read_done_transfer:
  assumes T: "transfer ba eb t" and d: "read_done ba eb a t t'"
  shows "transfer ba eb t'" "fdisk t' = fdisk t" "faddr t' = faddr t" "fsize t' = fsize t" "uio_rw (rw_io t') = uio_rw (rw_io t)"
    "inj_on (uat t) {..<resid t} \<Longrightarrow> inj_on (uat t') {..<resid t'}"
proof -
  have m: "uio_moved a (rw_io t) (rw_io t')" using d by (simp add: read_done_def)
  note P = moved_pos [OF T m]
  have "uat t' i \<notin> bufs ba eb" if "i < resid t'" for i using uat_not_buf [OF T, of "a + i"] P(2,3) that by simp
  then have "uat t' ` {..<resid t'} \<inter> bufs ba eb = {}" by blast
  moreover have "uio_ok (rw_io t')" using m by (simp add: uio_moved_def)
  ultimately show "transfer ba eb t'" using T d unfolding transfer_def read_done_def by auto
  show "inj_on (uat t') {..<resid t'}" if i: "inj_on (uat t) {..<resid t}"
    by (rule inj_onI) (use inj_onD [OF i] P(2,3) in force)
qed (use d in \<open>auto simp: read_done_def uio_moved_def\<close>)

lemma min_shift: "n \<le> s - p \<Longrightarrow> n + min r (s - (p + n)) = min (r + n) (s - p)" for n s p r :: nat
  by simp

lemma rw_read_loop:
  assumes "transfer ba eb t" "uio_rw (rw_io t) = UIO_READ" "inj_on (uat t) {..<resid t}" "resid t \<noteq> 0" "resid t \<le> fuel"
    "\<And>m. 0 \<le> flook (fdisk t) (faddr t) m"
  shows "\<exists>r t'. rw_loop (rw_read ba eb) fuel t = Ret (r, t') \<and> (r = Return E_OK \<or> r = Leave E_OK) \<and> read_done ba eb (min (resid t) (fsize t - fpos t)) t t'"
  using assms
proof (induction fuel arbitrary: t)
  case (Suc fuel)
  note T = Suc.prems(1)
  show ?case
  proof (cases "fsize t \<le> fpos t")
    case True
    moreover have "read_done ba eb 0 t t" using uio_moved_0 [OF transferD(1) [OF T]] by (auto simp: read_done_def intro: exI [of _ "rablock (rw_vol t)"])
    ultimately show ?thesis using rw_read_end [OF T True] by simp
  next
    case False
    define n where "n = min (min (1024 - fpos t mod 1024) (resid t)) (fsize t - fpos t)"
    have lt: "fpos t < fsize t" using False by simp
    obtain t1 where p: "rw_read ba eb t = Ret (pass_end n t1, t1)" "read_done ba eb n t t1"
      using rw_read_pass [OF T Suc.prems(2-4) lt Suc.prems(6) n_def] by blast
    have n0: "n \<noteq> 0" using lt Suc.prems(4) unfolding n_def by (simp add: min_def)
    have m: "uio_moved n (rw_io t) (rw_io t1)" using p(2) by (simp add: read_done_def)
    note P = moved_pos [OF T m] and R = read_done_transfer [OF T p(2)]
    have le: "n \<le> fsize t - fpos t" "n \<le> resid t" using P(2) by (simp_all add: n_def)
    show ?thesis
    proof (cases "resid t1 = 0")
      case True
      then have "min (resid t) (fsize t - fpos t) = n" using P(2) le by simp
      then show ?thesis using True p by (simp add: pass_end_def)
    next
      case False
      have f: "resid t1 \<le> fuel" using P(2) Suc.prems(5) n0 by simp
      obtain r t' where i: "rw_loop (rw_read ba eb) fuel t1 = Ret (r, t')" "r = Return E_OK \<or> r = Leave E_OK"
        "read_done ba eb (min (resid t1) (fsize t1 - fpos t1)) t1 t'"
        using Suc.IH [OF R(1) _ R(6) [OF Suc.prems(3)] False f] R(2,3,5) Suc.prems(2,6) by auto
      have "n + min (resid t1) (fsize t1 - fpos t1) = min (resid t) (fsize t - fpos t)" using min_shift [OF le(1)] P(1,2) R(4) by simp
      then have "read_done ba eb (min (resid t) (fsize t - fpos t)) t t'" using read_done_trans [OF p(2) i(3) T Suc.prems(3)] by simp
      then show ?thesis using i(1,2) p(1) False n0 by (auto simp: pass_end_def)
    qed
  qed
qed simp

section \<open>Writing\<close>

text \<open>The blocks of the file form a tree and the free list of the volume is \<open>xs\<close>.\<close>

definition file_vol :: "rw \<Rightarrow> int list \<Rightarrow> bool" where
  "file_vol t xs \<longleftrightarrow> vol (rw_vol t) xs (fblocks (fdisk t) (faddr t)) \<and> file_ok (fdisk t) (faddr t) \<and>
     (\<forall>b\<in>set xs \<union> fblocks (fdisk t) (faddr t). 0 \<le> b) \<and> ftype t \<in> {IFREG, IFDIR, IFLNK}"

text \<open>No block of the file moves.\<close>

definition keeps_map :: "rw \<Rightarrow> rw \<Rightarrow> bool" where
  "keeps_map t t' \<longleftrightarrow> (\<forall>m. flook (fdisk t) (faddr t) m \<noteq> 0 \<longrightarrow> flook (fdisk t') (faddr t') m = flook (fdisk t) (faddr t) m)"

lemma keeps_map_refl [simp]: "keeps_map t t"
  by (simp add: keeps_map_def)

lemma keeps_map_trans: "keeps_map t t1 \<Longrightarrow> keeps_map t1 t2 \<Longrightarrow> keeps_map t t2"
  by (simp add: keeps_map_def)

text \<open>The state of a transfer that has written \<open>k\<close> bytes; the free list was \<open>xs\<close> and is \<open>xs'\<close>.\<close>

definition write_done :: "(int \<Rightarrow> addr) \<Rightarrow> addr \<Rightarrow> nat \<Rightarrow> rw \<Rightarrow> int list \<Rightarrow> rw \<Rightarrow> int list \<Rightarrow> bool" where
  "write_done ba eb k t xs t' xs' \<longleftrightarrow> uio_moved k (rw_io t) (rw_io t') \<and> file_vol t' xs' \<and>
     (\<forall>i. fbyte (fdisk t') (faddr t') i = (if fpos t \<le> i \<and> i < fpos t + k then rw_mem t (uat t (i - fpos t)) else fbyte (fdisk t) (faddr t) i)) \<and>
     fsize t' = (if k = 0 then fsize t else max (fsize t) (fpos t + k)) \<and>
     (\<forall>a. a \<notin> bufs ba eb \<longrightarrow> rw_mem t' a = rw_mem t a) \<and> (\<forall>x. rderr (rw_vol t') x = E_OK) \<and> ftype t' = ftype t \<and>
     set xs' \<union> fblocks (fdisk t') (faddr t') = set xs \<union> fblocks (fdisk t) (faddr t) \<and> keeps_map t t' \<and>
     (\<forall>x. x \<notin> set xs \<union> fblocks (fdisk t) (faddr t) \<longrightarrow> fdisk t' x = fdisk t x)"

lemma rw_bmap_write:
  assumes T: "transfer ba eb t" and v: "file_vol t xs"
  shows "\<exists>r ip' s' j. rw_bmap True clr t = (r, t\<lparr>rw_ip := (rw_ip t)\<lparr>ino := ip'\<rparr>, rw_vol := s'\<rparr>) \<and>
    fgrown (int (fpos t div 1024)) (ino (rw_ip t)) (rw_vol t) xs r ip' s' j \<and>
    (flook (fdisk t) (faddr t) (int (fpos t div 1024)) = 0 \<longrightarrow> r \<noteq> -1 \<longrightarrow> clr \<longrightarrow> disk s' r = (\<lambda>_. 0))"
proof -
  note D = transferD [OF T]
  let ?bn = "int (fpos t div 1024)"
  have p: "fpos t < 2147483648" using D(8) by simp
  then have l: "lblkno (uio_offset (rw_io t)) = fpos t div 1024" using block_of(1) [OF p] D(7) by metis
  have b: "0 \<le> ?bn" "?bn < 16843012" using p by auto
  have V: "fl (rw_vol t) xs" "fblocks (fdisk t) (faddr t) \<inter> set xs = {}" "length xs < 4294967296" "file_ok (fdisk t) (faddr t)"
    using v unfolding file_vol_def vol_def by auto
  obtain r ip' s' j where g: "bmap True clr ?bn (ino (rw_ip t)) (rw_vol t) = (r, ip', s')"
    "fgrown ?bn (ino (rw_ip t)) (rw_vol t) xs r ip' s' j" using bmap_grown [OF V(1,4,2) D(3) V(3) b] by blast
  moreover have "disk s' r = (\<lambda>_. 0)" if "flook (fdisk t) (faddr t) ?bn = 0" "r \<noteq> -1" clr
    using bmap_fresh [OF V(1,4,2) D(3) V(3) b g(1)] that by blast
  moreover have "rw_bmap True clr t = (r, t\<lparr>rw_ip := (rw_ip t)\<lparr>ino := ip'\<rparr>, rw_vol := s'\<rparr>)" using D(2) g(1) unfolding rw_bmap_def l by simp
  ultimately show ?thesis by blast
qed

text \<open>The volume after \<^verbatim>\<open>bmap\<close> took \<open>j\<close> blocks for the file.\<close>

lemma fgrown_file_vol:
  assumes v: "file_vol t xs" and g: "fgrown bn (ino (rw_ip t)) (rw_vol t) xs r ip' s' j" and t': "rw_vol t' = s'" "faddr t' = i_addr ip'" "ftype t' = ftype t"
  shows "file_vol t' (drop j xs)" "set (drop j xs) \<union> fblocks (fdisk t') (faddr t') = set xs \<union> fblocks (fdisk t) (faddr t)"
    "\<And>x. x \<notin> set xs \<union> fblocks (fdisk t) (faddr t) \<Longrightarrow> fdisk t' x = fdisk t x" "keeps_map t t'"
proof -
  show "keeps_map t t'" unfolding keeps_map_def
  proof (intro allI impI)
    fix m assume "flook (fdisk t) (faddr t) m \<noteq> 0"
    then show "flook (fdisk t') (faddr t') m = flook (fdisk t) (faddr t) m" using g t' by (cases "m = bn") (auto simp: fgrown_def)
  qed
  have F: "fblocks (fdisk t') (faddr t') = fblocks (fdisk t) (faddr t) \<union> set (take j xs)" using g t' by (simp add: fgrown_def)
  then show u: "set (drop j xs) \<union> fblocks (fdisk t') (faddr t') = set xs \<union> fblocks (fdisk t) (faddr t)"
    using set_append [of "take j xs" "drop j xs"] by auto
  have "vol (rw_vol t') (drop j xs) (fblocks (fdisk t') (faddr t'))" using fgrown_vol [OF _ g] v t' by (simp add: file_vol_def)
  then show "file_vol t' (drop j xs)" using v g t' u unfolding file_vol_def by (simp add: fgrown_def)
  show "fdisk t' x = fdisk t x" if "x \<notin> set xs \<union> fblocks (fdisk t) (faddr t)" for x
    using g that set_take_subset [of j xs] t' unfolding fgrown_def by blast
qed

lemma fbyte_grown:
  assumes g: "fgrown bn ip s xs r ip' s' j"
    and z: "int (i div 1024) = bn \<Longrightarrow> flook (disk s) (i_addr ip) bn = 0 \<Longrightarrow> flook (disk s') (i_addr ip') bn \<noteq> 0 \<Longrightarrow> disk s' r = (\<lambda>_. 0)"
  shows "fbyte (disk s') (i_addr ip') i = fbyte (disk s) (i_addr ip) i"
proof (cases "int (i div 1024) = bn")
  case False
  then show ?thesis using g by (auto simp: fgrown_def fbyte_def Let_def)
next
  case True
  let ?b = "flook (disk s) (i_addr ip) bn" and ?b' = "flook (disk s') (i_addr ip') bn"
  have "r = -1 \<and> ?b = 0 \<and> ?b' = 0 \<or> r = ?b' \<and> r \<noteq> 0 \<and> (?b \<noteq> 0 \<longrightarrow> ip' = ip \<and> disk s' = disk s)" using g unfolding fgrown_def by blast
  then show ?thesis using z [OF True] True by (cases "?b = 0"; cases "?b' = 0") (auto simp: fbyte_def Let_def)
qed

lemma fbyte_write:
  assumes f: "file_ok d a" and r: "r = flook d a bn" "r \<noteq> 0"
  shows "fbyte (d(r := v)) a i = (if int (i div 1024) = bn then byte_of v (i mod 1024) else fbyte d a i)"
proof -
  have L: "flook (d(r := v)) a m = flook d a m" for m unfolding r(1) by (rule leaf_write(3) [OF f]) (use r in simp)
  have ne: "flook d a m \<noteq> r" if "m \<noteq> bn" for m using flook_inj [OF f, of bn m] r that by auto
  show ?thesis
  proof (cases "int (i div 1024) = bn")
    case True
    then show ?thesis unfolding fbyte_def Let_def L True r(1) [symmetric] using r(2) by simp
  next
    case False
    then show ?thesis using ne unfolding fbyte_def Let_def L by simp
  qed
qed

lemma mode_type: "(w AND NOT (ISUID OR ISGID)) AND IFMT = w AND IFMT"
proof -
  have "NOT (ISUID OR ISGID) AND IFMT = IFMT" by (simp add: ISUID_def ISGID_def IFMT_def)
  then show ?thesis by (simp only: and.assoc)
qed

lemma transferable_write:
  assumes T: "uat t ` {..<resid t} \<inter> bufs ba eb = {}" and n: "n \<le> resid t" "j + n \<le> 1024" and a: "bspan a \<subseteq> bufs ba eb"
  shows "transferable UIO_WRITE (a + of_nat j) (uio_iov (rw_io t)) n"
proof -
  have b: "a + of_nat j + of_nat i \<in> bufs ba eb" if "i < n" for i
    using in_bspan [of j i a] that n(2) a by auto
  have "uat t ` {..<n} \<subseteq> uat t ` {..<resid t}" using n(1) by (intro image_mono) auto
  then have "(\<lambda>i. a + of_nat j + of_nat i) ` {..<n} \<inter> uat t ` {..<n} = {}" using b T by blast
  moreover have "inj_on (\<lambda>i. a + of_nat j + of_nat i) {..<n}"
  proof (rule inj_onI)
    fix x y assume x: "x \<in> {..<n}" "y \<in> {..<n}" "a + of_nat j + of_nat x = a + of_nat j + of_nat y"
    then have "unat (of_nat x :: addr) = unat (of_nat y :: addr)" by simp
    then show "x = y" using x(1,2) n(2) by (simp add: unat_of_nat)
  qed
  ultimately show ?thesis by (simp add: transferable_def udst_def usrc_def)
qed

text \<open>The pass after \<^verbatim>\<open>bmap\<close>: bytes \<open>on\<close> to \<open>on + n\<close> of the block \<open>bn\<close> are those of the process.\<close>

definition stored :: "(int \<Rightarrow> addr) \<Rightarrow> addr \<Rightarrow> int \<Rightarrow> nat \<Rightarrow> nat \<Rightarrow> rw \<Rightarrow> rw \<Rightarrow> bool" where
  "stored ba eb bn on n t t' \<longleftrightarrow> uio_moved n (rw_io t) (rw_io t') \<and> ino (rw_ip t') = ino (rw_ip t) \<and> ftype t' = ftype t \<and>
     (\<forall>a. a \<notin> bufs ba eb \<longrightarrow> rw_mem t' a = rw_mem t a) \<and> (\<exists>v. rw_vol t' = upd_blk bn v (rw_vol t) \<and>
     (\<forall>j<1024. byte_of v j = (if on \<le> j \<and> j < on + n then rw_mem t (uat t (j - on)) else byte_of (fdisk t bn) j)))"

lemma rw_store_spec:
  assumes T: "transfer ba eb t" and wr: "uio_rw (rw_io t) = UIO_WRITE" and n: "n \<le> resid t" "on + n \<le> 1024"
  shows "\<exists>t'. rw_store ruid ba bn on n t = Ret (pass_end n t', t') \<and> stored ba eb bn on n t t'"
proof -
  note D = transferD [OF T]
  have a: "bspan (ba bn) \<subseteq> bufs ba eb" by (auto simp: bufs_def)
  define m where "m = (if n = 1024 then rw_mem t else fill_buf (fdisk t bn) (ba bn) (rw_mem t))"
  define t1 where "t1 = t\<lparr>rw_mem := m\<rparr>"
  have ld: "(if n = DEV_BSIZE then (True, t) else rw_load ba bn t) = (True, t1)" using bread_ok [OF D(3)] by (simp add: t1_def m_def rw_load_def)
  have t1: "rw_io t1 = rw_io t" "rw_mem t1 = m" "u_er (rw_vol t1) = E_OK" "rw_ip t1 = rw_ip t" "rw_vol t1 = rw_vol t" using D(4) by (simp_all add: t1_def)
  have mo: "m x = rw_mem t x" if "x \<notin> bspan (ba bn)" for x using that by (simp add: m_def fill_buf_out)
  obtain io' m' where u: "rw_uiomove (ba bn + of_nat on) n t1 = Ret (t1\<lparr>rw_io := io', rw_mem := m'\<rparr>)" "uio_moved n (rw_io t) io'"
    "moves n (\<lambda>i. ba bn + of_nat on + of_nat i) (uat t) m m'"
    using rw_uiomove_spec [of t1 n "ba bn + of_nat on"] transferable_write [OF D(6) n a] D(1,4) n(1) unfolding t1 wr by (auto simp: udst_def usrc_def)
  let ?v = "buf_blk (ba bn) m' (fdisk t bn)"
  have in_b: "ba bn + of_nat on + of_nat i \<in> bspan (ba bn)" if "i < n" for i
    using in_bspan [of on i "ba bn"] that n(2) by simp
  have out: "m' x = rw_mem t x" if "x \<notin> bufs ba eb" for x
  proof -
    have "x \<notin> bspan (ba bn)" "x \<notin> (\<lambda>i. ba bn + of_nat on + of_nat i) ` {..<n}" using in_b a that by auto
    then show ?thesis using u(3) mo by (simp add: moves_def)
  qed
  have bv: "byte_of ?v j = (if on \<le> j \<and> j < on + n then rw_mem t (uat t (j - on)) else byte_of (fdisk t bn) j)" if j: "j < 1024" for j
  proof (cases "on \<le> j \<and> j < on + n")
    case True
    then obtain i where i: "j = on + i" "i < n" using le_Suc_ex [of on j] by auto
    have "m' (ba bn + of_nat on + of_nat i) = m (uat t i)" using u(3) i(2) by (simp add: moves_def)
    moreover have "m (uat t i) = rw_mem t (uat t i)" using mo a uat_not_buf [OF T, of i] i(2) n(1) by auto
    ultimately show ?thesis using i j byte_of_buf [OF j, of "ba bn" m'] by (simp add: add.assoc)
  next
    case False
    have "ba bn + of_nat j \<notin> (\<lambda>i. ba bn + of_nat on + of_nat i) ` {..<n}"
    proof
      assume "ba bn + of_nat j \<in> (\<lambda>i. ba bn + of_nat on + of_nat i) ` {..<n}"
      then obtain i where i: "i < n" "of_nat j = (of_nat (on + i) :: addr)" by (auto simp: add.assoc)
      then have "unat (of_nat j :: addr) = unat (of_nat (on + i) :: addr)" by simp
      then have "j = on + i" using i(1) j n(2) by (simp add: unat_of_nat del: of_nat_add)
      then show False using False i(1) by simp
    qed
    then have "m' (ba bn + of_nat j) = m (ba bn + of_nat j)" using u(3) by (simp add: moves_def)
    moreover have "n \<noteq> 1024" using False n(2) j by auto
    ultimately show ?thesis using False j fill_buf_in [OF j] by (auto simp: byte_of_buf m_def)
  qed
  define t2 where "t2 = upd_ip (\<lambda>ip. ip\<lparr>i_IUPD := True, i_ICHG := True\<rparr>) (t1\<lparr>rw_io := io', rw_mem := m', rw_vol := upd_blk bn ?v (rw_vol t)\<rparr>)"
  define t3 where "t3 = (if ruid \<noteq> 0 then upd_ip (\<lambda>ip. ip\<lparr>i_mode := i_mode ip AND NOT (ISUID OR ISGID)\<rparr>) t2 else t2)"
  have "rw_store ruid ba bn on n t = Ret (pass_end n t3, t3)"
    unfolding rw_store_def ld using u(1) by (simp add: t3_def t2_def t1 Let_def)
  moreover have "stored ba eb bn on n t t3"
    using u(2) out bv by (auto simp: stored_def t3_def t2_def t1 upd_ip_def mode_type [simplified] intro!: exI [of _ ?v])
  ultimately show ?thesis by blast
qed

lemma rw_extend_spec:
  assumes T: "transfer ba eb t" and n: "n \<le> resid t" and ty: "ftype t \<in> {IFREG, IFDIR, IFLNK}"
  shows "\<exists>z. rw_extend (s32 (uio_offset (rw_io t) + int n)) t = upd_ip (\<lambda>ip. ip\<lparr>ino := (ino ip)\<lparr>i_size := z\<rparr>\<rparr>) t \<and> z = max (fsize t) (fpos t + n)"
proof -
  note D = transferD [OF T]
  obtain p where p: "uio_offset (rw_io t) = int p" using D(7) by blast
  have w: "s32 (int p + int n) = int (p + n)" using s32_id [of "int p + int n"] D(8) n p by simp
  have ty': "ftype t \<in> {IFDIR, IFREG, IFLNK}" using ty by blast
  show ?thesis
  proof (cases "fsize t < p + n")
    case True
    then have "int (fsize t) < int (p + n)" by linarith
    then show ?thesis using ty' D(2) True unfolding rw_extend_def p w nat_int by (intro exI [of _ "p + n"]) simp
  next
    case False
    then have "\<not> int (fsize t) < int (p + n)" by linarith
    then show ?thesis using False unfolding rw_extend_def p w nat_int by (intro exI [of _ "fsize t"]) (simp add: upd_ip_def max_def)
  qed
qed

text \<open>A block of the file is written: what \<open>stored\<close> says, for the file.\<close>

lemma stored_file_vol:
  assumes v: "file_vol t xs" and r: "bn = flook (fdisk t) (faddr t) b" "bn \<noteq> 0" and st: "stored ba eb bn on n t t'"
  shows "file_vol t' xs" "fblocks (fdisk t') (faddr t') = fblocks (fdisk t) (faddr t)" "\<And>x. x \<noteq> bn \<Longrightarrow> fdisk t' x = fdisk t x" "keeps_map t t'"
    "fbyte (fdisk t') (faddr t') i = (if int (i div 1024) = b \<and> on \<le> i mod 1024 \<and> i mod 1024 < on + n then rw_mem t (uat t (i mod 1024 - on))
      else fbyte (fdisk t) (faddr t) i)"
proof -
  obtain w where w: "rw_vol t' = upd_blk bn w (rw_vol t)"
    "\<And>j. j < 1024 \<Longrightarrow> byte_of w j = (if on \<le> j \<and> j < on + n then rw_mem t (uat t (j - on)) else byte_of (fdisk t bn) j)"
    using st unfolding stored_def by blast
  have ip: "faddr t' = faddr t" "ftype t' = ftype t" using st by (simp_all add: stored_def)
  have f: "file_ok (fdisk t) (faddr t)" using v by (simp add: file_vol_def)
  have d: "fdisk t' = (fdisk t)(bn := w)" by (simp add: w(1) upd_blk_def)
  have r0: "flook (fdisk t) (faddr t) b \<noteq> 0" using r by simp
  note L = leaf_write [OF f r0, of w]
  show F: "fblocks (fdisk t') (faddr t') = fblocks (fdisk t) (faddr t)" using L(2) unfolding d r(1) ip .
  have "bn \<in> fblocks (fdisk t) (faddr t)" using leaf_fblocks [OF r0] r(1) by simp
  then have "vol (rw_vol t') xs (fblocks (fdisk t) (faddr t))" unfolding w(1) using v by (intro vol_write) (simp_all add: file_vol_def)
  then show "file_vol t' xs" using v L(1) unfolding file_vol_def F unfolding d r(1) ip by simp
  show "fdisk t' x = fdisk t x" if "x \<noteq> bn" for x using that by (simp add: d)
  show "keeps_map t t'" unfolding keeps_map_def d ip r(1) L(3) by simp
  show "fbyte (fdisk t') (faddr t') i = (if int (i div 1024) = b \<and> on \<le> i mod 1024 \<and> i mod 1024 < on + n then rw_mem t (uat t (i mod 1024 - on))
      else fbyte (fdisk t) (faddr t) i)"
  proof (cases "int (i div 1024) = b")
    case True
    have "fbyte (fdisk t) (faddr t) i = byte_of (fdisk t bn) (i mod 1024)" unfolding fbyte_def Let_def True r(1) [symmetric] using r(2) by simp
    then show ?thesis using w(2) [of "i mod 1024"] True unfolding d ip fbyte_write [OF f r] by simp
  qed (simp add: d ip fbyte_write [OF f r])
qed

lemma write_done_fail:
  assumes T: "transfer ba eb t" and v: "file_vol t xs" and g: "fgrown bn (ino (rw_ip t)) (rw_vol t) xs (-1) ip' s' j" and e: "u_er s' = ENOSPC" "u_er (rw_vol t) = E_OK"
    and t': "t' = t\<lparr>rw_ip := (rw_ip t)\<lparr>ino := ip'\<rparr>, rw_vol := s'\<rparr>"
  shows "write_done ba eb 0 t xs t' []"
proof -
  have E: "j = length xs" "flook (disk s') (i_addr ip') bn = 0" using g e by (auto simp: fgrown_def)
  have s: "rw_vol t' = s'" "faddr t' = i_addr ip'" "ftype t' = ftype t" by (simp_all add: t')
  note G = fgrown_file_vol [OF v g s]
  have "fbyte (fdisk t') (faddr t') i = fbyte (fdisk t) (faddr t) i" for i unfolding s by (rule fbyte_grown [OF g]) (use E in simp)
  moreover have "\<forall>x. rderr s' x = E_OK" "i_size ip' = fsize t" using g transferD(3) [OF T] by (simp_all add: fgrown_def same_vol_def)
  ultimately show ?thesis using G E(1) uio_moved_0 [OF transferD(1) [OF T]] by (auto simp: write_done_def t')
qed

lemma block_range:
  fixes p i n :: nat
  assumes "p mod 1024 + n \<le> 1024"
  shows "i div 1024 = p div 1024 \<and> p mod 1024 \<le> i mod 1024 \<and> i mod 1024 < p mod 1024 + n \<longleftrightarrow> p \<le> i \<and> i < p + n"
    "i div 1024 = p div 1024 \<Longrightarrow> p \<le> i \<Longrightarrow> i mod 1024 - p mod 1024 = i - p"
proof -
  have e: "i = 1024 * (i div 1024) + i mod 1024" "p = 1024 * (p div 1024) + p mod 1024" by simp_all
  show "i div 1024 = p div 1024 \<Longrightarrow> p \<le> i \<Longrightarrow> i mod 1024 - p mod 1024 = i - p" using e by linarith
  show "i div 1024 = p div 1024 \<and> p mod 1024 \<le> i mod 1024 \<and> i mod 1024 < p mod 1024 + n \<longleftrightarrow> p \<le> i \<and> i < p + n"
  proof
    assume i: "p \<le> i \<and> i < p + n"
    then obtain k where k: "i = p + k" "k < n" using le_Suc_ex [of p i] by auto
    then show "i div 1024 = p div 1024 \<and> p mod 1024 \<le> i mod 1024 \<and> i mod 1024 < p mod 1024 + n" using in_block [of p k] assms by simp
  next
    assume "i div 1024 = p div 1024 \<and> p mod 1024 \<le> i mod 1024 \<and> i mod 1024 < p mod 1024 + n"
    then show "p \<le> i \<and> i < p + n" using e by linarith
  qed
qed

lemma write_done_pass:
  assumes T: "transfer ba eb t" and v: "file_vol t xs" and n: "n \<le> resid t" "n \<noteq> 0" "fpos t mod 1024 + n \<le> 1024"
    and g: "fgrown (int (fpos t div 1024)) (ino (rw_ip t)) (rw_vol t) xs r ip' s' j" "u_er s' = E_OK"
    and z: "flook (fdisk t) (faddr t) (int (fpos t div 1024)) = 0 \<Longrightarrow> n \<noteq> 1024 \<Longrightarrow> disk s' r = (\<lambda>_. 0)"
    and s2: "rw_vol t2 = s'" "faddr t2 = i_addr ip'" "ftype t2 = ftype t" "rw_io t2 = rw_io t" "rw_mem t2 = rw_mem t" "fsize t2 = max (fsize t) (fpos t + n)"
    and st: "stored ba eb r (fpos t mod 1024) n t2 t'"
  shows "write_done ba eb n t xs t' (drop j xs)"
proof -
  let ?bn = "int (fpos t div 1024)" and ?on = "fpos t mod 1024"
  note G = fgrown_file_vol [OF v g(1) s2(1-3)]
  have r: "r = flook (fdisk t2) (faddr t2) ?bn" "r \<noteq> 0" using g transferD(4) [OF T] unfolding fgrown_def s2 by auto
  note S = stored_file_vol [OF G(1) r st]
  have rF: "r \<in> fblocks (fdisk t2) (faddr t2)" using leaf_fblocks r by metis
  have "fbyte (fdisk t') (faddr t') i = (if fpos t \<le> i \<and> i < fpos t + n then rw_mem t (uat t (i - fpos t)) else fbyte (fdisk t) (faddr t) i)" for i
  proof (cases "fpos t \<le> i \<and> i < fpos t + n")
    case True
    then have b: "i div 1024 = fpos t div 1024" "?on \<le> i mod 1024" "i mod 1024 < ?on + n" using block_range(1) [OF n(3), of i] by blast+
    then show ?thesis using S(5) [of i] True block_range(2) [OF n(3) b(1)] by (simp add: s2)
  next
    case False
    then have b: "\<not> (int (i div 1024) = ?bn \<and> ?on \<le> i mod 1024 \<and> i mod 1024 < ?on + n)" using block_range(1) [OF n(3), of i] by simp
    have "fbyte (fdisk t2) (faddr t2) i = fbyte (fdisk t) (faddr t) i" unfolding s2
    proof (rule fbyte_grown [OF g(1)])
      assume i: "int (i div 1024) = ?bn" "flook (fdisk t) (faddr t) ?bn = 0"
      then have "n \<noteq> 1024" using b n(3) by auto
      then show "disk s' r = (\<lambda>_. 0)" using z i(2) by blast
    qed
    then show ?thesis unfolding S(5) [of i] if_not_P [OF b] if_not_P [OF False] .
  qed
  moreover have "fdisk t' x = fdisk t x" if "x \<notin> set xs \<union> fblocks (fdisk t) (faddr t)" for x
  proof -
    have "x \<noteq> r" using that rF G(2) by blast
    then show ?thesis using S(3) G(3) that by simp
  qed
  moreover have "rderr (rw_vol t') x = E_OK" for x
    using st g(1) transferD(3) [OF T] by (auto simp: stored_def s2 upd_blk_def fgrown_def same_vol_def)
  moreover have "set (drop j xs) \<union> fblocks (fdisk t') (faddr t') = set xs \<union> fblocks (fdisk t) (faddr t)" using S(2) G(2) by simp
  moreover have "keeps_map t t'" using keeps_map_trans [OF G(4) S(4)] .
  ultimately show ?thesis using S(1) st n(2) unfolding write_done_def by (auto simp: stored_def s2)
qed

lemma write_count: "n = min (1024 - on) r \<Longrightarrow> on < 1024 \<Longrightarrow> n \<le> r \<and> on + n \<le> 1024" for n on r :: nat
  by simp

lemma rw_write_pass:
  assumes T: "transfer ba eb t" and wr: "uio_rw (rw_io t) = UIO_WRITE" and v: "file_vol t xs" and n: "n = min (1024 - fpos t mod 1024) (resid t)"
    and n0: "n \<noteq> 0"
  shows "\<exists>t' xs'. rw_write ruid ba t = Ret (pass_end n t', t') \<and> write_done ba eb n t xs t' xs' \<and> u_er (rw_vol t') = E_OK \<or>
    rw_write ruid ba t = Ret (Return ENOSPC, t') \<and> write_done ba eb 0 t xs t' [] \<and> flook (fdisk t) (faddr t) (int (fpos t div 1024)) = 0"
proof -
  note D = transferD [OF T]
  let ?bn = "int (fpos t div 1024)" and ?on = "fpos t mod 1024"
  have p: "fpos t < 2147483648" using D(8) by simp
  have on: "blkoff (uio_offset (rw_io t)) = ?on" using block_of(2) [OF p] D(7) by metis
  have n1: "n \<le> resid t" "?on + n \<le> 1024" using write_count [OF n] by simp_all
  obtain r ip' s' j where bm: "rw_bmap True (n \<noteq> 1024) t = (r, t\<lparr>rw_ip := (rw_ip t)\<lparr>ino := ip'\<rparr>, rw_vol := s'\<rparr>)"
    and g: "fgrown ?bn (ino (rw_ip t)) (rw_vol t) xs r ip' s' j"
    and z: "flook (fdisk t) (faddr t) ?bn = 0 \<Longrightarrow> r \<noteq> -1 \<Longrightarrow> n \<noteq> 1024 \<Longrightarrow> disk s' r = (\<lambda>_. 0)"
    using rw_bmap_write [OF T v, of "n \<noteq> 1024"] by blast
  define t1 where "t1 = t\<lparr>rw_ip := (rw_ip t)\<lparr>ino := ip'\<rparr>, rw_vol := s'\<rparr>"
  have s1: "rw_vol t1 = s'" "faddr t1 = i_addr ip'" "ftype t1 = ftype t" "rw_io t1 = rw_io t" "rw_mem t1 = rw_mem t" "fsize t1 = fsize t"
    using g by (simp_all add: t1_def fgrown_def)
  note G = fgrown_file_vol [OF v g s1(1-3)]
  have step: "rw_write ruid ba t = (if u_er s' \<noteq> E_OK \<or> r < 0 then Ret (Return (u_er s'), t1)
      else rw_store ruid ba r ?on n (rw_extend (s32 (uio_offset (rw_io t) + int n)) t1))"
    unfolding rw_write_def Let_def on n [symmetric] bm prod.case t1_def [symmetric] s1(1,3) using D(2) by simp
  show ?thesis
  proof (cases "u_er s' = E_OK")
    case False
    then have "r = -1" "u_er s' = ENOSPC" "flook (fdisk t) (faddr t) ?bn = 0" using g D(4) unfolding fgrown_def by auto
    then show ?thesis using step write_done_fail [OF T v _ _ D(4) t1_def] g by auto
  next
    case True
    then have r: "r = flook (fdisk t1) (faddr t1) ?bn" "r \<noteq> 0" using g unfolding fgrown_def s1 by auto
    have "r \<in> fblocks (fdisk t1) (faddr t1)" using leaf_fblocks r by metis
    then have r0: "0 \<le> r" using v G(2) unfolding file_vol_def by blast
    have T1: "transfer ba eb t1" using T True g D(3) unfolding transfer_def s1 by (simp add: fgrown_def same_vol_def)
    define t2 where "t2 = rw_extend (s32 (uio_offset (rw_io t) + int n)) t1"
    have t2: "t2 = upd_ip (\<lambda>ip. ip\<lparr>ino := (ino ip)\<lparr>i_size := max (fsize t) (fpos t + n)\<rparr>\<rparr>) t1"
      using rw_extend_spec [OF T1, of n] n1 v s1 by (auto simp: t2_def file_vol_def)
    have s2: "rw_vol t2 = s'" "faddr t2 = i_addr ip'" "ftype t2 = ftype t" "rw_io t2 = rw_io t" "rw_mem t2 = rw_mem t" "fsize t2 = max (fsize t) (fpos t + n)"
      using s1 by (simp_all add: t2 upd_ip_def)
    have T2: "transfer ba eb t2" using T1 D(5,8) n1(1) unfolding transfer_def s2 s1 by simp
    obtain t' where st: "rw_store ruid ba r ?on n t2 = Ret (pass_end n t', t')" "stored ba eb r ?on n t2 t'"
      using rw_store_spec [OF T2, of n ?on ruid r] wr n1 s2(4) by auto
    have "write_done ba eb n t xs t' (drop j xs)" by (rule write_done_pass [OF T v n1(1) n0 n1(2) g True _ s2 st(2)]) (use z r0 in simp)
    moreover have "u_er (rw_vol t') = E_OK" using st(2) True by (auto simp: stored_def s2 upd_blk_def)
    moreover have "rw_write ruid ba t = Ret (pass_end n t', t')" using step True r0 st(1) by (simp add: t2_def)
    ultimately show ?thesis by blast
  qed
qed

lemma write_done_transfer:
  assumes T: "transfer ba eb t" and d: "write_done ba eb k t xs t' xs'" and e: "u_er (rw_vol t') = E_OK"
  shows "transfer ba eb t'" "file_vol t' xs'" "uio_rw (rw_io t') = uio_rw (rw_io t)"
proof -
  note D = transferD [OF T]
  have m: "uio_moved k (rw_io t) (rw_io t')" using d by (simp add: write_done_def)
  note P = moved_pos [OF T m]
  have "uat t' i \<notin> bufs ba eb" if "i < resid t'" for i using uat_not_buf [OF T, of "k + i"] P(2,3) that by simp
  then have "uat t' ` {..<resid t'} \<inter> bufs ba eb = {}" by blast
  moreover have "uio_ok (rw_io t')" using m by (simp add: uio_moved_def)
  moreover have "fsize t' < 2147483648" using d D(5,8) P(2) by (simp add: write_done_def)
  ultimately show "transfer ba eb t'" using d D(2,9) e unfolding transfer_def write_done_def by simp
qed (use d in \<open>auto simp: write_done_def uio_moved_def\<close>)

lemma write_done_trans:
  assumes A: "write_done ba eb a t xs t1 ys" and B: "write_done ba eb b t1 ys t2 zs" and T: "transfer ba eb t"
  shows "write_done ba eb (a + b) t xs t2 zs"
proof -
  have m: "uio_moved a (rw_io t) (rw_io t1)" "uio_moved b (rw_io t1) (rw_io t2)" using A B by (simp_all add: write_done_def)
  note P = moved_pos [OF T m(1)]
  have le: "b \<le> resid t1" using m(2) by (simp add: uio_moved_def)
  have U: "rw_mem t1 (uat t1 j) = rw_mem t (uat t (a + j))" if "j < b" for j
    using A P(2,3) uat_not_buf [OF T, of "a + j"] le that by (simp add: write_done_def)
  have "fbyte (fdisk t2) (faddr t2) i = (if fpos t \<le> i \<and> i < fpos t + (a + b) then rw_mem t (uat t (i - fpos t)) else fbyte (fdisk t) (faddr t) i)" for i
  proof -
    have "fbyte (fdisk t2) (faddr t2) i = (if fpos t + a \<le> i \<and> i < fpos t + a + b then rw_mem t1 (uat t1 (i - (fpos t + a)))
        else if fpos t \<le> i \<and> i < fpos t + a then rw_mem t (uat t (i - fpos t)) else fbyte (fdisk t) (faddr t) i)"
      using A B unfolding write_done_def P(1) by simp
    moreover have "rw_mem t1 (uat t1 (i - (fpos t + a))) = rw_mem t (uat t (i - fpos t))" if h: "fpos t + a \<le> i" "i < fpos t + a + b"
    proof -
      obtain j where "i = fpos t + a + j" using le_Suc_ex [OF h(1)] by blast
      then show ?thesis using U [of j] h by (simp add: add.assoc)
    qed
    ultimately show ?thesis by auto
  qed
  moreover have "fsize t2 = (if a + b = 0 then fsize t else max (fsize t) (fpos t + (a + b)))"
  proof -
    have "fsize t1 = (if a = 0 then fsize t else max (fsize t) (fpos t + a))" "fsize t2 = (if b = 0 then fsize t1 else max (fsize t1) (fpos t + a + b))"
      using A B unfolding write_done_def P(1) by blast+
    then show ?thesis by (simp add: max_def)
  qed
  moreover have "file_vol t2 zs" "\<forall>x. rderr (rw_vol t2) x = E_OK" "ftype t2 = ftype t"
    "set zs \<union> fblocks (fdisk t2) (faddr t2) = set xs \<union> fblocks (fdisk t) (faddr t)"
    "\<forall>x. x \<notin> bufs ba eb \<longrightarrow> rw_mem t2 x = rw_mem t x" "\<forall>x. x \<notin> set xs \<union> fblocks (fdisk t) (faddr t) \<longrightarrow> fdisk t2 x = fdisk t x"
    using A B by (simp_all add: write_done_def)
  moreover have "keeps_map t t2" using A B keeps_map_trans [of t t1 t2] by (simp add: write_done_def)
  ultimately show ?thesis unfolding write_done_def using uio_moved_trans [OF m] by blast
qed

lemma rw_write_loop:
  assumes "transfer ba eb t" "uio_rw (rw_io t) = UIO_WRITE" "file_vol t xs" "resid t \<noteq> 0" "resid t \<le> fuel"
  shows "\<exists>r t' k xs'. rw_loop (rw_write ruid ba) fuel t = Ret (r, t') \<and> write_done ba eb k t xs t' xs' \<and>
    (r = Leave E_OK \<and> k = resid t \<and> u_er (rw_vol t') = E_OK \<or>
     r = Return ENOSPC \<and> k < resid t \<and> xs' = [] \<and> flook (fdisk t) (faddr t) (int ((fpos t + k) div 1024)) = 0)"
  using assms
proof (induction fuel arbitrary: t xs)
  case (Suc fuel)
  note T = Suc.prems(1)
  define n where "n = min (1024 - fpos t mod 1024) (resid t)"
  have n0: "n \<noteq> 0" using Suc.prems(4) unfolding n_def by simp
  consider t1 ys where "rw_write ruid ba t = Ret (pass_end n t1, t1)" "write_done ba eb n t xs t1 ys" "u_er (rw_vol t1) = E_OK"
    | t1 where "rw_write ruid ba t = Ret (Return ENOSPC, t1)" "write_done ba eb 0 t xs t1 []" "flook (fdisk t) (faddr t) (int (fpos t div 1024)) = 0"
    using rw_write_pass [OF T Suc.prems(2,3) n_def n0, of ruid] by blast
  then show ?case
  proof cases
    case 2
    then show ?thesis using Suc.prems(4) by (intro exI [of _ "Return ENOSPC"] exI [of _ t1] exI [of _ "0 :: nat"] exI [of _ "[]"]) simp
  next
    case 1
    have m: "uio_moved n (rw_io t) (rw_io t1)" using 1(2) by (simp add: write_done_def)
    note P = moved_pos [OF T m] and W = write_done_transfer [OF T 1(2,3)]
    show ?thesis
    proof (cases "resid t1 = 0")
      case True
      then have "n = resid t" using P(2) by simp
      then show ?thesis using True 1 by (intro exI [of _ "Leave E_OK"] exI [of _ t1] exI [of _ n] exI [of _ ys]) (simp add: pass_end_def)
    next
      case False
      have "resid t1 \<le> fuel" using P(2) n0 Suc.prems(5) by simp
      then obtain r t' k xs' where i: "rw_loop (rw_write ruid ba) fuel t1 = Ret (r, t')" "write_done ba eb k t1 ys t' xs'"
        "r = Leave E_OK \<and> k = resid t1 \<and> u_er (rw_vol t') = E_OK \<or> r = Return ENOSPC \<and> k < resid t1 \<and> xs' = [] \<and>
          flook (fdisk t1) (faddr t1) (int ((fpos t1 + k) div 1024)) = 0"
        using Suc.IH [OF W(1) _ W(2) False] W(3) Suc.prems(2) by auto
      have "rw_loop (rw_write ruid ba) (Suc fuel) t = Ret (r, t')" using 1(1) i(1) False n0 by (simp add: pass_end_def)
      moreover have "r = Leave E_OK \<and> n + k = resid t \<and> u_er (rw_vol t') = E_OK \<or> 
          r = Return ENOSPC \<and> n + k < resid t \<and> xs' = [] \<and> flook (fdisk t) (faddr t) (int ((fpos t + (n + k)) div 1024)) = 0"
        using i(3) P(1,2) 1(2) unfolding write_done_def keeps_map_def by (auto simp: add.assoc)
      ultimately show ?thesis using write_done_trans [OF 1(2) i(2) T] by blast
    qed
  qed
qed simp

end
