(* ===== verification/File_Rw.thy ===== *)
theory File_Rw
  imports File_Spec
begin

text \<open>
  The properties of \<open>rwip\<close>: what a read delivers, what a write stores, and that a read gives back what a write stored.
\<close>

section \<open>rwip\<close>

definition accessed :: "rw \<Rightarrow> rw" where
  "accessed t = (if mnt_noatime (rw_ip t) then t else upd_ip (\<lambda>ip. ip\<lparr>i_IACC := True\<rparr>) t)"

lemma accessed_simps [simp]: "rw_io (accessed t) = rw_io t" "rw_mem (accessed t) = rw_mem t" "rw_vol (accessed t) = rw_vol t"
  "ino (rw_ip (accessed t)) = ino (rw_ip t)" "i_mode (rw_ip (accessed t)) = i_mode (rw_ip t)"
  by (simp_all add: accessed_def upd_ip_def)

lemma rwip_reads:
  assumes T: "transfer ba eb t" and rd: "uio_rw (rw_io t) = UIO_READ" and inj: "inj_on (uat t) {..<resid t}"
    and ge: "\<And>m. 0 \<le> flook (fdisk t) (faddr t) m"
  shows "\<exists>t'. rwip ruid rlim cdev ba eb ioflag t = Ret (E_OK, t') \<and> read_done ba eb (min (resid t) (fsize t - fpos t)) (accessed t) t'"
proof -
  note D = transferD [OF T]
  let ?t = "accessed t"
  have T': "transfer ba eb ?t" using T by (simp add: transfer_def)
  have start: "rwip ruid rlim cdev ba eb ioflag t = (if resid t = 0 then Ret (E_OK, ?t)
      else bind_outcome (rw_loop (rw_read ba eb) (resid t) ?t) (\<lambda>(r, t). case r of Return e \<Rightarrow> Ret (e, t)
        | Leave e \<Rightarrow> Ret (e, rw_undo ioflag (resid ?t) (fsize ?t) e t) | Again \<Rightarrow> Diverge))"
    using rd D(9) unfolding rwip_def Let_def accessed_def [symmetric] by (simp add: accessed_def [symmetric])
  show ?thesis
  proof (cases "resid t = 0")
    case True
    then show ?thesis using start uio_moved_0 [OF D(1)] by (auto simp: read_done_def intro: exI [of _ "rablock (rw_vol t)"])
  next
    case False
    obtain r t' where "rw_loop (rw_read ba eb) (resid t) ?t = Ret (r, t')" "r = Return E_OK \<or> r = Leave E_OK"
      "read_done ba eb (min (resid t) (fsize t - fpos t)) ?t t'"
      using rw_read_loop [OF T', of "resid t"] rd inj False ge by auto
    then show ?thesis using start False by (auto simp: rw_undo_def)
  qed
qed

text \<open>Where a write starts: at the end of the file, when it appends.\<close>

definition positioned :: "32 word \<Rightarrow> rw \<Rightarrow> rw" where
  "positioned ioflag t = (if ftype t = IFREG \<and> ioflag AND IO_APPEND \<noteq> 0
     then t\<lparr>rw_io := (rw_io t)\<lparr>uio_offset := int (fsize t)\<rparr>\<rparr> else t)"

lemma positioned_simps [simp]: "rw_ip (positioned ioflag t) = rw_ip t" "rw_vol (positioned ioflag t) = rw_vol t"
  "rw_mem (positioned ioflag t) = rw_mem t" "uio_iov (rw_io (positioned ioflag t)) = uio_iov (rw_io t)"
  "resid (positioned ioflag t) = resid t" "uio_rw (rw_io (positioned ioflag t)) = uio_rw (rw_io t)"
  by (simp_all add: positioned_def)

lemma rw_start_positioned:
  assumes "ftype t \<in> {IFREG, IFDIR, IFLNK}" "i_flags (rw_ip t) AND APPEND = 0 \<or> uio_offset (rw_io (positioned ioflag t)) = int (fsize t)"
  shows "rw_start ioflag t = (E_OK, positioned ioflag t)"
proof (cases "ftype t = IFREG")
  case True
  then show ?thesis using assms(2) by (auto simp: rw_start_def positioned_def Let_def)
next
  case False
  then have "positioned ioflag t = t" by (simp add: positioned_def)
  then show ?thesis using False assms(1) unfolding rw_start_def by auto
qed

lemma rwip_writes:
  assumes T: "transfer ba eb t0" and t0: "t0 = positioned ioflag t" and wr: "uio_rw (rw_io t) = UIO_WRITE" and v: "file_vol t0 xs"
    and fl: "i_flags (rw_ip t) AND APPEND = 0 \<or> fpos t0 = fsize t" and lim: "fpos t0 + resid t \<le> rlim"
  shows "\<exists>e t' k xs'. rwip ruid rlim cdev ba eb ioflag t = Ret (e, t') \<and> write_done ba eb k t0 xs t' xs' \<and>
    (e = E_OK \<and> k = resid t \<and> u_er (rw_vol t') = E_OK \<or>
     e = ENOSPC \<and> k < resid t \<and> xs' = [] \<and> flook (fdisk t) (faddr t) (int ((fpos t0 + k) div 1024)) = 0)"
proof -
  note D = transferD [OF T]
  obtain p where p: "uio_offset (rw_io t0) = int p" using D(7) by blast
  have r: "resid t0 = resid t" "fsize t0 = fsize t" "ftype t0 = ftype t" "uio_rw (rw_io t0) = UIO_WRITE" using wr by (simp_all add: t0)
  have "i_flags (rw_ip t) AND APPEND = 0 \<or> uio_offset (rw_io t0) = int (fsize t)" using fl p by auto
  moreover have "ftype t \<in> {IFREG, IFDIR, IFLNK}" using v r(3) by (simp add: file_vol_def)
  ultimately have st: "rw_start ioflag t = (E_OK, t0)" unfolding t0 by (intro rw_start_positioned)
  have "u32 (nat (uio_offset (rw_io t0) mod 4294967296) + resid t) = fpos t0 + resid t" using D(8) p by (simp add: nat_mod_as_int r)
  then have le: "\<not> u32 (nat (uio_offset (rw_io t0) mod 4294967296) + resid t) > rlim" using lim by simp
  have start: "rwip ruid rlim cdev ba eb ioflag t = (if resid t = 0 then Ret (E_OK, t0)
      else bind_outcome (rw_loop (rw_write ruid ba) (resid t) t0) (\<lambda>(r, t1). case r of Return e \<Rightarrow> Ret (e, t1)
        | Leave e \<Rightarrow> Ret (e, rw_undo ioflag (resid t0) (fsize t0) e t1) | Again \<Rightarrow> Diverge))"
    using wr D(9) le r unfolding rwip_def Let_def by (simp add: st)
  show ?thesis
  proof (cases "resid t = 0")
    case True
    have "write_done ba eb 0 t0 xs t0 xs" using uio_moved_0 [OF D(1)] v D(3) by (auto simp: write_done_def)
    then show ?thesis using start True D(4) by auto
  next
    case False
    obtain z t' k xs' where "rw_loop (rw_write ruid ba) (resid t) t0 = Ret (z, t')" "write_done ba eb k t0 xs t' xs'"
      "z = Leave E_OK \<and> k = resid t \<and> u_er (rw_vol t') = E_OK \<or> z = Return ENOSPC \<and> k < resid t \<and> xs' = [] \<and> flook (fdisk t) (faddr t) (int ((fpos t0 + k) div 1024)) = 0"
      using rw_write_loop [OF T r(4) v, of "resid t" ruid] False r(1) by (auto simp: t0)
    then show ?thesis using start False by (auto simp: rw_undo_def)
  qed
qed

lemma file_vol_nonneg: "file_vol t xs \<Longrightarrow> 0 \<le> flook (fdisk t) (faddr t) m"
  using leaf_fblocks [of "fdisk t" "faddr t" m] unfolding file_vol_def by (cases "flook (fdisk t) (faddr t) m = 0") auto

section \<open>Open files\<close>

abbreviation at_pos :: "int \<Rightarrow> rw \<Rightarrow> rw" where "at_pos off t \<equiv> t\<lparr>rw_io := (rw_io t)\<lparr>uio_offset := off\<rparr>\<rparr>"

definition start_pos :: "bool \<Rightarrow> int \<Rightarrow> rw \<Rightarrow> int" where
  "start_pos fappend off t = (if ftype t = IFREG \<and> fappend then int (fsize t) else off)"

text \<open>The offset of the open file moves by what was transferred.\<close>

lemma moved_offset:
  assumes "transfer ba eb (at_pos off t)" "uio_moved k (rw_io (at_pos off t)) io'"
  shows "uio_offset io' = off + int k" "s32 (off + (int (resid t) - int (uio_resid io'))) = off + int k"
proof -
  have "resid t = uio_resid io' + k" and o: "uio_offset io' = off + int k" using assms(2) by (simp_all add: uio_moved_def)
  moreover have "-2147483648 \<le> off + int k" "off + int k < 2147483648" using assms o by (auto simp: uio_moved_def uio_ok_def transfer_def)
  ultimately show "uio_offset io' = off + int k" "s32 (off + (int (resid t) - int (uio_resid io'))) = off + int k"
    using s32_id [of "off + int k"] by simp_all
qed

lemma ino_rw_writes:
  assumes T: "transfer ba eb w" and w: "w = at_pos (start_pos fappend off t) t" and wr: "uio_rw (rw_io t) = UIO_WRITE" and v: "file_vol w xs"
    and fl: "i_flags (rw_ip t) AND APPEND = 0 \<or> fpos w = fsize t" and lim: "fpos w + resid t \<le> rlim"
  shows "\<exists>e t' k xs'. ino_rw ruid rlim cdev ba eb fappend off t = Ret (e, start_pos fappend off t + int k, t') \<and> write_done ba eb k w xs t' xs' \<and>
    (e = E_OK \<and> k = resid t \<and> u_er (rw_vol t') = E_OK \<or>
     e = ENOSPC \<and> k < resid t \<and> xs' = [] \<and> flook (fdisk t) (faddr t) (int ((fpos w + k) div 1024)) = 0)"
proof -
  define app where "app = (ftype t = IFREG \<and> fappend)"
  define flag where "flag = (if app then IO_APPEND else 0)"
  have w': "w = positioned flag (at_pos off t)" by (auto simp: w start_pos_def positioned_def flag_def app_def IO_APPEND_def)
  obtain e t' k xs' where r: "rwip ruid rlim cdev ba eb flag (at_pos off t) = Ret (e, t')" "write_done ba eb k w xs t' xs'"
    "e = E_OK \<and> k = resid t \<and> u_er (rw_vol t') = E_OK \<or> e = ENOSPC \<and> k < resid t \<and> xs' = [] \<and> flook (fdisk t) (faddr t) (int ((fpos w + k) div 1024)) = 0"
    using rwip_writes [OF T w', of xs rlim ruid cdev] wr v fl lim by auto
  have m: "uio_moved k (rw_io w) (rw_io t')" using r(2) by (simp add: write_done_def)
  note O = moved_offset [OF T [unfolded w] m [unfolded w]]
  have "ino_rw ruid rlim cdev ba eb fappend off t =
      Ret (e, if app then uio_offset (rw_io t') else s32 (off + (int (resid t) - int (resid t'))), t')"
    using r(1) wr by (simp add: ino_rw_def flag_def app_def)
  moreover have "(if app then uio_offset (rw_io t') else s32 (off + (int (resid t) - int (resid t')))) = start_pos fappend off t + int k"
    using O by (auto simp: start_pos_def app_def)
  ultimately show ?thesis using r(2,3) by auto
qed

lemma ino_rw_reads:
  assumes T: "transfer ba eb (at_pos off t)" and rd: "uio_rw (rw_io t) = UIO_READ" and inj: "inj_on (uat t) {..<resid t}"
    and ge: "\<And>m. 0 \<le> flook (fdisk t) (faddr t) m" and k: "k = min (resid t) (fsize t - nat off)"
  shows "\<exists>t'. ino_rw ruid rlim cdev ba eb fappend off t = Ret (E_OK, off + int k, t') \<and> read_done ba eb k (accessed (at_pos off t)) t'"
proof -
  obtain t' where r: "rwip ruid rlim cdev ba eb 0 (at_pos off t) = Ret (E_OK, t')" "read_done ba eb k (accessed (at_pos off t)) t'"
    using rwip_reads [OF T, of ruid rlim cdev 0] rd inj ge k by auto
  have m: "uio_moved k (rw_io (at_pos off t)) (rw_io t')" using r(2) by (simp add: read_done_def)
  show ?thesis using r rd moved_offset(2) [OF T m] by (simp add: ino_rw_def)
qed

section \<open>An example\<close>

text \<open>A file of 2000 bytes in the blocks 40 and 41, and transfers of five bytes.\<close>

definition demo_ba :: "int \<Rightarrow> addr" where "demo_ba b = 0x80000000"
definition demo_eb :: addr where "demo_eb = 0x80000400"

definition demo_io :: "uio_rw \<Rightarrow> addr \<Rightarrow> uio" where
  "demo_io rw base = \<lparr>uio_iov = [\<lparr>iov_base = base, iov_len = 5\<rparr>], uio_iovcnt = 1, uio_offset = 1021, uio_resid = 5, uio_rw = rw\<rparr>"

definition demo_rw :: "uio \<Rightarrow> rw" where
  "demo_rw io = \<lparr>rw_ip = \<lparr>i_mode = IFREG, i_uid = 0, i_gid = 0, i_flags = 0, fs_ronly = False, mnt_noatime = False, i_IACC = False,
       i_IUPD = False, i_ICHG = False, i_atime = 0, i_mtime = 0, i_ctime = 0, ino = demo_file\<rparr>,
     rw_vol = demo_vol, rw_mem = (\<lambda>a. if a = 0x1003 then 7 else 1), rw_io = io, rw_xfsz = False\<rparr>"

lemma demo_addr:
  assumes "base = 0x1000 \<or> base = 0x2000"
  shows "inj_on (uaddr (uio_iov (demo_io rw base))) {..<5}" "uaddr (uio_iov (demo_io rw base)) ` {..<5} \<inter> bufs demo_ba demo_eb = {}"
proof -
  have five: "{..<5 :: nat} = {0, 1, 2, 3, 4}" by auto
  show "inj_on (uaddr (uio_iov (demo_io rw base))) {..<5}" unfolding five by (simp add: demo_io_def)
  have "\<not> unat (x - 0x80000000) < 1024" "\<not> unat (x - 0x80000400) < 1024" if "x \<in> uaddr (uio_iov (demo_io rw base)) ` {..<5}" for x
    using that assms unfolding five by (auto simp: demo_io_def)
  then show "uaddr (uio_iov (demo_io rw base)) ` {..<5} \<inter> bufs demo_ba demo_eb = {}"
    by (auto simp: bufs_def demo_ba_def demo_eb_def bspan_iff)
qed

lemma demo_transfer:
  assumes "base = 0x1000 \<or> base = 0x2000"
  shows "transfer demo_ba demo_eb (demo_rw (demo_io rw base))" "file_vol (demo_rw (demo_io rw base)) [30, 20]"
proof -
  have "ftype (demo_rw io) = IFREG" for io by (simp add: demo_rw_def IFREG_def IFMT_def)
  moreover have "IFREG \<noteq> IFBLK" "IFREG \<noteq> IFCHR" by (simp_all add: IFREG_def IFBLK_def IFCHR_def)
  moreover have "uio_ok (demo_io rw base)" by (simp add: uio_ok_def demo_io_def)
  moreover have "uio_resid (demo_io rw base) = 5" by (simp add: demo_io_def)
  moreover have "rw_io (demo_rw io) = io" "rw_vol (demo_rw io) = demo_vol" "ino (rw_ip (demo_rw io)) = demo_file" for io by (simp_all add: demo_rw_def)
  moreover have "\<forall>x. rderr demo_vol x = E_OK" "u_er demo_vol = E_OK" "i_size demo_file = 2000" by (simp_all add: demo_vol_def demo_file_def)
  moreover have "vol demo_vol [30, 20] {40, 41}" unfolding vol_def using demo_vol_fl by (simp add: good_def badblock_def demo_vol_def)
  ultimately show "transfer demo_ba demo_eb (demo_rw (demo_io rw base))" "file_vol (demo_rw (demo_io rw base)) [30, 20]"
    using demo_addr [OF assms, of rw] by (simp_all add: transfer_def file_vol_def demo_file_ok)
qed

lemma demo_simps [simp]: "rw_io (demo_rw io) = io" "resid (demo_rw (demo_io rw base)) = 5" "uio_rw (demo_io rw base) = rw"
  "fpos (demo_rw (demo_io rw base)) = 1021" "fsize (demo_rw io) = 2000" "i_flags (rw_ip (demo_rw io)) = 0"
  "uio_offset (demo_io rw base) = 1021" "uio_resid (demo_io rw base) = 5"
  by (simp_all add: demo_rw_def demo_io_def demo_file_def)

lemma demo_mapped: "k < 5 \<Longrightarrow> flook (fdisk (demo_rw io)) (faddr (demo_rw io)) (int ((1021 + k) div 1024)) \<noteq> 0"
  by (auto simp: flook_def slot_def demo_rw_def demo_file_def lev_def)

section \<open>Properties\<close>

text \<open>
  C20. A read of a file that is not a device, into buffers of the process that do not overlap each other or the buffers of the cache, on a
  volume without read errors: it returns without error and delivers, in the order of the buffers, the bytes of the file from the offset on, 0 for holes, as many as asked for or
  up to the end of the file. It moves offset and count by that number, and changes nothing else: no other byte of memory outside the
  cache, no block of the volume, and of the inode only the mark that it was accessed.
\<close>

theorem read_delivers:
  assumes "transfer ba eb t" "uio_rw (rw_io t) = UIO_READ" "inj_on (uat t) {..<resid t}" "\<And>m. 0 \<le> flook (fdisk t) (faddr t) m"
  shows "\<exists>t'. rwip ruid rlim cdev ba eb ioflag t = Ret (E_OK, t') \<and> read_done ba eb (min (resid t) (fsize t - fpos t)) (accessed t) t'"
  by (rule rwip_reads [OF assms])

theorem read_delivers_witness:
  "\<exists>t'. rwip 0 2147483647 (\<lambda>t. Ret (E_OK, t)) demo_ba demo_eb 0 (demo_rw (demo_io UIO_READ 0x1000)) = Ret (E_OK, t') \<and>
    read_done demo_ba demo_eb 5 (accessed (demo_rw (demo_io UIO_READ 0x1000))) t'"
proof -
  have T: "transfer demo_ba demo_eb (demo_rw (demo_io UIO_READ 0x1000))" by (rule demo_transfer) simp
  have "0 \<le> flook (fdisk (demo_rw (demo_io UIO_READ 0x1000))) (faddr (demo_rw (demo_io UIO_READ 0x1000))) m" for m
    by (rule file_vol_nonneg, rule demo_transfer) simp
  then show ?thesis using read_delivers [OF T, of 0 2147483647 "\<lambda>t. Ret (E_OK, t)" 0] demo_addr(1) [of "0x1000" UIO_READ] by simp
qed

text \<open>
  C3. A write to a regular file, a directory or a symbolic link whose blocks form a tree, on a volume with the free blocks \<open>xs\<close>, with any
  \<^verbatim>\<open>ioflag\<close>: at the offset, or at the end of the file if it appends, it stores all bytes of the buffers and returns without error, or it stores the first
  \<open>k\<close> of them and returns \<^verbatim>\<open>ENOSPC\<close>, at a hole of the file and with no free block left. Every other byte of the file is as before, the size grows to the end of what was
  stored, every block is still either in the file or free, and no block of another file changes. The bytes stored before \<^verbatim>\<open>ENOSPC\<close> stay
  in the file even if \<^verbatim>\<open>IO_UNIT\<close> asks for all or nothing.
\<close>

theorem write_stores:
  assumes "transfer ba eb t0" "t0 = positioned ioflag t" "uio_rw (rw_io t) = UIO_WRITE" "file_vol t0 xs"
    "i_flags (rw_ip t) AND APPEND = 0 \<or> fpos t0 = fsize t" "fpos t0 + resid t \<le> rlim"
  shows "\<exists>e t' k xs'. rwip ruid rlim cdev ba eb ioflag t = Ret (e, t') \<and> write_done ba eb k t0 xs t' xs' \<and>
    (e = E_OK \<and> k = resid t \<or> e = ENOSPC \<and> k < resid t \<and> xs' = [] \<and> flook (fdisk t) (faddr t) (int ((fpos t0 + k) div 1024)) = 0)"
  using rwip_writes [OF assms, of ruid cdev] by blast

theorem write_stores_witness:
  "\<exists>e t' k xs'. rwip 1 2147483647 (\<lambda>t. Ret (E_OK, t)) demo_ba demo_eb IO_UNIT (demo_rw (demo_io UIO_WRITE 0x1000)) = Ret (e, t') \<and>
    write_done demo_ba demo_eb k (demo_rw (demo_io UIO_WRITE 0x1000)) [30, 20] t' xs' \<and> e = E_OK \<and> k = 5"
proof -
  let ?t = "demo_rw (demo_io UIO_WRITE 0x1000)"
  have T: "transfer demo_ba demo_eb ?t" "file_vol ?t [30, 20]" by (rule demo_transfer, simp)+
  have p: "?t = positioned IO_UNIT ?t" by (simp add: positioned_def IO_UNIT_def IO_APPEND_def)
  show ?thesis using write_stores [OF T(1) p _ T(2), of 2147483647 1 "\<lambda>t. Ret (E_OK, t)"] demo_mapped by auto
qed

text \<open>
  C1. What a process writes through an open file, at the offset of the file or appended to it, a later read of the same place gives
  back: if \<open>ino_rw\<close> reports that the write succeeded, the offset has moved by the number of bytes written, and a read of as many bytes from where
  the write started succeeds, moves the offset to the same place and delivers exactly the bytes written.
\<close>

theorem write_read_roundtrip:
  assumes T: "transfer ba eb w" and w: "w = at_pos (start_pos fappend off t) t" and wr: "uio_rw (rw_io t) = UIO_WRITE" and v: "file_vol w xs"
    and fl: "i_flags (rw_ip t) AND APPEND = 0 \<or> fpos w = fsize t" and lim: "fpos w + resid t \<le> rlim"
    and ok: "ino_rw ruid rlim cdev ba eb fappend off t = Ret (E_OK, off', t1)"
    and io: "uio_ok (io\<lparr>uio_offset := start_pos fappend off t\<rparr>)" "uio_rw io = UIO_READ" "uio_resid io = resid t"
      "inj_on (uaddr (uio_iov io)) {..<resid t}" "uaddr (uio_iov io) ` {..<resid t} \<inter> bufs ba eb = {}"
  shows "off' = start_pos fappend off t + int (resid t) \<and>
    (\<exists>t2. ino_rw ruid' rlim' cdev' ba eb fappend' (start_pos fappend off t) (t1\<lparr>rw_io := io\<rparr>) = Ret (E_OK, off', t2) \<and>
      (\<forall>i<resid t. rw_mem t2 (uaddr (uio_iov io) i) = rw_mem t (uat t i)))"
proof -
  let ?p = "start_pos fappend off t" and ?r = "t1\<lparr>rw_io := io\<rparr>"
  obtain xs' where o: "off' = ?p + int (resid t)" and d: "write_done ba eb (resid t) w xs t1 xs'" and e: "u_er (rw_vol t1) = E_OK"
    using ino_rw_writes [OF T w wr v fl lim, of ruid cdev] ok by auto
  have T1: "transfer ba eb t1" and v1: "file_vol t1 xs'" using write_done_transfer [OF T _ e] d by blast+
  have wp: "fpos w = nat ?p" by (simp add: w)
  have "resid (at_pos ?p ?r) = resid t" "uat (at_pos ?p ?r) = uaddr (uio_iov io)" "rw_io (at_pos ?p ?r) = io\<lparr>uio_offset := ?p\<rparr>" using io(3) by simp_all
  then have T2: "transfer ba eb (at_pos ?p ?r)" using T1 io(1,5) unfolding transfer_def by (simp only:) simp
  have "fsize t1 = (if resid t = 0 then fsize w else max (fsize w) (nat ?p + resid t))" using d wp by (simp add: write_done_def)
  then have "resid t \<le> fsize t1 - nat ?p" by (cases "resid t = 0") simp_all
  then have k: "resid t = min (resid ?r) (fsize ?r - nat ?p)" using io(3) by simp
  have q: "uio_rw (rw_io ?r) = UIO_READ" "inj_on (uat ?r) {..<resid ?r}" "\<And>m. 0 \<le> flook (fdisk ?r) (faddr ?r) m"
    using io(2-4) file_vol_nonneg [OF v1] by simp_all
  obtain t2 where r: "ino_rw ruid' rlim' cdev' ba eb fappend' ?p ?r = Ret (E_OK, ?p + int (resid t), t2)"
    "read_done ba eb (resid t) (accessed (at_pos ?p ?r)) t2"
    using ino_rw_reads [OF T2 q k, of ruid' rlim' cdev' fappend'] by blast
  have "rw_mem t2 (uaddr (uio_iov io) i) = rw_mem t (uat t i)" if "i < resid t" for i
  proof -
    have "rw_mem t2 (uaddr (uio_iov io) i) = fbyte (fdisk t1) (faddr t1) (nat ?p + i)" using r(2) that by (simp add: read_done_def)
    also have "\<dots> = rw_mem w (uat w i)" using d that wp by (simp add: write_done_def)
    finally show ?thesis by (simp add: w)
  qed
  then show ?thesis using r(1) o by blast
qed

theorem write_read_roundtrip_witness:
  "\<exists>off' t1 t2. ino_rw 1 2147483647 (\<lambda>t. Ret (E_OK, t)) demo_ba demo_eb False 1021 (demo_rw (demo_io UIO_WRITE 0x1000)) = Ret (E_OK, off', t1) \<and>
    ino_rw 1 2147483647 (\<lambda>t. Ret (E_OK, t)) demo_ba demo_eb False 1021 (t1\<lparr>rw_io := demo_io UIO_READ 0x2000\<rparr>) = Ret (E_OK, off', t2) \<and>
    off' = 1026 \<and> rw_mem t2 0x2003 = 7 \<and> rw_mem t2 0x2004 = 1"
proof -
  let ?t = "demo_rw (demo_io UIO_WRITE 0x1000)" and ?c = "\<lambda>t. Ret (E_OK, t)" and ?io = "demo_io UIO_READ 0x2000"
  have w: "?t = at_pos (start_pos False 1021 ?t) ?t" and s: "start_pos False 1021 ?t = 1021" by (simp_all add: start_pos_def demo_rw_def demo_io_def)
  have T: "transfer demo_ba demo_eb ?t" "file_vol ?t [30, 20]" by (rule demo_transfer, simp)+
  obtain off' t1 where ok: "ino_rw 1 2147483647 ?c demo_ba demo_eb False 1021 ?t = Ret (E_OK, off', t1)"
    using ino_rw_writes [OF T(1) w _ T(2), of 2147483647 1 ?c] demo_mapped by auto
  have io: "uio_ok (?io\<lparr>uio_offset := start_pos False 1021 ?t\<rparr>)" unfolding s by (simp add: uio_ok_def demo_io_def)
  have "off' = 1026 \<and> (\<exists>t2. ino_rw 1 2147483647 ?c demo_ba demo_eb False 1021 (t1\<lparr>rw_io := ?io\<rparr>) = Ret (E_OK, off', t2) \<and>
      (\<forall>i<5. rw_mem t2 (uaddr (uio_iov ?io) i) = rw_mem ?t (uat ?t i)))"
    using write_read_roundtrip [OF T(1) w _ T(2) _ _ ok io, of 1 2147483647 ?c False] demo_addr [of "0x2000" UIO_READ] by (auto simp: s)
  then obtain t2 where "off' = 1026" "ino_rw 1 2147483647 ?c demo_ba demo_eb False 1021 (t1\<lparr>rw_io := ?io\<rparr>) = Ret (E_OK, off', t2)"
    "\<And>i. i < 5 \<Longrightarrow> rw_mem t2 (uaddr (uio_iov ?io) i) = rw_mem ?t (uat ?t i)" by blast
  moreover from this(3) [of 3] this(3) [of 4] have "rw_mem t2 0x2003 = 7" "rw_mem t2 0x2004 = 1" by (simp_all add: demo_rw_def demo_io_def)
  ultimately show ?thesis using ok by blast
qed

end
