(* ===== verification/Spec2Isabelle.thy ===== *)
theory Spec2Isabelle
  imports Rmap_Malloc3 Clist_Spec Signal_Spec Sigsys_Spec Vmmeter_Spec Clock_Spec Memory_Spec Descrip_Spec Ufs_Itrunc Cred_Spec File_Rw
begin

text \<open>
  \<^bold>\<open>A verification of parts of the RetroBSD kernel.\<close>

  RetroBSD is a port of 2.11BSD to the PIC32 microcontroller. This development models the machine-independent core of the kernel
  (\<^verbatim>\<open>src/sys/kernel\<close>, \<^verbatim>\<open>src/sys/include\<close>) and the memory and signal routines of \<^verbatim>\<open>src/sys/pic32\<close>, as functions on
  explicit states, and proves what each part promises to the others.

  \<^bold>\<open>Conventions.\<close> Names are those of the code. A structure is a record, a table of the kernel a function from indices, a linked list the list
  of its members in order, except in the character lists and the free list of the file system, where the links are modelled themselves and shown
  to represent lists. Code that can panic, follow a bad pointer or run forever has the type \<open>outcome\<close> (\<open>Ret\<close>, \<open>Panic\<close>, \<open>Fault\<close>,
  \<open>Diverge\<close>); the theorems show which of these occur. An error number is a value of \<open>errno\<close>. Integers wrap where the code's do: \<open>u32\<close> on naturals,
  \<open>s16\<close>, \<open>s32\<close> on integers, or \<open>32 word\<close> for flags and addresses. Interrupt masking makes an operation one step;
  where a process can sleep inside an operation, the operation is several steps and the theorems are about every interleaving.

  \<^bold>\<open>Theories.\<close>

  \<^item> \<open>Kern_Prelude\<close>: outcomes, error numbers, wrap-around, runs of operations, and the locale \<open>simulation\<close>: an operation that refines an
    abstract one step by step refines it in every run.
  \<^item> \<open>Rmap\<close>, \<open>Rmap_Malloc3\<close>: the resource maps (\<^verbatim>\<open>subr_rmap.c\<close>): \<open>malloc\<close>, \<open>mfree\<close>, \<open>malloc3\<close> over the array of segments, as first-fit
    allocation on sets of units; the locale \<open>area_allocator\<close> shows for every client that areas given out never overlap, and is interpreted on the
    maps. The swap map as it is initialised has one entry too few for its limit, and a run that overflows it is computed.
  \<^item> \<open>Clist\<close>, \<open>Clist_Rep\<close>, \<open>Clist_Spec\<close>: the character lists (\<^verbatim>\<open>tty_subr.c\<close>): blocks, links and bytes in memory represent queues of
    characters, and all operations refine those of queues (interpretation \<open>clist_queues\<close> of \<open>simulation\<close>).
  \<^item> \<open>Proc\<close>, \<open>Sched\<close>, \<open>Sched_Inv\<close>, \<open>Sched_Spec\<close>: the process table (\<^verbatim>\<open>proc.h\<close>, \<^verbatim>\<open>kern_proc.c\<close>) and the scheduler
    (\<^verbatim>\<open>kern_synch.c\<close>) with the invariant of the sleep queues and the run queue.
  \<^item> \<open>Signal\<close>, \<open>Signal_Inv\<close>, \<open>Signal_Spec\<close>: posting signals (\<^verbatim>\<open>kern_sig.c\<close>) on that state: no call panics and the invariant is kept,
    what \<^verbatim>\<open>SIGKILL\<close> and \<^verbatim>\<open>SIGCONT\<close> do in each state of the target, traced or not, and a process never has a stop and a continue signal pending.
  \<^item> \<open>Sigsys\<close>, \<open>Sigsys_Spec\<close>, \<open>Sigframe\<close>: dispositions, masks and stacks (\<^verbatim>\<open>kern_sig2.c\<close>), taking a signal, and the frame on the user's stack
    (\<^verbatim>\<open>pic32/signal.c\<close>), written and read word by word: \<open>sigreturn\<close> undoes \<open>sendsig\<close>, whatever the handler did outside the frame.
  \<^item> \<open>Callout\<close>: the timeout queue of \<^verbatim>\<open>kern_clock.c\<close> refines a set of timers with the ticks left of each; the locales
    \<open>timeout_handlers\<close> and \<open>clock_interrupts\<close> say what a kernel must keep so that every timeout fires.
  \<^item> \<open>Vmmeter\<close>, \<open>Vmmeter_Spec\<close>, \<open>Clock\<close>, \<open>Clock_Spec\<close>: statistics (\<^verbatim>\<open>vm_sched.c\<close>) against the run queue and the exponential averages, the clock interrupt with all the functions it calls, and the
    interpretations of those two locales on it: scheduler, signals and timeouts together.
  \<^item> \<open>Memory\<close>, \<open>Memory_Spec\<close>: the byte, string and queue routines of \<^verbatim>\<open>pic32/machdep.c\<close> and the copies between user and kernel, against
    one-line specifications.
  \<^item> \<open>Descrip\<close>, \<open>Descrip_Inv\<close>, \<open>Descrip_Ops\<close>, \<open>Descrip_Spec\<close>: the file table, descriptors, advisory locks, \<open>open\<close>, \<open>pipe\<close> and the
    descriptors of \<open>fork\<close>, \<open>exit\<close> and \<open>exec\<close> (\<^verbatim>\<open>kern_descrip.c\<close>, \<^verbatim>\<open>sys_inode.c\<close>, \<^verbatim>\<open>ufs_syscalls.c\<close>), for all
    interleavings of processes that sleep in \<open>open\<close> and \<open>flock\<close>.
  \<^item> \<open>Ufs\<close>, \<open>Ufs_Free\<close>, \<open>Ufs_Tree\<close>, \<open>Ufs_Bmap\<close>, \<open>Ufs_Trunc\<close>, \<open>Ufs_Itrunc\<close>: storage (\<^verbatim>\<open>ufs_alloc.c\<close>, \<^verbatim>\<open>ufs_bmap.c\<close>,
    \<^verbatim>\<open>ufs_inode.c\<close>): the free list on the disk is a stack (interpretation \<open>volume_stack\<close> of \<open>simulation\<close>), the blocks of a file are
    trees that \<open>bmap\<close> extends and \<open>itrunc\<close> cuts, and no block is lost or used twice.
  \<^item> \<open>Cred\<close>, \<open>Cred_Spec\<close>: user and group ids, permissions and file attributes (\<^verbatim>\<open>kern_prot.c\<close>, \<^verbatim>\<open>kern_prot2.c\<close>, \<^verbatim>\<open>ufs_fio.c\<close>): a process
    gains no identity beyond its own and those of set-id programs, and changes no attribute that is not its own.
  \<^item> \<open>Uio\<close>, \<open>Uio_Spec\<close>: the transfer between the kernel and the buffers of a system call (\<^verbatim>\<open>kern_subr.c\<close>, \<^verbatim>\<open>sys_generic.c\<close>).
  \<^item> \<open>File_Io\<close>, \<open>File_Spec\<close>, \<open>File_Rw\<close>: reading and writing files (\<^verbatim>\<open>rwip\<close>, \<^verbatim>\<open>ino_rw\<close>, \<^verbatim>\<open>rdwri\<close> of \<^verbatim>\<open>sys_inode.c\<close>), composed
    of the block map, the free list, the transfer and \<open>bcopy\<close>: a file is a sequence of bytes, and a read gives back what was written.

  \<^bold>\<open>How the parts fit.\<close> \<open>File_Io\<close> calls \<open>bmap\<close>, \<open>itrunc\<close> and \<open>uiomove\<close>, and \<open>uiomove\<close> calls \<open>bcopy\<close>; the theorems of \<open>File_Rw\<close> rest on those of
  \<open>Ufs_Bmap\<close>, \<open>Uio_Spec\<close> and \<open>Memory_Spec\<close>. \<open>Signal\<close> and \<open>Clock\<close> work on the state of \<open>Sched\<close>, and \<open>Clock_Spec\<close> shows that
  its invariant survives every clock interrupt. \<open>Cred\<close> calls \<open>itrunc\<close> for \<open>truncate\<close>.

  \<^bold>\<open>Bounds and fuel.\<close> \<open>psignal\<close> recurses twice at most, since the signal it sends to the parent stops nobody. \<open>wakeup\<close> makes 64 passes
  at most, more than there are processes. The loop of \<open>rwip\<close> has as many passes as there are bytes to move, since each but the last moves one. In each case
  a theorem shows that \<open>Diverge\<close> does not occur. \<open>strlen\<close> is a partial function, shown to return when there is a terminator. All other
  loops are recursive functions with a termination proof. Byte counts and offsets are below 2 to the 31, as \<^verbatim>\<open>off_t\<close> is a 32-bit signed number.

  \<^bold>\<open>Assumptions.\<close> The buffer cache is transparent: a block holds what was last written to it. The theorems on \<open>bmap\<close>, \<open>itrunc\<close> and \<open>rwip\<close> are for volumes without
  read errors; the definitions have the error branches. The buffers of the cache do not overlap those of the process.

  \<^bold>\<open>Not modelled.\<close> Context switches (\<open>tsleep\<close>, \<open>setjmp\<close>, \<open>longjmp\<close>) and the swapper move stacks and whole processes; drivers work on the
  registers of the PIC32, and what they answer is an argument of the models. The inode cache, \<open>namei\<close>, directories, \<open>ialloc\<close>, mounting,
  the hash lists of the buffer cache, the line discipline of terminals, pipes after their creation, \<open>newproc\<close> and \<open>wait\<close>, the formats of executables, \<open>ptrace\<close> and
  \<open>sysctl\<close> are left out, as are the programs and libraries outside the kernel.
\<close>

end
